(* ===== verification/Prelude.thy ===== *)
theory Prelude
  imports Main "HOL-Library.Word" "HOL-Library.Multiset"
begin

section \<open>Prelude: run-time errors, integers and vectors of the C++ code\<close>

text \<open>
  What every component of the development shares: the errors an execution of the C++ code can
  run into (a failed \<open>assert\<close>, an index or iterator outside its container, a null
  pointer, an object that was deleted, a division by zero, a signed overflow, a call of \<open>abort\<close>, a floating
  point result that is not a finite number, the value of a variable that has none), the result type
  \<open>cpp_error + 'a\<close> with its sequencing function, the conversions between the integer types,
  and \<open>std::vector\<close> accessed through signed positions. A definition of the model returns
  \<open>Inl e\<close> exactly where the code has undefined behaviour or stops, so "it returns
  \<open>Inr\<close>" is the memory and assertion safety of the code.
\<close>

named_theorems frame \<comment> \<open>which fields an operation leaves alone\<close>

subsection \<open>Results\<close>

datatype cpp_error =
    AssertFailed
  | OutOfRange
  | NullDeref
  | UseAfterFree
  | DivByZero
  | SignedOverflow
  | Aborted
  | NotFinite
  | Uninitialised

type_synonym 'a res = "cpp_error + 'a"

type_synonym u64 = "64 word"
type_synonym u32 = "32 word"

fun rbind :: "'a res \<Rightarrow> ('a \<Rightarrow> 'b res) \<Rightarrow> 'b res" where
  "rbind (Inl e) f = Inl e"
| "rbind (Inr x) f = f x"

lemma rbind_eq_Inr [simp]: "rbind m f = Inr y \<longleftrightarrow> (\<exists>x. m = Inr x \<and> f x = Inr y)"
  by (cases m) auto

lemma Inr_eq_rbind [simp]: "Inr y = rbind m f \<longleftrightarrow> (\<exists>x. m = Inr x \<and> f x = Inr y)"
  by (cases m) auto

lemma rbind_assoc: "rbind (rbind m f) g = rbind m (\<lambda>x. rbind (f x) g)"
  by (cases m) auto

lemma rbind_Inr_right [simp]: "rbind m Inr = m"
  by (cases m) auto

text \<open>The error of an execution that fails.\<close>

definition failure :: "'a res \<Rightarrow> cpp_error option" where
  "failure r = (case r of Inl e \<Rightarrow> Some e | Inr _ \<Rightarrow> None)"

text \<open>\<open>assert (b)\<close> with assertions enabled.\<close>

definition cpp_assert :: "bool \<Rightarrow> unit res" where
  "cpp_assert b = (if b then Inr () else Inl AssertFailed)"

lemma cpp_assert_Inr [simp]: "cpp_assert b = Inr u \<longleftrightarrow> b"
  by (auto simp: cpp_assert_def)

lemma cpp_assert_True [simp]: "cpp_assert True = Inr ()"
  by (simp add: cpp_assert_def)

subsection \<open>Integer conversions\<close>

text \<open>
  \<open>int\<close> is 32 bits wide and signed, \<open>size_t\<close> and \<open>uint64_t\<close> are 64 bits wide and
  unsigned. Where a value of type \<open>int\<close> stays inside its range the model uses the
  mathematical \<open>int\<close>; conversions that can change the value are written out.
\<close>

definition int_min :: int where "int_min = - (2 ^ 31)"
definition int_max :: int where "int_max = 2 ^ 31 - 1"

definition int32_range :: "int \<Rightarrow> bool" where
  "int32_range i \<longleftrightarrow> int_min \<le> i \<and> i \<le> int_max"

definition to_int32 :: "int \<Rightarrow> int" where
  "to_int32 i = signed_take_bit 31 i"

definition to_u64 :: "int \<Rightarrow> nat" where
  "to_u64 i = nat (i mod 2 ^ 64)"

lemma to_int32_id: "int32_range i \<Longrightarrow> to_int32 i = i"
  by (simp add: int32_range_def to_int32_def int_min_def int_max_def signed_take_bit_int_eq_self)

lemma to_int32_range: "int32_range (to_int32 i)"
  using signed_take_bit_int_less_exp [of 31 i] signed_take_bit_int_greater_eq_minus_exp [of 31 i]
  by (simp add: int32_range_def to_int32_def int_min_def int_max_def)

lemma to_u64_id: "0 \<le> i \<Longrightarrow> i < 2 ^ 64 \<Longrightarrow> to_u64 i = nat i"
  by (simp add: to_u64_def)

text \<open>
  A comparison between a \<open>size_t\<close> and an \<open>int\<close> converts the \<open>int\<close> to an unsigned
  64 bit number first, so a negative \<open>int\<close> is larger than the size of any container.
\<close>

definition size_le_int :: "nat \<Rightarrow> int \<Rightarrow> bool" where
  "size_le_int n i \<longleftrightarrow> i < 0 \<or> int n \<le> i"

definition size_ge_int :: "nat \<Rightarrow> int \<Rightarrow> bool" where
  "size_ge_int n i \<longleftrightarrow> 0 \<le> i \<and> i \<le> int n"

definition int_ge_size :: "int \<Rightarrow> nat \<Rightarrow> bool" where
  "int_ge_size i n \<longleftrightarrow> i < 0 \<or> int n \<le> i"

lemma uint_of_int32: "int32_range i \<Longrightarrow> uint (word_of_int i :: u64) = (if i < 0 then i + 2 ^ 64 else i)"
proof (cases "i < 0")
  case True
  assume r: "int32_range i"
  have "i mod 2 ^ 64 = (i + 2 ^ 64) mod 2 ^ 64" by simp
  also have "\<dots> = i + 2 ^ 64"
    using True r by (intro mod_pos_pos_trivial) (auto simp: int32_range_def int_min_def)
  finally show ?thesis using True by (simp add: uint_word_of_int)
next
  case False
  assume "int32_range i"
  with False show ?thesis
    by (auto simp: uint_word_of_int int32_range_def int_max_def intro!: mod_pos_pos_trivial)
qed

lemma size_le_int_word:
  "n < 2 ^ 63 \<Longrightarrow> int32_range i \<Longrightarrow> size_le_int n i \<longleftrightarrow> (word_of_nat n :: u64) \<le> word_of_int i"
  by (auto simp: size_le_int_def word_le_def uint_of_int32 unsigned_of_nat take_bit_nat_eq_self
      int32_range_def int_min_def)

lemma size_ge_int_word:
  "n < 2 ^ 63 \<Longrightarrow> int32_range i \<Longrightarrow> size_ge_int n i \<longleftrightarrow> (word_of_int i :: u64) \<le> word_of_nat n"
  by (auto simp: size_ge_int_def word_le_def uint_of_int32 unsigned_of_nat take_bit_nat_eq_self
      int32_range_def int_min_def)

lemma int_ge_size_eq: "0 \<le> i \<Longrightarrow> int_ge_size i n \<longleftrightarrow> int n \<le> i"
  by (simp add: int_ge_size_def)

lemma unat_word_of_int_small: "0 \<le> i \<Longrightarrow> i < 2 ^ 64 \<Longrightarrow> unat (word_of_int i :: u64) = nat i"
  by (simp add: unsigned_of_int take_bit_int_eq_self)

lemma unat_plus_1: "unat x < 2 ^ 64 - 1 \<Longrightarrow> unat (x + 1) = Suc (unat x)" for x :: u64
  by (simp add: unat_word_ariths)

lemma plus_1_nonzero: "unat x < 2 ^ 64 - 1 \<Longrightarrow> x + 1 \<noteq> 0" for x :: u64
  using unat_plus_1 [of x] by auto

subsection \<open>Vectors through signed positions\<close>

text \<open>
  \<open>*std::next(v.begin(), i)\<close>, \<open>v.erase(std::next(v.begin(), i))\<close> and
  \<open>v.insert(std::next(v.begin(), i), x)\<close>: undefined outside the vector.
\<close>

definition vec_at :: "'a list \<Rightarrow> int \<Rightarrow> 'a res" where
  "vec_at xs i = (if 0 \<le> i \<and> i < int (length xs) then Inr (xs ! nat i) else Inl OutOfRange)"

definition vec_erase :: "'a list \<Rightarrow> int \<Rightarrow> 'a list res" where
  "vec_erase xs i = (if 0 \<le> i \<and> i < int (length xs)
     then Inr (take (nat i) xs @ drop (Suc (nat i)) xs) else Inl OutOfRange)"

definition vec_insert :: "'a list \<Rightarrow> int \<Rightarrow> 'a \<Rightarrow> 'a list res" where
  "vec_insert xs i x = (if 0 \<le> i \<and> i \<le> int (length xs)
     then Inr (take (nat i) xs @ x # drop (nat i) xs) else Inl OutOfRange)"

lemma vec_at_Inr: "vec_at xs i = Inr x \<longleftrightarrow> 0 \<le> i \<and> i < int (length xs) \<and> x = xs ! nat i"
  by (auto simp: vec_at_def)

lemma vec_erase_Inr:
  "vec_erase xs i = Inr ys \<longleftrightarrow>
   0 \<le> i \<and> i < int (length xs) \<and> ys = take (nat i) xs @ drop (Suc (nat i)) xs"
  by (auto simp: vec_erase_def)

lemma vec_insert_Inr:
  "vec_insert xs i x = Inr ys \<longleftrightarrow>
   0 \<le> i \<and> i \<le> int (length xs) \<and> ys = take (nat i) xs @ x # drop (nat i) xs"
  by (auto simp: vec_insert_def)

lemmas vec_Inr = vec_at_Inr vec_erase_Inr vec_insert_Inr

lemma mset_insert_at: "mset (take n xs @ x # drop n xs) = add_mset x (mset xs)"
  by (metis append_take_drop_id mset.simps(2) mset_append union_mset_add_mset_right)

lemma mset_erase_at:
  assumes "n < length xs"
  shows "add_mset (xs ! n) (mset (take n xs @ drop (Suc n) xs)) = mset xs"
proof -
  have "mset xs = mset (take n xs @ xs ! n # drop (Suc n) xs)"
    using id_take_nth_drop [OF assms] by simp
  then show ?thesis by simp
qed

lemma nth_insert_at:
  assumes "n \<le> length xs"
  shows "(take n xs @ x # drop n xs) ! i = (if i < n then xs ! i else if i = n then x else xs ! (i - 1))"
  using assms by (auto simp: nth_append min_def nth_Cons' not_less)

lemma nth_erase_at:
  assumes "n < length xs"
  shows "(take n xs @ drop (Suc n) xs) ! i = (if i < n then xs ! i else xs ! Suc i)"
  using assms by (auto simp: nth_append min_def)

end
