(* ===== verification/Std_Multiset.thy ===== *)
theory Std_Multiset
  imports Prelude
begin

section \<open>std::multiset as a sorted list\<close>

text \<open>
  \<open>std::multiset<T, Compare>\<close> keeps its elements in iteration order, which is the order of the
  list here: \<open>insert\<close> places an element behind all elements not greater than it (the upper
  bound of its equivalence class), \<open>erase (key)\<close> removes the whole class of the key and
  returns how many elements it removed, \<open>begin\<close> is the head and \<open>prev (end)\<close> the last
  element. The comparator is an argument; the locale states the strict weak order the standard
  demands of it and proves the container's laws once for every comparator of the program.
\<close>

fun ms_insert :: "('a \<Rightarrow> 'a \<Rightarrow> bool) \<Rightarrow> 'a \<Rightarrow> 'a list \<Rightarrow> 'a list" where
  "ms_insert lt x [] = [x]"
| "ms_insert lt x (y # ys) = (if lt x y then x # y # ys else y # ms_insert lt x ys)"

text \<open>\<open>std::distance (begin, it)\<close> for the iterator that \<open>insert\<close> returns.\<close>

fun ms_offset :: "('a \<Rightarrow> 'a \<Rightarrow> bool) \<Rightarrow> 'a \<Rightarrow> 'a list \<Rightarrow> nat" where
  "ms_offset lt x [] = 0"
| "ms_offset lt x (y # ys) = (if lt x y then 0 else Suc (ms_offset lt x ys))"

definition ms_equiv :: "('a \<Rightarrow> 'a \<Rightarrow> bool) \<Rightarrow> 'a \<Rightarrow> 'a \<Rightarrow> bool" where
  "ms_equiv lt x y \<longleftrightarrow> \<not> lt x y \<and> \<not> lt y x"

definition ms_erase :: "('a \<Rightarrow> 'a \<Rightarrow> bool) \<Rightarrow> 'a \<Rightarrow> 'a list \<Rightarrow> 'a list \<times> nat" where
  "ms_erase lt x xs =
     (filter (\<lambda>y. \<not> ms_equiv lt x y) xs, length (filter (ms_equiv lt x) xs))"

definition ms_begin :: "'a list \<Rightarrow> 'a res" where
  "ms_begin xs = (case xs of [] \<Rightarrow> Inl OutOfRange | x # _ \<Rightarrow> Inr x)"

definition ms_last :: "'a list \<Rightarrow> 'a res" where
  "ms_last xs = (if xs = [] then Inl OutOfRange else Inr (last xs))"

definition ms_sorted :: "('a \<Rightarrow> 'a \<Rightarrow> bool) \<Rightarrow> 'a list \<Rightarrow> bool" where
  "ms_sorted lt xs \<longleftrightarrow> sorted_wrt (\<lambda>x y. \<not> lt y x) xs"

subsection \<open>Laws that hold for every comparator\<close>

lemma mset_ms_insert [simp]: "mset (ms_insert lt x xs) = add_mset x (mset xs)"
  by (induction xs) auto

lemma set_ms_insert [simp]: "set (ms_insert lt x xs) = insert x (set xs)"
  by (induction xs) auto

lemma length_ms_insert [simp]: "length (ms_insert lt x xs) = Suc (length xs)"
  by (induction xs) auto

lemma ms_insert_not_Nil [simp]: "ms_insert lt x xs \<noteq> []"
  by (cases xs) auto

lemma ms_offset_le: "ms_offset lt x xs \<le> length xs"
  by (induction xs) auto

lemma ms_insert_offset:
  "ms_insert lt x xs = take (ms_offset lt x xs) xs @ x # drop (ms_offset lt x xs) xs"
  by (induction xs) auto

lemma ms_begin_Inr: "ms_begin xs = Inr x \<longleftrightarrow> xs \<noteq> [] \<and> x = hd xs"
  by (cases xs) (auto simp: ms_begin_def)

lemma ms_last_Inr: "ms_last xs = Inr x \<longleftrightarrow> xs \<noteq> [] \<and> x = last xs"
  by (auto simp: ms_last_def)

lemma mset_tl_hd: "xs \<noteq> [] \<Longrightarrow> add_mset (hd xs) (mset (tl xs)) = mset xs"
  by (cases xs) auto

lemma mset_butlast_last: "xs \<noteq> [] \<Longrightarrow> add_mset (last xs) (mset (butlast xs)) = mset xs"
  by (metis append_butlast_last_id mset.simps(1,2) mset_append union_mset_add_mset_right add_mset_add_single)

lemma ms_sorted_Nil [simp]: "ms_sorted lt []"
  by (simp add: ms_sorted_def)

lemma ms_sorted_Cons: "ms_sorted lt (x # xs) \<longleftrightarrow> (\<forall>y \<in> set xs. \<not> lt y x) \<and> ms_sorted lt xs"
  by (simp add: ms_sorted_def)

lemma ms_sorted_tl: "ms_sorted lt xs \<Longrightarrow> ms_sorted lt (tl xs)"
  by (cases xs) (auto simp: ms_sorted_Cons)

lemma ms_sorted_append:
  "ms_sorted lt (xs @ ys) \<longleftrightarrow>
   ms_sorted lt xs \<and> ms_sorted lt ys \<and> (\<forall>x \<in> set xs. \<forall>y \<in> set ys. \<not> lt y x)"
  by (simp add: ms_sorted_def sorted_wrt_append)

lemma ms_sorted_butlast: "ms_sorted lt xs \<Longrightarrow> ms_sorted lt (butlast xs)"
  by (metis append_butlast_last_id butlast.simps(1) ms_sorted_append)

lemma ms_sorted_filter: "ms_sorted lt xs \<Longrightarrow> ms_sorted lt (filter P xs)"
  by (simp add: ms_sorted_def sorted_wrt_filter)

lemma ms_sorted_erase: "ms_sorted lt xs \<Longrightarrow> ms_sorted lt (fst (ms_erase lt x xs))"
  by (simp add: ms_erase_def ms_sorted_filter)

subsection \<open>Laws of a strict weak order\<close>

locale strict_weak_order =
  fixes lt :: "'a \<Rightarrow> 'a \<Rightarrow> bool"
  assumes lt_irrefl: "\<not> lt x x"
    and lt_trans: "lt x y \<Longrightarrow> lt y z \<Longrightarrow> lt x z"
    and nlt_trans: "\<not> lt x y \<Longrightarrow> \<not> lt y z \<Longrightarrow> \<not> lt x z"
begin

lemma lt_asym: "lt x y \<Longrightarrow> \<not> lt y x"
  using lt_irrefl lt_trans by blast

lemma lt_nlt_trans: "lt x y \<Longrightarrow> \<not> lt z y \<Longrightarrow> lt x z"
  using nlt_trans by blast

lemma sorted_insert: "ms_sorted lt xs \<Longrightarrow> ms_sorted lt (ms_insert lt x xs)"
proof (induction xs)
  case Nil
  then show ?case by (simp add: ms_sorted_Cons)
next
  case (Cons y ys)
  then show ?case
    by (auto simp: ms_sorted_Cons dest: lt_asym intro: lt_nlt_trans)
qed

lemma hd_least: "ms_sorted lt xs \<Longrightarrow> y \<in> set xs \<Longrightarrow> \<not> lt y (hd xs)"
  by (cases xs) (auto simp: ms_sorted_Cons lt_irrefl)

lemma last_greatest: "ms_sorted lt xs \<Longrightarrow> y \<in> set xs \<Longrightarrow> \<not> lt (last xs) y"
  by (induction xs) (auto simp: ms_sorted_Cons lt_irrefl)

lemma nth_mono:
  "ms_sorted lt xs \<Longrightarrow> i \<le> j \<Longrightarrow> j < length xs \<Longrightarrow> \<not> lt (xs ! j) (xs ! i)"
  by (cases "i = j") (auto simp: ms_sorted_def sorted_wrt_iff_nth_less lt_irrefl)

lemma equiv_refl: "ms_equiv lt x x"
  by (simp add: ms_equiv_def lt_irrefl)

text \<open>Two sorted lists of the same elements, no two of them equivalent, are the same list.\<close>

lemma sorted_mset_unique:
  "ms_sorted lt xs \<Longrightarrow> ms_sorted lt ys \<Longrightarrow> mset xs = mset ys \<Longrightarrow>
   (\<And>x y. x \<in> set xs \<Longrightarrow> y \<in> set xs \<Longrightarrow> ms_equiv lt x y \<Longrightarrow> x = y) \<Longrightarrow> xs = ys"
proof (induction xs arbitrary: ys)
  case Nil
  then show ?case by simp
next
  case (Cons x xs)
  then obtain y ys' where ys: "ys = y # ys'" by (cases ys) auto
  have set: "set (x # xs) = set ys" using Cons.prems(3) by (metis mset_eq_setD)
  have "\<not> lt y x" using hd_least [OF Cons.prems(1), of y] set ys by auto
  moreover have "\<not> lt x y" using hd_least [OF Cons.prems(2), of x] set ys by auto
  ultimately have "ms_equiv lt x y" by (simp add: ms_equiv_def)
  then have xy: "x = y" using Cons.prems(4) set ys by auto
  have "xs = ys'"
    by (rule Cons.IH) (use Cons.prems ys xy in \<open>auto simp: ms_sorted_Cons\<close>)
  then show ?case using ys xy by simp
qed

end

text \<open>
  Erasing a key whose equivalence class is one element of the container: the assertion
  \<open>val == 1\<close> of the code holds and exactly that element goes.
\<close>

lemma erase_unique:
  assumes mem: "x \<in># mset xs" and uniq: "\<And>y. y \<in> set xs \<Longrightarrow> ms_equiv lt x y \<longleftrightarrow> f y = f x"
    and dist: "distinct (map f xs)"
  shows "snd (ms_erase lt x xs) = 1" and "mset (fst (ms_erase lt x xs)) = mset xs - {#x#}"
proof -
  from mem obtain as bs where xs: "xs = as @ x # bs" by (auto dest: split_list)
  have no: "\<And>y. y \<in> set as \<union> set bs \<Longrightarrow> \<not> ms_equiv lt x y"
    using dist uniq unfolding xs by (auto simp: image_iff)
  have x: "ms_equiv lt x x" using uniq [of x] mem by simp
  from no have "filter (ms_equiv lt x) as = []" "filter (ms_equiv lt x) bs = []"
    "filter (\<lambda>y. \<not> ms_equiv lt x y) as = as" "filter (\<lambda>y. \<not> ms_equiv lt x y) bs = bs"
    by (auto simp: filter_empty_conv intro!: filter_True)
  with x show "snd (ms_erase lt x xs) = 1" "mset (fst (ms_erase lt x xs)) = mset xs - {#x#}"
    by (simp_all add: ms_erase_def xs)
qed

end
