(* ===== verification/Doubles.thy ===== *)
theory Doubles
  imports Complex_Main "HOL-Library.Log_Nat"
begin

section \<open>IEEE double arithmetic\<close>

text \<open>
  A \<open>double\<close> is modelled by the rational number it stands for, and every operation of the code
  on doubles as the exact operation followed by \<open>fl\<close>, the rounding of IEEE 754 binary64:
  to 53 significant bits, to nearest, ties to even. Overflow and subnormal numbers are not
  modelled: the code computes with message lengths (below \<open>2^31\<close>), cumulative fractions given
  with at most 18 decimals, and sums of a few hundred products of the two.
  The locale \<open>rounding\<close> is what the components that compute with doubles rely on.
\<close>

subsection \<open>Rounding to the nearest integer, ties to even\<close>

definition rne :: "rat \<Rightarrow> int" where
  "rne x = (let f = \<lfloor>x\<rfloor>; d = x - of_int f
            in if d < 1 / 2 then f else if 1 / 2 < d then f + 1
               else if even f then f else f + 1)"

lemma rne_bounds: "\<lfloor>x\<rfloor> \<le> rne x \<and> rne x \<le> \<lfloor>x\<rfloor> + 1"
  by (simp add: rne_def Let_def)

lemma rne_int [simp]: "rne (of_int n) = n"
  by (simp add: rne_def)

lemma rne_mono: "x \<le> y \<Longrightarrow> rne x \<le> rne y"
proof (cases "\<lfloor>x\<rfloor> = \<lfloor>y\<rfloor>")
  case True
  assume "x \<le> y"
  then have "x - of_int \<lfloor>x\<rfloor> \<le> y - of_int \<lfloor>y\<rfloor>" using True by simp
  then show ?thesis using True by (simp add: rne_def Let_def)
next
  case False
  assume "x \<le> y"
  then have "\<lfloor>x\<rfloor> < \<lfloor>y\<rfloor>" using False floor_mono by fastforce
  then show ?thesis using rne_bounds [of x] rne_bounds [of y] by linarith
qed

lemma rne_error: "\<bar>of_int (rne x) - x\<bar> \<le> 1 / 2"
proof -
  have "of_int \<lfloor>x\<rfloor> \<le> x" "x < of_int \<lfloor>x\<rfloor> + 1" by linarith+
  then show ?thesis by (simp add: rne_def Let_def abs_le_iff)
qed

subsection \<open>The binary exponent of a positive rational\<close>

definition ilog2 :: "rat \<Rightarrow> int" where
  "ilog2 x = (case quotient_of x of (p, q) \<Rightarrow>
     (let k = bitlen p - bitlen q in if 2 powi k \<le> x then k else k - 1))"

lemma powi_mono: "i \<le> j \<Longrightarrow> (2 :: rat) powi i \<le> 2 powi j"
  by (simp add: power_int_increasing)

lemma powi_strict_mono: "i < j \<Longrightarrow> (2 :: rat) powi i < 2 powi j"
  by (simp add: power_int_strict_increasing)

lemma powi_less_imp: "(2 :: rat) powi i < 2 powi j \<Longrightarrow> i < j"
  using powi_mono [of j i] by (cases "i < j") auto

lemma powi_pos [simp]: "0 < (2 :: rat) powi i"
  by simp

lemma powi_Suc: "(2 :: rat) powi (i + 1) = 2 * 2 powi i"
  by (simp add: power_int_add)

lemma powi_add: "(2 :: rat) powi (i + j) = 2 powi i * 2 powi j"
  by (simp add: power_int_add)

lemma pow_powi: "(2 :: rat) ^ n * 2 powi e = 2 powi (e + int n)"
  by (simp add: powi_add mult.commute)

lemma bitlen_rat_bounds:
  assumes "0 < p"
  shows "2 powi (bitlen p - 1) \<le> (of_int p :: rat)" and "(of_int p :: rat) < 2 powi bitlen p"
proof -
  have b: "2 ^ nat (bitlen p - 1) \<le> p \<and> p < 2 ^ nat (bitlen p)"
    using bitlen_bounds [OF assms] .
  have pos: "1 \<le> bitlen p" using assms by (simp add: bitlen_def floorlog_def)
  have "(2 :: rat) powi (bitlen p - 1) = of_int (2 ^ nat (bitlen p - 1))"
    using pos by (simp add: power_int_def)
  also have "\<dots> \<le> of_int p" using b by (simp only: of_int_le_iff)
  finally show "2 powi (bitlen p - 1) \<le> (of_int p :: rat)" .
  have "(of_int p :: rat) < of_int (2 ^ nat (bitlen p))" using b by (simp only: of_int_less_iff)
  also have "\<dots> = 2 powi bitlen p" using pos by (simp add: power_int_def)
  finally show "(of_int p :: rat) < 2 powi bitlen p" .
qed

lemma ilog2_bounds:
  assumes "0 < x"
  shows "2 powi ilog2 x \<le> x" and "x < 2 powi (ilog2 x + 1)"
proof -
  obtain p q where pq: "quotient_of x = (p, q)" by (cases "quotient_of x")
  have q: "0 < q" using quotient_of_denom_pos [OF pq] .
  have x: "x = of_int p / of_int q" using quotient_of_div [OF pq] .
  have p: "0 < p" using assms q unfolding x by (simp add: zero_less_divide_iff)
  let ?k = "bitlen p - bitlen q"
  have "2 powi (?k - 1) * of_int q \<le> 2 powi (?k - 1) * (2 :: rat) powi bitlen q"
    using bitlen_rat_bounds(2) [OF q] by simp
  also have "\<dots> = 2 powi (bitlen p - 1)" by (simp add: powi_add [symmetric])
  also have "\<dots> \<le> of_int p" by (rule bitlen_rat_bounds(1) [OF p])
  finally have lower: "2 powi (?k - 1) \<le> x" using q by (simp add: x pos_le_divide_eq)
  have "of_int p < (2 :: rat) powi bitlen p" by (rule bitlen_rat_bounds(2) [OF p])
  also have "\<dots> = 2 powi (?k + 1) * 2 powi (bitlen q - 1)" by (simp add: powi_add [symmetric])
  also have "\<dots> \<le> 2 powi (?k + 1) * of_int q" using bitlen_rat_bounds(1) [OF q] by simp
  finally have upper: "x < 2 powi (?k + 1)" using q by (simp add: x pos_divide_less_eq)
  show "2 powi ilog2 x \<le> x" "x < 2 powi (ilog2 x + 1)"
    using lower upper by (auto simp: ilog2_def pq Let_def)
qed

lemma ilog2_mono:
  assumes "0 < x" "x \<le> y"
  shows "ilog2 x \<le> ilog2 y"
proof -
  have "(2 :: rat) powi ilog2 x < 2 powi (ilog2 y + 1)"
    using ilog2_bounds(1) [of x] ilog2_bounds(2) [of y] assms by linarith
  then show ?thesis using powi_less_imp by fastforce
qed

subsection \<open>Rounding to 53 significant bits\<close>

definition flpos :: "rat \<Rightarrow> rat" where
  "flpos x = (let e = ilog2 x - 52 in of_int (rne (x / 2 powi e)) * 2 powi e)"

definition fl :: "rat \<Rightarrow> rat" where
  "fl x = (if x = 0 then 0 else if x < 0 then - flpos (- x) else flpos x)"

lemma scaled_bounds:
  assumes "0 < x"
  shows "2 ^ 52 \<le> x / 2 powi (ilog2 x - 52)" and "x / 2 powi (ilog2 x - 52) < 2 ^ 53"
proof -
  have "(2 :: rat) ^ 52 * 2 powi (ilog2 x - 52) = 2 powi ilog2 x"
    using pow_powi [of 52 "ilog2 x - 52"] by simp
  then show "2 ^ 52 \<le> x / 2 powi (ilog2 x - 52)"
    using ilog2_bounds(1) [OF assms] by (simp add: pos_le_divide_eq)
  have "(2 :: rat) ^ 53 * 2 powi (ilog2 x - 52) = 2 powi (ilog2 x + 1)"
    using pow_powi [of 53 "ilog2 x - 52"] by (simp add: add.commute)
  then show "x / 2 powi (ilog2 x - 52) < 2 ^ 53"
    using ilog2_bounds(2) [OF assms] by (simp add: pos_divide_less_eq)
qed

lemma mantissa_bounds:
  assumes "0 < x"
  shows "2 ^ 52 \<le> rne (x / 2 powi (ilog2 x - 52))" and "rne (x / 2 powi (ilog2 x - 52)) \<le> 2 ^ 53"
proof -
  have "rne (of_int (2 ^ 52)) \<le> rne (x / 2 powi (ilog2 x - 52))"
    using scaled_bounds(1) [OF assms] by (intro rne_mono) simp
  then show "2 ^ 52 \<le> rne (x / 2 powi (ilog2 x - 52))" by (simp only: rne_int)
  have "rne (x / 2 powi (ilog2 x - 52)) \<le> rne (of_int (2 ^ 53))"
    using scaled_bounds(2) [OF assms] by (intro rne_mono) simp
  then show "rne (x / 2 powi (ilog2 x - 52)) \<le> 2 ^ 53" by (simp only: rne_int)
qed

lemma flpos_bounds:
  assumes "0 < x"
  shows "2 powi ilog2 x \<le> flpos x" and "flpos x \<le> 2 powi (ilog2 x + 1)"
proof -
  let ?e = "ilog2 x - 52" and ?m = "rne (x / 2 powi (ilog2 x - 52))"
  have lo: "(2 :: rat) ^ 52 \<le> of_int ?m"
    using mantissa_bounds(1) [OF assms] by (metis of_int_le_iff of_int_numeral of_int_power)
  have hi: "of_int ?m \<le> (2 :: rat) ^ 53"
    using mantissa_bounds(2) [OF assms] by (metis of_int_le_iff of_int_numeral of_int_power)
  have fp: "flpos x = of_int ?m * 2 powi ?e" by (simp add: flpos_def Let_def)
  have "2 powi ilog2 x = (2 :: rat) ^ 52 * 2 powi ?e" using pow_powi [of 52 ?e] by simp
  also have "\<dots> \<le> of_int ?m * 2 powi ?e" by (rule mult_right_mono [OF lo]) simp
  finally show "2 powi ilog2 x \<le> flpos x" unfolding fp .
  have "of_int ?m * 2 powi ?e \<le> (2 :: rat) ^ 53 * 2 powi ?e" by (rule mult_right_mono [OF hi]) simp
  also have "\<dots> = 2 powi (ilog2 x + 1)" using pow_powi [of 53 ?e] by (simp add: add.commute)
  finally show "flpos x \<le> 2 powi (ilog2 x + 1)" unfolding fp .
qed

lemma flpos_mono:
  assumes "0 < x" "x \<le> y"
  shows "flpos x \<le> flpos y"
proof (cases "ilog2 x = ilog2 y")
  case True
  have "x / 2 powi (ilog2 x - 52) \<le> y / 2 powi (ilog2 x - 52)"
    using assms by (intro divide_right_mono) auto
  then have "rne (x / 2 powi (ilog2 x - 52)) \<le> rne (y / 2 powi (ilog2 x - 52))"
    by (rule rne_mono)
  then have "(of_int (rne (x / 2 powi (ilog2 x - 52))) :: rat) * 2 powi (ilog2 x - 52)
      \<le> of_int (rne (y / 2 powi (ilog2 x - 52))) * 2 powi (ilog2 x - 52)"
    by (intro mult_right_mono) (simp_all only: of_int_le_iff powi_pos less_imp_le)
  then show ?thesis using True by (simp add: flpos_def Let_def)
next
  case False
  then have "ilog2 x + 1 \<le> ilog2 y" using ilog2_mono [OF assms] by simp
  then have "flpos x \<le> 2 powi ilog2 y"
    using flpos_bounds(2) [OF assms(1)] powi_mono order_trans by blast
  also have "\<dots> \<le> flpos y" using assms by (intro flpos_bounds(1)) simp
  finally show ?thesis .
qed

lemma flpos_pos: "0 < x \<Longrightarrow> 0 < flpos x"
  using flpos_bounds(1) [of x] powi_pos [of "ilog2 x"] by linarith

text \<open>Every rational with at most 53 significant bits is its own rounding.\<close>

lemma flpos_exact:
  assumes m: "0 < m" "m \<le> 2 ^ 53"
  shows "flpos (of_int m * 2 powi k) = of_int m * 2 powi k"
proof -
  let ?x = "of_int m * 2 powi k :: rat"
  have x: "0 < ?x" using m by simp
  have "\<exists>i :: int. ?x / 2 powi (ilog2 ?x - 52) = of_int i"
  proof (cases "ilog2 ?x - 52 \<le> k")
    case True
    define e where "e = ilog2 ?x - 52"
    from True have "e \<le> k" by (simp add: e_def)
    then obtain n where n: "k = e + int n" by (metis zle_iff_zadd)
    have "?x / 2 powi e = of_int (m * 2 ^ n)" by (simp add: n powi_add)
    then show ?thesis unfolding e_def by blast
  next
    case False
    have "(2 :: rat) powi ilog2 ?x \<le> ?x" by (rule ilog2_bounds(1) [OF x])
    also have "\<dots> \<le> of_int (2 ^ 53) * 2 powi k"
      using m by (intro mult_right_mono) (simp_all only: of_int_le_iff powi_pos less_imp_le)
    also have "\<dots> = 2 powi (k + 53)" by (simp add: powi_add mult.commute)
    finally have "ilog2 ?x \<le> k + 53"
      using powi_strict_mono [of "k + 53" "ilog2 ?x"] by linarith
    with False have e: "ilog2 ?x = k + 53" by simp
    have "(2 :: rat) powi (k + 53) \<le> ?x" using ilog2_bounds(1) [OF x] e by simp
    then have "(2 :: rat) ^ 53 \<le> of_int m" by (simp add: powi_add mult.commute)
    then have "(of_int (2 ^ 53) :: rat) \<le> of_int m" by simp
    then have "m = 2 ^ 53" using m(2) by (simp only: of_int_le_iff)
    then have "?x / 2 powi (ilog2 ?x - 52) = of_int (2 ^ 52)"
      using e powi_add [of 1 k] by simp
    then show ?thesis by blast
  qed
  then obtain i where i: "?x / 2 powi (ilog2 ?x - 52) = of_int i" by blast
  then have "flpos ?x = (?x / 2 powi (ilog2 ?x - 52)) * 2 powi (ilog2 ?x - 52)"
    by (simp add: flpos_def Let_def)
  then show ?thesis by simp
qed

lemma flpos_error:
  assumes "0 < x"
  shows "\<bar>flpos x - x\<bar> \<le> x / 2 ^ 53"
proof -
  let ?e = "ilog2 x - 52"
  have "flpos x - x = (of_int (rne (x / 2 powi ?e)) - x / 2 powi ?e) * 2 powi ?e"
    by (simp add: flpos_def Let_def algebra_simps)
  then have "\<bar>flpos x - x\<bar> = \<bar>of_int (rne (x / 2 powi ?e)) - x / 2 powi ?e\<bar> * 2 powi ?e"
    by (simp add: abs_mult)
  also have "\<dots> \<le> (1 / 2) * 2 powi ?e" by (intro mult_right_mono rne_error) simp
  also have "\<dots> \<le> x / 2 ^ 53"
  proof -
    have "2 ^ 52 * 2 powi ?e \<le> x"
      using scaled_bounds(1) [OF assms] by (simp add: pos_le_divide_eq)
    then show ?thesis by (simp add: field_simps)
  qed
  finally show ?thesis .
qed

subsection \<open>The interface to the components\<close>

locale rounding =
  fixes rnd :: "rat \<Rightarrow> rat"
  assumes rnd_mono: "x \<le> y \<Longrightarrow> rnd x \<le> rnd y"
    and rnd_int: "\<bar>n\<bar> \<le> 2 ^ 53 \<Longrightarrow> rnd (of_int n) = of_int n"
    and rnd_idem: "rnd (rnd x) = rnd x"
    and rnd_error: "\<bar>rnd x - x\<bar> \<le> \<bar>x\<bar> / 2 ^ 53"
begin

lemma rnd_0 [simp]: "rnd 0 = 0"
  using rnd_int [of 0] by simp

lemma rnd_1 [simp]: "rnd 1 = 1"
  using rnd_int [of 1] by simp

lemma rnd_nonneg: "0 \<le> x \<Longrightarrow> 0 \<le> rnd x"
  using rnd_mono [of 0 x] by simp

lemma rnd_le_1: "x \<le> 1 \<Longrightarrow> rnd x \<le> 1"
  using rnd_mono [of x 1] by simp

lemma rnd_nat: "n \<le> 2 ^ 53 \<Longrightarrow> rnd (of_nat n) = of_nat n"
  using rnd_int [of "int n"] by simp

lemma rnd_sub_nonneg: "x \<le> y \<Longrightarrow> 0 \<le> rnd (rnd y - rnd x)"
  by (intro rnd_nonneg) (simp add: rnd_mono)

lemma rnd_pos: "0 < x \<Longrightarrow> 0 < rnd x"
proof -
  assume x: "0 < x"
  have "x - rnd x \<le> \<bar>rnd x - x\<bar>" by simp
  also have "\<dots> \<le> x / 2 ^ 53" using rnd_error [of x] x by simp
  finally have "x - rnd x \<le> x / 2 ^ 53" .
  moreover have "x / 2 ^ 53 < x" using x by (simp add: field_simps)
  ultimately show ?thesis by linarith
qed

end

lemma flpos_representable:
  assumes "0 < x"
  shows "\<exists>m k. 0 < m \<and> m \<le> 2 ^ 53 \<and> flpos x = of_int m * 2 powi k"
proof -
  let ?m = "rne (x / 2 powi (ilog2 x - 52))"
  have "0 < ?m" "?m \<le> 2 ^ 53" using mantissa_bounds [OF assms] by auto
  moreover have "flpos x = of_int ?m * 2 powi (ilog2 x - 52)"
    by (simp add: flpos_def Let_def)
  ultimately show ?thesis by blast
qed

lemma flpos_idem: "0 < x \<Longrightarrow> flpos (flpos x) = flpos x"
  using flpos_representable [of x] flpos_exact by metis

lemma flpos_int: "0 < n \<Longrightarrow> n \<le> 2 ^ 53 \<Longrightarrow> flpos (of_int n) = of_int n"
  using flpos_exact [of n 0] by simp

interpretation dbl: rounding fl
proof unfold_locales
  fix x y :: rat
  assume "x \<le> y"
  then show "fl x \<le> fl y"
    using flpos_mono [of x y] flpos_mono [of "- y" "- x"] flpos_pos [of y] flpos_pos [of "- x"]
    by (auto simp: fl_def)
next
  fix n :: int
  assume "\<bar>n\<bar> \<le> 2 ^ 53"
  then show "fl (of_int n) = of_int n"
    using flpos_int [of n] flpos_int [of "- n"] by (auto simp: fl_def)
next
  fix x :: rat
  show "fl (fl x) = fl x"
    using flpos_idem [of x] flpos_idem [of "- x"] flpos_pos [of x] flpos_pos [of "- x"]
    by (auto simp: fl_def)
  show "\<bar>fl x - x\<bar> \<le> \<bar>x\<bar> / 2 ^ 53"
    using flpos_error [of x] flpos_error [of "- x"] by (auto simp: fl_def abs_if split: if_splits)
qed

text \<open>Dividing by a power of two is exact.\<close>

lemma fl_div_64: "n \<le> 2 ^ 53 \<Longrightarrow> fl (of_nat n / 64) = of_nat n / 64"
  using flpos_exact [of "int n" "-6"] by (cases "n = 0") (auto simp: fl_def power_int_def field_simps)

text \<open>The relative error of one operation.\<close>

definition ulp :: rat where "ulp = 1 / 2 ^ 53"

lemma ulp_bounds: "0 < ulp" "ulp < 1"
  by (simp_all add: ulp_def)

lemma fl_rel:
  assumes "0 \<le> x"
  shows "x * (1 - ulp) \<le> fl x" and "fl x \<le> x * (1 + ulp)"
proof -
  have "\<bar>fl x - x\<bar> \<le> x * ulp" using dbl.rnd_error [of x] assms by (simp add: ulp_def)
  then have "fl x - x \<le> x * ulp \<and> x - fl x \<le> x * ulp" by linarith
  then show "x * (1 - ulp) \<le> fl x" "fl x \<le> x * (1 + ulp)" by (simp_all add: algebra_simps)
qed

end
