(* ===== verification/Entry.thy ===== *)
theory Entry
  imports Std_Multiset Doubles
begin

section \<open>Queue entries and their priority order\<close>

text \<open>
  \<open>entry_t\<close> and \<open>Compare\<close> of \<open>model/queues.hh\<close>, the older pair of the same names in
  \<open>model/config.hh\<close>, and the number of 64 byte slots of a full packet. \<open>Compare\<close> orders
  entries by remaining length and then by identifier: shortest remaining processing time first,
  first come first served among equals. \<open>prio\<close> is that pair of keys as a linear order.
\<close>

record entry_t =
  ent_ts :: u64
  ent_id :: u64
  ent_length :: int
  remaining :: int
  taint :: bool

definition Compare :: "entry_t \<Rightarrow> entry_t \<Rightarrow> bool" where
  "Compare l r = (if remaining l < remaining r then True
     else if remaining l = remaining r \<and> ent_id l < ent_id r then True
     else False)"

text \<open>\<open>entry_t {0, 0, 0, 0, false}\<close>, what \<open>dequeue\<close> returns when it has nothing.\<close>

definition null_entry :: entry_t where
  "null_entry = \<lparr>ent_ts = 0, ent_id = 0, ent_length = 0, remaining = 0, taint = False\<rparr>"

definition MAX_PACKET :: int where "MAX_PACKET = 1500"

text \<open>\<open>std::ceil (((double) MAX_PACKET) / 64.0)\<close>\<close>

definition packet_slots :: int where
  "packet_slots = \<lceil>fl (of_int MAX_PACKET / 64)\<rceil>"

lemma packet_slots_eq [simp]: "packet_slots = 24"
  by code_simp

subsection \<open>The priority as a linear order\<close>

datatype prio = Prio (prio_remaining: int) (prio_id: u64)

instantiation prio :: linorder
begin

definition less_prio :: "prio \<Rightarrow> prio \<Rightarrow> bool" where
  "less_prio p q \<longleftrightarrow> prio_remaining p < prio_remaining q \<or>
     prio_remaining p = prio_remaining q \<and> prio_id p < prio_id q"

definition less_eq_prio :: "prio \<Rightarrow> prio \<Rightarrow> bool" where
  "less_eq_prio p q \<longleftrightarrow> prio_remaining p < prio_remaining q \<or>
     prio_remaining p = prio_remaining q \<and> prio_id p \<le> prio_id q"

instance
  by standard (auto simp: less_prio_def less_eq_prio_def prio.expand)

end

definition prio_of :: "entry_t \<Rightarrow> prio" where
  "prio_of e = Prio (remaining e) (ent_id e)"

lemma Compare_prio: "Compare l r \<longleftrightarrow> prio_of l < prio_of r"
  by (auto simp: Compare_def prio_of_def less_prio_def)

lemma not_Compare_prio: "\<not> Compare l r \<longleftrightarrow> prio_of r \<le> prio_of l"
  by (simp add: Compare_prio not_less)

lemma prio_le_remaining: "prio_of x \<le> prio_of y \<Longrightarrow> remaining x \<le> remaining y"
  by (auto simp: prio_of_def less_eq_prio_def)

lemma prio_eq_iff: "prio_of x = prio_of y \<longleftrightarrow> remaining x = remaining y \<and> ent_id x = ent_id y"
  by (simp add: prio_of_def)

interpretation ent: strict_weak_order Compare
  by unfold_locales (auto simp: Compare_prio)

lemma equiv_prio: "ms_equiv Compare x y \<longleftrightarrow> prio_of x = prio_of y"
  by (auto simp: ms_equiv_def Compare_prio)

subsection \<open>Well-formed entries\<close>

text \<open>
  An entry waiting in a queue still has something to send, and not more than its message had.
\<close>

definition valid_entry :: "entry_t \<Rightarrow> bool" where
  "valid_entry e \<longleftrightarrow> 0 < remaining e \<and> remaining e \<le> ent_length e \<and> ent_length e \<le> int_max"

lemma valid_entry_length: "valid_entry e \<Longrightarrow> ent_length e \<noteq> 0"
  by (auto simp: valid_entry_def)

lemma not_valid_null [simp]: "\<not> valid_entry null_entry"
  by (auto simp: valid_entry_def null_entry_def)

text \<open>What is left of an entry after one of its packets went out.\<close>

definition after_packet :: "entry_t \<Rightarrow> entry_t" where
  "after_packet e = e\<lparr>remaining := remaining e - packet_slots\<rparr>"

definition leftover :: "entry_t \<Rightarrow> entry_t multiset" where
  "leftover e = (if remaining e - packet_slots > 0 then {#after_packet e#} else {#})"

lemma after_packet_simps [simp]:
  "ent_id (after_packet e) = ent_id e" "ent_ts (after_packet e) = ent_ts e"
  "ent_length (after_packet e) = ent_length e" "remaining (after_packet e) = remaining e - 24"
  by (simp_all add: after_packet_def)

lemma leftover_valid: "valid_entry e \<Longrightarrow> x \<in># leftover e \<Longrightarrow> valid_entry x"
  by (auto simp: leftover_def valid_entry_def split: if_splits)

lemma leftover_id: "x \<in># leftover e \<Longrightarrow> ent_id x = ent_id e"
  by (auto simp: leftover_def split: if_splits)

subsection \<open>The entry of config.hh\<close>

record config_entry =
  ce_ts :: u64
  ce_length :: int
  ce_remaining :: int
  ce_taint :: bool

definition config_Compare :: "config_entry \<Rightarrow> config_entry \<Rightarrow> bool" where
  "config_Compare l r = (if ce_remaining l < ce_remaining r then True
     else if ce_remaining l = ce_remaining r \<and> ce_ts l < ce_ts r then True
     else if ce_remaining l = ce_remaining r \<and> ce_ts l = ce_ts r \<and> ce_length l < ce_length r then True
     else False)"

interpretation config_ent: strict_weak_order config_Compare
  by unfold_locales (auto simp: config_Compare_def split: if_splits)

end
