(* ===== verification/Queue_Base.thy ===== *)
theory Queue_Base
  imports Entry
begin

section \<open>The base class Queue\<close>

text \<open>
  Class \<open>Queue\<close> of \<open>model/queues.hh\<close>: the fields every queue has, the arrival of a message
  and the departure of a packet. The derived classes extend the record \<open>queue\<close>, as they extend
  the class, and supply their virtual functions as a table \<open>vtable\<close>, through which \<open>arrival\<close>
  and \<open>departure\<close> call them. \<open>gqueue\<close> is the reference queue: it always holds exactly the
  unfinished messages, in their ideal order, and \<open>departure\<close> compares what the simulated
  hardware sends with its head.

  The locale \<open>queue_impl\<close> states what \<open>Queue\<close> relies on in a derived class, and proves that
  then no assertion of \<open>Queue\<close> fails, that the reference queue and the hardware keep holding
  the same messages, and how much work each slot removes. \<open>srpt_impl\<close> adds that \<open>dequeue\<close>
  always serves the best message, and proves that then no inaccuracy is ever counted.
\<close>

subsection \<open>State\<close>

record slotstat_t =
  occupied :: u64
  arrivals :: u64
  arrivalbacklog :: u64

record queuestat_t =
  highwater :: u64
  lowwater :: u64
  maxsize :: u64

record simstat_t =
  packets :: u64
  comps :: u64
  comptimes :: u64
  slowdowns :: u64
  sum_violations :: rat
  presorted :: u64
  pulses :: u64
  underflow :: u64
  cycles :: u64
  msginacc :: u64
  pktinacc :: u64

record queue =
  buff :: u64
  next_id :: u64
  gstats :: bool
  slotstats :: "nat \<Rightarrow> slotstat_t"
  queuestats :: queuestat_t
  simstats :: simstat_t
  violations :: "rat list"
  gqueue :: "entry_t list"

text \<open>\<open>slotstats\<close> is an array of this many elements.\<close>

definition SLOTS :: nat where "SLOTS = 1024"

definition zero_slotstat :: slotstat_t where
  "zero_slotstat = \<lparr>occupied = 0, arrivals = 0, arrivalbacklog = 0\<rparr>"

definition zero_queuestat :: queuestat_t where
  "zero_queuestat = \<lparr>highwater = 0, lowwater = 0, maxsize = 0\<rparr>"

definition zero_simstat :: simstat_t where
  "zero_simstat = \<lparr>packets = 0, comps = 0, comptimes = 0, slowdowns = 0, sum_violations = 0,
     presorted = 0, pulses = 0, underflow = 0, cycles = 0, msginacc = 0, pktinacc = 0\<rparr>"

text \<open>The virtual functions a derived class overrides.\<close>

record 'q vtable =
  vt_step :: "u64 \<Rightarrow> 'q \<Rightarrow> 'q res"
  vt_empty :: "'q \<Rightarrow> bool"
  vt_enqueue :: "entry_t \<Rightarrow> 'q \<Rightarrow> 'q res"
  vt_dequeue :: "'q \<Rightarrow> (entry_t \<times> 'q) res"
  vt_size :: "'q \<Rightarrow> int"
  vt_backsize :: "'q \<Rightarrow> int"

subsection \<open>Queue::arrival\<close>

definition new_entry :: "u64 \<Rightarrow> int \<Rightarrow> 'a queue_scheme \<Rightarrow> entry_t" where
  "new_entry ts n q =
     \<lparr>ent_ts = ts, ent_id = next_id q, ent_length = n, remaining = n, taint = False\<rparr>"

definition arrival :: "'a queue_scheme vtable \<Rightarrow> u64 \<Rightarrow> int \<Rightarrow> 'a queue_scheme \<Rightarrow> 'a queue_scheme res" where
  "arrival vt ts n q =
     (let entry = new_entry ts n q;
          q1 = q\<lparr>next_id := next_id q + 1\<rparr>
      in rbind (cpp_assert (n \<noteq> 0)) (\<lambda>_.
           vt_enqueue vt entry (q1\<lparr>gqueue := ms_insert Compare entry (gqueue q1)\<rparr>)))"

subsection \<open>Queue::departure\<close>

text \<open>The parts of \<open>departure\<close>, in its order: the clock tick of the service node, ...\<close>

definition departure_tick :: "u64 \<Rightarrow> 'a queue_scheme \<Rightarrow> 'a queue_scheme" where
  "departure_tick ts q =
     (let q1 = q\<lparr>simstats := (simstats q)\<lparr>cycles := ts\<rparr>\<rparr>
      in if buff q1 > 0 then q1\<lparr>buff := buff q1 - 1\<rparr> else q1)"

text \<open>... the statistics, which are only kept while \<open>gstats\<close> is set, ...\<close>

definition count_underflow :: "'a queue_scheme \<Rightarrow> 'a queue_scheme" where
  "count_underflow q = (if gstats q
     then q\<lparr>simstats := (simstats q)\<lparr>underflow := underflow (simstats q) + 1\<rparr>\<rparr> else q)"

definition count_packet :: "'a queue_scheme \<Rightarrow> 'a queue_scheme" where
  "count_packet q = (if gstats q
     then q\<lparr>simstats := (simstats q)\<lparr>packets := packets (simstats q) + 1\<rparr>\<rparr> else q)"

definition count_inaccuracy :: "entry_t \<Rightarrow> entry_t \<Rightarrow> 'a queue_scheme \<Rightarrow> 'a queue_scheme" where
  "count_inaccuracy e best q =
     (if remaining e > remaining best then
        (let violation = fl (of_int (remaining e) / of_int (remaining best))
         in if gstats q
            then q\<lparr>simstats := (simstats q)\<lparr>pktinacc := pktinacc (simstats q) + 1,
                     sum_violations := fl (sum_violations (simstats q) + violation)\<rparr>,
                   violations := violations q @ [violation]\<rparr>
            else q)
      else q)"

definition count_completion :: "u64 \<Rightarrow> entry_t \<Rightarrow> 'a queue_scheme \<Rightarrow> 'a queue_scheme" where
  "count_completion ts e q = (if gstats q
     then q\<lparr>simstats := (simstats q)\<lparr>
            comptimes := comptimes (simstats q) + (ts - ent_ts e),
            slowdowns := slowdowns (simstats q) + (ts - ent_ts e) div word_of_int (ent_length e),
            comps := comps (simstats q) + 1\<rparr>\<rparr>
     else q)"

text \<open>... and the update of the reference queue, with its assertion.\<close>

definition gqueue_erase :: "entry_t \<Rightarrow> 'a queue_scheme \<Rightarrow> 'a queue_scheme res" where
  "gqueue_erase e q =
     (case ms_erase Compare e (gqueue q) of (g, val) \<Rightarrow>
        rbind (cpp_assert (val = 1)) (\<lambda>_. Inr (q\<lparr>gqueue := g\<rparr>)))"

definition retire :: "u64 \<Rightarrow> entry_t \<Rightarrow> 'a queue_scheme \<Rightarrow> 'a queue_scheme res" where
  "retire ts e q =
     (if remaining e - packet_slots \<le> 0 then gqueue_erase e (count_completion ts e q)
      else rbind (gqueue_erase e q) (\<lambda>q1.
        Inr (q1\<lparr>gqueue := ms_insert Compare (after_packet e) (gqueue q1)\<rparr>)))"

definition departure :: "'a queue_scheme vtable \<Rightarrow> u64 \<Rightarrow> 'a queue_scheme \<Rightarrow> 'a queue_scheme res" where
  "departure vt ts q0 =
     (let q = departure_tick ts q0
      in if buff q \<noteq> 0 then Inr q
         else if vt_empty vt q then Inr q
         else rbind (vt_dequeue vt q) (\<lambda>(entry, q1).
           if ent_length entry = 0 then Inr (count_underflow q1)
           else rbind (ms_begin (gqueue q1)) (\<lambda>best.
             retire ts entry (count_inaccuracy entry best (count_packet q1)))))"

subsection \<open>Which fields the parts leave alone\<close>

text \<open>
  \<open>base_frame\<close>: the fields of \<open>Queue\<close> that a derived class must not touch.
\<close>

definition base_frame :: "'a queue_scheme \<Rightarrow> 'a queue_scheme \<Rightarrow> bool" where
  "base_frame q q' \<longleftrightarrow> next_id q' = next_id q \<and> gstats q' = gstats q \<and> simstats q' = simstats q \<and>
     violations q' = violations q \<and> gqueue q' = gqueue q"

lemma base_frameD [dest]:
  assumes "base_frame q q'"
  shows "next_id q' = next_id q" "gstats q' = gstats q" "simstats q' = simstats q"
    "violations q' = violations q" "gqueue q' = gqueue q"
  using assms by (simp_all add: base_frame_def)

lemma base_frame_refl [simp]: "base_frame q q"
  by (simp add: base_frame_def)

lemma base_frame_trans: "base_frame p q \<Longrightarrow> base_frame q r \<Longrightarrow> base_frame p r"
  by (simp add: base_frame_def)

lemma tick_frame [frame]:
  "queue.more (departure_tick ts q) = queue.more q" "gqueue (departure_tick ts q) = gqueue q"
  "next_id (departure_tick ts q) = next_id q" "gstats (departure_tick ts q) = gstats q"
  "pktinacc (simstats (departure_tick ts q)) = pktinacc (simstats q)"
  "underflow (simstats (departure_tick ts q)) = underflow (simstats q)"
  "comps (simstats (departure_tick ts q)) = comps (simstats q)"
  "violations (departure_tick ts q) = violations q"
  by (simp_all add: departure_tick_def Let_def)

lemma tick_buff: "unat (buff (departure_tick ts q)) = unat (buff q) - 1"
  by (auto simp: departure_tick_def Let_def unat_minus_one word_gt_0)

lemma count_stats [frame]:
  "gstats (count_underflow q) = gstats q" "pktinacc (simstats (count_underflow q)) = pktinacc (simstats q)"
  "comps (simstats (count_underflow q)) = comps (simstats q)"
  "violations (count_underflow q) = violations q"
  "underflow (simstats (count_underflow q)) = underflow (simstats q) + of_bool (gstats q)"
  "gstats (count_packet q) = gstats q" "pktinacc (simstats (count_packet q)) = pktinacc (simstats q)"
  "comps (simstats (count_packet q)) = comps (simstats q)"
  "underflow (simstats (count_packet q)) = underflow (simstats q)"
  "violations (count_packet q) = violations q"
  "gstats (count_inaccuracy e b q) = gstats q"
  "comps (simstats (count_inaccuracy e b q)) = comps (simstats q)"
  "underflow (simstats (count_inaccuracy e b q)) = underflow (simstats q)"
  "pktinacc (simstats (count_inaccuracy e b q)) =
     pktinacc (simstats q) + of_bool (gstats q \<and> remaining b < remaining e)"
  "length (violations (count_inaccuracy e b q)) =
     length (violations q) + of_bool (gstats q \<and> remaining b < remaining e)"
  by (simp_all add: count_underflow_def count_packet_def count_inaccuracy_def Let_def)

lemma count_frame [frame]:
  "queue.more (count_underflow q) = queue.more q" "gqueue (count_underflow q) = gqueue q"
  "next_id (count_underflow q) = next_id q" "buff (count_underflow q) = buff q"
  "queue.more (count_packet q) = queue.more q" "gqueue (count_packet q) = gqueue q"
  "next_id (count_packet q) = next_id q" "buff (count_packet q) = buff q"
  "queue.more (count_inaccuracy e b q) = queue.more q" "gqueue (count_inaccuracy e b q) = gqueue q"
  "next_id (count_inaccuracy e b q) = next_id q" "buff (count_inaccuracy e b q) = buff q"
  "queue.more (count_completion ts e q) = queue.more q" "gqueue (count_completion ts e q) = gqueue q"
  "next_id (count_completion ts e q) = next_id q" "buff (count_completion ts e q) = buff q"
  by (simp_all add: count_underflow_def count_packet_def count_inaccuracy_def
      count_completion_def Let_def)

subsection \<open>Sending one packet of a message\<close>

text \<open>
  \<open>serve e M\<close> are the waiting messages after a packet of \<open>e\<close> went out, \<open>slots e\<close> is how
  long the link is busy with that packet, \<open>sum_remaining M\<close> the slots the messages need.
\<close>

definition serve :: "entry_t \<Rightarrow> entry_t multiset \<Rightarrow> entry_t multiset" where
  "serve e M = M - {#e#} + leftover e"

definition slots :: "entry_t \<Rightarrow> nat" where
  "slots e = nat (min (remaining e) packet_slots)"

definition sum_remaining :: "entry_t multiset \<Rightarrow> nat" where
  "sum_remaining M = (\<Sum>e\<in>#M. nat (remaining e))"

lemma sum_remaining_simps [simp]:
  "sum_remaining {#} = 0" "sum_remaining (add_mset e M) = nat (remaining e) + sum_remaining M"
  "sum_remaining (M + N) = sum_remaining M + sum_remaining N"
  by (simp_all add: sum_remaining_def)

lemma serve_add_mset [simp]: "serve e (add_mset e M) = leftover e + M"
  by (simp add: serve_def)

lemma serve_obtain: "e \<in># M \<Longrightarrow> \<exists>N. M = add_mset e N \<and> serve e M = leftover e + N"
  by (metis multi_member_split serve_add_mset)

lemma serve_cases: "x \<in># serve e M \<Longrightarrow> x \<in># M \<or> x \<in># leftover e"
  by (auto simp: serve_def dest: in_diffD)

lemma sum_remaining_serve: "e \<in># M \<Longrightarrow> slots e + sum_remaining (serve e M) = sum_remaining M"
  by (drule serve_obtain) (auto simp: leftover_def slots_def)

lemma size_serve: "e \<in># M \<Longrightarrow> size (serve e M) \<le> size M"
  by (drule serve_obtain) (auto simp: leftover_def)

lemma image_serve: "e \<in># M \<Longrightarrow> image_mset ent_id (serve e M) \<subseteq># image_mset ent_id M"
  by (drule serve_obtain) (auto simp: leftover_def)

subsection \<open>Erasing from the reference queue\<close>

lemma distinct_count_le: "distinct ys \<longleftrightarrow> (\<forall>i. count (mset ys) i \<le> 1)"
proof -
  have "count (mset ys) i = (if i \<in> set ys then 1 else 0) \<longleftrightarrow> count (mset ys) i \<le> 1" for i
  proof (cases "i \<in> set ys")
    case True
    then have "0 < count (mset ys) i" by (simp only: count_greater_zero_iff set_mset_mset)
    then have "count (mset ys) i \<le> 1 \<longleftrightarrow> count (mset ys) i = 1" by linarith
    then show ?thesis using True by simp
  next
    case False
    have "count (mset ys) i = 0" using False by simp
    then show ?thesis by (simp only: False if_False zero_le refl)
  qed
  then show ?thesis by (simp add: distinct_count_atmost_1)
qed

lemma distinct_map_count: "distinct (map f xs) \<longleftrightarrow> (\<forall>i. count (image_mset f (mset xs)) i \<le> 1)"
  by (simp add: distinct_count_le)

lemma distinct_map_subseteq:
  "distinct (map f xs) \<Longrightarrow> image_mset f (mset ys) \<subseteq># image_mset f (mset xs) \<Longrightarrow> distinct (map f ys)"
  unfolding distinct_map_count by (meson le_trans mset_subset_eq_count)

lemma distinct_map_insert:
  "distinct (map f (ms_insert lt x xs)) \<longleftrightarrow> f x \<notin> f ` set xs \<and> distinct (map f xs)"
  using mset_eq_imp_distinct_iff [of "map f (ms_insert lt x xs)" "map f (x # xs)"] by simp

lemma less_plus_1: "x + 1 \<noteq> 0 \<Longrightarrow> x < x + 1" for x :: u64
  by unat_arith

lemma gqueue_erase_ok:
  assumes "e \<in># mset (gqueue q)" and "distinct (map ent_id (gqueue q))"
  shows "\<exists>g. gqueue_erase e q = Inr (q\<lparr>gqueue := g\<rparr>) \<and> mset g = mset (gqueue q) - {#e#} \<and>
     (ms_sorted Compare (gqueue q) \<longrightarrow> ms_sorted Compare g)"
proof -
  have uniq: "ms_equiv Compare e y \<longleftrightarrow> ent_id y = ent_id e" if "y \<in> set (gqueue q)" for y
  proof
    assume "ent_id y = ent_id e"
    then have "y = e" using that assms by (auto simp: distinct_map inj_on_def)
    then show "ms_equiv Compare e y" by (simp add: ent.equiv_refl)
  qed (auto simp: equiv_prio prio_eq_iff)
  note un = erase_unique [OF assms(1) uniq assms(2)]
  show ?thesis
    using un ms_sorted_erase [of Compare "gqueue q" e]
    by (cases "ms_erase Compare e (gqueue q)") (auto simp: gqueue_erase_def)
qed

lemma retire_ok:
  assumes mem: "e \<in># mset (gqueue q)" and dist: "distinct (map ent_id (gqueue q))"
    and sorted: "ms_sorted Compare (gqueue q)"
  shows "\<exists>q'. retire ts e q = Inr q' \<and> mset (gqueue q') = serve e (mset (gqueue q)) \<and>
     ms_sorted Compare (gqueue q') \<and> queue.more q' = queue.more q \<and> next_id q' = next_id q \<and>
     buff q' = buff q \<and> pktinacc (simstats q') = pktinacc (simstats q) \<and>
     underflow (simstats q') = underflow (simstats q) \<and> violations q' = violations q \<and>
     gstats q' = gstats q \<and>
     comps (simstats q') = comps (simstats q) + of_bool (gstats q \<and> remaining e \<le> 24)"
proof (cases "remaining e - packet_slots \<le> 0")
  case True
  let ?q = "count_completion ts e q"
  obtain g where "gqueue_erase e ?q = Inr (?q\<lparr>gqueue := g\<rparr>)" "mset g = mset (gqueue q) - {#e#}"
    "ms_sorted Compare g"
    using gqueue_erase_ok [of e ?q] mem dist sorted by (auto simp: frame)
  then show ?thesis using True
    by (auto simp: retire_def serve_def leftover_def frame count_completion_def)
next
  case False
  obtain g where "gqueue_erase e q = Inr (q\<lparr>gqueue := g\<rparr>)" "mset g = mset (gqueue q) - {#e#}"
    "ms_sorted Compare g"
    using gqueue_erase_ok [OF mem dist] sorted by auto
  then show ?thesis using False
    by (auto simp: retire_def serve_def leftover_def intro: ent.sorted_insert)
qed

subsection \<open>Reachable states\<close>

text \<open>
  The states a client reaches that uses a queue only through \<open>arrival\<close>, \<open>departure\<close> and
  \<open>step\<close>, in any order, with messages of positive length, and never holds more than \<open>cap\<close>.
\<close>

inductive qreach :: "'a queue_scheme vtable \<Rightarrow> nat \<Rightarrow> 'a queue_scheme \<Rightarrow> 'a queue_scheme \<Rightarrow> bool"
  for vt cap init where
  reach_init: "qreach vt cap init init"
| reach_arrival: "qreach vt cap init q \<Longrightarrow> 0 < n \<Longrightarrow> n \<le> int_max \<Longrightarrow> next_id q + 1 \<noteq> 0 \<Longrightarrow>
    vt_size vt q < int cap \<Longrightarrow> arrival vt ts n q = Inr q' \<Longrightarrow> qreach vt cap init q'"
| reach_departure: "qreach vt cap init q \<Longrightarrow> departure vt ts q = Inr q' \<Longrightarrow> qreach vt cap init q'"
| reach_step: "qreach vt cap init q \<Longrightarrow> vt_step vt ts q = Inr q' \<Longrightarrow> qreach vt cap init q'"

lemma qreach_mono:
  assumes "qreach vt cap init q" "cap \<le> cap'"
  shows "qreach vt cap' init q"
  using assms(1)
proof (induction rule: qreach.induct)
  case (reach_arrival q n ts q')
  then show ?case using assms(2) by (intro qreach.reach_arrival [of vt cap' init q n ts q']) simp_all
qed (auto intro: qreach.intros)

subsection \<open>What Queue relies on in a derived class\<close>

text \<open>
  \<open>hw q\<close> is the multiset of messages the derived class holds, \<open>hw_inv\<close> its own invariant,
  \<open>cap\<close> how many messages it can hold. Both depend on the derived part of the state only.
\<close>

definition sent :: "entry_t \<Rightarrow> entry_t multiset \<Rightarrow> entry_t multiset \<Rightarrow> bool" where
  "sent e M M' \<longleftrightarrow> e \<in># M \<and> M' = serve e M"

datatype outcome = Busy | Idle | Underflow | Sent entry_t

locale queue_impl =
  fixes vt :: "'a queue_scheme vtable"
    and hw :: "'a queue_scheme \<Rightarrow> entry_t multiset"
    and hw_inv :: "'a queue_scheme \<Rightarrow> bool"
    and cap :: nat
  assumes hw_more: "queue.more q = queue.more q' \<Longrightarrow> hw q = hw q'"
    and inv_more: "queue.more q = queue.more q' \<Longrightarrow> hw_inv q = hw_inv q'"
    and empty_iff: "hw_inv q \<Longrightarrow> vt_empty vt q \<longleftrightarrow> hw q = {#}"
    and size_hw: "hw_inv q \<Longrightarrow> vt_size vt q = int (size (hw q))"
    and enqueue_ok: "hw_inv q \<Longrightarrow> size (hw q) < cap \<Longrightarrow>
      \<exists>q'. vt_enqueue vt e q = Inr q' \<and> hw_inv q' \<and> hw q' = add_mset e (hw q) \<and>
        base_frame q q' \<and> buff q' = buff q"
    and dequeue_ok: "hw_inv q \<Longrightarrow> \<forall>e\<in>#hw q. valid_entry e \<Longrightarrow> buff q = 0 \<Longrightarrow>
      \<exists>e q'. vt_dequeue vt q = Inr (e, q') \<and> hw_inv q' \<and> base_frame q q' \<and>
        (e = null_entry \<and> hw q' = hw q \<and> buff q' = 0 \<or>
         sent e (hw q) (hw q') \<and> unat (buff q') = slots e)"
    and step_ok: "hw_inv q \<Longrightarrow> size (hw q) \<le> cap \<Longrightarrow>
      \<exists>q'. vt_step vt ts q = Inr q' \<and> hw_inv q' \<and> hw q' = hw q \<and> base_frame q q' \<and>
        buff q' = buff q"
begin

text \<open>The invariant of a simulated queue: reference queue and hardware agree.\<close>

definition qinv :: "'a queue_scheme \<Rightarrow> bool" where
  "qinv q \<longleftrightarrow> hw_inv q \<and> mset (gqueue q) = hw q \<and> ms_sorted Compare (gqueue q) \<and>
     distinct (map ent_id (gqueue q)) \<and> (\<forall>e\<in>#hw q. valid_entry e \<and> ent_id e < next_id q)"

definition backlog :: "'a queue_scheme \<Rightarrow> nat" where
  "backlog q = unat (buff q) + sum_remaining (hw q)"

lemma qinvD:
  assumes "qinv q"
  shows "hw_inv q" "mset (gqueue q) = hw q" "ms_sorted Compare (gqueue q)"
    "distinct (map ent_id (gqueue q))" "\<And>e. e \<in># hw q \<Longrightarrow> valid_entry e"
    "\<And>e. e \<in># hw q \<Longrightarrow> ent_id e < next_id q"
  using assms by (auto simp: qinv_def)

lemma backlog_0_iff:
  assumes "qinv q"
  shows "backlog q = 0 \<longleftrightarrow> buff q = 0 \<and> hw q = {#}"
proof -
  have "sum_remaining (hw q) \<noteq> 0" if "e \<in># hw q" for e
    using that qinvD(5) [OF assms that] by (auto simp: sum_remaining_def valid_entry_def not_le)
  then have "sum_remaining (hw q) = 0 \<longleftrightarrow> hw q = {#}" by (auto simp: sum_remaining_def)
  then show ?thesis by (auto simp: backlog_def unat_eq_zero)
qed

text \<open>
  Arrival: no error while there is room; the new message, and nothing else, joins both queues.
\<close>

lemma arrival_ok:
  assumes inv: "qinv q" and room: "size (hw q) < cap"
    and n: "0 < n" "n \<le> int_max" and wrap: "next_id q + 1 \<noteq> 0"
  shows "\<exists>q'. arrival vt ts n q = Inr q' \<and> qinv q' \<and> next_id q' = next_id q + 1 \<and>
     hw q' = add_mset (new_entry ts n q) (hw q) \<and> buff q' = buff q \<and>
     gstats q' = gstats q \<and> simstats q' = simstats q \<and> violations q' = violations q"
proof -
  let ?e = "new_entry ts n q"
  let ?q1 = "q\<lparr>next_id := next_id q + 1, gqueue := ms_insert Compare ?e (gqueue q)\<rparr>"
  note qi = qinvD [OF inv]
  have "hw_inv ?q1" "hw ?q1 = hw q" using qi(1) inv_more [of ?q1 q] hw_more [of ?q1 q] by auto
  then obtain q' where q': "vt_enqueue vt ?e ?q1 = Inr q'" "hw_inv q'"
    "hw q' = add_mset ?e (hw q)" "base_frame ?q1 q'" "buff q' = buff q"
    using enqueue_ok [of ?q1 ?e] room by auto
  have lt: "next_id q < next_id q + 1" using wrap by (rule less_plus_1)
  have g': "gqueue q' = ms_insert Compare ?e (gqueue q)" using q'(4) by (auto simp: base_frame_def)
  have "ent_id ?e \<notin> ent_id ` set (gqueue q)"
    using qi(2,6) by (fastforce simp: new_entry_def simp flip: set_mset_mset)
  then have "distinct (map ent_id (gqueue q'))"
    unfolding g' using qi(4) by (simp add: distinct_map_insert)
  moreover have "valid_entry e \<and> ent_id e < next_id q + 1" if "e \<in># hw q'" for e
    using that q'(3) qi(5,6) n lt
    by (auto simp: valid_entry_def new_entry_def intro: less_trans)
  ultimately have "qinv q'"
    using q' qi g' by (auto simp: qinv_def base_frame_def ent.sorted_insert)
  moreover have "arrival vt ts n q = Inr q'"
    using q'(1) n(1) by (simp add: arrival_def new_entry_def)
  ultimately show ?thesis using q' by (auto simp: base_frame_def)
qed

text \<open>
  Departure: no assertion fails, and a slot has one of four outcomes. While the link is busy it
  only counts down. When it becomes free, it stays free if nothing waits (\<open>Idle\<close>) or if the
  hardware has nothing to offer although something waits (\<open>Underflow\<close>, which is counted);
  otherwise one packet of one message goes out and the link is busy for its length. The packet is
  counted as an inaccuracy exactly if some waiting message has less left to send.
\<close>

definition better_waits :: "entry_t \<Rightarrow> 'a queue_scheme \<Rightarrow> bool" where
  "better_waits e q \<longleftrightarrow> (\<exists>x\<in>#hw q. remaining x < remaining e)"

definition slot_effect :: "outcome \<Rightarrow> 'a queue_scheme \<Rightarrow> 'a queue_scheme \<Rightarrow> bool" where
  "slot_effect oc q q' \<longleftrightarrow>
     (let S = simstats q; S' = simstats q' in
      (1 < unat (buff q) \<longleftrightarrow> oc = Busy) \<and>
      (case oc of
         Busy \<Rightarrow> hw q' = hw q \<and> unat (buff q') = unat (buff q) - 1 \<and> pktinacc S' = pktinacc S \<and>
           underflow S' = underflow S \<and> comps S' = comps S
       | Idle \<Rightarrow> hw q = {#} \<and> hw q' = {#} \<and> buff q' = 0 \<and> pktinacc S' = pktinacc S \<and>
           underflow S' = underflow S \<and> comps S' = comps S
       | Underflow \<Rightarrow> hw q \<noteq> {#} \<and> hw q' = hw q \<and> buff q' = 0 \<and> pktinacc S' = pktinacc S \<and>
           underflow S' = underflow S + of_bool (gstats q) \<and> comps S' = comps S
       | Sent e \<Rightarrow> sent e (hw q) (hw q') \<and> unat (buff q') = slots e \<and>
           pktinacc S' = pktinacc S + of_bool (gstats q \<and> better_waits e q) \<and>
           underflow S' = underflow S \<and>
           comps S' = comps S + of_bool (gstats q \<and> remaining e \<le> packet_slots)))"

text \<open>The derived class offers \<open>e\<close> to a departure in slot \<open>ts\<close>.\<close>

definition offered :: "u64 \<Rightarrow> 'a queue_scheme \<Rightarrow> entry_t \<Rightarrow> bool" where
  "offered ts q e \<longleftrightarrow> (\<exists>q1. vt_dequeue vt (departure_tick ts q) = Inr (e, q1))"

lemma better_waits_hd:
  assumes "qinv q" "e \<in># hw q"
  shows "better_waits e q \<longleftrightarrow> remaining (hd (gqueue q)) < remaining e"
proof -
  note qi = qinvD [OF assms(1)]
  have set: "set (gqueue q) = set_mset (hw q)" using qi(2) by (metis set_mset_mset)
  have "hd (gqueue q) \<in># hw q" using assms(2) unfolding qi(2) [symmetric] by (cases "gqueue q") auto
  moreover have "remaining (hd (gqueue q)) \<le> remaining x" if "x \<in># hw q" for x
    using ent.hd_least [OF qi(3), of x] that set by (simp add: not_Compare_prio prio_le_remaining)
  ultimately show ?thesis unfolding better_waits_def by fastforce
qed

lemma departure_sent:
  assumes inv: "qinv q" and tick: "buff (departure_tick ts q) = 0" "\<not> vt_empty vt (departure_tick ts q)"
    and d: "vt_dequeue vt (departure_tick ts q) = Inr (e, q1)" "hw_inv q1"
      "base_frame (departure_tick ts q) q1"
    and sent: "sent e (hw q) (hw q1)" "unat (buff q1) = slots e"
  shows "\<exists>q'. departure vt ts q = Inr q' \<and> qinv q' \<and> next_id q' = next_id q \<and> gstats q' = gstats q \<and>
     slot_effect (Sent e) q q'"
proof -
  note qi = qinvD [OF inv]
  have mem: "e \<in># hw q" using sent(1) by (simp add: sent_def)
  have le: "\<not> 1 < unat (buff q)" using tick(1) tick_buff [of ts q] by simp
  define q2 where "q2 = count_inaccuracy e (hd (gqueue q)) (count_packet q1)"
  have q2: "gqueue q2 = gqueue q" "queue.more q2 = queue.more q1" "buff q2 = buff q1"
    "next_id q2 = next_id q" "gstats q2 = gstats q" "comps (simstats q2) = comps (simstats q)"
    "underflow (simstats q2) = underflow (simstats q)"
    "pktinacc (simstats q2) = pktinacc (simstats q) + of_bool (gstats q \<and> better_waits e q)"
    using d(3) by (auto simp: q2_def frame base_frame_def better_waits_hd [OF inv mem])
  obtain q' where q': "retire ts e q2 = Inr q'"
    "mset (gqueue q') = serve e (hw q)" "ms_sorted Compare (gqueue q')"
    "queue.more q' = queue.more q1" "next_id q' = next_id q" "buff q' = buff q1" "gstats q' = gstats q"
    and stats: "pktinacc (simstats q') = pktinacc (simstats q2)"
      "underflow (simstats q') = underflow (simstats q2)"
      "comps (simstats q') = comps (simstats q2) + of_bool (gstats q \<and> remaining e \<le> 24)"
    using retire_ok [of e q2 ts] mem qi(2-4) q2 by auto
  have h': "hw q' = serve e (hw q)" "hw_inv q'"
    using sent(1) d(2) hw_more [of q' q1] inv_more [of q' q1] q'(4) by (auto simp: sent_def)
  have "distinct (map ent_id (gqueue q'))"
    by (rule distinct_map_subseteq [OF qi(4)]) (use image_serve [OF mem] q'(2) qi(2) in simp)
  moreover have "valid_entry x \<and> ent_id x < next_id q'" if "x \<in># hw q'" for x
    using serve_cases [of x e "hw q"] that qi(5,6) mem leftover_valid leftover_id
    unfolding h' q'(5) by fastforce
  ultimately have "qinv q'" using q' h' by (simp add: qinv_def)
  moreover have "gqueue q \<noteq> []" using mem qi(2) by auto
  then have "departure vt ts q = Inr q'"
    using tick d(1,3) q'(1) valid_entry_length [OF qi(5) [OF mem]]
    by (auto simp: departure_def Let_def base_frame_def frame q2_def ms_begin_Inr)
  ultimately show ?thesis
    using le sent q' stats q2 h'(1) by (auto simp: slot_effect_def Let_def sent_def)
qed

lemma departure_ok:
  assumes inv: "qinv q"
  shows "\<exists>q' oc. departure vt ts q = Inr q' \<and> qinv q' \<and> next_id q' = next_id q \<and>
     gstats q' = gstats q \<and> slot_effect oc q q' \<and>
     (oc = Underflow \<longrightarrow> offered ts q null_entry) \<and> (\<forall>e. oc = Sent e \<longrightarrow> offered ts q e)"
proof -
  let ?q = "departure_tick ts q"
  note qi = qinvD [OF inv]
  have h: "hw_inv ?q" "hw ?q = hw q"
    using qi(1) inv_more [of ?q q] hw_more [of ?q q] by (auto simp: frame)
  have qt: "qinv ?q" using inv h by (simp add: qinv_def frame)
  consider (busy) "buff ?q \<noteq> 0" | (idle) "buff ?q = 0" "vt_empty vt ?q"
    | (deq) "buff ?q = 0" "\<not> vt_empty vt ?q" by blast
  then show ?thesis
  proof cases
    case busy
    then have "1 < unat (buff q)" using tick_buff [of ts q] by (simp flip: unat_eq_zero)
    then have "slot_effect Busy q ?q" using h by (simp add: slot_effect_def Let_def frame tick_buff)
    moreover have "departure vt ts q = Inr ?q" using busy by (simp add: departure_def Let_def)
    ultimately show ?thesis using qt by (auto simp: frame)
  next
    case idle
    then have "\<not> 1 < unat (buff q)" using tick_buff [of ts q] by simp
    then have "slot_effect Idle q ?q"
      using idle h empty_iff [OF h(1)] by (simp add: slot_effect_def Let_def frame)
    moreover have "departure vt ts q = Inr ?q" using idle by (simp add: departure_def Let_def)
    ultimately show ?thesis using qt by (auto simp: frame)
  next
    case deq
    then have le: "\<not> 1 < unat (buff q)" using tick_buff [of ts q] by simp
    obtain e q1 where d: "vt_dequeue vt ?q = Inr (e, q1)" "hw_inv q1" "base_frame ?q q1"
      and e: "e = null_entry \<and> hw q1 = hw q \<and> buff q1 = 0 \<or>
        sent e (hw q) (hw q1) \<and> unat (buff q1) = slots e"
      using dequeue_ok [of ?q] h qi(5) deq(1) by auto
    from e show ?thesis
    proof
      assume null: "e = null_entry \<and> hw q1 = hw q \<and> buff q1 = 0"
      let ?q' = "count_underflow q1"
      have hw': "hw ?q' = hw q" "hw_inv ?q'"
        using null d(2) hw_more [of ?q' q1] inv_more [of ?q' q1] by (auto simp: frame)
      then have "qinv ?q'" using qt h d(3) by (auto simp: qinv_def frame base_frame_def)
      moreover have "departure vt ts q = Inr ?q'"
        using deq d(1) null by (simp add: departure_def Let_def null_entry_def)
      moreover have "slot_effect Underflow q ?q'"
        using le null hw' d(3) deq empty_iff [OF h(1)] h(2)
        by (auto simp: slot_effect_def Let_def frame base_frame_def)
      moreover have "offered ts q null_entry" using d(1) null by (auto simp: offered_def)
      ultimately show ?thesis using d(3) by (auto simp: frame base_frame_def)
    next
      assume "sent e (hw q) (hw q1) \<and> unat (buff q1) = slots e"
      moreover have "offered ts q e" using d(1) by (auto simp: offered_def)
      ultimately show ?thesis using departure_sent [OF inv deq d] by fastforce
    qed
  qed
qed

lemma departure_effect:
  assumes "qinv q" and "departure vt ts q = Inr q'"
  obtains oc where "qinv q'" "next_id q' = next_id q" "gstats q' = gstats q" "slot_effect oc q q'"
    "oc = Underflow \<Longrightarrow> offered ts q null_entry" "\<And>e. oc = Sent e \<Longrightarrow> offered ts q e"
  using departure_ok [OF assms(1), of ts] assms(2) by auto

text \<open>
  The work in the queue, in slots: what the link still has to send of the current packet and what
  is left of the waiting messages. A slot in which the link is busy removes exactly one unit.
\<close>

lemma departure_backlog:
  assumes "qinv q" and "departure vt ts q = Inr q'"
  shows "backlog q' = backlog q - (if buff q = 0 then 0 else 1)" and "size (hw q') \<le> size (hw q)"
proof -
  obtain oc where "slot_effect oc q q'" using departure_effect [OF assms] .
  then show "backlog q' = backlog q - (if buff q = 0 then 0 else 1)" "size (hw q') \<le> size (hw q)"
    using sum_remaining_serve size_serve
    by (cases oc; auto simp: slot_effect_def Let_def backlog_def sent_def simp flip: unat_eq_zero)+
qed

text \<open>The invariant holds in every reachable state, and the capacity is never exceeded.\<close>

lemma reach_qinv:
  assumes "qreach vt cap init q" and "qinv init" "size (hw init) \<le> cap"
  shows "qinv q \<and> size (hw q) \<le> cap"
  using assms(1)
proof (induction rule: qreach.induct)
  case reach_init
  show ?case using assms(2,3) by simp
next
  case (reach_arrival q n ts q')
  then have "size (hw q) < cap" using size_hw [OF qinvD(1)] by simp
  then show ?case using arrival_ok [of q n ts] reach_arrival by auto
next
  case (reach_departure q ts q')
  then show ?case using departure_backlog(2) [of q ts q'] departure_effect [of q ts q'] by (metis le_trans)
next
  case (reach_step q ts q')
  then obtain q'' where "vt_step vt ts q = Inr q''" "hw_inv q''" "hw q'' = hw q" "base_frame q q''"
    using step_ok [of q ts] qinvD(1) by blast
  then show ?case using reach_step by (auto simp: qinv_def base_frame_def)
qed

text \<open>While statistics are kept, every message is either completed or still waiting.\<close>

lemma size_sent:
  assumes "sent e M M'"
  shows "size M = size M' + of_bool (remaining e \<le> packet_slots)"
proof -
  obtain N where "M = add_mset e N" "M' = leftover e + N"
    using assms serve_obtain [of e M] by (auto simp: sent_def)
  then show ?thesis by (auto simp: leftover_def)
qed

lemma departure_conserves:
  assumes "qinv q" and "departure vt ts q = Inr q'" and "gstats q"
  shows "comps (simstats q') + of_nat (size (hw q')) = comps (simstats q) + of_nat (size (hw q))"
proof -
  obtain oc where "slot_effect oc q q'" using departure_effect [OF assms(1,2)] .
  then show ?thesis using assms(3) size_sent
    by (cases oc) (auto simp: slot_effect_def Let_def)
qed

end

subsection \<open>Queues that never leave the link idle\<close>

text \<open>
  \<open>ready q\<close>: the hardware can offer a message if one waits. Every \<open>step\<close> establishes it, so a
  simulation that steps the queue once per slot never wastes a slot.
\<close>

locale paced_impl = queue_impl +
  fixes ready :: "'a queue_scheme \<Rightarrow> bool"
  assumes ready_more: "queue.more q = queue.more q' \<Longrightarrow> ready q = ready q'"
    and dequeue_ready: "hw_inv q \<Longrightarrow> ready q \<Longrightarrow> hw q \<noteq> {#} \<Longrightarrow> vt_dequeue vt q = Inr (e, q') \<Longrightarrow>
      e \<in># hw q"
    and step_ready: "hw_inv q \<Longrightarrow> vt_step vt ts q = Inr q' \<Longrightarrow> ready q'"
begin

text \<open>
  A departure from a ready queue counts no underflow, and after it the link is free only if nothing
  waits.
\<close>

lemma paced_departure:
  assumes inv: "qinv q" and r: "ready q" and d: "departure vt ts q = Inr q'"
  shows "underflow (simstats q') = underflow (simstats q)" and "buff q' = 0 \<Longrightarrow> hw q' = {#}"
proof -
  let ?q = "departure_tick ts q"
  obtain oc where oc: "slot_effect oc q q'" "oc = Underflow \<Longrightarrow> offered ts q null_entry"
    using departure_effect [OF inv d] by metis
  have h: "hw_inv ?q" "hw ?q = hw q" "ready ?q"
    using qinvD(1) [OF inv] r inv_more [of ?q q] hw_more [of ?q q] ready_more [of ?q q]
    by (auto simp: frame)
  have "null_entry \<in># hw q" if "offered ts q null_entry" "hw q \<noteq> {#}"
    using that dequeue_ready [OF h(1,3)] h(2) by (auto simp: offered_def)
  then have "oc \<noteq> Underflow"
    using oc qinvD(5) [OF inv, of null_entry] by (auto simp: slot_effect_def Let_def)
  moreover have "0 < slots e" if "oc = Sent e" for e
  proof -
    have "e \<in># hw q" using that oc(1) by (simp add: slot_effect_def Let_def sent_def)
    then show ?thesis using qinvD(5) [OF inv, of e] by (simp add: slots_def valid_entry_def)
  qed
  ultimately show "underflow (simstats q') = underflow (simstats q)" "buff q' = 0 \<Longrightarrow> hw q' = {#}"
    using oc(1) by (cases oc; auto simp: slot_effect_def Let_def simp flip: unat_eq_zero)+
qed

end

subsection \<open>Queues that always serve the best message\<close>

locale srpt_impl = queue_impl +
  assumes dequeue_best: "hw_inv q \<Longrightarrow> hw q \<noteq> {#} \<Longrightarrow> vt_dequeue vt q = Inr (e, q') \<Longrightarrow>
    e \<in># hw q \<and> (\<forall>x\<in>#hw q. \<not> Compare x e)"

text \<open>Such a queue is always ready.\<close>

sublocale srpt_impl \<subseteq> paced_impl vt hw hw_inv cap "\<lambda>_. True"
  by unfold_locales (use dequeue_best in auto)

context srpt_impl
begin

lemma best_no_better: "\<forall>x\<in>#hw q. \<not> Compare x e \<Longrightarrow> \<not> better_waits e q"
  by (auto simp: better_waits_def not_Compare_prio dest!: prio_le_remaining)

text \<open>It is never inaccurate: every packet that leaves belongs to a best waiting message.\<close>

lemma srpt_departure:
  assumes inv: "qinv q" and d: "departure vt ts q = Inr q'"
  shows "pktinacc (simstats q') = pktinacc (simstats q)"
proof -
  let ?q = "departure_tick ts q"
  obtain oc where oc: "slot_effect oc q q'" "\<And>e. oc = Sent e \<Longrightarrow> offered ts q e"
    using departure_effect [OF inv d] by metis
  have h: "hw_inv ?q" "hw ?q = hw q"
    using qinvD(1) [OF inv] inv_more [of ?q q] hw_more [of ?q q] by (auto simp: frame)
  have "\<not> better_waits e q" if "oc = Sent e" for e
  proof -
    have "e \<in># hw q" using that oc(1) by (simp add: slot_effect_def Let_def sent_def)
    then have "hw ?q \<noteq> {#}" using h(2) by auto
    then have "\<forall>x\<in>#hw q. \<not> Compare x e"
      using oc(2) [OF that] dequeue_best [OF h(1)] h(2) by (fastforce simp: offered_def)
    then show ?thesis by (rule best_no_better)
  qed
  then show ?thesis using oc(1) by (cases oc) (auto simp: slot_effect_def Let_def)
qed

end

end
