(* ===== verification/Ideal.thy ===== *)
theory Ideal
  imports Queue_Base
begin

section \<open>The ideal queue\<close>

text \<open>
  Class \<open>Ideal\<close> of \<open>model/queues.hh\<close>: a queue that keeps all its messages in priority order.
  Its \<open>enqueue\<close> and \<open>step\<close> also fill the per-slot statistics \<open>slotstats\<close>, an array of 1024
  elements, without a bound check: with more messages than that they write past the array, which
  the model reports as \<open>OutOfRange\<close>. The class satisfies \<open>srpt_impl\<close> with that capacity.
\<close>

subsection \<open>State and operations\<close>

record ideal = queue +
  ideal_hwqueue :: "entry_t list"

text \<open>The state the constructor leaves.\<close>

definition ideal_init :: ideal where
  "ideal_init = \<lparr>buff = 0, next_id = 0, gstats = True, slotstats = (\<lambda>_. zero_slotstat),
     queuestats = zero_queuestat, simstats = zero_simstat, violations = [], gqueue = [],
     ideal_hwqueue = []\<rparr>"

text \<open>The backlog in front of position \<open>offset\<close>: the loop of \<open>enqueue\<close>.\<close>

definition mass_before :: "nat \<Rightarrow> entry_t list \<Rightarrow> u64 \<Rightarrow> u64" where
  "mass_before offset hwqueue m = fold (\<lambda>it mass. mass + word_of_int (remaining it)) (take offset hwqueue) m"

definition ideal_enqueue :: "entry_t \<Rightarrow> ideal \<Rightarrow> ideal res" where
  "ideal_enqueue entry q =
     (let hwqueue = ms_insert Compare entry (ideal_hwqueue q);
          offset = ms_offset Compare entry (ideal_hwqueue q);
          mass = mass_before offset hwqueue (buff q);
          st = slotstats q offset
      in if offset < SLOTS
         then Inr (q\<lparr>ideal_hwqueue := hwqueue,
                     slotstats := (slotstats q)(offset := st\<lparr>
                       arrivalbacklog := arrivalbacklog st + mass,
                       arrivals := arrivals st + 1\<rparr>)\<rparr>)
         else Inl OutOfRange)"

definition ideal_dequeue :: "ideal \<Rightarrow> (entry_t \<times> ideal) res" where
  "ideal_dequeue q =
     (case ideal_hwqueue q of
        [] \<Rightarrow> Inr (null_entry, q)
      | ret # rest \<Rightarrow>
          (let head = after_packet ret
           in if remaining head > 0
              then Inr (ret, q\<lparr>buff := word_of_int packet_slots,
                               ideal_hwqueue := ms_insert Compare head rest\<rparr>)
              else Inr (ret, q\<lparr>buff := word_of_int (remaining head + packet_slots),
                               ideal_hwqueue := rest\<rparr>)))"

definition ideal_empty :: "ideal \<Rightarrow> bool" where
  "ideal_empty q \<longleftrightarrow> ideal_hwqueue q = []"

definition ideal_step :: "u64 \<Rightarrow> ideal \<Rightarrow> ideal res" where
  "ideal_step ts q =
     (let n = length (ideal_hwqueue q);
          qs = queuestats q;
          qs' = (if maxsize qs = 0 \<or> word_of_nat n > maxsize qs
                 then qs\<lparr>maxsize := word_of_nat n\<rparr> else qs)
      in if n \<le> SLOTS
         then Inr (q\<lparr>queuestats := qs',
                     slotstats := (\<lambda>i. if i < n
                       then (slotstats q i)\<lparr>occupied := occupied (slotstats q i) + 1\<rparr>
                       else slotstats q i)\<rparr>)
         else Inl OutOfRange)"

definition ideal_backsize :: "ideal \<Rightarrow> int" where
  "ideal_backsize q = 0"

definition ideal_size :: "ideal \<Rightarrow> int" where
  "ideal_size q = int (length (ideal_hwqueue q))"

definition ideal_vt :: "ideal vtable" where
  "ideal_vt = \<lparr>vt_step = ideal_step, vt_empty = ideal_empty, vt_enqueue = ideal_enqueue,
     vt_dequeue = ideal_dequeue, vt_size = ideal_size, vt_backsize = ideal_backsize\<rparr>"

lemma ideal_vt_simps [simp]:
  "vt_step ideal_vt = ideal_step" "vt_empty ideal_vt = ideal_empty"
  "vt_enqueue ideal_vt = ideal_enqueue" "vt_dequeue ideal_vt = ideal_dequeue"
  "vt_size ideal_vt = ideal_size" "vt_backsize ideal_vt = ideal_backsize"
  by (simp_all add: ideal_vt_def)

subsection \<open>The interface\<close>

definition ideal_hw :: "ideal \<Rightarrow> entry_t multiset" where
  "ideal_hw q = mset (ideal_hwqueue q)"

definition ideal_hw_inv :: "ideal \<Rightarrow> bool" where
  "ideal_hw_inv q \<longleftrightarrow> ms_sorted Compare (ideal_hwqueue q)"

lemma ideal_hwqueue_more: "queue.more q = queue.more q' \<Longrightarrow> ideal_hwqueue q = ideal_hwqueue q'"
  for q q' :: ideal
  by (cases q; cases q') simp

lemma ideal_enqueue_ok:
  assumes "ideal_hw_inv q" "size (ideal_hw q) < SLOTS"
  shows "\<exists>q'. ideal_enqueue e q = Inr q' \<and> ideal_hw_inv q' \<and>
     ideal_hw q' = add_mset e (ideal_hw q) \<and> base_frame q q' \<and> buff q' = buff q"
  using assms ms_offset_le [of Compare e "ideal_hwqueue q"]
  by (auto simp: ideal_enqueue_def Let_def ideal_hw_def ideal_hw_inv_def base_frame_def
      ent.sorted_insert)

lemma ideal_dequeue_ok:
  assumes inv: "ideal_hw_inv q" and v: "\<forall>e\<in>#ideal_hw q. valid_entry e" and ne: "ideal_hw q \<noteq> {#}"
  shows "\<exists>q'. ideal_dequeue q = Inr (hd (ideal_hwqueue q), q') \<and> ideal_hw_inv q' \<and> base_frame q q' \<and>
     sent (hd (ideal_hwqueue q)) (ideal_hw q) (ideal_hw q') \<and>
     unat (buff q') = slots (hd (ideal_hwqueue q))"
proof -
  obtain e es where q: "ideal_hwqueue q = e # es"
    using ne by (cases "ideal_hwqueue q") (auto simp: ideal_hw_def)
  have e: "valid_entry e" using v q by (simp add: ideal_hw_def)
  have es: "ms_sorted Compare es" using inv q by (simp add: ideal_hw_inv_def ms_sorted_Cons)
  show ?thesis
  proof (cases "remaining e > 24")
    case True
    then have "slots e = 24" by (simp add: slots_def)
    with True q es show ?thesis
      by (simp add: ideal_dequeue_def ideal_hw_def ideal_hw_inv_def base_frame_def sent_def
          leftover_def ent.sorted_insert)
  next
    case False
    define w where "w = (word_of_int (remaining e) :: u64)"
    have d: "ideal_dequeue q = Inr (e, q\<lparr>buff := w, ideal_hwqueue := es\<rparr>)"
      using False q by (simp add: ideal_dequeue_def w_def)
    have w: "unat w = slots e"
      unfolding w_def using False e
      by (subst unat_word_of_int_small) (auto simp: valid_entry_def slots_def int_max_def)
    show ?thesis using False q es
      by (simp add: d w ideal_hw_def ideal_hw_inv_def base_frame_def sent_def leftover_def)
  qed
qed

lemma ideal_step_ok:
  assumes "ideal_hw_inv q" "size (ideal_hw q) \<le> SLOTS"
  shows "\<exists>q'. ideal_step ts q = Inr q' \<and> ideal_hw_inv q' \<and> ideal_hw q' = ideal_hw q \<and>
     base_frame q q' \<and> buff q' = buff q"
  using assms by (auto simp: ideal_step_def Let_def ideal_hw_def ideal_hw_inv_def base_frame_def)

interpretation idl: srpt_impl ideal_vt ideal_hw ideal_hw_inv SLOTS
proof unfold_locales
  fix q q' :: ideal and e and ts
  show "queue.more q = queue.more q' \<Longrightarrow> ideal_hw q = ideal_hw q'"
    using ideal_hwqueue_more [of q q'] by (simp add: ideal_hw_def)
  show "queue.more q = queue.more q' \<Longrightarrow> ideal_hw_inv q = ideal_hw_inv q'"
    using ideal_hwqueue_more [of q q'] by (simp add: ideal_hw_inv_def)
  show "vt_empty ideal_vt q \<longleftrightarrow> ideal_hw q = {#}"
    by (simp add: ideal_empty_def ideal_hw_def)
  show "vt_size ideal_vt q = int (size (ideal_hw q))"
    by (simp add: ideal_size_def ideal_hw_def)
  show "ideal_hw_inv q \<Longrightarrow> size (ideal_hw q) < SLOTS \<Longrightarrow>
    \<exists>q'. vt_enqueue ideal_vt e q = Inr q' \<and> ideal_hw_inv q' \<and>
      ideal_hw q' = add_mset e (ideal_hw q) \<and> base_frame q q' \<and> buff q' = buff q"
    using ideal_enqueue_ok by simp
  show "ideal_hw_inv q \<Longrightarrow> \<forall>e\<in>#ideal_hw q. valid_entry e \<Longrightarrow> buff q = 0 \<Longrightarrow>
    \<exists>e q'. vt_dequeue ideal_vt q = Inr (e, q') \<and> ideal_hw_inv q' \<and> base_frame q q' \<and>
      (e = null_entry \<and> ideal_hw q' = ideal_hw q \<and> buff q' = 0 \<or>
       sent e (ideal_hw q) (ideal_hw q') \<and> unat (buff q') = slots e)"
    using ideal_dequeue_ok [of q]
    by (cases "ideal_hwqueue q") (auto simp: ideal_dequeue_def ideal_hw_def)
  show "ideal_hw_inv q \<Longrightarrow> size (ideal_hw q) \<le> SLOTS \<Longrightarrow>
    \<exists>q'. vt_step ideal_vt ts q = Inr q' \<and> ideal_hw_inv q' \<and> ideal_hw q' = ideal_hw q \<and>
      base_frame q q' \<and> buff q' = buff q"
    using ideal_step_ok by simp
  show "ideal_hw_inv q \<Longrightarrow> ideal_hw q \<noteq> {#} \<Longrightarrow> vt_dequeue ideal_vt q = Inr (e, q') \<Longrightarrow>
    e \<in># ideal_hw q \<and> (\<forall>x\<in>#ideal_hw q. \<not> Compare x e)"
    by (auto simp: ideal_dequeue_def ideal_hw_def ideal_hw_inv_def ms_sorted_Cons Let_def
        ent.lt_irrefl split: list.splits if_splits)
qed

subsection \<open>The invariant, spelled out\<close>

definition ideal_ok :: "ideal \<Rightarrow> bool" where
  "ideal_ok q \<longleftrightarrow> ms_sorted Compare (ideal_hwqueue q) \<and> ms_sorted Compare (gqueue q) \<and>
     mset (gqueue q) = mset (ideal_hwqueue q) \<and> distinct (map ent_id (gqueue q)) \<and>
     (\<forall>e \<in> set (ideal_hwqueue q). valid_entry e \<and> ent_id e < next_id q)"

lemma ideal_ok_qinv: "ideal_ok q \<longleftrightarrow> idl.qinv q"
  by (auto simp: ideal_ok_def idl.qinv_def ideal_hw_def ideal_hw_inv_def)

lemma ideal_init_ok: "ideal_ok ideal_init"
  by (simp add: ideal_ok_def ideal_init_def)

definition ideal_work :: "ideal \<Rightarrow> nat" where
  "ideal_work q = unat (buff q) + (\<Sum>e\<leftarrow>ideal_hwqueue q. nat (remaining e))"

lemma ideal_work_backlog: "ideal_work q = idl.backlog q"
proof -
  have "(\<Sum>e\<leftarrow>xs. nat (remaining e)) = sum_remaining (mset xs)" for xs
    by (induction xs) simp_all
  then show ?thesis by (simp add: ideal_work_def idl.backlog_def ideal_hw_def)
qed

text \<open>A small queue with two messages, for the witnesses.\<close>

definition ideal_two :: ideal where
  "ideal_two = ideal_init\<lparr>next_id := 2,
     ideal_hwqueue := [\<lparr>ent_ts = 0, ent_id = 1, ent_length = 5, remaining = 5, taint = False\<rparr>,
                       \<lparr>ent_ts = 0, ent_id = 0, ent_length = 30, remaining = 30, taint = False\<rparr>],
     gqueue := [\<lparr>ent_ts = 0, ent_id = 1, ent_length = 5, remaining = 5, taint = False\<rparr>,
                \<lparr>ent_ts = 0, ent_id = 0, ent_length = 30, remaining = 30, taint = False\<rparr>]\<rparr>"

lemma ideal_two_ok: "ideal_ok ideal_two"
  by (simp add: ideal_ok_def ideal_two_def ideal_init_def ms_sorted_Cons Compare_def valid_entry_def
      int_max_def)

lemma ideal_two_simps [simp]: "length (ideal_hwqueue ideal_two) = 2" "next_id ideal_two = 2"
  "buff ideal_two = 0" "ideal_work ideal_two = 35" "gstats ideal_two"
  by (simp_all add: ideal_two_def ideal_init_def ideal_work_def)

subsection \<open>Properties\<close>

text \<open>A new message enters an \<open>Ideal\<close> queue that holds fewer than 1024 messages without any
  error: the assertion on its length holds, the array of statistics is not overrun, the message
  joins the waiting ones, and reference queue and hardware queue still hold the same messages in
  priority order.\<close>

theorem ideal_arrival:
  assumes "ideal_ok q" "length (ideal_hwqueue q) < SLOTS" "0 < n" "n \<le> int_max" "next_id q + 1 \<noteq> 0"
  shows "\<exists>q'. arrival ideal_vt ts n q = Inr q' \<and> ideal_ok q' \<and> buff q' = buff q \<and>
     mset (ideal_hwqueue q') = add_mset (new_entry ts n q) (mset (ideal_hwqueue q)) \<and>
     simstats q' = simstats q"
  using idl.arrival_ok [of q n ts] assms by (auto simp: ideal_ok_qinv ideal_hw_def)

theorem ideal_arrival_witness:
  "\<exists>q'. arrival ideal_vt 7 64 ideal_two = Inr q' \<and> ideal_ok q' \<and> buff q' = buff ideal_two \<and>
     mset (ideal_hwqueue q') = add_mset (new_entry 7 64 ideal_two) (mset (ideal_hwqueue ideal_two)) \<and>
     simstats q' = simstats ideal_two"
  by (rule ideal_arrival) (simp_all add: ideal_two_ok SLOTS_def int_max_def)

text \<open>A departure from an \<open>Ideal\<close> queue never fails: the assertion that exactly one entry of the
  reference queue is erased always holds. It counts neither an inaccuracy nor an underflow, it
  leaves the link free only if no message waits, and while statistics are kept the completed plus
  the waiting messages stay the same number.\<close>

theorem ideal_departure:
  assumes "ideal_ok q"
  shows "\<exists>q'. departure ideal_vt ts q = Inr q' \<and> ideal_ok q' \<and>
     pktinacc (simstats q') = pktinacc (simstats q) \<and>
     underflow (simstats q') = underflow (simstats q) \<and>
     (buff q' = 0 \<longrightarrow> ideal_hwqueue q' = []) \<and>
     (gstats q \<longrightarrow> comps (simstats q') + of_nat (length (ideal_hwqueue q')) =
        comps (simstats q) + of_nat (length (ideal_hwqueue q)))"
proof -
  have inv: "idl.qinv q" using assms by (simp add: ideal_ok_qinv)
  obtain q' where d: "departure ideal_vt ts q = Inr q'" "idl.qinv q'" using idl.departure_ok [OF inv] by blast
  show ?thesis
    using d idl.srpt_departure [OF inv d(1)] idl.paced_departure [OF inv _ d(1)]
      idl.departure_conserves [OF inv d(1)]
    by (auto simp: ideal_ok_qinv ideal_hw_def)
qed

theorem ideal_departure_witness:
  "\<exists>q'. departure ideal_vt 9 ideal_two = Inr q' \<and> ideal_ok q' \<and>
     pktinacc (simstats q') = pktinacc (simstats ideal_two) \<and>
     underflow (simstats q') = underflow (simstats ideal_two) \<and>
     (buff q' = 0 \<longrightarrow> ideal_hwqueue q' = []) \<and>
     (gstats ideal_two \<longrightarrow> comps (simstats q') + of_nat (length (ideal_hwqueue q')) =
        comps (simstats ideal_two) + of_nat (length (ideal_hwqueue ideal_two)))"
  by (rule ideal_departure) (rule ideal_two_ok)

text \<open>A departure takes exactly one slot of work off a busy link, whatever it decides to send,
  and none if the link is free: the work of an \<open>Ideal\<close> queue, what the link still has to send
  plus what all messages still need, shrinks by one per busy slot.\<close>

theorem ideal_departure_work:
  assumes "ideal_ok q" "departure ideal_vt ts q = Inr q'"
  shows "ideal_work q' = ideal_work q - (if buff q = 0 then 0 else 1)"
  using idl.departure_backlog(1) [of q ts q'] assms by (simp add: ideal_ok_qinv ideal_work_backlog)

theorem ideal_departure_work_witness:
  "\<exists>q'. departure ideal_vt 9 ideal_two = Inr q' \<and> ideal_work q' = 35"
proof -
  obtain q' where q': "departure ideal_vt 9 ideal_two = Inr q'"
    using idl.departure_ok [of ideal_two 9] ideal_two_ok by (auto simp: ideal_ok_qinv)
  then show ?thesis using ideal_departure_work [OF ideal_two_ok q'] by simp
qed

text \<open>C8: In every state that arrivals, departures and steps can reach from the empty \<open>Ideal\<close> queue
  with at most 1024 messages, the hardware queue is the reference queue: the same entries in the
  same order.\<close>

theorem ideal_is_reference:
  assumes "qreach ideal_vt SLOTS ideal_init q"
  shows "ideal_hwqueue q = gqueue q"
proof -
  have "idl.qinv q"
    using idl.reach_qinv [OF assms] ideal_init_ok by (simp add: ideal_ok_qinv ideal_hw_def ideal_init_def)
  then have ok: "ideal_ok q" by (simp add: ideal_ok_qinv)
  show ?thesis
  proof (rule ent.sorted_mset_unique)
    fix x y assume x: "x \<in> set (ideal_hwqueue q)" "y \<in> set (ideal_hwqueue q)" and e: "ms_equiv Compare x y"
    have "set (ideal_hwqueue q) = set (gqueue q)" using ok by (metis ideal_ok_def mset_eq_setD)
    then show "x = y" using ok x e by (auto simp: ideal_ok_def distinct_map inj_on_def equiv_prio prio_eq_iff)
  qed (use ok in \<open>simp_all add: ideal_ok_def\<close>)
qed

theorem ideal_is_reference_witness:
  "\<exists>q. qreach ideal_vt SLOTS ideal_init q \<and> gqueue q \<noteq> [] \<and> ideal_hwqueue q = gqueue q"
proof -
  obtain q where a: "arrival ideal_vt 0 40 ideal_init = Inr q" "gqueue q \<noteq> []"
    by (simp add: arrival_def Let_def ideal_enqueue_def ideal_init_def new_entry_def SLOTS_def)
  have "qreach ideal_vt SLOTS ideal_init q"
    by (rule reach_arrival [OF reach_init _ _ _ _ a(1)])
      (simp_all add: int_max_def ideal_size_def ideal_init_def SLOTS_def)
  then show ?thesis using a(2) ideal_is_reference by blast
qed

text \<open>The capacity is sharp: when an \<open>Ideal\<close> queue holds 1024 messages, one more arrival
  followed by the \<open>step\<close> of the same slot writes outside \<open>slotstats\<close>.\<close>

theorem ideal_overrun:
  assumes "length (ideal_hwqueue q) = SLOTS" "n \<noteq> 0"
  shows "rbind (arrival ideal_vt ts n q) (ideal_step ts) = Inl OutOfRange"
  using assms by (simp add: arrival_def Let_def ideal_enqueue_def ideal_step_def)

definition ideal_full :: ideal where
  "ideal_full = ideal_init\<lparr>ideal_hwqueue := replicate SLOTS null_entry\<rparr>"

theorem ideal_overrun_witness:
  "rbind (arrival ideal_vt 3 5 ideal_full) (ideal_step 3) = Inl OutOfRange"
  by (rule ideal_overrun) (simp_all add: ideal_full_def ideal_init_def)

lemma mass_fold: "fold (\<lambda>it mass. mass + word_of_int (remaining it)) xs m =
    m + word_of_int (\<Sum>e\<leftarrow>xs. remaining e)" for m :: u64
  by (induction xs arbitrary: m) (simp_all add: ac_simps)

lemma ms_offset_filter:
  "ms_sorted Compare xs \<Longrightarrow> take (ms_offset Compare e xs) xs = filter (\<lambda>x. \<not> Compare e x) xs"
proof (induction xs)
  case (Cons x xs)
  have "Compare e y" if "Compare e x" "y \<in> set xs" for y
    using that Cons.prems by (auto simp: ms_sorted_Cons Compare_prio)
  then show ?case using Cons by (auto simp: ms_sorted_Cons filter_empty_conv)
qed simp

lemma take_offset_insert: "take (ms_offset lt e xs) (ms_insert lt e xs) = take (ms_offset lt e xs) xs"
  by (induction xs) auto

text \<open>What \<open>enqueue\<close> of \<open>Ideal\<close> adds to \<open>arrivalbacklog\<close>, in the element for the position the
  new message gets, is exactly the number of slots before its turn: what is left of the packet on
  the link plus what is left of all messages that are not worse than it. No other element of the
  statistics changes.\<close>

theorem ideal_enqueue_backlog:
  assumes "ideal_ok q" "length (ideal_hwqueue q) < SLOTS"
  shows "\<exists>q' i. ideal_enqueue e q = Inr q' \<and> i < SLOTS \<and> ideal_hwqueue q' ! i = e \<and>
     arrivalbacklog (slotstats q' i) = arrivalbacklog (slotstats q i) + buff q +
       word_of_int (\<Sum>x\<leftarrow>filter (\<lambda>x. \<not> Compare e x) (ideal_hwqueue q). remaining x) \<and>
     arrivals (slotstats q' i) = arrivals (slotstats q i) + 1 \<and>
     (\<forall>j. j \<noteq> i \<longrightarrow> slotstats q' j = slotstats q j)"
proof -
  define i where "i = ms_offset Compare e (ideal_hwqueue q)"
  have i: "i < SLOTS" using ms_offset_le [of Compare e "ideal_hwqueue q"] assms(2) by (simp add: i_def)
  have nth: "ms_insert lt e xs ! ms_offset lt e xs = e" for lt :: "entry_t \<Rightarrow> entry_t \<Rightarrow> bool" and xs
    by (induction xs) auto
  have mass: "mass_before i (ms_insert Compare e (ideal_hwqueue q)) (buff q) = buff q +
      word_of_int (\<Sum>x\<leftarrow>filter (\<lambda>x. \<not> Compare e x) (ideal_hwqueue q). remaining x)"
    using assms(1) by (simp add: mass_before_def mass_fold i_def take_offset_insert ms_offset_filter ideal_ok_def)
  show ?thesis
    using i mass nth unfolding i_def
    by (auto simp: ideal_enqueue_def Let_def add.assoc intro!: exI [of _ "ms_offset Compare e (ideal_hwqueue q)"])
qed

theorem ideal_enqueue_backlog_witness:
  "\<exists>q' i. ideal_enqueue (new_entry 0 20 ideal_two) ideal_two = Inr q' \<and> i < SLOTS \<and>
     ideal_hwqueue q' ! i = new_entry 0 20 ideal_two \<and>
     arrivalbacklog (slotstats q' i) = arrivalbacklog (slotstats ideal_two i) + buff ideal_two +
       word_of_int (\<Sum>x\<leftarrow>filter (\<lambda>x. \<not> Compare (new_entry 0 20 ideal_two) x) (ideal_hwqueue ideal_two).
         remaining x) \<and>
     arrivals (slotstats q' i) = arrivals (slotstats ideal_two i) + 1 \<and>
     (\<forall>j. j \<noteq> i \<longrightarrow> slotstats q' j = slotstats ideal_two j)"
  by (rule ideal_enqueue_backlog) (simp_all add: ideal_two_ok SLOTS_def)

end
