(* ===== verification/Pifo.thy ===== *)
theory Pifo
  imports Queue_Base
begin

section \<open>The PIFO with a backing store\<close>

text \<open>
  Class \<open>PIFO_Naive\<close> of \<open>model/queues.hh\<close>: a small priority queue \<open>hwqueue\<close> of about
  \<open>priorities\<close> entries in front of a large \<open>backing\<close> vector. Each slot, \<open>step\<close> moves at most
  one entry towards its place in the backing vector (\<open>insert\<close>, at position \<open>scan\<close>), refills the
  small queue from the front of the vector, and pushes the worst entry of an overfull small queue
  out to the vector. An entry of the vector carries a flag, false when it was dropped in the
  middle of a scan; \<open>firstunsort\<close> points at such an entry, or is -1. \<open>step\<close> is modelled by its
  four phases in the order of the code, with every iterator access of the code checked.
\<close>

subsection \<open>State\<close>

record pifo = queue +
  hwqueue :: "entry_t list"
  backing :: "(entry_t \<times> bool) list"
  insert_entry :: entry_t
  scan :: int
  firstunsort :: int
  active :: int
  priorities :: int
  diff :: bool

definition pifo_init :: "int \<Rightarrow> pifo" where
  "pifo_init p = \<lparr>buff = 0, next_id = 0, gstats = True, slotstats = (\<lambda>_. zero_slotstat),
     queuestats = zero_queuestat, simstats = zero_simstat, violations = [], gqueue = [],
     hwqueue = [], backing = [], insert_entry = null_entry, scan = -1, firstunsort = -1,
     active = 0, priorities = p, diff = False\<rparr>"

subsection \<open>Operations\<close>

definition pifo_enqueue :: "entry_t \<Rightarrow> pifo \<Rightarrow> pifo res" where
  "pifo_enqueue entry q =
     (if active q < int_max
      then Inr (q\<lparr>hwqueue := ms_insert Compare entry (hwqueue q), active := active q + 1\<rparr>)
      else Inl SignedOverflow)"

definition pifo_dequeue :: "pifo \<Rightarrow> (entry_t \<times> pifo) res" where
  "pifo_dequeue q =
     (case hwqueue q of
        [] \<Rightarrow> Inr (null_entry, q)
      | ret # rest \<Rightarrow>
          (let head = after_packet ret
           in if remaining head > 0
              then Inr (ret, q\<lparr>buff := word_of_int packet_slots,
                               hwqueue := ms_insert Compare head rest\<rparr>)
              else Inr (ret, q\<lparr>buff := word_of_int (remaining head + packet_slots),
                               hwqueue := rest, active := active q - 1\<rparr>)))"

definition pifo_empty :: "pifo \<Rightarrow> bool" where
  "pifo_empty q \<longleftrightarrow> active q = 0"

definition pifo_maxsize :: "pifo \<Rightarrow> pifo" where
  "pifo_maxsize q =
     (let qs = queuestats q
      in if maxsize qs = 0 \<or> word_of_int (active q) > maxsize qs
         then q\<lparr>queuestats := qs\<lparr>maxsize := word_of_int (active q)\<rparr>\<rparr> else q)"

text \<open>Not busy scanning, but there is an unsorted entry: pick it up.\<close>

definition pifo_pick :: "pifo \<Rightarrow> pifo res" where
  "pifo_pick q =
     (if scan q = -1 \<and> firstunsort q \<noteq> -1 then
        rbind (vec_at (backing q) (firstunsort q)) (\<lambda>missort.
        rbind (cpp_assert (snd missort = False)) (\<lambda>_.
        rbind (vec_erase (backing q) (firstunsort q)) (\<lambda>bk.
          Inr (q\<lparr>backing := bk, insert_entry := fst missort, scan := firstunsort q,
                 firstunsort := -1, diff := True\<rparr>))))
      else Inr q)"

text \<open>Move the entry in hand one position on, or put it down.\<close>

definition pifo_scan_once :: "pifo \<Rightarrow> pifo res" where
  "pifo_scan_once q =
     (if int_ge_size (scan q) (length (backing q)) then
        rbind (vec_insert (backing q) (scan q) (insert_entry q, True)) (\<lambda>bk.
          Inr (q\<lparr>backing := bk, scan := -1\<rparr>))
      else
        rbind (vec_at (backing q) (scan q)) (\<lambda>compare.
          if Compare (insert_entry q) (fst compare) then
            (if snd compare then
               rbind (vec_insert (backing q) (scan q) (insert_entry q, True)) (\<lambda>bk.
                 Inr (q\<lparr>backing := bk,
                        firstunsort := (if scan q \<le> firstunsort q then firstunsort q + 1
                                        else firstunsort q),
                        scan := -1\<rparr>))
             else
               rbind (vec_erase (backing q) (scan q)) (\<lambda>bk.
               rbind (vec_insert bk (scan q) (insert_entry q, False)) (\<lambda>bk'.
                 Inr (q\<lparr>backing := bk', insert_entry := fst compare,
                        firstunsort := (if scan q < firstunsort q \<or> firstunsort q = -1
                                        then scan q else firstunsort q),
                        scan := scan q + 1\<rparr>))))
          else Inr (q\<lparr>scan := scan q + 1\<rparr>)))"

definition pifo_scan :: "pifo \<Rightarrow> pifo res" where
  "pifo_scan q =
     (if scan q \<noteq> -1 then rbind (pifo_scan_once q) (\<lambda>q1. Inr (q1\<lparr>diff := True\<rparr>))
      else Inr q)"

text \<open>Push the front of the backing vector to the small queue.\<close>

definition refill_wanted :: "pifo \<Rightarrow> bool res" where
  "refill_wanted q =
     (case backing q of
        [] \<Rightarrow> Inr False
      | front # _ \<Rightarrow>
          if size_le_int (length (hwqueue q)) (priorities q + 1 - 8) then Inr True
          else rbind (vec_at (hwqueue q) (priorities q - 8)) (\<lambda>e. Inr (Compare (fst front) e)))"

definition pifo_refill :: "pifo \<Rightarrow> pifo res" where
  "pifo_refill q =
     rbind (refill_wanted q) (\<lambda>wanted.
       if wanted then
         Inr (q\<lparr>queuestats := (queuestats q)\<lparr>lowwater := lowwater (queuestats q) + 1\<rparr>,
                hwqueue := ms_insert Compare (fst (hd (backing q))) (hwqueue q),
                backing := tl (backing q),
                firstunsort := (if firstunsort q < 0 then firstunsort q else firstunsort q - 1),
                scan := (if scan q \<le> 0 then scan q else scan q - 1),
                diff := True\<rparr>)
       else Inr q)"

text \<open>The small queue is overfull: put down the entry in hand, and pick up the worst one.\<close>

definition pifo_put_down :: "pifo \<Rightarrow> pifo res" where
  "pifo_put_down q =
     (if scan q \<noteq> -1 then
        (let csize = int (length (backing q))
         in rbind (vec_insert (backing q) (scan q) (insert_entry q, scan q = csize)) (\<lambda>bk.
              Inr (q\<lparr>backing := bk,
                     firstunsort := (if scan q \<noteq> csize \<and>
                                        (scan q < firstunsort q \<or> firstunsort q = -1)
                                     then scan q else firstunsort q)\<rparr>)))
      else Inr q)"

definition pifo_overflow :: "pifo \<Rightarrow> pifo res" where
  "pifo_overflow q =
     (if size_ge_int (length (hwqueue q)) (priorities q + 1) then
        rbind (pifo_put_down q) (\<lambda>q1.
        rbind (ms_last (hwqueue q1)) (\<lambda>worst.
          Inr (q1\<lparr>insert_entry := worst, hwqueue := butlast (hwqueue q1), scan := 0,
                  diff := True\<rparr>)))
      else Inr q)"

definition pifo_step :: "u64 \<Rightarrow> pifo \<Rightarrow> pifo res" where
  "pifo_step ts q =
     rbind (pifo_pick (pifo_maxsize q)) (\<lambda>q1.
     rbind (pifo_scan q1) (\<lambda>q2.
     rbind (pifo_refill q2) (\<lambda>q3.
     rbind (pifo_overflow q3) (\<lambda>q4.
       Inr (q4\<lparr>diff := False\<rparr>)))))"

definition pifo_backsize :: "pifo \<Rightarrow> int" where
  "pifo_backsize q = 0"

definition pifo_size :: "pifo \<Rightarrow> int" where
  "pifo_size q = active q"

definition pifo_vt :: "pifo vtable" where
  "pifo_vt = \<lparr>vt_step = pifo_step, vt_empty = pifo_empty, vt_enqueue = pifo_enqueue,
     vt_dequeue = pifo_dequeue, vt_size = pifo_size, vt_backsize = pifo_backsize\<rparr>"

lemma pifo_vt_simps [simp]:
  "vt_step pifo_vt = pifo_step" "vt_empty pifo_vt = pifo_empty"
  "vt_enqueue pifo_vt = pifo_enqueue" "vt_dequeue pifo_vt = pifo_dequeue"
  "vt_size pifo_vt = pifo_size" "vt_backsize pifo_vt = pifo_backsize"
  by (simp_all add: pifo_vt_def)

subsection \<open>The invariant\<close>

text \<open>
  \<open>passed bk n e\<close>: the entry \<open>e\<close> is not better than any of the first \<open>n\<close> of the backing
  vector. It holds of the entry in hand at its scan position, and of the entry \<open>firstunsort\<close>
  points at. The entries flagged as sorted are in priority order among each other.
\<close>

definition passed :: "(entry_t \<times> bool) list \<Rightarrow> nat \<Rightarrow> entry_t \<Rightarrow> bool" where
  "passed bk n e \<longleftrightarrow> (\<forall>x \<in> set (take n bk). \<not> Compare e (fst x))"

definition scan_inv :: "(entry_t \<times> bool) list \<Rightarrow> entry_t \<Rightarrow> int \<Rightarrow> bool" where
  "scan_inv bk e i \<longleftrightarrow> i = -1 \<or> 0 \<le> i \<and> i \<le> int (length bk) \<and> passed bk (nat i) e"

definition unsort_inv :: "(entry_t \<times> bool) list \<Rightarrow> int \<Rightarrow> bool" where
  "unsort_inv bk i \<longleftrightarrow> i = -1 \<or> 0 \<le> i \<and> i < int (length bk) \<and> \<not> snd (bk ! nat i) \<and>
     passed bk (nat i) (fst (bk ! nat i))"

definition flagged_sorted :: "(entry_t \<times> bool) list \<Rightarrow> bool" where
  "flagged_sorted bk \<longleftrightarrow> ms_sorted Compare (map fst (filter snd bk))"

definition backing_inv :: "(entry_t \<times> bool) list \<Rightarrow> entry_t \<Rightarrow> int \<Rightarrow> int \<Rightarrow> bool" where
  "backing_inv bk e i u \<longleftrightarrow> scan_inv bk e i \<and> unsort_inv bk u \<and> flagged_sorted bk"

definition in_hand :: "pifo \<Rightarrow> entry_t multiset" where
  "in_hand q = (if scan q = -1 then {#} else {#insert_entry q#})"

definition pifo_hw :: "pifo \<Rightarrow> entry_t multiset" where
  "pifo_hw q = mset (hwqueue q) + mset (map fst (backing q)) + in_hand q"

definition pifo_hw_inv :: "pifo \<Rightarrow> bool" where
  "pifo_hw_inv q \<longleftrightarrow> 8 \<le> priorities q \<and> ms_sorted Compare (hwqueue q) \<and>
     backing_inv (backing q) (insert_entry q) (scan q) (firstunsort q) \<and>
     active q = int (size (pifo_hw q))"

subsection \<open>Positions of the backing vector\<close>

lemma passed_0 [simp]: "passed bk 0 e"
  by (simp add: passed_def)

lemma passed_le: "passed bk n e \<Longrightarrow> m \<le> n \<Longrightarrow> passed bk m e"
  by (auto simp: passed_def dest: set_take_subset_set_take [THEN subsetD])

lemma passed_Suc: "n < length bk \<Longrightarrow> passed bk (Suc n) e \<longleftrightarrow> passed bk n e \<and> \<not> Compare e (fst (bk ! n))"
  by (auto simp: passed_def take_Suc_conv_app_nth)

lemma passed_trans: "passed bk n e \<Longrightarrow> \<not> Compare x e \<Longrightarrow> passed bk n x"
  by (auto simp: passed_def not_Compare_prio Compare_prio)

lemma passed_insert_above: "n \<le> s \<Longrightarrow> s \<le> length bk \<Longrightarrow> passed (take s bk @ ys) n e \<longleftrightarrow> passed bk n e"
  by (simp add: passed_def min_def)

lemma passed_insert_below:
  assumes "s \<le> n" "s \<le> length bk"
  shows "passed (take s bk @ x # drop s bk) (Suc n) e \<longleftrightarrow> passed bk n e \<and> \<not> Compare e (fst x)"
proof -
  from assms(1) obtain k where n: "n = s + k" using le_Suc_ex by blast
  have "take (Suc n) (take s bk @ x # drop s bk) = take s bk @ x # take k (drop s bk)"
    using assms(2) n by (simp add: min_def)
  then show ?thesis by (auto simp: passed_def n take_add)
qed

lemma passed_tl: "passed bk (Suc n) e \<Longrightarrow> passed (tl bk) n e"
  by (cases bk) (auto simp: passed_def)

lemma filter_insert_False: "filter snd (take s bk @ (e, False) # drop s bk) = filter snd bk"
proof -
  have "filter snd bk = filter snd (take s bk) @ filter snd (drop s bk)"
    by (metis append_take_drop_id filter_append)
  then show ?thesis by simp
qed

lemma filter_erase_False:
  "s < length bk \<Longrightarrow> \<not> snd (bk ! s) \<Longrightarrow> filter snd (take s bk @ drop (Suc s) bk) = filter snd bk"
  by (metis (no_types, lifting) Cons_nth_drop_Suc append_take_drop_id filter.simps(2) filter_append)

lemma flagged_sorted_unflagged:
  "flagged_sorted (take s bk @ (e, False) # drop s bk) = flagged_sorted bk"
  "s < length bk \<Longrightarrow> \<not> snd (bk ! s) \<Longrightarrow>
     flagged_sorted (take s bk @ drop (Suc s) bk) = flagged_sorted bk"
  "s < length bk \<Longrightarrow> \<not> snd (bk ! s) \<Longrightarrow>
     flagged_sorted (take s bk @ (e, False) # drop (Suc s) bk) = flagged_sorted bk"
  using filter_insert_False [of s bk e] filter_erase_False [of s bk]
  by (simp_all add: flagged_sorted_def del: filter_append) simp

lemma flagged_sorted_tl: "flagged_sorted bk \<Longrightarrow> flagged_sorted (tl bk)"
  by (cases bk) (auto simp: flagged_sorted_def ms_sorted_Cons split: if_splits)

text \<open>
  Putting an entry down in front of a sorted entry it is better than, or at the end of the
  vector, behind nothing that is worse, keeps the sorted entries sorted.
\<close>

lemma flagged_sorted_insert:
  assumes sorted: "flagged_sorted bk" and passed: "passed bk s e"
    and s: "s = length bk \<or> s < length bk \<and> snd (bk ! s) \<and> Compare e (fst (bk ! s))"
  shows "flagged_sorted (take s bk @ (e, True) # drop s bk)"
proof -
  define pre post where "pre = map fst (filter snd (take s bk))"
    and "post = map fst (filter snd (drop s bk))"
  have "map fst (filter snd bk) = pre @ post"
    unfolding pre_def post_def by (metis append_take_drop_id filter_append map_append)
  then have pp: "ms_sorted Compare pre" "ms_sorted Compare post"
    using sorted by (simp_all add: flagged_sorted_def ms_sorted_append)
  have above: "\<not> Compare y e" if "y \<in> set post" for y
  proof -
    have s': "s < length bk" "snd (bk ! s)" "Compare e (fst (bk ! s))"
      using s that by (auto simp: post_def)
    then have "hd post = fst (bk ! s)" by (simp add: post_def flip: Cons_nth_drop_Suc)
    then have "\<not> Compare y (fst (bk ! s))" using ent.hd_least [OF pp(2) that] by simp
    then show ?thesis using s'(3) by (auto simp: Compare_prio)
  qed
  have below: "\<not> Compare e x" if "x \<in> set pre" for x
    using that passed by (auto simp: pre_def passed_def)
  have nlt: "\<not> Compare y x" if "x \<in> set pre" "y \<in> set post" for x y
    using above [OF that(2)] below [OF that(1)] by (auto simp: Compare_prio)
  show ?thesis
    using pp above below nlt
    by (simp add: flagged_sorted_def ms_sorted_append ms_sorted_Cons flip: pre_def post_def)
qed

subsection \<open>The phases keep the backing vector in shape\<close>

lemma backing_pick:
  assumes "backing_inv bk e i u" "u \<noteq> -1"
  shows "backing_inv (take (nat u) bk @ drop (Suc (nat u)) bk) (fst (bk ! nat u)) u (-1)"
  using assms
  by (auto simp: backing_inv_def scan_inv_def unsort_inv_def passed_insert_above
      flagged_sorted_unflagged)

lemma backing_append:
  assumes "backing_inv bk e i u" "i = int (length bk)"
  shows "backing_inv (bk @ [(e, True)]) e' (-1) u"
  using assms flagged_sorted_insert [of bk "length bk" e]
  by (auto simp: backing_inv_def scan_inv_def unsort_inv_def nth_append passed_def)

lemma backing_insert_sorted:
  assumes inv: "backing_inv bk e i u" and i: "i \<noteq> -1" "i < int (length bk)"
    and c: "snd (bk ! nat i)" "Compare e (fst (bk ! nat i))"
  shows "backing_inv (take (nat i) bk @ (e, True) # drop (nat i) bk) e' (-1)
     (if i \<le> u then u + 1 else u)"
proof -
  define s where "s = nat i"
  have s: "i = int s" "s < length bk" "passed bk s e"
    using inv i by (auto simp: backing_inv_def scan_inv_def s_def)
  have "unsort_inv (take s bk @ (e, True) # drop s bk) (if i \<le> u then u + 1 else u)"
  proof (cases "u = -1")
    case False
    define f where "f = nat u"
    have f: "u = int f" "f < length bk" "\<not> snd (bk ! f)" "passed bk f (fst (bk ! f))"
      using inv False by (auto simp: backing_inv_def unsort_inv_def f_def)
    show ?thesis
    proof (cases "s \<le> f")
      case True
      then have "s < f" using c(1) f(3) s(1) by (cases "s = f") auto
      then have "\<not> Compare (fst (bk ! f)) (fst (bk ! s))"
        using f(4) passed_Suc [of s bk] s(2) passed_le [of bk f _ "Suc s"] by auto
      then have "\<not> Compare (fst (bk ! f)) e" using c(2) s(1) by (auto simp: Compare_prio)
      then have "passed (take s bk @ (e, True) # drop s bk) (Suc f) (fst (bk ! f))"
        using True s(2) f(4) passed_insert_below [of s f bk "(e, True)"] by simp
      moreover have "(take s bk @ (e, True) # drop s bk) ! Suc f = bk ! f"
        using s(2) \<open>s < f\<close> by (simp add: nth_insert_at)
      moreover have "(if i \<le> u then u + 1 else u) = int (Suc f)" using True s(1) f(1) by simp
      ultimately show ?thesis unfolding unsort_inv_def using f(2,3) s(2)
        by (simp del: of_nat_Suc)
    next
      case False
      then have u: "(if i \<le> u then u + 1 else u) = int f" using s(1) f(1) by simp
      have "(take s bk @ (e, True) # drop s bk) ! f = bk ! f"
        using False s(2) by (simp add: nth_append)
      moreover have "passed (take s bk @ (e, True) # drop s bk) f (fst (bk ! f))"
        using False s(2) f(4) by (simp add: passed_insert_above)
      ultimately show ?thesis unfolding u unsort_inv_def using f(2,3) s(2) by simp
    qed
  qed (use s in \<open>simp add: unsort_inv_def\<close>)
  moreover have "flagged_sorted (take s bk @ (e, True) # drop s bk)"
    using flagged_sorted_insert [of bk s e] inv s(2,3) c by (simp add: backing_inv_def flip: s_def)
  ultimately show ?thesis by (simp add: backing_inv_def scan_inv_def flip: s_def)
qed

lemma backing_swap:
  assumes inv: "backing_inv bk e i u" and i: "i \<noteq> -1" "i < int (length bk)"
    and c: "\<not> snd (bk ! nat i)" "Compare e (fst (bk ! nat i))"
  shows "backing_inv (take (nat i) bk @ (e, False) # drop (Suc (nat i)) bk) (fst (bk ! nat i)) (i + 1)
     (if i < u \<or> u = -1 then i else u)"
proof -
  define s where "s = nat i"
  have s: "i = int s" "s < length bk" "passed bk s e"
    using inv i by (auto simp: backing_inv_def scan_inv_def s_def)
  let ?bk = "take s bk @ (e, False) # drop (Suc s) bk"
  have "passed ?bk s (fst (bk ! s))"
    using s c(2) passed_trans [OF s(3), of "fst (bk ! s)"]
    by (auto simp: passed_insert_above Compare_prio simp flip: s_def)
  moreover have "\<not> Compare (fst (bk ! s)) e" using c(2) s(1) by (auto simp: Compare_prio)
  ultimately have "scan_inv ?bk (fst (bk ! s)) (i + 1)"
    using s by (simp add: scan_inv_def nat_add_distrib passed_Suc nth_append)
  moreover have "unsort_inv ?bk (if i < u \<or> u = -1 then i else u)"
  proof (cases "i \<le> u \<or> u = -1")
    case True
    then have "(if i < u \<or> u = -1 then i else u) = i" by auto
    then show ?thesis using s by (simp add: unsort_inv_def nth_append passed_insert_above)
  next
    case False
    then show ?thesis using inv s
      by (auto simp: backing_inv_def unsort_inv_def nth_append passed_insert_above)
  qed
  moreover have "flagged_sorted ?bk = flagged_sorted bk"
    using s c(1) by (simp add: flagged_sorted_unflagged)
  ultimately show ?thesis using inv by (simp add: backing_inv_def flip: s_def)
qed

lemma backing_pass:
  assumes "backing_inv bk e i u" "i \<noteq> -1" "i < int (length bk)" "\<not> Compare e (fst (bk ! nat i))"
  shows "backing_inv bk e (i + 1) u"
  using assms by (auto simp: backing_inv_def scan_inv_def nat_add_distrib passed_Suc)

lemma backing_pop:
  assumes "backing_inv bk e i u" "bk \<noteq> []"
  shows "backing_inv (tl bk) e (if i \<le> 0 then i else i - 1) (if u < 0 then u else u - 1)"
proof -
  obtain x xs where bk: "bk = x # xs" using assms(2) by (cases bk) auto
  have tl: "passed xs (nat (k - 1)) y" if "passed bk (nat k) y" "0 < k" for k y
    using that passed_tl [of bk "nat (k - 1)" y] by (simp add: bk Suc_nat_eq_nat_zadd1)
  have "scan_inv xs e (if i \<le> 0 then i else i - 1)"
    using assms tl [of i e] by (auto simp: backing_inv_def scan_inv_def bk)
  moreover have "unsort_inv xs (if u < 0 then u else u - 1)"
    using assms tl [of u "fst (bk ! nat u)"]
    by (auto simp: backing_inv_def unsort_inv_def bk nth_Cons' nat_diff_distrib)
  ultimately show ?thesis
    using assms flagged_sorted_tl [of bk] by (simp add: backing_inv_def bk)
qed

lemma backing_put_down:
  assumes inv: "backing_inv bk e i u" and i: "i \<noteq> -1"
  shows "backing_inv (take (nat i) bk @ (e, i = int (length bk)) # drop (nat i) bk) e' 0
     (if i \<noteq> int (length bk) \<and> (i < u \<or> u = -1) then i else u)"
proof (cases "i = int (length bk)")
  case True
  then show ?thesis using backing_append [OF inv True]
    by (simp add: backing_inv_def scan_inv_def)
next
  case False
  define s where "s = nat i"
  have s: "i = int s" "s < length bk" "passed bk s e"
    using inv i False by (auto simp: backing_inv_def scan_inv_def s_def)
  let ?bk = "take s bk @ (e, False) # drop s bk"
  have "unsort_inv ?bk (if i < u \<or> u = -1 then i else u)"
  proof (cases "i \<le> u \<or> u = -1")
    case True
    then have "(if i < u \<or> u = -1 then i else u) = i" by auto
    then show ?thesis using s by (simp add: unsort_inv_def nth_append passed_insert_above)
  next
    case False
    then show ?thesis using inv s
      by (auto simp: backing_inv_def unsort_inv_def nth_append passed_insert_above)
  qed
  then show ?thesis
    using inv False s by (simp add: backing_inv_def scan_inv_def flagged_sorted_unflagged)
qed

subsection \<open>The phases of a step\<close>

text \<open>
  No phase fails, loses an entry or touches what the base class keeps. \<open>phase_ok q q'\<close> is what
  the four have in common; the lemmas add what each does to the small queue.
\<close>

definition phase_ok :: "pifo \<Rightarrow> pifo \<Rightarrow> bool" where
  "phase_ok q q' \<longleftrightarrow> pifo_hw_inv q' \<and> pifo_hw q' = pifo_hw q \<and> base_frame q q' \<and>
     buff q' = buff q \<and> priorities q' = priorities q"

lemma phase_okD:
  assumes "phase_ok q q'"
  shows "pifo_hw_inv q'" "pifo_hw q' = pifo_hw q" "base_frame q q'" "buff q' = buff q"
    "priorities q' = priorities q"
  using assms by (simp_all add: phase_ok_def)

lemma phase_ok_trans: "phase_ok p q \<Longrightarrow> phase_ok q r \<Longrightarrow> phase_ok p r"
  by (auto simp: phase_ok_def intro: base_frame_trans)

lemma phase_okI:
  assumes inv: "pifo_hw_inv q" and hw: "pifo_hw q' = pifo_hw q" and frame: "base_frame q q'"
    and same: "buff q' = buff q" "priorities q' = priorities q" "active q' = active q"
    and sorted: "ms_sorted Compare (hwqueue q')"
    and bk: "backing_inv (backing q') (insert_entry q') (scan q') (firstunsort q')"
  shows "phase_ok q q'"
  using assms by (simp add: phase_ok_def pifo_hw_inv_def)

lemma pifo_invD:
  assumes "pifo_hw_inv q"
  shows "8 \<le> priorities q" "ms_sorted Compare (hwqueue q)"
    "backing_inv (backing q) (insert_entry q) (scan q) (firstunsort q)"
    "active q = int (size (pifo_hw q))"
  using assms by (simp_all add: pifo_hw_inv_def)

lemma backing_invD:
  assumes "backing_inv bk e i u"
  shows "i = -1 \<or> 0 \<le> i \<and> i \<le> int (length bk)" "u = -1 \<or> 0 \<le> u \<and> u < int (length bk)"
    "u \<noteq> -1 \<Longrightarrow> \<not> snd (bk ! nat u)"
  using assms by (auto simp: backing_inv_def scan_inv_def unsort_inv_def)

lemma mset_fst_split:
  "image_mset fst (mset (take n xs)) + image_mset fst (mset (drop n xs)) = image_mset fst (mset xs)"
  by (metis append_take_drop_id image_mset_union mset_append)

lemma mset_fst_erase:
  "n < length xs \<Longrightarrow>
   add_mset (fst (xs ! n)) (mset (map fst (take n xs @ drop (Suc n) xs))) = mset (map fst xs)"
  using arg_cong [OF mset_erase_at [of n xs], of "image_mset fst"] by simp

lemma mset_fst_update:
  assumes "n < length xs"
  shows "add_mset (fst (xs ! n)) (mset (map fst (take n xs @ x # drop (Suc n) xs))) =
     add_mset (fst x) (mset (map fst xs))"
  using mset_fst_erase [OF assms] by simp

lemma pifo_maxsize_ok:
  assumes "pifo_hw_inv q"
  shows "phase_ok q (pifo_maxsize q)" "hwqueue (pifo_maxsize q) = hwqueue q"
    "backing (pifo_maxsize q) = backing q" "scan (pifo_maxsize q) = scan q"
proof -
  show "hwqueue (pifo_maxsize q) = hwqueue q" "backing (pifo_maxsize q) = backing q"
    "scan (pifo_maxsize q) = scan q"
    by (simp_all add: pifo_maxsize_def Let_def)
  show "phase_ok q (pifo_maxsize q)"
    using assms by (auto simp: phase_ok_def pifo_hw_inv_def pifo_maxsize_def Let_def pifo_hw_def
        in_hand_def base_frame_def)
qed

lemma pifo_pick_ok:
  assumes inv: "pifo_hw_inv q"
  shows "\<exists>q'. pifo_pick q = Inr q' \<and> phase_ok q q' \<and> hwqueue q' = hwqueue q"
proof (cases "scan q = -1 \<and> firstunsort q \<noteq> -1")
  case True
  note bi = pifo_invD(3) [OF inv]
  let ?u = "firstunsort q"
  have u: "0 \<le> ?u" "?u < int (length (backing q))" "\<not> snd (backing q ! nat ?u)"
    using backing_invD [OF bi] True by auto
  let ?q' = "q\<lparr>backing := take (nat ?u) (backing q) @ drop (Suc (nat ?u)) (backing q),
    insert_entry := fst (backing q ! nat ?u), scan := ?u, firstunsort := -1, diff := True\<rparr>"
  have "pifo_hw ?q' = pifo_hw q"
    using mset_fst_erase [of "nat ?u" "backing q"] u True
    by (simp add: pifo_hw_def in_hand_def nat_less_iff)
  then have "phase_ok q ?q'"
    by (rule phase_okI [OF inv])
      (use True backing_pick [OF bi] pifo_invD(2) [OF inv] in \<open>auto simp: base_frame_def\<close>)
  moreover have "pifo_pick q = Inr ?q'"
    using True u by (simp add: pifo_pick_def vec_at_def vec_erase_def)
  ultimately show ?thesis by simp
next
  case False
  have "phase_ok q q" using inv by (simp add: phase_ok_def)
  then show ?thesis using False by (auto simp: pifo_pick_def)
qed

lemma phase_ok_diff: "phase_ok q q' \<Longrightarrow> phase_ok q (q'\<lparr>diff := b\<rparr>)"
  by (auto simp: phase_ok_def pifo_hw_inv_def pifo_hw_def in_hand_def base_frame_def)

lemma pifo_scan_once_ok:
  assumes inv: "pifo_hw_inv q" and i: "scan q \<noteq> -1"
  shows "\<exists>q'. pifo_scan_once q = Inr q' \<and> phase_ok q q' \<and> hwqueue q' = hwqueue q \<and> backing q' \<noteq> []"
proof -
  let ?bk = "backing q" and ?e = "insert_entry q" and ?i = "scan q" and ?u = "firstunsort q"
  note bi = pifo_invD(3) [OF inv] and so = pifo_invD(2) [OF inv]
  have ib: "0 \<le> ?i" "?i \<le> int (length ?bk)" using backing_invD(1) [OF bi] i by auto
  show ?thesis
  proof (cases "?i = int (length ?bk)")
    case True
    let ?q' = "q\<lparr>backing := ?bk @ [(?e, True)], scan := -1\<rparr>"
    have "phase_ok q ?q'"
      by (rule phase_okI [OF inv])
        (use True ib so backing_append [OF bi True] in
          \<open>auto simp: pifo_hw_def in_hand_def base_frame_def\<close>)
    moreover have "pifo_scan_once q = Inr ?q'"
      using True ib by (simp add: pifo_scan_once_def int_ge_size_eq vec_insert_def)
    ultimately show ?thesis by simp
  next
    case False
    then have ib': "?i < int (length ?bk)" "nat ?i < length ?bk" using ib by auto
    have ne: "?bk \<noteq> []" using ib' by auto
    have at: "vec_at ?bk ?i = Inr (?bk ! nat ?i)" "int_ge_size ?i (length ?bk) = False"
      using ib ib' by (simp_all add: vec_at_def int_ge_size_eq)
    consider (pass) "\<not> Compare ?e (fst (?bk ! nat ?i))"
      | (put) "Compare ?e (fst (?bk ! nat ?i))" "snd (?bk ! nat ?i)"
      | (swap) "Compare ?e (fst (?bk ! nat ?i))" "\<not> snd (?bk ! nat ?i)" by blast
    then show ?thesis
    proof cases
      case pass
      let ?q' = "q\<lparr>scan := ?i + 1\<rparr>"
      have "phase_ok q ?q'"
        by (rule phase_okI [OF inv])
          (use i ib so backing_pass [OF bi i ib'(1) pass] in
            \<open>auto simp: pifo_hw_def in_hand_def base_frame_def\<close>)
      moreover have "pifo_scan_once q = Inr ?q'" using at pass by (simp add: pifo_scan_once_def)
      ultimately show ?thesis using ne by simp
    next
      case put
      let ?bk' = "take (nat ?i) ?bk @ (?e, True) # drop (nat ?i) ?bk"
      let ?q' = "q\<lparr>backing := ?bk', firstunsort := (if ?i \<le> ?u then ?u + 1 else ?u), scan := -1\<rparr>"
      have "pifo_hw ?q' = pifo_hw q"
        using i by (simp add: pifo_hw_def in_hand_def mset_fst_split)
      then have "phase_ok q ?q'"
        by (rule phase_okI [OF inv])
          (use so backing_insert_sorted [OF bi i ib'(1) put(2,1)] in \<open>auto simp: base_frame_def\<close>)
      moreover have "pifo_scan_once q = Inr ?q'"
        using at put ib by (simp add: pifo_scan_once_def vec_insert_def)
      ultimately show ?thesis using ne by auto
    next
      case swap
      let ?bk' = "take (nat ?i) ?bk @ (?e, False) # drop (Suc (nat ?i)) ?bk"
      let ?q' = "q\<lparr>backing := ?bk', insert_entry := fst (?bk ! nat ?i),
        firstunsort := (if ?i < ?u \<or> ?u = -1 then ?i else ?u), scan := ?i + 1\<rparr>"
      have "pifo_hw ?q' = pifo_hw q"
        using i ib mset_fst_update [OF ib'(2), of "(?e, False)"]
        by (simp add: pifo_hw_def in_hand_def del: map_append list.map)
      then have "phase_ok q ?q'"
        by (rule phase_okI [OF inv])
          (use so backing_swap [OF bi i ib'(1) swap(2,1)] in \<open>auto simp: base_frame_def\<close>)
      moreover have "pifo_scan_once q = Inr ?q'"
        using at swap ib ib' by (simp add: pifo_scan_once_def vec_erase_def vec_insert_def)
      ultimately show ?thesis using ne by auto
    qed
  qed
qed

lemma pifo_scan_ok:
  assumes inv: "pifo_hw_inv q"
  shows "\<exists>q'. pifo_scan q = Inr q' \<and> phase_ok q q' \<and> hwqueue q' = hwqueue q \<and>
     (hwqueue q = [] \<and> pifo_hw q \<noteq> {#} \<longrightarrow> backing q' \<noteq> [])"
proof (cases "scan q = -1")
  case True
  have "phase_ok q q" using inv by (simp add: phase_ok_def)
  with True show ?thesis by (auto simp: pifo_scan_def pifo_hw_def in_hand_def)
next
  case False
  obtain q' where "pifo_scan_once q = Inr q'" "phase_ok q q'" "hwqueue q' = hwqueue q" "backing q' \<noteq> []"
    using pifo_scan_once_ok [OF inv False] by auto
  then show ?thesis using False by (simp add: pifo_scan_def phase_ok_diff)
qed

lemma refill_wanted_ok:
  assumes "8 \<le> priorities q"
  shows "\<exists>b. refill_wanted q = Inr b \<and> (b \<longrightarrow> backing q \<noteq> []) \<and>
     (hwqueue q = [] \<and> backing q \<noteq> [] \<longrightarrow> b)"
  using assms
  by (cases "backing q") (auto simp: refill_wanted_def vec_at_def size_le_int_def)

lemma pifo_refill_ok:
  assumes inv: "pifo_hw_inv q"
  shows "\<exists>q'. pifo_refill q = Inr q' \<and> phase_ok q q' \<and>
     length (hwqueue q') \<le> Suc (length (hwqueue q)) \<and>
     (hwqueue q' = [] \<longrightarrow> hwqueue q = [] \<and> backing q = [])"
proof -
  note bi = pifo_invD(3) [OF inv]
  obtain b where b: "refill_wanted q = Inr b" "b \<Longrightarrow> backing q \<noteq> []"
    "hwqueue q = [] \<and> backing q \<noteq> [] \<longrightarrow> b"
    using refill_wanted_ok [OF pifo_invD(1) [OF inv]] by auto
  show ?thesis
  proof (cases b)
    case True
    let ?q' = "q\<lparr>queuestats := (queuestats q)\<lparr>lowwater := lowwater (queuestats q) + 1\<rparr>,
      hwqueue := ms_insert Compare (fst (hd (backing q))) (hwqueue q), backing := tl (backing q),
      firstunsort := (if firstunsort q < 0 then firstunsort q else firstunsort q - 1),
      scan := (if scan q \<le> 0 then scan q else scan q - 1), diff := True\<rparr>"
    have "pifo_hw ?q' = pifo_hw q"
      using b(2) [OF True] by (cases "backing q") (auto simp: pifo_hw_def in_hand_def)
    then have "phase_ok q ?q'"
      by (rule phase_okI [OF inv])
        (use backing_pop [OF bi b(2) [OF True]] pifo_invD(2) [OF inv] in
          \<open>auto simp: base_frame_def ent.sorted_insert\<close>)
    moreover have "pifo_refill q = Inr ?q'" using b(1) True by (simp add: pifo_refill_def)
    ultimately show ?thesis by simp
  next
    case False
    moreover have "phase_ok q q" using inv by (simp add: phase_ok_def)
    ultimately show ?thesis using b by (auto simp: pifo_refill_def)
  qed
qed

lemma pifo_put_down_ok:
  assumes inv: "pifo_hw_inv q"
  shows "\<exists>q1. pifo_put_down q = Inr q1 \<and> base_frame q q1 \<and> buff q1 = buff q \<and>
     priorities q1 = priorities q \<and> active q1 = active q \<and> hwqueue q1 = hwqueue q \<and>
     mset (map fst (backing q1)) = mset (map fst (backing q)) + in_hand q \<and>
     (\<forall>e. backing_inv (backing q1) e 0 (firstunsort q1))"
proof (cases "scan q = -1")
  case True
  then show ?thesis using pifo_invD(3) [OF inv]
    by (auto simp: pifo_put_down_def in_hand_def backing_inv_def scan_inv_def)
next
  case False
  note bi = pifo_invD(3) [OF inv]
  have i: "0 \<le> scan q" "scan q \<le> int (length (backing q))" using backing_invD(1) [OF bi] False by auto
  then show ?thesis
    using False backing_put_down [OF bi False]
    by (simp add: pifo_put_down_def Let_def vec_insert_def in_hand_def base_frame_def mset_fst_split)
qed

lemma pifo_overflow_ok:
  assumes inv: "pifo_hw_inv q"
  shows "\<exists>q'. pifo_overflow q = Inr q' \<and> phase_ok q q' \<and>
     length (hwqueue q') = length (hwqueue q) - of_bool (priorities q < int (length (hwqueue q)))"
proof (cases "size_ge_int (length (hwqueue q)) (priorities q + 1)")
  case True
  then have len: "priorities q < int (length (hwqueue q))" by (simp add: size_ge_int_def)
  then have ne: "hwqueue q \<noteq> []" using pifo_invD(1) [OF inv] by auto
  obtain q1 where q1: "pifo_put_down q = Inr q1" "base_frame q q1" "buff q1 = buff q"
    "priorities q1 = priorities q" "active q1 = active q" "hwqueue q1 = hwqueue q"
    "mset (map fst (backing q1)) = mset (map fst (backing q)) + in_hand q"
    "\<And>e. backing_inv (backing q1) e 0 (firstunsort q1)"
    using pifo_put_down_ok [OF inv] by auto
  let ?q' = "q1\<lparr>insert_entry := last (hwqueue q), hwqueue := butlast (hwqueue q), scan := 0, diff := True\<rparr>"
  have "pifo_hw ?q' = pifo_hw q"
    using q1(7) mset_butlast_last [OF ne] by (simp add: pifo_hw_def in_hand_def)
  then have "phase_ok q ?q'"
    by (rule phase_okI [OF inv])
      (use q1 pifo_invD(2) [OF inv] in \<open>auto simp: base_frame_def ms_sorted_butlast\<close>)
  moreover have "pifo_overflow q = Inr ?q'"
    using True q1(1,6) ne by (simp add: pifo_overflow_def ms_last_def)
  ultimately show ?thesis using len by simp
next
  case False
  moreover have "phase_ok q q" using inv by (simp add: phase_ok_def)
  ultimately show ?thesis using pifo_invD(1) [OF inv]
    by (auto simp: pifo_overflow_def size_ge_int_def)
qed

text \<open>
  A whole step: no assertion fails and no iterator leaves its container; no entry is lost or
  duplicated; the small queue grows only below its nominal size; and it is not empty afterwards,
  unless no message waits at all.
\<close>

lemma pifo_step_ok:
  assumes inv: "pifo_hw_inv q"
  shows "\<exists>q'. pifo_step ts q = Inr q' \<and> phase_ok q q' \<and>
     int (length (hwqueue q')) \<le> max (priorities q) (int (length (hwqueue q))) \<and>
     (hwqueue q' = [] \<longrightarrow> pifo_hw q' = {#})"
proof -
  note m = pifo_maxsize_ok [OF inv]
  obtain q1 where q1: "pifo_pick (pifo_maxsize q) = Inr q1" "phase_ok (pifo_maxsize q) q1"
    "hwqueue q1 = hwqueue q"
    using pifo_pick_ok [OF phase_okD(1) [OF m(1)]] m(2) by auto
  obtain q2 where q2: "pifo_scan q1 = Inr q2" "phase_ok q1 q2" "hwqueue q2 = hwqueue q1"
    "hwqueue q1 = [] \<and> pifo_hw q1 \<noteq> {#} \<longrightarrow> backing q2 \<noteq> []"
    using pifo_scan_ok [OF phase_okD(1) [OF q1(2)]] by auto
  obtain q3 where q3: "pifo_refill q2 = Inr q3" "phase_ok q2 q3"
    "length (hwqueue q3) \<le> Suc (length (hwqueue q2))"
    "hwqueue q3 = [] \<longrightarrow> hwqueue q2 = [] \<and> backing q2 = []"
    using pifo_refill_ok [OF phase_okD(1) [OF q2(2)]] by auto
  obtain q4 where q4: "pifo_overflow q3 = Inr q4" "phase_ok q3 q4"
    "length (hwqueue q4) = length (hwqueue q3) - of_bool (priorities q3 < int (length (hwqueue q3)))"
    using pifo_overflow_ok [OF phase_okD(1) [OF q3(2)]] by auto
  have p1: "phase_ok q q1" using phase_ok_trans [OF m(1) q1(2)] .
  have p3: "phase_ok q q3" using phase_ok_trans [OF p1 phase_ok_trans [OF q2(2) q3(2)]] .
  have p4: "phase_ok q q4" using phase_ok_trans [OF p3 q4(2)] .
  have len: "int (length (hwqueue q4)) \<le> max (priorities q) (int (length (hwqueue q)))"
    using q4(3) q3(3) q2(3) q1(3) phase_okD(5) [OF p3] by (auto split: if_splits)
  have "pifo_hw q = {#}" if "hwqueue q4 = []"
  proof -
    have "hwqueue q3 = []"
      using that q4(3) pifo_invD(1) [OF inv] phase_okD(5) [OF p3] by (cases "hwqueue q3") (auto simp: of_bool_def split: if_splits)
    then show ?thesis using q3(4) q2(4) q1(3) q2(3) phase_okD(2) [OF p1] by auto
  qed
  moreover have "phase_ok q (q4\<lparr>diff := False\<rparr>)" using p4 by (rule phase_ok_diff)
  ultimately show ?thesis using q1(1) q2(1) q3(1) q4(1) len phase_okD(2)
    by (fastforce simp: pifo_step_def)
qed

subsection \<open>The interface\<close>

lemma pifo_more:
  fixes q q' :: pifo
  assumes "queue.more q = queue.more q'"
  shows "hwqueue q = hwqueue q'" "backing q = backing q'" "insert_entry q = insert_entry q'"
    "scan q = scan q'" "firstunsort q = firstunsort q'" "active q = active q'"
    "priorities q = priorities q'"
  using assms by (cases q; cases q'; simp)+

lemma pifo_enqueue_ok:
  assumes inv: "pifo_hw_inv q" and room: "size (pifo_hw q) < nat int_max"
  shows "\<exists>q'. pifo_enqueue e q = Inr q' \<and> pifo_hw_inv q' \<and> pifo_hw q' = add_mset e (pifo_hw q) \<and>
     base_frame q q' \<and> buff q' = buff q \<and> priorities q' = priorities q \<and>
     hwqueue q' = ms_insert Compare e (hwqueue q)"
  using assms
  by (auto simp: pifo_enqueue_def pifo_hw_inv_def pifo_hw_def in_hand_def base_frame_def
      ent.sorted_insert)

lemma pifo_dequeue_ok:
  assumes inv: "pifo_hw_inv q" and v: "\<forall>e\<in>#pifo_hw q. valid_entry e" and ne: "hwqueue q \<noteq> []"
  shows "\<exists>q'. pifo_dequeue q = Inr (hd (hwqueue q), q') \<and> pifo_hw_inv q' \<and> base_frame q q' \<and>
     sent (hd (hwqueue q)) (pifo_hw q) (pifo_hw q') \<and>
     unat (buff q') = slots (hd (hwqueue q)) \<and> priorities q' = priorities q"
proof -
  obtain e es where q: "hwqueue q = e # es" using ne by (cases "hwqueue q") auto
  have e: "valid_entry e" using v q by (simp add: pifo_hw_def)
  have es: "ms_sorted Compare es" using inv q by (simp add: pifo_hw_inv_def ms_sorted_Cons)
  show ?thesis
  proof (cases "remaining e > 24")
    case True
    then have "slots e = 24" by (simp add: slots_def)
    with True q es inv show ?thesis
      by (simp add: pifo_dequeue_def pifo_hw_def in_hand_def pifo_hw_inv_def base_frame_def sent_def
          leftover_def ent.sorted_insert)
  next
    case False
    define w where "w = (word_of_int (remaining e) :: u64)"
    have d: "pifo_dequeue q = Inr (e, q\<lparr>buff := w, hwqueue := es, active := active q - 1\<rparr>)"
      using False q by (simp add: pifo_dequeue_def w_def)
    have w: "unat w = slots e"
      unfolding w_def using False e
      by (subst unat_word_of_int_small) (auto simp: valid_entry_def slots_def int_max_def)
    show ?thesis using False q es inv
      by (simp add: d w pifo_hw_def in_hand_def pifo_hw_inv_def base_frame_def sent_def leftover_def)
  qed
qed

text \<open>The small queue has something to send if anything waits.\<close>

definition pifo_ready :: "pifo \<Rightarrow> bool" where
  "pifo_ready q \<longleftrightarrow> (hwqueue q = [] \<longrightarrow> pifo_hw q = {#})"

interpretation pif: paced_impl pifo_vt pifo_hw pifo_hw_inv "nat int_max" pifo_ready
proof unfold_locales
  fix q q' :: pifo and e and ts
  show "queue.more q = queue.more q' \<Longrightarrow> pifo_hw q = pifo_hw q'"
    using pifo_more [of q q'] by (simp add: pifo_hw_def in_hand_def)
  show "queue.more q = queue.more q' \<Longrightarrow> pifo_hw_inv q = pifo_hw_inv q'"
    using pifo_more [of q q'] by (simp add: pifo_hw_inv_def pifo_hw_def in_hand_def)
  show "pifo_hw_inv q \<Longrightarrow> vt_empty pifo_vt q \<longleftrightarrow> pifo_hw q = {#}"
    by (simp add: pifo_empty_def pifo_invD(4))
  show "pifo_hw_inv q \<Longrightarrow> vt_size pifo_vt q = int (size (pifo_hw q))"
    by (simp add: pifo_size_def pifo_invD(4))
  show "pifo_hw_inv q \<Longrightarrow> size (pifo_hw q) < nat int_max \<Longrightarrow>
    \<exists>q'. vt_enqueue pifo_vt e q = Inr q' \<and> pifo_hw_inv q' \<and>
      pifo_hw q' = add_mset e (pifo_hw q) \<and> base_frame q q' \<and> buff q' = buff q"
    using pifo_enqueue_ok [of q e] by auto
  show "pifo_hw_inv q \<Longrightarrow> \<forall>e\<in>#pifo_hw q. valid_entry e \<Longrightarrow> buff q = 0 \<Longrightarrow>
    \<exists>e q'. vt_dequeue pifo_vt q = Inr (e, q') \<and> pifo_hw_inv q' \<and> base_frame q q' \<and>
      (e = null_entry \<and> pifo_hw q' = pifo_hw q \<and> buff q' = 0 \<or>
       sent e (pifo_hw q) (pifo_hw q') \<and> unat (buff q') = slots e)"
    using pifo_dequeue_ok [of q] by (cases "hwqueue q") (auto simp: pifo_dequeue_def)
  show "pifo_hw_inv q \<Longrightarrow> size (pifo_hw q) \<le> nat int_max \<Longrightarrow>
    \<exists>q'. vt_step pifo_vt ts q = Inr q' \<and> pifo_hw_inv q' \<and> pifo_hw q' = pifo_hw q \<and>
      base_frame q q' \<and> buff q' = buff q"
    using pifo_step_ok [of q ts] by (auto simp: phase_ok_def)
  show "queue.more q = queue.more q' \<Longrightarrow> pifo_ready q = pifo_ready q'"
    using pifo_more [of q q'] by (simp add: pifo_ready_def pifo_hw_def in_hand_def)
  show "pifo_hw_inv q \<Longrightarrow> pifo_ready q \<Longrightarrow> pifo_hw q \<noteq> {#} \<Longrightarrow>
    vt_dequeue pifo_vt q = Inr (e, q') \<Longrightarrow> e \<in># pifo_hw q"
    by (auto simp: pifo_ready_def pifo_dequeue_def pifo_hw_def Let_def split: list.splits if_splits)
  show "pifo_hw_inv q \<Longrightarrow> vt_step pifo_vt ts q = Inr q' \<Longrightarrow> pifo_ready q'"
    using pifo_step_ok [of q ts] by (auto simp: pifo_ready_def)
qed

subsection \<open>The invariant, spelled out\<close>

definition pifo_ok :: "pifo \<Rightarrow> bool" where
  "pifo_ok q \<longleftrightarrow> 8 \<le> priorities q \<and> ms_sorted Compare (hwqueue q) \<and>
     backing_inv (backing q) (insert_entry q) (scan q) (firstunsort q) \<and>
     active q = int (size (pifo_hw q)) \<and> mset (gqueue q) = pifo_hw q \<and>
     ms_sorted Compare (gqueue q) \<and> distinct (map ent_id (gqueue q)) \<and>
     (\<forall>e \<in># pifo_hw q. valid_entry e \<and> ent_id e < next_id q)"

lemma pifo_ok_qinv: "pifo_ok q \<longleftrightarrow> pif.qinv q"
  by (auto simp: pifo_ok_def pif.qinv_def pifo_hw_inv_def)

lemma pifo_init_ok: "8 \<le> p \<Longrightarrow> pifo_ok (pifo_init p)" "pifo_hw (pifo_init p) = {#}" "pifo_ready (pifo_init p)"
  by (simp_all add: pifo_ok_def pifo_init_def pifo_hw_def in_hand_def backing_inv_def scan_inv_def
      unsort_inv_def flagged_sorted_def pifo_ready_def)

definition pifo_work :: "pifo \<Rightarrow> nat" where
  "pifo_work q = unat (buff q) + sum_remaining (pifo_hw q)"

lemma pifo_work_backlog: "pifo_work q = pif.backlog q"
  by (simp add: pifo_work_def pif.backlog_def)

text \<open>What a departure is offered: the head of the small queue.\<close>

lemma pifo_offered:
  assumes "pif.offered ts q e"
  shows "e = (case hwqueue q of [] \<Rightarrow> null_entry | h # _ \<Rightarrow> h)"
proof -
  have "hwqueue (departure_tick ts q) = hwqueue q" by (rule pifo_more) (simp add: frame)
  then show ?thesis using assms
    by (auto simp: pif.offered_def pifo_dequeue_def Let_def split: list.splits if_splits)
qed

text \<open>
  A state for the witnesses: three messages in the small queue, one in the backing vector, and one
  that is being moved to its place there.
\<close>

abbreviation "msg i n \<equiv> \<lparr>ent_ts = 0, ent_id = i, ent_length = n, remaining = n, taint = False\<rparr>"

definition pifo_five :: pifo where
  "pifo_five = (pifo_init 8)\<lparr>next_id := 5, active := 5,
     hwqueue := [msg 0 10, msg 1 20, msg 2 30], backing := [(msg 3 40, True)],
     insert_entry := msg 4 50, scan := 1,
     gqueue := [msg 0 10, msg 1 20, msg 2 30, msg 3 40, msg 4 50]\<rparr>"

lemma pifo_five_hw: "pifo_hw pifo_five = {#msg 0 10, msg 1 20, msg 2 30, msg 3 40, msg 4 50#}"
  by (simp add: pifo_hw_def in_hand_def pifo_five_def pifo_init_def)

lemma pifo_five_ok: "pifo_ok pifo_five" "pifo_ready pifo_five"
proof -
  have "ms_sorted Compare (hwqueue pifo_five)" "ms_sorted Compare (gqueue pifo_five)"
    "backing_inv (backing pifo_five) (insert_entry pifo_five) (scan pifo_five) (firstunsort pifo_five)"
    by (simp_all add: pifo_five_def pifo_init_def ms_sorted_Cons Compare_def backing_inv_def scan_inv_def
        unsort_inv_def flagged_sorted_def passed_def)
  moreover have "8 \<le> priorities pifo_five" "mset (gqueue pifo_five) = pifo_hw pifo_five"
    "active pifo_five = int (size (pifo_hw pifo_five))" "distinct (map ent_id (gqueue pifo_five))"
    "\<forall>e \<in># pifo_hw pifo_five. valid_entry e \<and> ent_id e < next_id pifo_five"
    by (simp_all add: pifo_five_hw) (simp_all add: pifo_five_def pifo_init_def valid_entry_def int_max_def)
  ultimately show "pifo_ok pifo_five" by (simp add: pifo_ok_def)
  show "pifo_ready pifo_five" by (simp add: pifo_ready_def pifo_five_def)
qed

subsection \<open>Properties\<close>



text \<open>C2: Every state that arrivals, departures and steps in any order can reach from the empty
  \<open>PIFO_Naive\<close> queue with at least 8 priorities satisfies the invariant: in particular its
  small queue, its backing vector and the entry it moves hold exactly the messages of the reference
  queue, and the sorted entries of the backing vector are in priority order.\<close>

theorem pifo_reachable:
  assumes "8 \<le> p" "qreach pifo_vt (nat int_max) (pifo_init p) q"
  shows "pifo_ok q"
  using pif.reach_qinv [OF assms(2)] pifo_init_ok(1) [OF assms(1)] pifo_init_ok(2)
  by (simp add: pifo_ok_qinv)

lemma pifo_reach_one:
  obtains q where "arrival pifo_vt 0 40 (pifo_init p) = Inr q" "hwqueue q \<noteq> []"
    "qreach pifo_vt (nat int_max) (pifo_init p) q"
proof -
  obtain q where q: "arrival pifo_vt 0 40 (pifo_init p) = Inr q" "hwqueue q \<noteq> []"
    by (simp add: arrival_def Let_def pifo_enqueue_def pifo_init_def int_max_def)
  have "qreach pifo_vt (nat int_max) (pifo_init p) q"
    by (rule reach_arrival [OF reach_init _ _ _ _ q(1)])
      (simp_all add: int_max_def pifo_size_def pifo_init_def)
  then show ?thesis using q that by blast
qed

theorem pifo_reachable_witness: "\<exists>q. hwqueue q \<noteq> [] \<and> pifo_ok q"
proof -
  obtain q where "hwqueue q \<noteq> []" "qreach pifo_vt (nat int_max) (pifo_init 8) q"
    using pifo_reach_one [of 8] by blast
  then show ?thesis using pifo_reachable [of 8 q] by auto
qed

text \<open>C7: A departure from a \<open>PIFO_Naive\<close> queue that has been stepped never fails and never wastes
  the link: no underflow is counted, and the link is left free only if no message waits. It counts
  an inaccuracy exactly if it sends a packet of a message although another one has less left, and
  while statistics are kept the completed plus the waiting messages stay the same number.\<close>

theorem pifo_departure:
  assumes "pifo_ok q" "pifo_ready q"
  shows "\<exists>q'. departure pifo_vt ts q = Inr q' \<and> pifo_ok q' \<and>
     underflow (simstats q') = underflow (simstats q) \<and> (buff q' = 0 \<longrightarrow> pifo_hw q' = {#}) \<and>
     pktinacc (simstats q') = pktinacc (simstats q) +
       of_bool (gstats q \<and> buff q \<le> 1 \<and> hwqueue q \<noteq> [] \<and>
         (\<exists>x\<in>#pifo_hw q. remaining x < remaining (hd (hwqueue q)))) \<and>
     (gstats q \<longrightarrow> comps (simstats q') + of_nat (size (pifo_hw q')) =
        comps (simstats q) + of_nat (size (pifo_hw q)))"
proof -
  have inv: "pif.qinv q" using assms(1) by (simp add: pifo_ok_qinv)
  obtain q' where d: "departure pifo_vt ts q = Inr q'" "pif.qinv q'" using pif.departure_ok [OF inv] by blast
  obtain oc where oc: "pif.slot_effect oc q q'" "oc = Underflow \<Longrightarrow> pif.offered ts q null_entry"
    "\<And>e. oc = Sent e \<Longrightarrow> pif.offered ts q e" using pif.departure_effect [OF inv d(1)] by metis
  have one: "buff q \<le> 1 \<longleftrightarrow> \<not> 1 < unat (buff q)" by (simp add: word_le_nat_alt not_less)
  have ne: "hwqueue q \<noteq> []" if "pifo_hw q \<noteq> {#}" using that assms(2) by (auto simp: pifo_ready_def)
  have "hd (hwqueue q) \<noteq> null_entry" if "hwqueue q \<noteq> []"
    using that pif.qinvD(5) [OF inv, of "hd (hwqueue q)"] by (auto simp: pifo_hw_def)
  then have "oc \<noteq> Underflow"
    using oc(1,2) ne pifo_offered [of ts q null_entry]
    by (auto simp: pif.slot_effect_def Let_def split: list.splits)
  moreover have "hwqueue q \<noteq> [] \<and> e = hd (hwqueue q)" if "oc = Sent e" for e
  proof -
    have "e \<in># pifo_hw q" using oc(1) that by (simp add: pif.slot_effect_def Let_def sent_def)
    then have "hwqueue q \<noteq> []" using ne by (cases "pifo_hw q") simp_all
    then show ?thesis using pifo_offered [OF oc(3) [OF that]] by (auto split: list.splits)
  qed
  ultimately have "pktinacc (simstats q') = pktinacc (simstats q) +
       of_bool (gstats q \<and> buff q \<le> 1 \<and> hwqueue q \<noteq> [] \<and>
         (\<exists>x\<in>#pifo_hw q. remaining x < remaining (hd (hwqueue q))))"
    using oc(1) by (cases oc) (auto simp: pif.slot_effect_def Let_def one pif.better_waits_def)
  then show ?thesis
    using d pif.paced_departure [OF inv assms(2) d(1)] pif.departure_conserves [OF inv d(1)]
    by (auto simp: pifo_ok_qinv)
qed

theorem pifo_departure_witness:
  "\<exists>q'. departure pifo_vt 6 pifo_five = Inr q' \<and> pifo_ok q' \<and>
     underflow (simstats q') = underflow (simstats pifo_five) \<and> (buff q' = 0 \<longrightarrow> pifo_hw q' = {#}) \<and>
     pktinacc (simstats q') = pktinacc (simstats pifo_five) +
       of_bool (gstats pifo_five \<and> buff pifo_five \<le> 1 \<and> hwqueue pifo_five \<noteq> [] \<and>
         (\<exists>x\<in>#pifo_hw pifo_five. remaining x < remaining (hd (hwqueue pifo_five)))) \<and>
     (gstats pifo_five \<longrightarrow> comps (simstats q') + of_nat (size (pifo_hw q')) =
        comps (simstats pifo_five) + of_nat (size (pifo_hw pifo_five)))"
  by (rule pifo_departure [OF pifo_five_ok])

text \<open>An arrival at a \<open>PIFO_Naive\<close> queue with at least 8 priorities never fails while fewer
  than \<open>INT_MAX\<close> messages wait; the new message joins the small queue, whatever its size, and no
  other message moves.\<close>

theorem pifo_arrival:
  assumes "pifo_ok q" "size (pifo_hw q) < nat int_max" "0 < n" "n \<le> int_max" "next_id q + 1 \<noteq> 0"
  shows "\<exists>q'. arrival pifo_vt ts n q = Inr q' \<and> pifo_ok q' \<and> buff q' = buff q \<and>
     hwqueue q' = ms_insert Compare (new_entry ts n q) (hwqueue q) \<and> backing q' = backing q \<and>
     pifo_hw q' = add_mset (new_entry ts n q) (pifo_hw q)"
proof -
  obtain q' where q': "arrival pifo_vt ts n q = Inr q'" "pif.qinv q'" "buff q' = buff q"
    "pifo_hw q' = add_mset (new_entry ts n q) (pifo_hw q)"
    using pif.arrival_ok [of q n ts] assms by (auto simp: pifo_ok_qinv)
  then show ?thesis
    by (auto simp: pifo_ok_qinv arrival_def Let_def pifo_enqueue_def new_entry_def split: if_splits)
qed

theorem pifo_arrival_witness:
  "\<exists>q'. arrival pifo_vt 4 25 pifo_five = Inr q' \<and> pifo_ok q' \<and> buff q' = buff pifo_five \<and>
     hwqueue q' = ms_insert Compare (new_entry 4 25 pifo_five) (hwqueue pifo_five) \<and>
     backing q' = backing pifo_five \<and>
     pifo_hw q' = add_mset (new_entry 4 25 pifo_five) (pifo_hw pifo_five)"
  by (rule pifo_arrival [OF pifo_five_ok(1)])
    (simp_all add: pifo_five_hw int_max_def, simp add: pifo_five_def)

text \<open>Like the ideal queue, a \<open>PIFO_Naive\<close> queue loses exactly one slot of work in every
  departure on a busy link and none on a free one, although it may serve the messages in another
  order.\<close>

theorem pifo_departure_work:
  assumes "pifo_ok q" "departure pifo_vt ts q = Inr q'"
  shows "pifo_work q' = pifo_work q - (if buff q = 0 then 0 else 1)"
  using pif.departure_backlog(1) [of q ts q'] assms by (simp add: pifo_ok_qinv pifo_work_backlog)

theorem pifo_departure_work_witness:
  "\<exists>q'. departure pifo_vt 6 pifo_five = Inr q' \<and> pifo_work q' = 150"
proof -
  obtain q' where q': "departure pifo_vt 6 pifo_five = Inr q'"
    using pif.departure_ok [of pifo_five 6] pifo_five_ok(1) by (auto simp: pifo_ok_qinv)
  have "pifo_work pifo_five = 150" "buff pifo_five = 0"
    by (simp_all add: pifo_work_def pifo_five_hw) (simp_all add: pifo_five_def pifo_init_def)
  then show ?thesis using pifo_departure_work [OF pifo_five_ok(1) q'] q' by simp
qed

subsection \<open>While the messages fit into the small queue\<close>

definition pifo_small :: "pifo \<Rightarrow> bool" where
  "pifo_small q \<longleftrightarrow> backing q = [] \<and> scan q = -1 \<and> firstunsort q = -1 \<and>
     int (length (hwqueue q)) \<le> priorities q"

lemma pifo_small_hw: "pifo_small q \<Longrightarrow> pifo_hw q = mset (hwqueue q)"
  by (simp add: pifo_small_def pifo_hw_def in_hand_def)

lemma pifo_small_step:
  "pifo_small q \<Longrightarrow> 0 \<le> priorities q \<Longrightarrow> pifo_step ts q = Inr ((pifo_maxsize q)\<lparr>diff := False\<rparr>)"
  by (auto simp: pifo_small_def pifo_step_def pifo_maxsize_def Let_def pifo_pick_def pifo_scan_def
      pifo_refill_def refill_wanted_def pifo_overflow_def size_ge_int_def)

lemma pifo_small_dequeue:
  assumes "pifo_dequeue q = Inr (e, q')" "pifo_small q"
  shows "pifo_small q'" "priorities q' = priorities q"
  using assms by (auto simp: pifo_dequeue_def pifo_small_def Let_def split: list.splits if_splits)

lemma retire_more: "retire ts e q = Inr q' \<Longrightarrow> queue.more q' = queue.more q"
  by (auto simp: retire_def gqueue_erase_def frame split: prod.splits if_splits)

lemma pifo_small_more:
  "queue.more q = queue.more q' \<Longrightarrow> pifo_small q \<longleftrightarrow> pifo_small q'"
  using pifo_more [of q q'] by (simp add: pifo_small_def)

lemma pifo_small_departure:
  assumes d: "departure pifo_vt ts q = Inr q'" and small: "pifo_small q"
  shows "pifo_small q' \<and> priorities q' = priorities q"
proof -
  let ?q = "departure_tick ts q"
  have t: "pifo_small ?q" "priorities ?q = priorities q"
    using small pifo_small_more [of ?q q] pifo_more(7) [of ?q q] by (auto simp: frame)
  have keep: "pifo_small q' \<and> priorities q' = priorities q"
    if "pifo_dequeue ?q = Inr (e, q1)" "queue.more q' = queue.more q1" for e q1
    using that pifo_small_dequeue [OF that(1) t(1)] t(2) pifo_small_more [of q' q1] pifo_more(7) [of q' q1]
    by auto
  show ?thesis
  proof (cases "buff ?q \<noteq> 0 \<or> pifo_empty ?q")
    case True
    then show ?thesis using d t by (auto simp: departure_def Let_def split: if_splits)
  next
    case False
    then obtain e q1 where dq: "pifo_dequeue ?q = Inr (e, q1)" using d by (auto simp: departure_def Let_def split: if_splits)
    then have "queue.more q' = queue.more q1"
      using d False by (auto simp: departure_def Let_def frame dest!: retire_more split: if_splits)
    then show ?thesis using keep [OF dq] by simp
  qed
qed

lemma pifo_small_inacc:
  assumes "pif.qinv q" "pifo_small q" "departure pifo_vt ts q = Inr q'"
  shows "pktinacc (simstats q') = pktinacc (simstats q)"
proof -
  note hw = pifo_small_hw [OF assms(2)]
  obtain oc where oc: "pif.slot_effect oc q q'" "\<And>e. oc = Sent e \<Longrightarrow> pif.offered ts q e"
    using pif.departure_effect [OF assms(1,3)] by metis
  have "\<not> pif.better_waits e q" if "oc = Sent e" for e
  proof -
    have "e \<in># pifo_hw q" using oc(1) that by (simp add: pif.slot_effect_def Let_def sent_def)
    then have "e \<in> set (hwqueue q)" using hw by simp
    then have "e = hd (hwqueue q)" using pifo_offered [OF oc(2) [OF that]] by (cases "hwqueue q") auto
    then have "\<forall>x \<in> set (hwqueue q). \<not> Compare x e"
      using ent.hd_least pifo_invD(2) [OF pif.qinvD(1) [OF assms(1)]] by metis
    then show ?thesis using hw
      by (auto simp: pif.better_waits_def not_Compare_prio dest!: prio_le_remaining)
  qed
  then show ?thesis using oc(1) by (cases oc) (auto simp: pif.slot_effect_def Let_def)
qed

lemma pifo_small_reach:
  assumes "8 \<le> p" "p \<le> int_max" "qreach pifo_vt (nat p) (pifo_init p) q"
  shows "pif.qinv q \<and> pifo_small q \<and> priorities q = p \<and> pktinacc (simstats q) = 0"
proof -
  have ok: "pif.qinv q" if "qreach pifo_vt (nat p) (pifo_init p) q" for q
    using pif.reach_qinv [OF qreach_mono [OF that]] pifo_init_ok [of p] assms(1,2) by (simp add: pifo_ok_qinv)
  have "pifo_small q \<and> priorities q = p \<and> pktinacc (simstats q) = 0"
    using assms(3)
  proof (induction rule: qreach.induct)
    case reach_init
    show ?case using assms(1) by (simp add: pifo_small_def pifo_init_def zero_simstat_def)
  next
    case (reach_arrival q n ts q')
    then have "active q = int (length (hwqueue q))"
      using pifo_small_hw [of q] pif.qinvD(1) [OF ok, of q] by (simp add: pifo_invD(4))
    then show ?case using reach_arrival assms(1)
      by (auto simp: arrival_def Let_def pifo_enqueue_def pifo_small_def pifo_size_def split: if_splits)
  next
    case (reach_departure q ts q')
    then show ?case
      using pifo_small_departure [of ts q q'] pifo_small_inacc [OF ok, of q ts q'] by simp
  next
    case (reach_step q ts q')
    then show ?case using pifo_small_step [of q ts] assms(1)
      by (auto simp: pifo_small_def pifo_maxsize_def Let_def)
  qed
  then show ?thesis using ok [OF assms(3)] by simp
qed

lemma pifo_small_gqueue:
  assumes inv: "pif.qinv q" and small: "pifo_small q"
  shows "hwqueue q = gqueue q"
proof (rule ent.sorted_mset_unique)
  show set: "mset (hwqueue q) = mset (gqueue q)" using pif.qinvD(2) [OF inv] pifo_small_hw [OF small] by simp
  fix x y assume "x \<in> set (hwqueue q)" "y \<in> set (hwqueue q)" "ms_equiv Compare x y"
  then show "x = y" using pif.qinvD(4) [OF inv] mset_eq_setD [OF set]
    by (auto simp: distinct_map inj_on_def equiv_prio prio_eq_iff)
qed (use pifo_invD(2) [OF pif.qinvD(1) [OF inv]] pif.qinvD(3) [OF inv] in simp_all)

text \<open>C6: As long as never more than \<open>priorities\<close> messages wait, \<open>PIFO_Naive\<close> is an ideal
  queue: in every state that arrivals, departures and steps can reach, its small queue is the
  reference queue, entry for entry, its backing vector is empty, and no inaccuracy has been
  counted.\<close>

theorem pifo_exact_while_small:
  assumes "8 \<le> p" "p \<le> int_max" "qreach pifo_vt (nat p) (pifo_init p) q"
  shows "hwqueue q = gqueue q \<and> backing q = [] \<and> pktinacc (simstats q) = 0"
  using pifo_small_reach [OF assms] pifo_small_gqueue [of q] by (simp add: pifo_small_def)

theorem pifo_exact_while_small_witness:
  "\<exists>q :: pifo. gqueue q \<noteq> [] \<and> hwqueue q = gqueue q \<and> backing q = [] \<and> pktinacc (simstats q) = 0"
proof -
  obtain q where q: "arrival pifo_vt 0 40 (pifo_init 8) = Inr q" "gqueue q \<noteq> []"
    by (simp add: arrival_def Let_def pifo_enqueue_def pifo_init_def int_max_def)
  have "qreach pifo_vt (nat 8) (pifo_init 8) q"
    by (rule reach_arrival [OF reach_init _ _ _ _ q(1)])
      (simp_all add: int_max_def pifo_size_def pifo_init_def)
  then have "hwqueue q = gqueue q \<and> backing q = [] \<and> pktinacc (simstats q) = 0"
    by (intro pifo_exact_while_small [of 8 q]) (simp_all add: int_max_def)
  then show ?thesis using q(2) by blast
qed

text \<open>Eight priorities are needed: with 7, eight messages and two steps suffice to make \<open>step\<close>
  dereference \<open>std::next (hwqueue.begin (), -1)\<close>.\<close>

theorem pifo_seven_priorities:
  "failure (rbind (rbind (foldl (\<lambda>r n. rbind r (arrival pifo_vt 0 n)) (Inr (pifo_init 7))
     [1, 2, 3, 4, 5, 6, 7, 8]) (pifo_step 0)) (pifo_step 1)) = Some OutOfRange"
  by code_simp

end
