(* ===== verification/C_Library.thy ===== *)
theory C_Library
  imports Prelude
begin

section \<open>Functions of the C library and arithmetic of int\<close>

text \<open>
  What several components use of C itself: \<open>strtol\<close> in base 10 with a function that writes
  decimal digits and the round trip between the two, and the arithmetic of \<open>int\<close> with its
  undefined cases (division by zero and results outside the type).
\<close>

subsection \<open>strtol (s, end, 10)\<close>

text \<open>
  The C library function: white space, a sign, decimal digits; the value is clamped to the range
  of \<open>long\<close>. The second component is the text behind the number, all of it if there is none.
\<close>

definition is_space :: "char \<Rightarrow> bool" where
  "is_space c \<longleftrightarrow> of_char c = (32 :: nat) \<or> 9 \<le> (of_char c :: nat) \<and> of_char c \<le> (13 :: nat)"

definition is_digit :: "char \<Rightarrow> bool" where
  "is_digit c \<longleftrightarrow> 48 \<le> (of_char c :: nat) \<and> of_char c \<le> (57 :: nat)"

definition digits_val :: "string \<Rightarrow> int" where
  "digits_val ds = foldl (\<lambda>v c. 10 * v + (of_char c - 48)) 0 ds"

definition clamp_long :: "int \<Rightarrow> int" where
  "clamp_long v = max (- (2 ^ 63)) (min (2 ^ 63 - 1) v)"

definition strtol10 :: "string \<Rightarrow> int \<times> string" where
  "strtol10 s =
     (let t = dropWhile is_space s;
          neg = (t \<noteq> [] \<and> hd t = CHR ''-'');
          d = (if t \<noteq> [] \<and> (hd t = CHR ''-'' \<or> hd t = CHR ''+'') then tl t else t);
          v = digits_val (takeWhile is_digit d)
      in if takeWhile is_digit d = [] then (0, s)
         else (clamp_long (if neg then - v else v), dropWhile is_digit d))"

text \<open>The decimal digits of a number, and that \<open>strtol\<close> reads them back.\<close>

function decimal :: "nat \<Rightarrow> string" where
  "decimal n = (if n < 10 then [char_of (48 + n)] else decimal (n div 10) @ [char_of (48 + n mod 10)])"
  by auto
termination by (relation "measure id") auto

declare decimal.simps [simp del]

lemma char_digit:
  assumes "d < 10"
  shows "(of_char (char_of (48 + d)) :: nat) = 48 + d" "is_digit (char_of (48 + d))"
    "\<not> is_space (char_of (48 + d))"
proof -
  show c: "(of_char (char_of (48 + d)) :: nat) = 48 + d"
    using assms by (simp add: of_char_of)
  show "is_digit (char_of (48 + d))" "\<not> is_space (char_of (48 + d))"
    using assms by (simp_all add: is_digit_def is_space_def c)
qed

lemma digits_val_snoc: "digits_val (ds @ [c]) = 10 * digits_val ds + (of_char c - 48)"
  by (simp add: digits_val_def)

lemma decimal_digits: "list_all is_digit (decimal n) \<and> decimal n \<noteq> [] \<and> digits_val (decimal n) = int n"
proof (induction n rule: decimal.induct)
  case (1 n)
  have of_char_int: "(of_char (char_of (48 + d)) :: int) = 48 + int d" if "d < 10" for d :: nat
    using char_digit(1) [OF that] of_char_of [of "48 + d"] by (metis of_nat_add of_nat_numeral of_nat_of_char)
  show ?case
  proof (cases "n < 10")
    case True
    then show ?thesis
      using char_digit(2) [OF True] of_char_int [OF True]
      by (simp add: decimal.simps [of n] digits_val_def)
  next
    case False
    then show ?thesis
      using 1 char_digit(2) [of "n mod 10"] of_char_int [of "n mod 10"]
      by (simp add: decimal.simps [of n] digits_val_snoc zdiv_int zmod_int)
  qed
qed

lemma digit_not_sign: "is_digit c \<Longrightarrow> c \<noteq> CHR ''-'' \<and> c \<noteq> CHR ''+'' \<and> \<not> is_space c"
  by (auto simp: is_digit_def is_space_def)

lemma strtol10_decimal:
  assumes "int n < 2 ^ 63"
  shows "strtol10 (decimal n) = (int n, [])"
proof -
  have d: "list_all is_digit (decimal n)" "decimal n \<noteq> []" "digits_val (decimal n) = int n"
    using decimal_digits [of n] by auto
  then obtain c cs where c: "decimal n = c # cs" "is_digit c" by (cases "decimal n") auto
  have "dropWhile is_space (decimal n) = decimal n" using digit_not_sign [OF c(2)] by (simp add: c)
  moreover have tk: "takeWhile is_digit cs = cs" "dropWhile is_digit cs = []"
    using d(1) by (auto simp: c list_all_iff takeWhile_eq_all_conv dropWhile_eq_Nil_conv)
  moreover have "clamp_long (int n) = int n" using assms by (simp add: clamp_long_def)
  ultimately show ?thesis using digit_not_sign [OF c(2)] d(3) c by (simp add: strtol10_def Let_def tk)
qed

subsection \<open>Arithmetic of int\<close>

text \<open>Division of \<open>int\<close>, which truncates and must not divide by zero, and checked results.\<close>

definition int_div :: "int \<Rightarrow> int \<Rightarrow> int res" where
  "int_div a b = (if b = 0 then Inl DivByZero
     else if int32_range (sgn a * sgn b * (\<bar>a\<bar> div \<bar>b\<bar>)) then Inr (sgn a * sgn b * (\<bar>a\<bar> div \<bar>b\<bar>))
     else Inl SignedOverflow)"

definition int_val :: "int \<Rightarrow> int res" where
  "int_val i = (if int32_range i then Inr i else Inl SignedOverflow)"

lemma int_div_nonneg:
  assumes "0 \<le> a" "a \<le> int_max" "0 < b"
  shows "int_div a b = Inr (a div b)"
proof -
  have "a div b \<le> a" using assms by (metis div_by_1 int_one_le_iff_zero_less zdiv_mono2 zero_less_one)
  moreover have "0 \<le> a div b" using assms by (simp add: pos_imp_zdiv_nonneg_iff)
  ultimately show ?thesis
    using assms by (cases "a = 0") (auto simp: int_div_def int32_range_def int_min_def)
qed

lemma int_val_ok: "int_min \<le> i \<Longrightarrow> i \<le> int_max \<Longrightarrow> int_val i = Inr i"
  by (simp add: int_val_def int32_range_def)

end
