(* ===== verification/Dist.thy ===== *)
theory Dist
  imports C_Library Doubles
begin

section \<open>Message length distributions\<close>

text \<open>
  Class \<open>dist_point_gen\<close> of \<open>model/dist.h\<close> and \<open>model/dist.cc\<close>: a cumulative distribution
  of message lengths, given as a list of points. The constructor reads a fixed length or selects a
  table, merges small buckets of the table and computes the mean; \<open>operator()\<close> samples by
  inverting the distribution; \<open>dist_overhead\<close> computes the bytes on the wire. Doubles are
  rationals rounded by \<open>fl\<close>. The built-in tables are in theory \<open>Workloads\<close>; here the tables
  are an argument. The locale \<open>cdf_table\<close> states what the constructor relies on in a table, and
  proves that then it never reads past the end and what distribution it builds.
\<close>

subsection \<open>Points\<close>

record cdf_point =
  pt_length :: nat
  fraction :: rat

definition cdf_point :: "nat \<Rightarrow> rat \<Rightarrow> cdf_point" where
  "cdf_point l f = \<lparr>pt_length = l, fraction = f\<rparr>"

lemma cdf_point_simps [simp]: "pt_length (cdf_point l f) = l" "fraction (cdf_point l f) = f"
  by (simp_all add: cdf_point_def)

record dist_gen =
  dist_points :: "cdf_point list"
  dist_mean :: rat

subsection \<open>The constructor\<close>

text \<open>
  Whether to keep point \<open>p\<close> with the points \<open>ps\<close> behind it, when \<open>dist_points\<close> is
  \<open>acc\<close>. \<open>p[1]\<close> is only read if the first two conditions are false.
\<close>

definition keep_point :: "rat \<Rightarrow> rat \<Rightarrow> cdf_point \<Rightarrow> cdf_point list \<Rightarrow> cdf_point list \<Rightarrow> bool res" where
  "keep_point min_bucket_frac max_size_ratio p ps acc =
     (if acc = [] then Inr True
      else if fl (fraction p - fraction (last acc)) \<ge> min_bucket_frac then Inr True
      else (case ps of
              [] \<Rightarrow> Inl OutOfRange
            | p1 # _ \<Rightarrow> Inr (fl (max_size_ratio * fl (of_nat (pt_length (last acc))))
                               < fl (of_nat (pt_length p1)))))"

fun reduce_points :: "nat \<Rightarrow> rat \<Rightarrow> rat \<Rightarrow> cdf_point list \<Rightarrow> cdf_point list \<Rightarrow> cdf_point list res" where
  "reduce_points max_length mbf msr [] acc = Inl OutOfRange"
| "reduce_points max_length mbf msr (p # ps) acc =
     (if pt_length p \<ge> max_length then Inr (acc @ [cdf_point max_length 1])
      else if fraction p \<ge> 1 then Inr (acc @ [cdf_point (pt_length p) 1])
      else rbind (keep_point mbf msr p ps acc) (\<lambda>keep.
             reduce_points max_length mbf msr ps
               (if keep then acc @ [cdf_point (pt_length p) (fraction p)] else acc)))"

fun mean_loop :: "cdf_point list \<Rightarrow> rat \<Rightarrow> rat \<Rightarrow> rat" where
  "mean_loop [] prev_fraction mean = mean"
| "mean_loop (p # ps) prev_fraction mean =
     mean_loop ps (fraction p)
       (fl (mean + fl (of_int \<lceil>fl (fl (of_nat (pt_length p)) / 64)\<rceil> * fl (fraction p - prev_fraction))))"

definition dist_point_gen ::
    "(string \<Rightarrow> cdf_point list res) \<Rightarrow> string \<Rightarrow> nat \<Rightarrow> rat \<Rightarrow> rat \<Rightarrow> dist_gen res" where
  "dist_point_gen tables name max_length0 min_bucket_frac max_size_ratio =
     (let max_length = (if max_length0 = 0 then 2 ^ 64 - 1 else max_length0);
          (v, rest) = strtol10 name;
          len = to_int32 v
      in if len \<noteq> 0 \<and> rest = [] then
           Inr \<lparr>dist_points = [cdf_point (to_u64 len) 1], dist_mean = fl (of_int len)\<rparr>
         else
           rbind (tables name) (\<lambda>points.
           rbind (reduce_points max_length min_bucket_frac max_size_ratio points []) (\<lambda>pts.
             Inr \<lparr>dist_points = pts, dist_mean = mean_loop pts 0 0\<rparr>)))"

text \<open>The default arguments.\<close>

definition default_min_bucket_frac :: rat where "default_min_bucket_frac = fl 0.0025"
definition default_max_size_ratio :: rat where "default_max_size_ratio = fl 1.2"

subsection \<open>Sampling and the other operations\<close>

text \<open>\<open>operator()\<close>; \<open>u\<close> is the value drawn from \<open>uniform_dist\<close>.\<close>

definition dist_sample :: "cdf_point list \<Rightarrow> rat \<Rightarrow> int res" where
  "dist_sample pts u =
     (case find (\<lambda>p. fraction p \<ge> u) pts of
        None \<Rightarrow> Inl Aborted
      | Some p \<Rightarrow> Inr (to_int32 (int (pt_length p))))"

definition dist_values :: "dist_gen \<Rightarrow> int list" where
  "dist_values d = map (\<lambda>p. to_int32 (int (pt_length p))) (dist_points d)"

definition cdf_fractions :: "dist_gen \<Rightarrow> rat list" where
  "cdf_fractions d = map fraction (dist_points d)"

definition dist_msg_overhead :: "int \<Rightarrow> int \<Rightarrow> int res" where
  "dist_msg_overhead len mtu =
     (let preamble = 8; ether = 18; ip = 20; homa_data = 48; crc_gap = 16; homa_grant = 33;
          unsched = 70000; grant_increment = 10000
      in rbind (int_val (mtu - (ip + homa_data))) (\<lambda>packet_data.
         rbind (int_val (len + packet_data)) (\<lambda>sum.
         rbind (int_val (sum - 1)) (\<lambda>n.
         rbind (int_div n packet_data) (\<lambda>packets.
         rbind (if len \<le> unsched then Inr 0
                else rbind (int_val (len - unsched + grant_increment)) (\<lambda>m.
                       int_div (m - 1) grant_increment)) (\<lambda>grants.
           let common = preamble + ether + ip + crc_gap
           in rbind (int_val (packets * (common + homa_data))) (\<lambda>x.
              rbind (int_val (grants * (common + homa_grant))) (\<lambda>y. int_val (x + y)))))))))"

fun overhead_loop :: "int \<Rightarrow> cdf_point list \<Rightarrow> rat \<Rightarrow> rat \<Rightarrow> rat \<Rightarrow> (rat \<times> rat) res" where
  "overhead_loop mtu [] prev avg_overhead avg_bytes = Inr (avg_overhead, avg_bytes)"
| "overhead_loop mtu (p # ps) prev avg_overhead avg_bytes =
     rbind (dist_msg_overhead (to_int32 (int (pt_length p))) mtu) (\<lambda>ov.
       overhead_loop mtu ps (fraction p)
         (fl (avg_overhead + fl (of_int ov * fl (fraction p - prev))))
         (fl (avg_bytes + fl (fl (of_nat (pt_length p)) * fl (fraction p - prev)))))"

definition dist_overhead :: "int \<Rightarrow> dist_gen \<Rightarrow> rat res" where
  "dist_overhead mtu d =
     rbind (overhead_loop mtu (dist_points d) 0 0 0) (\<lambda>(avg_overhead, avg_bytes).
       if avg_bytes = 0 then Inl NotFinite else Inr (fl (avg_overhead / avg_bytes)))"

subsection \<open>What the constructor builds\<close>

text \<open>
  \<open>cdf_ok max_length pts\<close>: lengths increase and do not exceed \<open>max_length\<close>, fractions do not
  decrease, are positive, and reach 1 with the last point.
\<close>

definition cdf_ok :: "nat \<Rightarrow> cdf_point list \<Rightarrow> bool" where
  "cdf_ok max_length pts \<longleftrightarrow> pts \<noteq> [] \<and> fraction (last pts) = 1 \<and>
     sorted_wrt (\<lambda>p q. pt_length p < pt_length q \<and> fraction p \<le> fraction q) pts \<and>
     (\<forall>p \<in> set pts. 0 < pt_length p \<and> pt_length p \<le> max_length \<and> 0 < fraction p \<and> fraction p \<le> 1)"

lemma cdf_point_id [simp]: "cdf_point (pt_length p) (fraction p) = p"
  by (simp add: cdf_point_def)

definition below :: "cdf_point \<Rightarrow> cdf_point \<Rightarrow> bool" where
  "below p q \<longleftrightarrow> pt_length p < pt_length q \<and> fraction p \<le> fraction q"

lemma below_trans: "below p q \<Longrightarrow> below q r \<Longrightarrow> below p r"
  by (auto simp: below_def)

definition in_range :: "nat \<Rightarrow> cdf_point \<Rightarrow> bool" where
  "in_range m p \<longleftrightarrow> 0 < pt_length p \<and> pt_length p \<le> m \<and> 0 < fraction p \<and> fraction p \<le> 1"

lemma cdf_ok_alt: "cdf_ok m pts \<longleftrightarrow> pts \<noteq> [] \<and> fraction (last pts) = 1 \<and> sorted_wrt below pts \<and>
    (\<forall>p \<in> set pts. in_range m p)"
  by (simp add: cdf_ok_def below_def [abs_def] in_range_def)

lemma sorted_below_snoc:
  "sorted_wrt below (xs @ [z]) \<longleftrightarrow> sorted_wrt below xs \<and> (\<forall>x \<in> set xs. below x z)"
  by (simp add: sorted_wrt_append)

lemma cdf_ok_snoc:
  assumes "sorted_wrt below acc" "\<forall>p \<in> set acc. pt_length p < l \<and> in_range m p" "0 < l" "l \<le> m"
  shows "cdf_ok m (acc @ [cdf_point l 1])"
  using assms by (auto simp: cdf_ok_alt sorted_below_snoc below_def in_range_def)

lemma keep_point_ok:
  "ps \<noteq> [] \<Longrightarrow> \<exists>b. keep_point mbf msr p ps acc = Inr b"
  by (cases ps) (auto simp: keep_point_def)

text \<open>The loop on a table whose last fraction is 1 stays inside the table.\<close>

lemma reduce_points_ok:
  "ps \<noteq> [] \<Longrightarrow> 1 \<le> fraction (last ps) \<Longrightarrow> sorted_wrt below (acc @ ps) \<Longrightarrow>
   \<forall>p \<in> set acc. pt_length p < max_length \<and> in_range max_length p \<Longrightarrow>
   \<forall>p \<in> set ps. 0 < pt_length p \<and> 0 < fraction p \<Longrightarrow> 0 < max_length \<Longrightarrow>
   \<exists>r. reduce_points max_length mbf msr ps acc = Inr r \<and> cdf_ok max_length r"
proof (induction max_length mbf msr ps acc rule: reduce_points.induct)
  case (1 max_length mbf msr acc)
  then show ?case by simp
next
  case (2 max_length mbf msr p ps acc)
  have so: "sorted_wrt below acc" "\<forall>x \<in> set acc. below x p" "sorted_wrt below (acc @ ps)"
    "sorted_wrt below ((acc @ [p]) @ ps)"
    using "2.prems"(3) by (auto simp: sorted_wrt_append)
  consider (trunc) "max_length \<le> pt_length p" | (full) "pt_length p < max_length" "1 \<le> fraction p"
    | (cont) "pt_length p < max_length" "fraction p < 1" by linarith
  then show ?case
  proof cases
    case trunc
    then show ?thesis using cdf_ok_snoc [OF so(1)] "2.prems" by simp
  next
    case full
    then show ?thesis using cdf_ok_snoc [OF so(1), of "pt_length p" max_length] "2.prems" so(2)
      by (auto simp: below_def)
  next
    case cont
    then have ps: "ps \<noteq> []" using "2.prems"(2) by (cases ps) auto
    then obtain b where b: "keep_point mbf msr p ps acc = Inr b" using keep_point_ok by blast
    have "in_range max_length p" using cont "2.prems"(5) by (simp add: in_range_def)
    then have "\<exists>r. reduce_points max_length mbf msr ps (if b then acc @ [p] else acc) = Inr r \<and>
        cdf_ok max_length r"
      using "2.IH" [of b] cont b "2.prems" ps so(3,4) by (cases b) simp_all
    then show ?thesis using cont b by (cases b) simp_all
  qed
qed

text \<open>
  With a minimum bucket of 0 no point is merged away: the points are those of the table below the
  maximum length, and the first one that is not.
\<close>

definition plain :: "nat \<Rightarrow> cdf_point \<Rightarrow> bool" where
  "plain max_length p \<longleftrightarrow> pt_length p < max_length \<and> fraction p < 1"

definition closing :: "nat \<Rightarrow> cdf_point list \<Rightarrow> cdf_point" where
  "closing max_length ps = cdf_point (min max_length (pt_length (hd (dropWhile (plain max_length) ps)))) 1"

lemma reduce_points_unmerged:
  "mbf \<le> 0 \<Longrightarrow> ps \<noteq> [] \<Longrightarrow> 1 \<le> fraction (last ps) \<Longrightarrow> sorted_wrt below (acc @ ps) \<Longrightarrow>
   reduce_points max_length mbf msr ps acc =
     Inr (acc @ takeWhile (plain max_length) ps @ [closing max_length ps])"
proof (induction max_length mbf msr ps acc rule: reduce_points.induct)
  case (1 max_length mbf msr acc)
  then show ?case by simp
next
  case (2 max_length mbf msr p ps acc)
  show ?case
  proof (cases "plain max_length p")
    case True
    then have ps: "ps \<noteq> []" using "2.prems"(3) by (cases ps) (auto simp: plain_def)
    have "fraction (last acc) \<le> fraction p" if "acc \<noteq> []"
      using that "2.prems"(4) by (simp add: sorted_wrt_append below_def)
    then have "0 \<le> fl (fraction p - fraction (last acc))" if "acc \<noteq> []"
      using that by (intro dbl.rnd_nonneg) simp
    then have k: "keep_point mbf msr p ps acc = Inr True"
      using "2.prems"(1) by (auto simp: keep_point_def)
    have p: "pt_length p < max_length" "fraction p < 1" using True by (simp_all add: plain_def)
    have "reduce_points max_length mbf msr ps (acc @ [p]) =
        Inr ((acc @ [p]) @ takeWhile (plain max_length) ps @ [closing max_length ps])"
      using "2.IH" [of True] p k ps "2.prems" by simp
    then show ?thesis using True p k by (simp add: closing_def)
  next
    case False
    then have c: "takeWhile (plain max_length) (p # ps) = []"
      "closing max_length (p # ps) = cdf_point (min max_length (pt_length p)) 1"
      by (simp_all add: closing_def)
    have "max_length \<le> pt_length p \<or> pt_length p < max_length \<and> 1 \<le> fraction p"
      using False by (auto simp: plain_def)
    then show ?thesis unfolding c by (elim disjE) (simp_all add: min_absorb1 min_absorb2)
  qed
qed

text \<open>
  How far a bucket reaches: from one point to the next the length grows at most by the factor
  \<open>max_size_ratio\<close>, unless the table itself has no point in between.
\<close>

definition bucket_ok :: "cdf_point list \<Rightarrow> rat \<Rightarrow> cdf_point \<Rightarrow> cdf_point \<Rightarrow> bool" where
  "bucket_ok tab msr p q \<longleftrightarrow>
     (\<exists>us r vs. tab = us @ p # r # vs \<and> pt_length q \<le> pt_length r) \<or>
     fl (of_nat (pt_length q)) \<le> fl (msr * fl (of_nat (pt_length p)))"

lemma bucket_ok_le:
  assumes b: "bucket_ok tab msr p q" and le: "pt_length q' \<le> pt_length q"
  shows "bucket_ok tab msr p q'"
proof (cases "fl (of_nat (pt_length q)) \<le> fl (msr * fl (of_nat (pt_length p)))")
  case True
  have "fl (of_nat (pt_length q')) \<le> fl (of_nat (pt_length q))" using le by (intro dbl.rnd_mono) simp
  with True show ?thesis by (simp add: bucket_ok_def)
next
  case False
  then obtain us r vs where "tab = us @ p # r # vs" "pt_length q \<le> pt_length r"
    using b by (auto simp: bucket_ok_def)
  then have "tab = us @ p # r # vs \<and> pt_length q' \<le> pt_length r" using le by simp
  then show ?thesis unfolding bucket_ok_def by blast
qed

lemma successively_snoc:
  "successively R (xs @ [x]) \<longleftrightarrow> successively R xs \<and> (xs \<noteq> [] \<longrightarrow> R (last xs) x)"
  by (auto simp: successively_append_iff)

lemma reduce_points_buckets:
  "reduce_points max_length mbf msr ps acc = Inr r \<Longrightarrow> tab = us @ ps \<Longrightarrow>
   successively (bucket_ok tab msr) acc \<Longrightarrow>
   (acc \<noteq> [] \<and> ps \<noteq> [] \<longrightarrow> bucket_ok tab msr (last acc) (hd ps)) \<Longrightarrow>
   successively (bucket_ok tab msr) r"
proof (induction max_length mbf msr ps acc arbitrary: us rule: reduce_points.induct)
  case (1 max_length mbf msr acc)
  then show ?case by simp
next
  case (2 max_length mbf msr p ps acc)
  let ?R = "bucket_ok tab msr"
  show ?case
  proof (cases "plain max_length p")
    case False
    have "?R (last acc) (cdf_point l 1)" if "acc \<noteq> []" "l \<le> pt_length p" for l
      using that "2.prems"(4) by (auto intro: bucket_ok_le)
    then show ?thesis using False "2.prems"(1,3)
      by (auto simp: plain_def successively_snoc split: if_splits)
  next
    case True
    then obtain b where b: "keep_point mbf msr p ps acc = Inr b"
      and r: "reduce_points max_length mbf msr ps (if b then acc @ [p] else acc) = Inr r"
      using "2.prems"(1) True by (cases "keep_point mbf msr p ps acc") (auto simp: plain_def split: if_splits)
    have tab: "tab = (us @ [p]) @ ps" using "2.prems"(2) by simp
    have adj: "?R p (hd ps)" if "ps \<noteq> []"
      using that "2.prems"(2) unfolding bucket_ok_def
      by (intro disjI1 exI [of _ us] exI [of _ "hd ps"] exI [of _ "tl ps"]) simp
    have skip: "?R (last acc) (hd ps)" if "\<not> b" "ps \<noteq> []"
      using that b by (cases ps) (auto simp: keep_point_def bucket_ok_def split: if_splits)
    have next_acc: "successively ?R (if b then acc @ [p] else acc)"
      using "2.prems"(3,4) by (simp add: successively_snoc)
    have next_hd: "(if b then acc @ [p] else acc) \<noteq> [] \<and> ps \<noteq> [] \<longrightarrow>
        ?R (last (if b then acc @ [p] else acc)) (hd ps)"
      using adj skip by simp
    have "plain max_length p \<Longrightarrow> successively ?R r"
      by (rule "2.IH" [of b "us @ [p]"]) (use b r tab next_acc next_hd in \<open>simp_all add: plain_def split: if_splits\<close>)
    then show ?thesis using True by simp
  qed
qed

subsection \<open>Sampling inverts the distribution\<close>

text \<open>The cumulative distribution a list of points stands for.\<close>

definition cdf_at :: "cdf_point list \<Rightarrow> int \<Rightarrow> rat" where
  "cdf_at pts l = foldr max (map fraction (filter (\<lambda>p. int (pt_length p) \<le> l) pts)) 0"

lemma le_foldr_max: "u \<le> foldr max xs z \<longleftrightarrow> u \<le> z \<or> (\<exists>x \<in> set xs. u \<le> x)"
  for u z :: rat
  by (induction xs) (auto simp: le_max_iff_disj)

lemma le_cdf_at: "0 < u \<Longrightarrow> u \<le> cdf_at pts l \<longleftrightarrow> (\<exists>p \<in> set pts. int (pt_length p) \<le> l \<and> u \<le> fraction p)"
  by (auto simp: cdf_at_def le_foldr_max)

lemma cdf_ok_small:
  assumes "cdf_ok m pts" "int m \<le> int_max" "p \<in> set pts"
  shows "to_int32 (int (pt_length p)) = int (pt_length p)"
  using assms by (intro to_int32_id) (auto simp: cdf_ok_def int32_range_def int_min_def)

lemma dist_sample_point:
  assumes ok: "cdf_ok m pts" and m: "int m \<le> int_max" and u: "u \<le> 1"
  shows "\<exists>p \<in> set pts. dist_sample pts u = Inr (int (pt_length p)) \<and> u \<le> fraction p \<and>
     (\<forall>q \<in> set pts. u \<le> fraction q \<longrightarrow> pt_length p \<le> pt_length q)"
proof -
  have "\<exists>p \<in> set pts. u \<le> fraction p"
    using ok u by (intro bexI [of _ "last pts"]) (auto simp: cdf_ok_def)
  then obtain p where f: "find (\<lambda>p. u \<le> fraction p) pts = Some p"
    by (cases "find (\<lambda>p. u \<le> fraction p) pts") (auto simp: find_None_iff)
  then obtain i where i: "i < length pts" "u \<le> fraction (pts ! i)" "p = pts ! i"
    "\<And>j. j < i \<Longrightarrow> \<not> u \<le> fraction (pts ! j)" by (auto simp: find_Some_iff)
  have "pt_length p \<le> pt_length q" if q: "q \<in> set pts" "u \<le> fraction q" for q
  proof -
    obtain j where j: "q = pts ! j" "j < length pts" using q(1) by (auto simp: in_set_conv_nth)
    then have "i \<le> j" using i(4) [of j] q(2) by (cases "j < i") auto
    then show ?thesis using ok i(3) j
      by (cases "i = j") (auto simp: cdf_ok_def sorted_wrt_iff_nth_less less_imp_le)
  qed
  moreover have "dist_sample pts u = Inr (int (pt_length p))"
    using f cdf_ok_small [OF ok m, of p] i by (simp add: dist_sample_def)
  ultimately show ?thesis using i by (intro bexI [of _ p]) auto
qed

lemma dist_sample_galois:
  assumes ok: "cdf_ok m pts" and m: "int m \<le> int_max" and u: "0 < u" "u \<le> 1"
  shows "\<exists>v. dist_sample pts u = Inr v \<and> 0 < v \<and> v \<le> int m \<and> (\<forall>l. v \<le> l \<longleftrightarrow> u \<le> cdf_at pts l)"
proof -
  obtain p where p: "p \<in> set pts" "dist_sample pts u = Inr (int (pt_length p))" "u \<le> fraction p"
    "\<And>q. q \<in> set pts \<Longrightarrow> u \<le> fraction q \<Longrightarrow> pt_length p \<le> pt_length q"
    using dist_sample_point [OF ok m u(2)] by auto
  have "int (pt_length p) \<le> l \<longleftrightarrow> u \<le> cdf_at pts l" for l
    using p(1,3,4) by (force simp: le_cdf_at [OF u(1)])
  moreover have "0 < pt_length p \<and> pt_length p \<le> m" using ok p(1) by (auto simp: cdf_ok_def)
  ultimately show ?thesis using p(2) by auto
qed

lemma dist_sample_mono:
  assumes ok: "cdf_ok m pts" and m: "int m \<le> int_max" and u: "u \<le> u'" "u' \<le> 1"
    and v: "dist_sample pts u = Inr v" "dist_sample pts u' = Inr v'"
  shows "v \<le> v'"
  using dist_sample_point [OF ok m, of u] dist_sample_point [OF ok m u(2)] u v by fastforce

subsection \<open>The mean\<close>

text \<open>The mean in exact arithmetic, in slots of 64 bytes.\<close>

fun exact_mean :: "cdf_point list \<Rightarrow> rat \<Rightarrow> rat" where
  "exact_mean [] prev = 0"
| "exact_mean (p # ps) prev =
     of_int \<lceil>of_nat (pt_length p) / (64 :: rat)\<rceil> * (fraction p - prev) + exact_mean ps (fraction p)"

definition near :: "nat \<Rightarrow> rat \<Rightarrow> rat \<Rightarrow> bool" where
  "near k x y \<longleftrightarrow> 0 \<le> x \<and> x * (1 - ulp) ^ k \<le> y \<and> y \<le> x * (1 + ulp) ^ k"

lemma near_nonneg:
  assumes "near k x y"
  shows "0 \<le> y"
proof -
  have "0 \<le> x * (1 - ulp) ^ k" using assms ulp_bounds by (simp add: near_def)
  then show ?thesis using assms unfolding near_def by linarith
qed

lemma near_0: "0 \<le> x \<Longrightarrow> near 0 x x"
  by (simp add: near_def)

lemma near_mono:
  assumes n: "near k x y" and le: "k \<le> k'"
  shows "near k' x y"
proof -
  have "(1 - ulp) ^ k' \<le> (1 - ulp) ^ k" using le ulp_bounds by (intro power_decreasing) auto
  moreover have "(1 + ulp) ^ k \<le> (1 + ulp) ^ k'" using le ulp_bounds by (intro power_increasing) auto
  ultimately show ?thesis
    using n mult_left_mono [of _ _ x] unfolding near_def by (meson order_trans)
qed

lemma near_fl:
  assumes "near k x y"
  shows "near (Suc k) x (fl y)"
proof -
  note fl_rel [OF near_nonneg [OF assms]]
  moreover have "x * (1 - ulp) ^ k * (1 - ulp) \<le> y * (1 - ulp)" "y * (1 + ulp) \<le> x * (1 + ulp) ^ k * (1 + ulp)"
    using assms ulp_bounds by (auto simp: near_def intro!: mult_right_mono)
  ultimately have "x * (1 - ulp) ^ k * (1 - ulp) \<le> fl y" "fl y \<le> x * (1 + ulp) ^ k * (1 + ulp)"
    by linarith+
  then show ?thesis using assms by (simp add: near_def ac_simps)
qed

lemma near_add: "near k x y \<Longrightarrow> near k x' y' \<Longrightarrow> near k (x + x') (y + y')"
  by (auto simp: near_def algebra_simps)

lemma near_mult: "near k x y \<Longrightarrow> 0 \<le> c \<Longrightarrow> near k (c * x) (c * y)"
  by (auto simp: near_def mult.assoc intro: mult_left_mono)

lemma near_positive:
  assumes "near k x y" "0 < x"
  shows "0 < y"
proof -
  have "0 < x * (1 - ulp) ^ k" using assms(2) ulp_bounds by simp
  then show ?thesis using assms(1) unfolding near_def by linarith
qed

text \<open>The computed mean of \<open>n\<close> points has a relative error of at most about \<open>n + 2\<close> roundings.\<close>

lemma mean_loop_near:
  "near k e m \<Longrightarrow> 2 \<le> k \<Longrightarrow> \<forall>p \<in> set ps. pt_length p \<le> 2 ^ 53 \<and> prev \<le> fraction p \<Longrightarrow>
   sorted_wrt below ps \<Longrightarrow> near (k + length ps) (e + exact_mean ps prev) (mean_loop ps prev m)"
proof (induction ps arbitrary: k e m prev)
  case Nil
  then show ?case by simp
next
  case (Cons p ps)
  let ?c = "\<lceil>of_nat (pt_length p) / (64 :: rat)\<rceil>"
  have c: "(0 :: rat) \<le> of_int ?c" by simp
  have len: "\<lceil>fl (fl (of_nat (pt_length p)) / 64)\<rceil> = ?c"
    using Cons.prems(3) by (simp add: dbl.rnd_nat fl_div_64)
  have "near 2 (of_int ?c * (fraction p - prev)) (fl (of_int ?c * fl (fraction p - prev)))"
    using near_fl [OF near_mult [OF near_fl [OF near_0] c]] Cons.prems(3) by (simp add: numeral_2_eq_2)
  then have "near k (of_int ?c * (fraction p - prev)) (fl (of_int ?c * fl (fraction p - prev)))"
    by (rule near_mono) (rule Cons.prems(2))
  then have "near (Suc k) (e + of_int ?c * (fraction p - prev))
      (fl (m + fl (of_int ?c * fl (fraction p - prev))))"
    by (intro near_fl near_add Cons.prems(1))
  moreover have "\<forall>q \<in> set ps. pt_length q \<le> 2 ^ 53 \<and> fraction p \<le> fraction q"
    using Cons.prems(3,4) by (auto simp: below_def)
  ultimately have "near (Suc k + length ps)
      (e + of_int ?c * (fraction p - prev) + exact_mean ps (fraction p))
      (mean_loop ps (fraction p) (fl (m + fl (of_int ?c * fl (fraction p - prev)))))"
    using Cons.prems(2,4) by (intro Cons.IH) auto
  then show ?case by (simp add: len add.assoc)
qed

lemma exact_mean_nonneg:
  "\<forall>p \<in> set ps. prev \<le> fraction p \<Longrightarrow> sorted_wrt below ps \<Longrightarrow> 0 \<le> exact_mean ps prev"
proof (induction ps arbitrary: prev)
  case (Cons p ps)
  then have "0 \<le> exact_mean ps (fraction p)" by (intro Cons.IH) (auto simp: below_def)
  then show ?case using Cons.prems by simp
qed simp

lemma exact_mean_pos:
  assumes "cdf_ok m pts"
  shows "0 < exact_mean pts 0"
proof -
  obtain p ps where pts: "pts = p # ps" using assms by (cases pts) (auto simp: cdf_ok_def)
  have "0 < \<lceil>of_nat (pt_length p) / (64 :: rat)\<rceil>" "0 < fraction p"
    using assms by (auto simp: cdf_ok_def pts)
  moreover have "0 \<le> exact_mean ps (fraction p)"
    using assms by (intro exact_mean_nonneg) (auto simp: cdf_ok_alt pts below_def)
  ultimately show ?thesis by (simp add: pts add_pos_nonneg)
qed

text \<open>The computed mean is positive, and close to the exact one.\<close>

lemma mean_loop_ok:
  assumes "cdf_ok m pts" "m \<le> 2 ^ 53"
  shows "near (length pts + 2) (exact_mean pts 0) (mean_loop pts 0 0)" "0 < mean_loop pts 0 0"
proof -
  have "near 2 0 (0 :: rat)" by (simp add: near_def)
  from mean_loop_near [OF this, of pts 0]
  show n: "near (length pts + 2) (exact_mean pts 0) (mean_loop pts 0 0)"
    using assms by (force simp: cdf_ok_alt in_range_def add.commute)
  show "0 < mean_loop pts 0 0" using near_positive [OF n exact_mean_pos [OF assms(1)]] .
qed

subsection \<open>Bytes on the wire\<close>

text \<open>
  What \<open>dist_msg_overhead\<close> is meant to compute: 110 bytes of headers and gaps for every packet of
  at most \<open>mtu - 68\<close> bytes of data, and 95 for every grant of 10000 bytes beyond the first 70000.
\<close>

definition overhead_spec :: "int \<Rightarrow> int \<Rightarrow> int" where
  "overhead_spec len mtu =
     110 * \<lceil>of_int len / (of_int (mtu - 68) :: rat)\<rceil> +
     95 * (if len \<le> 70000 then 0 else \<lceil>of_int (len - 70000) / (10000 :: rat)\<rceil>)"

lemma ceiling_div:
  assumes "0 < b"
  shows "(a + b - 1) div b = \<lceil>of_int a / (of_int b :: rat)\<rceil>"
proof -
  have "(a + b - 1) div b = - ((- a) div b)"
  proof (cases "a mod b = 0")
    case True
    have "a + b - 1 = b * (a div b) + (b - 1)" using True mult_div_mod_eq [of b a] by simp
    then have "(a + b - 1) div b = a div b" by (rule int_div_pos_eq) (use assms in auto)
    then show ?thesis using True assms by (simp add: zdiv_zminus1_eq_if)
  next
    case False
    have "a mod b < b" "0 < a mod b"
      using pos_mod_bound [OF assms, of a] pos_mod_sign [OF assms, of a] False by linarith+
    moreover have "a + b - 1 = b * (a div b + 1) + (a mod b - 1)"
      using mult_div_mod_eq [of b a] by (simp add: algebra_simps)
    ultimately have "(a + b - 1) div b = a div b + 1" 
      by (intro int_div_pos_eq [where r = "a mod b - 1"]) linarith+
    then show ?thesis using False assms by (simp add: zdiv_zminus1_eq_if)
  qed
  then show ?thesis by (simp add: ceiling_divide_eq_div)
qed

lemma overhead_spec_nonneg:
  assumes "0 \<le> len" "68 < mtu"
  shows "0 \<le> \<lceil>of_int len / (of_int (mtu - 68) :: rat)\<rceil>"
    "0 \<le> (if len \<le> 70000 then 0 else \<lceil>of_int (len - 70000) / (10000 :: rat)\<rceil>)"
proof -
  have "(0 :: rat) \<le> of_int len / of_int (mtu - 68)" using assms by simp
  then show "0 \<le> \<lceil>of_int len / (of_int (mtu - 68) :: rat)\<rceil>" by linarith
  show "0 \<le> (if len \<le> 70000 then 0 else \<lceil>of_int (len - 70000) / (10000 :: rat)\<rceil>)" by auto
qed

lemma dist_msg_overhead_ok:
  assumes len: "0 \<le> len" and mtu: "68 < mtu" and fit: "len + mtu \<le> int_max" "overhead_spec len mtu \<le> int_max"
  shows "dist_msg_overhead len mtu = Inr (overhead_spec len mtu)"
proof -
  define P where "P = \<lceil>of_int len / (of_int (mtu - 68) :: rat)\<rceil>"
  define G where "G = (if len \<le> 70000 then 0 else \<lceil>of_int (len - 70000) / (10000 :: rat)\<rceil>)"
  have PG: "0 \<le> P" "0 \<le> G" using overhead_spec_nonneg [OF len mtu] by (simp_all add: P_def G_def)
  have spec: "overhead_spec len mtu = 110 * P + 95 * G" by (simp add: overhead_spec_def P_def G_def)
  have "int_div (len + (mtu - 68) - 1) (mtu - 68) = Inr P"
    using int_div_nonneg [of "len + (mtu - 68) - 1" "mtu - 68"] ceiling_div [of "mtu - 68" len] len mtu fit
    by (simp add: P_def)
  moreover have "(if len \<le> 70000 then Inr 0 else rbind (int_val (len - 70000 + 10000)) (\<lambda>m.
      int_div (m - 1) 10000)) = (Inr G :: int res)"
    using int_div_nonneg [of "len - 70000 + 10000 - 1" 10000] ceiling_div [of 10000 "len - 70000"] len mtu fit
    by (auto simp: G_def int_val_ok int_min_def)
  moreover have "int_val (110 * P) = Inr (110 * P)" "int_val (95 * G) = Inr (95 * G)"
    "int_val (110 * P + 95 * G) = Inr (110 * P + 95 * G)"
    using PG fit(2) spec by (auto intro!: int_val_ok simp: int_min_def)
  moreover have "int_val (mtu - 68) = Inr (mtu - 68)" "int_val (len + (mtu - 68)) = Inr (len + (mtu - 68))"
    "int_val (len + (mtu - 68) - 1) = Inr (len + (mtu - 68) - 1)"
    using len mtu fit by (auto intro!: int_val_ok simp: int_min_def)
  ultimately show ?thesis unfolding spec by (simp add: dist_msg_overhead_def Let_def mult.commute)
qed

lemma overhead_spec_mono_length:
  assumes "0 \<le> len" "len \<le> len'" "68 < mtu"
  shows "overhead_spec len mtu \<le> overhead_spec len' mtu"
proof -
  define G where "G l = (if l \<le> 70000 then 0 else \<lceil>of_int (l - 70000) / (10000 :: rat)\<rceil>)" for l :: int
  have "0 \<le> G len'" using overhead_spec_nonneg(2) [of len' mtu] assms by (simp add: G_def)
  moreover have "\<lceil>of_int (len - 70000) / (10000 :: rat)\<rceil> \<le> \<lceil>of_int (len' - 70000) / (10000 :: rat)\<rceil>"
    using assms by (intro ceiling_mono divide_right_mono) auto
  ultimately have "G len \<le> G len'" using assms(2) by (auto simp: G_def)
  moreover have "\<lceil>of_int len / (of_int (mtu - 68) :: rat)\<rceil> \<le> \<lceil>of_int len' / (of_int (mtu - 68) :: rat)\<rceil>"
    using assms by (intro ceiling_mono divide_right_mono) auto
  ultimately show ?thesis unfolding overhead_spec_def G_def [symmetric] by linarith
qed

lemma overhead_spec_mono_mtu:
  assumes "0 \<le> len" "68 < mtu" "mtu \<le> mtu'"
  shows "overhead_spec len mtu' \<le> overhead_spec len mtu"
proof -
  have "of_int len / (of_int (mtu' - 68) :: rat) \<le> of_int len / of_int (mtu - 68)"
    using assms by (intro divide_left_mono) auto
  then show ?thesis unfolding overhead_spec_def by (auto intro!: ceiling_mono)
qed

subsection \<open>Fixed lengths\<close>

lemma fixed_length:
  assumes "0 < n" "int n \<le> int_max"
  shows "dist_point_gen tables (decimal n) max_length mbf msr =
    Inr \<lparr>dist_points = [cdf_point n 1], dist_mean = of_nat n\<rparr>"
proof -
  have "strtol10 (decimal n) = (int n, [])"
    using assms by (intro strtol10_decimal) (simp add: int_max_def)
  moreover have "to_int32 (int n) = int n"
    using assms by (intro to_int32_id) (simp add: int32_range_def int_min_def)
  moreover have "to_u64 (int n) = n" using assms by (simp add: to_u64_id int_max_def)
  moreover have "fl (of_nat n) = of_nat n" using assms by (intro dbl.rnd_nat) (simp add: int_max_def)
  ultimately show ?thesis using assms by (simp add: dist_point_gen_def Let_def)
qed

subsection \<open>Tables the constructor can read\<close>

locale cdf_table =
  fixes points :: "cdf_point list"
  assumes nonempty: "points \<noteq> []"
    and last_one: "1 \<le> fraction (last points)"
    and increasing: "sorted_wrt below points"
    and positive: "\<forall>p \<in> set points. 0 < pt_length p \<and> 0 < fraction p"
begin

lemma reduced:
  assumes "0 < max_length"
  shows "\<exists>r. reduce_points max_length mbf msr points [] = Inr r \<and> cdf_ok max_length r \<and>
     successively (bucket_ok points msr) r"
proof -
  obtain r where r: "reduce_points max_length mbf msr points [] = Inr r" "cdf_ok max_length r"
    using reduce_points_ok [of points "[]" max_length mbf msr] nonempty last_one increasing positive assms
    by auto
  moreover have "successively (bucket_ok points msr) r"
    using reduce_points_buckets [OF r(1), of points "[]"] by simp
  ultimately show ?thesis by blast
qed

text \<open>A workload name, which \<open>strtol\<close> does not read as a number, selects its table.\<close>

lemma constructed:
  assumes tables: "tables name = Inr points" and name: "fst (strtol10 name) = 0"
    and m: "0 < m" "m \<le> 2 ^ 53"
  obtains d where "dist_point_gen tables name m mbf msr = Inr d" "cdf_ok m (dist_points d)"
    "0 < dist_mean d"
    "near (length (dist_points d) + 2) (exact_mean (dist_points d) 0) (dist_mean d)"
    "successively (bucket_ok points msr) (dist_points d)"
    "mbf \<le> 0 \<Longrightarrow> dist_points d = takeWhile (plain m) points @ [closing m points]"
proof -
  obtain r where r: "reduce_points m mbf msr points [] = Inr r" "cdf_ok m r"
    "successively (bucket_ok points msr) r" using reduced [OF m(1)] by blast
  let ?d = "\<lparr>dist_points = r, dist_mean = mean_loop r 0 0\<rparr>"
  obtain rest where "strtol10 name = (0, rest)" using name by (cases "strtol10 name") auto
  then have "dist_point_gen tables name m mbf msr = Inr ?d"
    using tables r(1) m(1) by (simp add: dist_point_gen_def to_int32_def)
  moreover have "r = takeWhile (plain m) points @ [closing m points]" if "mbf \<le> 0"
    using reduce_points_unmerged [OF that nonempty last_one, of "[]" m msr] increasing r(1) by simp
  ultimately show ?thesis using that r(2,3) mean_loop_ok [OF r(2) m(2)] by simp
qed

end

end
