(* ===== verification/Qsim.thy ===== *)
theory Qsim
  imports Ideal Pifo Dist
begin

section \<open>The loops of the simulator\<close>

text \<open>
  The program \<open>model/qsim.cc\<close>: it draws message lengths from a workload and interarrival times
  from an exponential distribution, and runs a queue slot by slot in one of three loops. The loops
  are modelled with fuel: \<open>None\<close> stands for "still running". The random numbers are streams, one
  of uniform numbers and one of interarrival times for the given rate, in the order in which the
  program draws them. Its \<open>main\<close> is in theory \<open>Qsim_Main\<close>.
\<close>

subsection \<open>State\<close>

record sim_env =
  arrivals_gen :: "nat \<Rightarrow> rat"
  uniform_gen :: "nat \<Rightarrow> rat"
  wk_points :: "cdf_point list"

record sim_clock =
  sim_ts :: u64
  next_arrival :: rat
  next_length :: int
  arr_draws :: nat
  len_draws :: nat
  drain :: bool
  pulses_done :: int

subsection \<open>The loop bodies\<close>

text \<open>\<open>std::ceil (wk (gen) / 64.0)\<close>: the length of the next message in slots.\<close>

definition draw_length :: "sim_env \<Rightarrow> nat \<Rightarrow> int res" where
  "draw_length env i =
     rbind (dist_sample (wk_points env) (uniform_gen env i)) (\<lambda>v. Inr \<lceil>fl (of_int v / 64)\<rceil>)"

definition draw_next :: "sim_env \<Rightarrow> sim_clock \<Rightarrow> sim_clock res" where
  "draw_next env c =
     rbind (draw_length env (len_draws c)) (\<lambda>n.
       Inr (c\<lparr>next_arrival := fl (next_arrival c + arrivals_gen env (arr_draws c)),
              next_length := n, arr_draws := arr_draws c + 1, len_draws := len_draws c + 1\<rparr>))"

definition ts_double :: "sim_clock \<Rightarrow> rat" where
  "ts_double c = fl (of_nat (unat (sim_ts c)))"

definition arrive :: "'a queue_scheme vtable \<Rightarrow> sim_env \<Rightarrow> 'a queue_scheme \<times> sim_clock \<Rightarrow>
    ('a queue_scheme \<times> sim_clock) res" where
  "arrive vt env = (\<lambda>(q, c).
     rbind (cpp_assert (next_length c \<noteq> 0)) (\<lambda>_.
     rbind (arrival vt (sim_ts c) (next_length c) q) (\<lambda>q'.
     rbind (draw_next env c) (\<lambda>c'. Inr (q', c')))))"

text \<open>The body of the loop of types 0 and 1.\<close>

definition load_iter :: "'a queue_scheme vtable \<Rightarrow> sim_env \<Rightarrow> 'a queue_scheme \<times> sim_clock \<Rightarrow>
    ('a queue_scheme \<times> sim_clock) res" where
  "load_iter vt env = (\<lambda>(q, c).
     rbind (departure vt (sim_ts c) q) (\<lambda>q1.
     rbind (if next_arrival c \<le> ts_double c then arrive vt env (q1, c) else Inr (q1, c)) (\<lambda>(q2, c2).
     rbind (vt_step vt (sim_ts c2) q2) (\<lambda>q3.
       Inr (q3, c2\<lparr>sim_ts := sim_ts c2 + 1\<rparr>)))))"

text \<open>The body of the loop of type 3: load up to \<open>max\<close> messages, then drain, and again.\<close>

definition pulse_flags :: "'a queue_scheme vtable \<Rightarrow> sim_env \<Rightarrow> u32 \<Rightarrow>
    'a queue_scheme \<times> sim_clock \<Rightarrow> 'a queue_scheme \<times> sim_clock" where
  "pulse_flags vt env maximum = (\<lambda>(q, c).
     let (q1, c1) =
           (if word_of_int (vt_size vt q) > maximum \<and> \<not> drain c
            then (q\<lparr>simstats := (simstats q)\<lparr>presorted := presorted (simstats q) + word_of_int (vt_backsize vt q)\<rparr>,
                    gstats := True\<rparr>, c\<lparr>drain := True\<rparr>)
            else (q, c))
     in if vt_size vt q1 = 0 \<and> drain c1
        then (q1\<lparr>gstats := False\<rparr>,
              c1\<lparr>pulses_done := pulses_done c1 + 1, drain := False,
                 next_arrival := fl (ts_double c1 + arrivals_gen env (arr_draws c1)),
                 arr_draws := arr_draws c1 + 1\<rparr>)
        else (q1, c1))"

definition pulse_iter :: "'a queue_scheme vtable \<Rightarrow> sim_env \<Rightarrow> u32 \<Rightarrow>
    'a queue_scheme \<times> sim_clock \<Rightarrow> ('a queue_scheme \<times> sim_clock) res" where
  "pulse_iter vt env maximum = (\<lambda>(q, c).
     rbind (departure vt (sim_ts c) q) (\<lambda>q1.
       case pulse_flags vt env maximum (q1, c) of (q2, c2) \<Rightarrow>
         rbind (if next_arrival c2 \<le> ts_double c2 \<and> \<not> drain c2 then arrive vt env (q2, c2)
                else Inr (q2, c2)) (\<lambda>(q3, c3).
         rbind (vt_step vt (sim_ts c3) q3) (\<lambda>q4.
           Inr (q4, c3\<lparr>sim_ts := sim_ts c3 + 1\<rparr>)))))"

subsection \<open>The loops\<close>

fun load_loop :: "nat \<Rightarrow> 'a queue_scheme vtable \<Rightarrow> sim_env \<Rightarrow> u64 \<Rightarrow> 'a queue_scheme \<times> sim_clock \<Rightarrow>
    ('a queue_scheme \<times> sim_clock) option res" where
  "load_loop 0 vt env duration s = Inr None"
| "load_loop (Suc n) vt env duration s =
     (if comps (simstats (fst s)) < duration
      then rbind (load_iter vt env s) (load_loop n vt env duration)
      else Inr (Some s))"

fun pulse_loop :: "nat \<Rightarrow> 'a queue_scheme vtable \<Rightarrow> sim_env \<Rightarrow> u32 \<Rightarrow> u64 \<Rightarrow>
    'a queue_scheme \<times> sim_clock \<Rightarrow> ('a queue_scheme \<times> sim_clock) option res" where
  "pulse_loop 0 vt env maximum duration s = Inr None"
| "pulse_loop (Suc n) vt env maximum duration s =
     (if word_of_int (pulses_done (snd s)) < duration
      then rbind (pulse_iter vt env maximum s) (pulse_loop n vt env maximum duration)
      else Inr (Some s))"

fun drain_loop :: "nat \<Rightarrow> 'a queue_scheme vtable \<Rightarrow> u64 \<Rightarrow> 'a queue_scheme \<Rightarrow>
    (u64 \<times> 'a queue_scheme) option res" where
  "drain_loop 0 vt ts q = Inr None"
| "drain_loop (Suc n) vt ts q =
     (if vt_empty vt q then Inr (Some (ts, q))
      else rbind (departure vt ts q) (\<lambda>q1.
           rbind (vt_step vt ts q1) (\<lambda>q2. drain_loop n vt (ts + 1) q2)))"

fun iterate :: "nat \<Rightarrow> ('b \<Rightarrow> 'b res) \<Rightarrow> 'b \<Rightarrow> 'b res" where
  "iterate 0 f s = Inr s"
| "iterate (Suc n) f s = rbind (f s) (iterate n f)"

subsection \<open>The clock\<close>

text \<open>
  What a well-formed random source gives: numbers up to 1, and a distribution the constructor of
  \<open>dist_point_gen\<close> can have built.
\<close>

definition env_ok :: "sim_env \<Rightarrow> bool" where
  "env_ok env \<longleftrightarrow> (\<exists>m. cdf_ok m (wk_points env) \<and> int m \<le> int_max) \<and> (\<forall>i. uniform_gen env i \<le> 1)"

definition due :: "sim_clock \<Rightarrow> bool" where
  "due c \<longleftrightarrow> next_arrival c \<le> ts_double c"

definition next_clock :: "sim_env \<Rightarrow> sim_clock \<Rightarrow> sim_clock res" where
  "next_clock env c = rbind (if due c then draw_next env c else Inr c) (\<lambda>c'.
     Inr (c'\<lparr>sim_ts := sim_ts c' + 1\<rparr>))"

definition length_ok :: "sim_clock \<Rightarrow> bool" where
  "length_ok c \<longleftrightarrow> 0 < next_length c \<and> next_length c \<le> int_max"

lemma slots_of_length:
  assumes "0 < v" "v \<le> int_max"
  shows "0 < \<lceil>fl (of_int v / 64)\<rceil> \<and> \<lceil>fl (of_int v / 64)\<rceil> \<le> int_max"
proof -
  have "fl (of_nat (nat v) / 64) = of_nat (nat v) / 64"
    using assms by (intro fl_div_64) (simp add: int_max_def)
  then have e: "fl (of_int v / 64) = of_int v / 64" using assms by (simp add: of_nat_nat)
  have "of_int v / 64 \<le> (of_int v :: rat)" using assms by (simp add: field_simps)
  then have "\<lceil>of_int v / (64 :: rat)\<rceil> \<le> v" by linarith
  then show ?thesis unfolding e using assms by simp
qed

lemma draw_length_ok:
  assumes "env_ok env"
  shows "\<exists>n. draw_length env i = Inr n \<and> 0 < n \<and> n \<le> int_max"
proof -
  obtain m where m: "cdf_ok m (wk_points env)" "int m \<le> int_max" "uniform_gen env i \<le> 1"
    using assms by (auto simp: env_ok_def)
  obtain p where p: "p \<in> set (wk_points env)"
    "dist_sample (wk_points env) (uniform_gen env i) = Inr (int (pt_length p))"
    using dist_sample_point [OF m] by auto
  have "0 < int (pt_length p)" "int (pt_length p) \<le> int_max"
    using m(1,2) p(1) by (auto simp: cdf_ok_def)
  then show ?thesis using slots_of_length [of "int (pt_length p)"] p(2) by (simp add: draw_length_def)
qed

lemma draw_next_ok:
  assumes "env_ok env"
  shows "\<exists>c'. draw_next env c = Inr c' \<and> length_ok c' \<and> sim_ts c' = sim_ts c"
  using draw_length_ok [OF assms, of "len_draws c"] by (auto simp: draw_next_def length_ok_def)

subsection \<open>The abstract link\<close>

text \<open>
  What a simulation has to do with the order of the messages: nothing, as far as the work is
  concerned. \<open>work_iter\<close> is a single link with a counter of the slots still to send (the recursion
  of Lindley), and a flag that it is free: each slot takes one unit off a busy link, then the new
  message, if one is due, adds its length.
\<close>

definition work_step :: "sim_clock \<Rightarrow> nat \<times> bool \<Rightarrow> nat \<times> bool" where
  "work_step c = (\<lambda>(work, free).
     let left = work - (if free then 0 else 1)
     in (left + (if due c then nat (next_length c) else 0), left = 0))"

definition work_iter :: "sim_env \<Rightarrow> (nat \<times> bool) \<times> sim_clock \<Rightarrow> ((nat \<times> bool) \<times> sim_clock) res" where
  "work_iter env = (\<lambda>(w, c). rbind (next_clock env c) (\<lambda>c'. Inr (work_step c w, c')))"

subsection \<open>Queues that never leave the link idle\<close>

context paced_impl
begin

text \<open>
  The invariant of the loops: after \<open>n\<close> slots at most \<open>n\<close> messages have arrived, so as long as
  \<open>n\<close> is below the capacity nothing can overflow.
\<close>

definition sim_inv :: "nat \<Rightarrow> 'a queue_scheme \<times> sim_clock \<Rightarrow> bool" where
  "sim_inv n = (\<lambda>(q, c). qinv q \<and> ready q \<and> size (hw q) \<le> n \<and> unat (next_id q) \<le> n \<and> length_ok c)"

lemma arrive_ok:
  assumes env: "env_ok env" and inv: "qinv q" and room: "size (hw q) < cap"
    and id: "next_id q + 1 \<noteq> 0" and len: "length_ok c"
  shows "\<exists>q' c'. arrive vt env (q, c) = Inr (q', c') \<and> draw_next env c = Inr c' \<and> length_ok c' \<and>
     qinv q' \<and> hw q' = add_mset (new_entry (sim_ts c) (next_length c) q) (hw q) \<and> buff q' = buff q \<and>
     next_id q' = next_id q + 1 \<and> gstats q' = gstats q \<and> simstats q' = simstats q"
proof -
  obtain q' where "arrival vt (sim_ts c) (next_length c) q = Inr q'" "qinv q'"
    "next_id q' = next_id q + 1" "hw q' = add_mset (new_entry (sim_ts c) (next_length c) q) (hw q)"
    "buff q' = buff q" "gstats q' = gstats q" "simstats q' = simstats q"
    using arrival_ok [OF inv room _ _ id, of "next_length c" "sim_ts c"] len by (auto simp: length_ok_def)
  moreover obtain c' where "draw_next env c = Inr c'" "length_ok c'" using draw_next_ok [OF env] by blast
  ultimately show ?thesis using len by (simp add: arrive_def length_ok_def)
qed

lemma step_qinv:
  assumes inv: "qinv q" and room: "size (hw q) \<le> cap"
  shows "\<exists>q'. vt_step vt ts q = Inr q' \<and> qinv q' \<and> ready q' \<and> hw q' = hw q \<and> buff q' = buff q \<and>
     base_frame q q'"
proof -
  obtain q' where q': "vt_step vt ts q = Inr q'" "hw_inv q'" "hw q' = hw q" "base_frame q q'" "buff q' = buff q"
    using step_ok [OF qinvD(1) [OF inv] room] by blast
  then have "qinv q'" using inv by (auto simp: qinv_def base_frame_def)
  then show ?thesis using q' step_ready [OF qinvD(1) [OF inv] q'(1)] by blast
qed

text \<open>What a slot does to the work in the queue, in terms of the work and the clock only.\<close>

definition idle :: "'a queue_scheme \<Rightarrow> bool" where
  "idle q \<longleftrightarrow> buff q = 0"

definition left_over :: "'a queue_scheme \<Rightarrow> nat" where
  "left_over q = backlog q - (if idle q then 0 else 1)"

lemma departure_left_over:
  assumes inv: "qinv q" and r: "ready q" and d: "departure vt ts q = Inr q'"
  shows "backlog q' = left_over q" "idle q' \<longleftrightarrow> left_over q = 0"
proof -
  show b: "backlog q' = left_over q" using departure_backlog(1) [OF inv d] by (simp add: left_over_def idle_def)
  have "qinv q'" using departure_effect [OF inv d] by metis
  then show "idle q' \<longleftrightarrow> left_over q = 0"
    using paced_departure(2) [OF inv r d] backlog_0_iff [of q'] by (auto simp: idle_def b)
qed

lemma load_iter_ok:
  assumes env: "env_ok env" and inv: "sim_inv n (q, c)" and room: "n < cap" "n < 2 ^ 64 - 1"
  shows "\<exists>q' c'. load_iter vt env (q, c) = Inr (q', c') \<and> sim_inv (Suc n) (q', c') \<and>
     next_clock env c = Inr c' \<and> gstats q' = gstats q \<and>
     underflow (simstats q') = underflow (simstats q) \<and>
     backlog q' = left_over q + (if due c then nat (next_length c) else 0) \<and>
     (idle q' \<longleftrightarrow> left_over q = 0) \<and>
     (gstats q \<longrightarrow> comps (simstats q') + of_nat (size (hw q')) - next_id q' =
        comps (simstats q) + of_nat (size (hw q)) - next_id q) \<and>
     (\<exists>q1. departure vt (sim_ts c) q = Inr q1 \<and> simstats q' = simstats q1)"
proof -
  have i: "qinv q" "ready q" "size (hw q) \<le> n" "unat (next_id q) \<le> n" "length_ok c"
    using inv by (simp_all add: sim_inv_def)
  obtain q1 where d: "departure vt (sim_ts c) q = Inr q1" "qinv q1" "next_id q1 = next_id q"
    "gstats q1 = gstats q" using departure_ok [OF i(1)] by blast
  note l = departure_left_over [OF i(1,2) d(1)] and s = departure_backlog(2) [OF i(1) d(1)]
    and u = paced_departure(1) [OF i(1,2) d(1)] and co = departure_conserves [OF i(1) d(1)]
  have id: "next_id q1 + 1 \<noteq> 0" using i(4) room(2) d(3) by (intro plus_1_nonzero) simp
  obtain q2 c2 where a: "(if due c then arrive vt env (q1, c) else Inr (q1, c)) = Inr (q2, c2)"
    "(if due c then draw_next env c else Inr c) = Inr c2" "length_ok c2" "qinv q2"
    "size (hw q2) \<le> Suc n" "buff q2 = buff q1" "gstats q2 = gstats q1" "simstats q2 = simstats q1"
    "next_id q2 = next_id q1 + of_bool (due c)" "size (hw q2) = size (hw q1) + of_bool (due c)"
    "backlog q2 = backlog q1 + (if due c then nat (next_length c) else 0)"
  proof (cases "due c")
    case True
    obtain q' c' where a: "arrive vt env (q1, c) = Inr (q', c')" "draw_next env c = Inr c'"
      "length_ok c'" "qinv q'" "hw q' = add_mset (new_entry (sim_ts c) (next_length c) q1) (hw q1)"
      "buff q' = buff q1" "next_id q' = next_id q1 + 1" "gstats q' = gstats q1" "simstats q' = simstats q1"
      using arrive_ok [OF env d(2) _ id i(5)] s i(3) room(1) by auto
    show ?thesis
      by (rule that [of q' c']) (use True a s i(3) in \<open>auto simp: backlog_def new_entry_def\<close>)
  next
    case False
    then show ?thesis using that [of q1 c] d(2) i s by simp
  qed
  obtain q3 where st: "vt_step vt (sim_ts c2) q2 = Inr q3" "qinv q3" "ready q3" "hw q3 = hw q2"
    "buff q3 = buff q2" "base_frame q2 q3"
    using step_qinv [OF a(4), of "sim_ts c2"] a(5) room(1) by auto
  have "unat (next_id q3) \<le> Suc n"
    using st(6) a(9) d(3) i(4) room(2) unat_plus_1 [of "next_id q"] by (auto simp: base_frame_def)
  then have "sim_inv (Suc n) (q3, c2\<lparr>sim_ts := sim_ts c2 + 1\<rparr>)"
    using st a(3,5) by (simp add: sim_inv_def length_ok_def)
  moreover have "load_iter vt env (q, c) = Inr (q3, c2\<lparr>sim_ts := sim_ts c2 + 1\<rparr>)"
    using d(1) a(1) st(1) by (simp add: load_iter_def flip: due_def)
  moreover have "backlog q3 = left_over q + (if due c then nat (next_length c) else 0)"
    "idle q3 \<longleftrightarrow> left_over q = 0"
    using a(6,11) st(4,5) l by (simp_all add: backlog_def idle_def)
  moreover have "comps (simstats q3) + of_nat (size (hw q3)) - next_id q3 =
      comps (simstats q) + of_nat (size (hw q)) - next_id q" if "gstats q"
    using co [OF that] st(4,6) a(8-10) d(3) by (auto simp: base_frame_def algebra_simps)
  ultimately show ?thesis using a(2,7,8) st(6) d(1,4) u by (auto simp: next_clock_def base_frame_def)
qed

text \<open>The abstraction: the work in the queue, whether the link is free, and the clock.\<close>

definition work_of :: "'a queue_scheme \<times> sim_clock \<Rightarrow> (nat \<times> bool) \<times> sim_clock" where
  "work_of = (\<lambda>(q, c). ((backlog q, idle q), c))"

lemma load_iters:
  assumes "env_ok env" "sim_inv n s" "n + k \<le> cap" "n + k < 2 ^ 64"
  shows "\<exists>s'. iterate k (load_iter vt env) s = Inr s' \<and> sim_inv (n + k) s' \<and>
     iterate k (work_iter env) (work_of s) = Inr (work_of s') \<and>
     gstats (fst s') = gstats (fst s) \<and>
     underflow (simstats (fst s')) = underflow (simstats (fst s)) \<and>
     (gstats (fst s) \<longrightarrow>
        comps (simstats (fst s')) + of_nat (size (hw (fst s'))) - next_id (fst s') =
        comps (simstats (fst s)) + of_nat (size (hw (fst s))) - next_id (fst s))"
  using assms(2-4)
proof (induction k arbitrary: n s)
  case 0
  then show ?case by simp
next
  case (Suc k)
  obtain q c where s: "s = (q, c)" by (cases s)
  obtain q' c' where i: "load_iter vt env (q, c) = Inr (q', c')" "sim_inv (Suc n) (q', c')"
    "next_clock env c = Inr c'" "gstats q' = gstats q" "underflow (simstats q') = underflow (simstats q)"
    "backlog q' = left_over q + (if due c then nat (next_length c) else 0)" "idle q' \<longleftrightarrow> left_over q = 0"
    "gstats q \<longrightarrow> comps (simstats q') + of_nat (size (hw q')) - next_id q' =
        comps (simstats q) + of_nat (size (hw q)) - next_id q"
    using load_iter_ok [OF assms(1), of n q c] Suc.prems by (auto simp: s)
  have w: "work_iter env (work_of s) = Inr (work_of (q', c'))"
    using i(3,6,7) by (simp add: work_iter_def work_of_def s work_step_def left_over_def)
  show ?case
    using Suc.IH [OF i(2)] Suc.prems i(1,4,5,8) w by (force simp: s)
qed

lemma load_iters_result:
  assumes "env_ok env" "sim_inv n s" "n + k \<le> cap" "n + k < 2 ^ 64"
    and "iterate k (load_iter vt env) s = Inr s'"
  shows "sim_inv (n + k) s'" "iterate k (work_iter env) (work_of s) = Inr (work_of s')"
    "underflow (simstats (fst s')) = underflow (simstats (fst s))"
    "gstats (fst s) \<Longrightarrow> comps (simstats (fst s')) + of_nat (size (hw (fst s'))) - next_id (fst s') =
       comps (simstats (fst s)) + of_nat (size (hw (fst s))) - next_id (fst s)"
  using load_iters [OF assms(1-4)] assms(5) by simp_all

text \<open>A finished loop of types 0 and 1 is some number of slots, after which enough completed.\<close>

lemma load_loop_ok:
  assumes "env_ok env" "sim_inv n s" "n + fuel \<le> cap" "n + fuel < 2 ^ 64"
  shows "\<exists>r. load_loop fuel vt env duration s = Inr r \<and> (\<forall>s'. r = Some s' \<longrightarrow>
     duration \<le> comps (simstats (fst s')) \<and>
     (\<exists>k \<le> fuel. sim_inv (n + k) s' \<and> iterate k (load_iter vt env) s = Inr s'))"
  using assms(2-4)
proof (induction fuel arbitrary: n s)
  case 0
  then show ?case by simp
next
  case (Suc fuel)
  show ?case
  proof (cases "comps (simstats (fst s)) < duration")
    case True
    obtain q c where s: "s = (q, c)" by (cases s)
    obtain s1 where s1: "load_iter vt env s = Inr s1" "sim_inv (Suc n) s1"
      using load_iter_ok [OF assms(1), of n q c] Suc.prems by (auto simp: s)
    obtain r where r: "load_loop fuel vt env duration s1 = Inr r" "\<forall>s'. r = Some s' \<longrightarrow>
        duration \<le> comps (simstats (fst s')) \<and>
        (\<exists>k \<le> fuel. sim_inv (Suc n + k) s' \<and> iterate k (load_iter vt env) s1 = Inr s')"
      using Suc.IH [OF s1(2)] Suc.prems(2,3) by auto
    have "\<exists>k \<le> Suc fuel. sim_inv (n + k) s' \<and> iterate k (load_iter vt env) s = Inr s'" if rs: "r = Some s'" for s'
    proof -
      obtain k where "k \<le> fuel" "sim_inv (n + Suc k) s'" "iterate k (load_iter vt env) s1 = Inr s'"
        using r(2) [rule_format, OF rs] by auto
      then show ?thesis using s1(1) by (intro exI [of _ "Suc k"]) simp
    qed
    then show ?thesis using True s1(1) r by auto
  next
    case False
    then show ?thesis using Suc.prems(1) by (auto simp: not_less intro!: exI [of _ 0])
  qed
qed

text \<open>Without arrivals a queue drains, in as many slots as it holds work.\<close>

lemma drain_loop_ok:
  "qinv q \<Longrightarrow> ready q \<Longrightarrow> size (hw q) \<le> cap \<Longrightarrow>
   (hw q \<noteq> {#} \<Longrightarrow> backlog q + of_bool (idle q) < n) \<Longrightarrow> 0 < n \<Longrightarrow>
   \<exists>ts' q'. drain_loop n vt ts q = Inr (Some (ts', q')) \<and> qinv q' \<and> hw q' = {#} \<and>
     underflow (simstats q') = underflow (simstats q) \<and> next_id q' = next_id q \<and>
     (gstats q \<longrightarrow> comps (simstats q') = comps (simstats q) + of_nat (size (hw q)))"
proof (induction n arbitrary: ts q)
  case 0
  then show ?case by simp
next
  case (Suc n)
  note inv = Suc.prems(1) and r = Suc.prems(2)
  show ?case
  proof (cases "vt_empty vt q")
    case True
    then show ?thesis using inv empty_iff [OF qinvD(1) [OF inv]] by simp
  next
    case False
    then have ne: "hw q \<noteq> {#}" using empty_iff [OF qinvD(1) [OF inv]] by simp
    obtain q1 where d: "departure vt ts q = Inr q1" "qinv q1" "next_id q1 = next_id q"
      "gstats q1 = gstats q" using departure_ok [OF inv] by blast
    note l = departure_left_over [OF inv r d(1)] and s = departure_backlog(2) [OF inv d(1)]
      and u = paced_departure [OF inv r d(1)] and co = departure_conserves [OF inv d(1)]
    obtain q2 where st: "vt_step vt ts q1 = Inr q2" "qinv q2" "ready q2" "hw q2 = hw q1"
      "buff q2 = buff q1" "base_frame q1 q2"
      using step_qinv [OF d(2), of ts] s Suc.prems(3) by auto
    have b: "backlog q \<noteq> 0" using ne backlog_0_iff [OF inv] by simp
    have m: "backlog q2 + of_bool (idle q2) < n \<and> 0 < n" if "hw q2 \<noteq> {#}"
      using that l u(2) st(4,5) b Suc.prems(4) [OF ne]
      by (auto simp: backlog_def idle_def left_over_def split: if_splits)
    have "0 < n" using Suc.prems(4) [OF ne] b by simp
    then obtain ts' q' where "drain_loop n vt (ts + 1) q2 = Inr (Some (ts', q'))" "qinv q'" "hw q' = {#}"
      "underflow (simstats q') = underflow (simstats q2)" "next_id q' = next_id q2"
      "gstats q2 \<longrightarrow> comps (simstats q') = comps (simstats q2) + of_nat (size (hw q2))"
      using Suc.IH [OF st(2,3), of "ts + 1"] m s st(4) Suc.prems(3) by auto
    then show ?thesis
      using False d st u(1) co by (auto simp: base_frame_def)
  qed
qed

text \<open>
  The pulse loop: at most \<open>max + 1\<close> messages ever wait, statistics are kept exactly while draining,
  and no message arrives while draining.
\<close>

definition pulse_inv :: "u32 \<Rightarrow> nat \<Rightarrow> 'a queue_scheme \<times> sim_clock \<Rightarrow> bool" where
  "pulse_inv maximum n = (\<lambda>(q, c). qinv q \<and> ready q \<and> size (hw q) \<le> unat maximum + 1 \<and>
     unat (next_id q) \<le> n \<and> length_ok c \<and> (gstats q \<longleftrightarrow> drain c))"

lemma word_size_gt:
  "n < 2 ^ 32 \<Longrightarrow> (word_of_int (int n) :: u32) > maximum \<longleftrightarrow> unat maximum < n"
  by (simp add: word_less_nat_alt unsigned_of_nat take_bit_nat_eq_self)

lemma qinv_base:
  assumes "qinv q" "queue.more q' = queue.more q" "gqueue q' = gqueue q" "next_id q' = next_id q"
  shows "qinv q'" "hw q' = hw q"
  using assms hw_more [of q' q] inv_more [of q' q] by (auto simp: qinv_def)

lemma pulse_flags_ok:
  assumes inv: "qinv q" and small: "size (hw q) < 2 ^ 32" and g: "gstats q \<longleftrightarrow> drain c"
    and f: "pulse_flags vt env maximum (q, c) = (q', c')"
  shows "qinv q'" "hw q' = hw q" "buff q' = buff q" "next_id q' = next_id q" "gstats q' \<longleftrightarrow> drain c'"
    "underflow (simstats q') = underflow (simstats q)" "comps (simstats q') = comps (simstats q)"
    "sim_ts c' = sim_ts c" "next_length c' = next_length c"
    "drain c' \<longleftrightarrow> hw q \<noteq> {#} \<and> (drain c \<or> unat maximum < size (hw q))"
    "pulses_done c' = pulses_done c + of_bool (drain c \<and> hw q = {#})"
proof -
  let ?q1 = "q\<lparr>simstats := (simstats q)\<lparr>presorted := presorted (simstats q) + word_of_int (vt_backsize vt q)\<rparr>, gstats := True\<rparr>"
  let ?c2 = "c\<lparr>pulses_done := pulses_done c + 1, drain := False,
    next_arrival := fl (ts_double c + arrivals_gen env (arr_draws c)), arr_draws := arr_draws c + 1\<rparr>"
  have sz: "vt_size vt q = int (size (hw q))" by (rule size_hw [OF qinvD(1) [OF inv]])
  have sz1: "vt_size vt ?q1 = int (size (hw q))"
    using qinv_base [OF inv, of ?q1] size_hw [of ?q1] by (auto dest: qinvD(1))
  have gt: "maximum < word_of_nat (size (hw q)) \<longleftrightarrow> unat maximum < size (hw q)"
    using word_size_gt [OF small, of maximum] by simp
  consider (begins) "\<not> drain c" "unat maximum < size (hw q)" "hw q \<noteq> {#}" "q' = ?q1" "c' = c\<lparr>drain := True\<rparr>"
    | (ends) "drain c" "hw q = {#}" "q' = q\<lparr>gstats := False\<rparr>" "c' = ?c2"
    | (same) "drain c \<Longrightarrow> hw q \<noteq> {#}" "\<not> drain c \<Longrightarrow> \<not> unat maximum < size (hw q)" "q' = q" "c' = c"
  proof (cases "drain c")
    case True
    then have "pulse_flags vt env maximum (q, c) = (if hw q = {#} then (q\<lparr>gstats := False\<rparr>, ?c2) else (q, c))"
      by (simp add: pulse_flags_def Let_def sz ts_double_def)
    then show ?thesis using that f True by (cases "hw q = {#}") auto
  next
    case False
    then have pf: "pulse_flags vt env maximum (q, c) = (if unat maximum < size (hw q)
        then if hw q = {#} then (?q1\<lparr>gstats := False\<rparr>, ?c2) else (?q1, c\<lparr>drain := True\<rparr>) else (q, c))"
      by (simp add: pulse_flags_def Let_def sz sz1 ts_double_def gt)
    show ?thesis
    proof (cases "unat maximum < size (hw q)")
      case True
      then have ne: "hw q \<noteq> {#}" by auto
      then have "(?q1, c\<lparr>drain := True\<rparr>) = (q', c')" using pf f True by (simp only: if_True if_False)
      then have "q' = ?q1" "c' = c\<lparr>drain := True\<rparr>" by (simp_all only: prod.inject)
      then show ?thesis by (rule that(1) [OF False True ne])
    next
      case nle: False
      then have "(q, c) = (q', c')" using pf f by (simp only: if_False)
      then have "q' = q" "c' = c" by (simp_all only: prod.inject)
      then show ?thesis using False nle by (intro that(3)) simp_all
    qed
  qed
  note cases = this
  have m: "queue.more q' = queue.more q" "gqueue q' = gqueue q" "next_id q' = next_id q"
    by (cases rule: cases; simp)+
  show "qinv q'" "hw q' = hw q" using qinv_base [OF inv m] .
  show "next_id q' = next_id q" by (rule m(3))
  show "buff q' = buff q" "underflow (simstats q') = underflow (simstats q)"
    "comps (simstats q') = comps (simstats q)" "sim_ts c' = sim_ts c" "next_length c' = next_length c"
    by (cases rule: cases; simp)+
  show "gstats q' \<longleftrightarrow> drain c'" "drain c' \<longleftrightarrow> hw q \<noteq> {#} \<and> (drain c \<or> unat maximum < size (hw q))"
    "pulses_done c' = pulses_done c + of_bool (drain c \<and> hw q = {#})"
    by (cases rule: cases; use g in fastforce)+
qed

lemma pulse_iter_ok:
  assumes env: "env_ok env" and inv: "pulse_inv maximum n (q, c)"
    and room: "unat maximum + 1 \<le> cap" "unat maximum + 1 < 2 ^ 32" "n < 2 ^ 64 - 1"
  shows "\<exists>q' c'. pulse_iter vt env maximum (q, c) = Inr (q', c') \<and> pulse_inv maximum (Suc n) (q', c') \<and>
     underflow (simstats q') = underflow (simstats q) \<and>
     (drain c \<and> drain c' \<longrightarrow> hw q' \<noteq> {#} \<and> pulses_done c' = pulses_done c \<and>
        backlog q' = left_over q \<and> (idle q' \<longleftrightarrow> left_over q = 0)) \<and>
     (drain c \<and> \<not> drain c' \<longrightarrow> pulses_done c' = pulses_done c + 1)"
proof -
  have i: "qinv q" "ready q" "size (hw q) \<le> unat maximum + 1" "unat (next_id q) \<le> n" "length_ok c"
    "gstats q \<longleftrightarrow> drain c"
    using inv by (simp_all add: pulse_inv_def)
  obtain q1 where d: "departure vt (sim_ts c) q = Inr q1" "qinv q1" "next_id q1 = next_id q"
    "gstats q1 = gstats q" using departure_ok [OF i(1)] by blast
  note l = departure_left_over [OF i(1,2) d(1)] and s = departure_backlog(2) [OF i(1) d(1)]
    and u = paced_departure(1) [OF i(1,2) d(1)]
  obtain q2 c2 where fl: "pulse_flags vt env maximum (q1, c) = (q2, c2)" by fastforce
  have small: "size (hw q1) < 2 ^ 32" using s i(3) room(2) by simp
  have g1: "gstats q1 \<longleftrightarrow> drain c" using d(4) i(6) by simp
  note f = pulse_flags_ok [OF d(2) small g1 fl]
  have len2: "length_ok c2" using i(5) f(9) by (simp add: length_ok_def)
  have id: "next_id q2 + 1 \<noteq> 0" using i(4) room(3) d(3) f(4) by (intro plus_1_nonzero) simp
  let ?arr = "due c2 \<and> \<not> drain c2"
  obtain q3 c3 where a: "(if ?arr then arrive vt env (q2, c2) else Inr (q2, c2)) = Inr (q3, c3)"
    "length_ok c3" "qinv q3" "size (hw q3) \<le> unat maximum + 1" "gstats q3 = gstats q2"
    "simstats q3 = simstats q2" "drain c3 = drain c2" "pulses_done c3 = pulses_done c2"
    "next_id q3 = next_id q2 + of_bool ?arr" "drain c2 \<Longrightarrow> q3 = q2"
  proof (cases ?arr)
    case True
    then have lt: "size (hw q2) \<le> unat maximum" using f(2,10) by auto
    obtain q' c' where a: "arrive vt env (q2, c2) = Inr (q', c')" "draw_next env c2 = Inr c'" "length_ok c'"
      "qinv q'" "hw q' = add_mset (new_entry (sim_ts c2) (next_length c2) q2) (hw q2)"
      "next_id q' = next_id q2 + 1" "gstats q' = gstats q2" "simstats q' = simstats q2"
      using arrive_ok [OF env f(1) _ id len2] lt room(1) by auto
    show ?thesis
      by (rule that [of q' c']) (use True a lt in \<open>auto simp: draw_next_def\<close>)
  next
    case False
    then show ?thesis using that [of q2 c2] f(1,2) len2 s i(3) by auto
  qed
  obtain q4 where st: "vt_step vt (sim_ts c3) q3 = Inr q4" "qinv q4" "ready q4" "hw q4 = hw q3"
    "buff q4 = buff q3" "base_frame q3 q4"
    using step_qinv [OF a(3), of "sim_ts c3"] a(4) room(1) by auto
  have "unat (next_id q4) \<le> Suc n"
    using st(6) a(9) f(4) d(3) i(4) room(3) unat_plus_1 [of "next_id q"]
    by (auto simp: base_frame_def)
  then have "pulse_inv maximum (Suc n) (q4, c3\<lparr>sim_ts := sim_ts c3 + 1\<rparr>)"
    using st a(2,4,5,7) f(5) by (auto simp: pulse_inv_def length_ok_def base_frame_def)
  moreover have "pulse_iter vt env maximum (q, c) = Inr (q4, c3\<lparr>sim_ts := sim_ts c3 + 1\<rparr>)"
    using d(1) fl a(1) st(1) by (simp add: pulse_iter_def flip: due_def)
  moreover have "underflow (simstats q4) = underflow (simstats q)"
    using st(6) a(6) f(6) u by (auto simp: base_frame_def)
  moreover have "hw q4 \<noteq> {#}" "pulses_done c3 = pulses_done c" "backlog q4 = left_over q"
    "idle q4 \<longleftrightarrow> left_over q = 0" if "drain c3"
    using that a(7,8,10) f(2,3,10,11) st(4,5) l by (auto simp: backlog_def idle_def)
  moreover have "pulses_done c3 = pulses_done c + 1" if "drain c" "\<not> drain c3"
    using that a(7,8) f(10,11) by auto
  ultimately show ?thesis by auto
qed

lemma pulse_loop_ok:
  assumes "env_ok env" "pulse_inv maximum n s" "unat maximum + 1 \<le> cap" "unat maximum + 1 < 2 ^ 32"
    "n + fuel < 2 ^ 64"
  shows "\<exists>r. pulse_loop fuel vt env maximum duration s = Inr r \<and> (\<forall>s'. r = Some s' \<longrightarrow>
     qinv (fst s') \<and> size (hw (fst s')) \<le> unat maximum + 1 \<and>
     underflow (simstats (fst s')) = underflow (simstats (fst s)))"
  using assms(2,5)
proof (induction fuel arbitrary: n s)
  case 0
  then show ?case by simp
next
  case (Suc fuel)
  obtain q c where s: "s = (q, c)" by (cases s)
  obtain q' c' where "pulse_iter vt env maximum (q, c) = Inr (q', c')" "pulse_inv maximum (Suc n) (q', c')"
    "underflow (simstats q') = underflow (simstats q)"
    using pulse_iter_ok [OF assms(1) _ assms(3,4), of n q c] Suc.prems by (auto simp: s)
  then show ?case
    using Suc.IH [of "Suc n" "(q', c')"] Suc.prems by (auto simp: s pulse_inv_def)
qed

text \<open>A pulse ends: while draining, the work shrinks until a pulse is counted.\<close>

lemma pulse_drains:
  assumes "env_ok env" "pulse_inv maximum n (q, c)" "unat maximum + 1 \<le> cap" "unat maximum + 1 < 2 ^ 32"
    "n + backlog q + 2 < 2 ^ 64" "drain c"
  shows "\<exists>k s'. k \<le> backlog q + 2 \<and> iterate k (pulse_iter vt env maximum) (q, c) = Inr s' \<and>
     pulses_done (snd s') = pulses_done c + 1"
proof -
  have "\<exists>k s'. k \<le> m + 1 \<and> iterate k (pulse_iter vt env maximum) (q, c) = Inr s' \<and>
     pulses_done (snd s') = pulses_done c + 1"
    if "m = backlog q + of_bool (idle q)" "pulse_inv maximum n (q, c)" "n + m + 1 < 2 ^ 64" "drain c" for m
    using that
  proof (induction m arbitrary: n q c rule: less_induct)
    case (less m)
    obtain q' c' where p: "pulse_iter vt env maximum (q, c) = Inr (q', c')" "pulse_inv maximum (Suc n) (q', c')"
      "drain c' \<Longrightarrow> hw q' \<noteq> {#} \<and> pulses_done c' = pulses_done c \<and> backlog q' = left_over q \<and>
        (idle q' \<longleftrightarrow> left_over q = 0)"
      "\<not> drain c' \<Longrightarrow> pulses_done c' = pulses_done c + 1"
      using pulse_iter_ok [OF assms(1) less.prems(2) assms(3,4)] less.prems(3,4) by auto
    show ?case
    proof (cases "drain c'")
      case False
      then show ?thesis using p(1,4) by (intro exI [of _ "Suc 0"] exI [of _ "(q', c')"]) simp
    next
      case True
      have "backlog q' \<noteq> 0" using p(2,3) True backlog_0_iff [of q'] by (simp add: pulse_inv_def)
      then have lt: "backlog q' + of_bool (idle q') < m"
        using p(3) [OF True] less.prems(1) by (auto simp: left_over_def split: if_splits)
      obtain k s' where k: "k \<le> backlog q' + of_bool (idle q') + 1"
        "iterate k (pulse_iter vt env maximum) (q', c') = Inr s'"
        "pulses_done (snd s') = pulses_done c' + 1"
        using less.IH [OF lt refl p(2)] True less.prems(3) lt by auto
      have "iterate (Suc k) (pulse_iter vt env maximum) (q, c) = Inr s'" using p(1) k(2) by simp
      moreover have "Suc k \<le> m + 1" using k(1) lt by simp
      ultimately show ?thesis using k(3) p(3) [OF True] by metis
    qed
  qed
  moreover have ob: "of_bool (idle q) \<le> (1 :: nat)" by simp
  then have "n + (backlog q + of_bool (idle q)) + 1 < 2 ^ 64" using assms(5) by linarith
  ultimately obtain k s' where "k \<le> backlog q + of_bool (idle q) + 1"
    "iterate k (pulse_iter vt env maximum) (q, c) = Inr s'" "pulses_done (snd s') = pulses_done c + 1"
    using assms(2,6) by blast
  moreover from this(1) ob have "k \<le> backlog q + 2" by linarith
  ultimately show ?thesis by blast
qed

text \<open>With \<open>max\<close> at its default, the largest number, the queue is never drained.\<close>

lemma pulse_iter_unlimited:
  assumes "\<not> drain c"
  shows "pulse_iter vt env (- 1) (q, c) = load_iter vt env (q, c)"
proof -
  have "\<not> word_of_int i > (- 1 :: u32)" for i using word_n1_ge [of "word_of_int i :: u32"] by (simp add: not_less)
  then have "pulse_flags vt env (- 1) (q1, c) = (q1, c)" for q1
    using assms by (simp add: pulse_flags_def)
  then show ?thesis using assms by (simp add: pulse_iter_def load_iter_def)
qed

lemma next_clock_keeps: "next_clock env c = Inr c' \<Longrightarrow> drain c' = drain c \<and> pulses_done c' = pulses_done c"
  by (auto simp: next_clock_def draw_next_def split: if_splits)

lemma pulse_loop_unlimited:
  assumes "env_ok env" "sim_inv n s" "n + fuel \<le> cap" "n + fuel < 2 ^ 64" "\<not> drain (snd s)"
    "word_of_int (pulses_done (snd s)) < duration"
  shows "pulse_loop fuel vt env (- 1) duration s = Inr None"
  using assms(2-6)
proof (induction fuel arbitrary: n s)
  case 0
  then show ?case by simp
next
  case (Suc fuel)
  obtain q c where s: "s = (q, c)" by (cases s)
  obtain q' c' where "load_iter vt env (q, c) = Inr (q', c')" "sim_inv (Suc n) (q', c')"
    "next_clock env c = Inr c'"
    using load_iter_ok [OF assms(1), of n q c] Suc.prems by (auto simp: s)
  then show ?case
    using Suc.IH [of "Suc n" "(q', c')"] Suc.prems next_clock_keeps [of env c c']
    by (auto simp: s pulse_iter_unlimited)
qed

end

subsection \<open>Queues that always serve the best message\<close>

context srpt_impl
begin

lemma load_iters_exact:
  assumes "env_ok env" "sim_inv n s" "n + k \<le> cap" "n + k < 2 ^ 64" "iterate k (load_iter vt env) s = Inr s'"
  shows "pktinacc (simstats (fst s')) = pktinacc (simstats (fst s))"
  using assms(2-5)
proof (induction k arbitrary: n s)
  case 0
  then show ?case by simp
next
  case (Suc k)
  obtain q c where s: "s = (q, c)" by (cases s)
  obtain q' c' q1 where i: "load_iter vt env (q, c) = Inr (q', c')" "sim_inv (Suc n) (q', c')"
    "departure vt (sim_ts c) q = Inr q1" "simstats q' = simstats q1"
    using load_iter_ok [OF assms(1), of n q c] Suc.prems by (auto simp: s)
  have "qinv q" using Suc.prems(1) by (simp add: s sim_inv_def)
  then have "pktinacc (simstats q') = pktinacc (simstats q)" using srpt_departure [OF _ i(3)] i(4) by simp
  then show ?case using Suc.IH [OF i(2)] Suc.prems i(1) by (simp add: s)
qed

end

end
