(* ===== verification/Workloads.thy ===== *)
theory Workloads
  imports Dist
begin

section \<open>The built-in workloads\<close>

text \<open>
  The arrays \<open>w1\<close> to \<open>w5\<close> of \<open>model/dist.cc\<close>, in pieces in the order of the source (of
  \<open>w4\<close> the branch that \<open>#if 0 ... #else\<close> compiles), with the fractions as the source writes
  them. \<open>table\<close> rounds them to the doubles the compiler stores. Each array is an interpretation
  of \<open>cdf_table\<close>, so the constructor never runs past its end.
\<close>

subsection \<open>The arrays\<close>

definition w1_a :: "(nat \<times> rat) list" where
  "w1_a = [
    (8, 0.31094), (9, 0.31931), (10, 0.32768), (11, 0.41757), (12, 0.41849), (13, 0.42175),
    (14, 0.44155), (15, 0.47), (16, 0.474821816501057), (17, 0.477306734916455),
    (18, 0.478598446159319), (19, 0.481284092023641), (20, 0.484111102839223),
    (21, 0.485579552767652), (22, 0.488630276714586), (23, 0.490214146264239),
    (24, 0.493502936247448), (25, 0.495209487027664), (26, 0.496958569155332),
    (27, 0.500587629388271), (28, 0.502469263537327), (29, 0.504396739229229),
    (30, 0.506370885197163), (31, 0.508392528537904), (32, 0.510462493543295),
    (33, 0.512581600464071), (34, 0.514750664204364), (35, 0.516970492945357),
    (36, 0.519241886696665), (37, 0.52156563577416), (38, 0.52394251920312),
    (39, 0.526373303045767), (40, 0.528858738652444), (41, 0.531399560835934),
    (43, 0.533996485968624), (44, 0.536650210002549), (45, 0.539361406412584),
    (47, 0.542130724063425), (48, 0.544958785001327), (50, 0.547846182171941),
    (51, 0.550793477066002), (53, 0.553801197295066), (54, 0.556869834099928),
    (56, 0.559999839794875), (57, 0.563191625151417), (59, 0.566445556725714),
    (61, 0.569761954134462), (63, 0.573141087284622), (65, 0.576583173562996),
    (67, 0.580088374992285), (69, 0.583656795360951), (71, 0.58728847733488),
    (73, 0.590983399559541), (75, 0.594741473762058), (77, 0.598562541863314),
    (79, 0.602446373110951), (82, 0.606392661244829), (84, 0.610401021707236),
    (87, 0.614470988910841), (89, 0.618602013578049), (92, 0.622793460166102),
    (95, 0.627044604392854), (97, 0.631354630878766), (100, 0.635722630921181),
    (103, 0.640147600417399), (106, 0.644628437953517), (110, 0.649163943076279),
    (113, 0.653752814765475), (116, 0.658393650124541), (120, 0.663084943307071),
    (123, 0.667825084696898), (127, 0.672612360359169), (131, 0.677444951779569),
    (135, 0.682320935908353), (139, 0.687238285525227), (143, 0.692194869940407),
    (147, 0.697188456046198), (151, 0.702216709732398), (156, 0.707277197677561),
    (161, 0.712367389526724), (165, 0.71748466046463), (170, 0.722626294191701),
    (175, 0.727789486308116), (181, 0.73297134810924), (186, 0.738168910793445),
    (191, 0.743379130080985), (197, 0.748598891240071), (203, 0.753825014513709),
    (209, 0.759054260938132), (215, 0.764283338540864), (222, 0.769508908903652),
    (228, 0.774727594072556), (235, 0.779935983794678), (242, 0.785130643058093),
    (249, 0.790308119908749), (257, 0.795464953515364), (264, 0.800597682450724),
    (272, 0.805702853155265), (280, 0.810777028546545), (289, 0.815816796736054),
    (297, 0.820818779812929), (306, 0.825779642652527), (315, 0.830696101706428),
    (324, 0.835564933729451), (334, 0.840382984398504), (344, 0.845147176777796),
    (354, 0.84985451958491), (365, 0.854502115212638), (376, 0.859087167462276),
    (387, 0.863606988945202), (398, 0.86805900811114), (410, 0.872440775863436),
    (422, 0.876749971723942), (435, 0.880984409512793), (448, 0.885142042511289),
    (461, 0.889220968079412), (475, 0.893219431703032), (489, 0.897135830449671),
    (503, 0.900968715815669), (518, 0.904716795951764), (534, 0.908378937258383),
    (549, 0.911954165346268), (566, 0.915441665362468), (582, 0.91884078168609),
    (600, 0.922151017002482), (618, 0.925372030768756), (636, 0.928503637087566),
    (655, 0.931545802009937), (674, 0.934498640291545), (694, 0.937362411630225),
    (715, 0.940137516415517), (736, 0.942824491023827), (758, 0.945424002695147),
    (780, 0.947936844029309), (804, 0.950363927141405), (827, 0.952706277517256),
    (852, 0.954965027610696), (877, 0.957141410224929), (903, 0.959236751720322),
    (930, 0.961252465090754), (958, 0.963190042950019), (986, 0.965051050468866),
    (1015, 0.966837118301992), (1046, 0.968549935542785), (1077, 0.97019124274183),
    (1108, 0.971762825023174), (1141, 0.973266505330149), (1175, 0.974704137830182),
    (1210, 0.976077601505512), (1246, 0.977388793954181)]"

definition w1_b :: "(nat \<times> rat) list" where
  "w1_b = [
    (1283, 0.978639625422937), (1321, 0.97983201309107), (1360, 0.980967875621433),
    (1401, 0.982049127992267), (1442, 0.983077676620779), (1485, 0.984055414786898),
    (1529, 0.984984218363116), (1574, 0.985865941853998), (1621, 0.986702414746682),
    (1669, 0.987495438171598), (1719, 0.988246781870691), (1770, 0.988958181468629),
    (1822, 0.989631336040849), (1876, 0.990267905970848), (1932, 0.990869511087789),
    (1989, 0.991437729074415), (2048, 0.991974094134257), (2109, 0.992480095906333),
    (2172, 0.992957178614888), (2236, 0.993406740441211), (2303, 0.993830133104215),
    (2371, 0.994228661636218), (2441, 0.994603584340256), (2514, 0.994956112915281),
    (2588, 0.995287412735657), (2665, 0.995598603271606), (2744, 0.995890758637502),
    (2826, 0.996164908255274), (2909, 0.996422037620571), (2996, 0.996663089159829),
    (3085, 0.996888963166859), (3176, 0.997100518808131), (3270, 0.997298575186473),
    (3367, 0.997483912453533), (3467, 0.997657272961877), (3570, 0.997819362448284),
    (3676, 0.997970851240328), (3785, 0.998112375478974), (3897, 0.998244538350506),
    (4013, 0.99836791132166), (4132, 0.998483035372409), (4255, 0.998590422221387),
    (4381, 0.99869055553946), (4511, 0.998783892147428), (4645, 0.99887086319436),
    (4782, 0.998951875313439), (4924, 0.999027311752696), (5070, 0.999097533478328),
    (5221, 0.999162880248718), (5376, 0.999223671657584), (5535, 0.999280208145),
    (5699, 0.999332771975342), (5868, 0.999381628181432), (6043, 0.999427025474451),
    (6222, 0.999469197119345), (6406, 0.99950836177569), (6596, 0.999544724304136),
    (6792, 0.999578476538699), (6994, 0.999609798025316), (7201, 0.999638856727198),
    (7415, 0.999665809697595), (7635, 0.999690803720715), (7861, 0.999713975921559),
    (8094, 0.999735454345555), (8334, 0.99975535850886), (8582, 0.999773799920301),
    (8836, 0.999790882575893), (9098, 0.999806703426944), (9368, 0.999821352822742),
    (9646, 0.99983491492882), (9932, 0.999847468121828), (10227, 0.999859085361988),
    (10530, 0.999869834544144), (10843, 0.999879778828365), (11164, 0.999888976951074),
    (11496, 0.999897483517634), (11837, 0.999905349277299), (12188, 0.999912621381435),
    (12549, 0.999919343625857), (12922, 0.999925556678125), (13305, 0.999931298290599),
    (13700, 0.999936603500036), (14106, 0.99994150481446), (14524, 0.999946032388038),
    (14955, 0.999950214184624), (15399, 0.999954076130654), (15856, 0.999957642257982),
    (16326, 0.999960934837285), (16810, 0.999963974502583), (17309, 0.999966780367418),
    (17822, 0.999969370133206), (18351, 0.999971760190245), (18896, 0.999973965711837),
    (19456, 0.99997600074196), (20033, 0.999977878276901), (20627, 0.999979610341234),
    (21239, 0.999981208058518), (21869, 0.999982681717046), (22518, 0.999984040830983),
    (23186, 0.999985294197189), (23874, 0.999986449948021), (24582, 0.999987515600377),
    (25311, 0.999988498101245), (26062, 0.999989403869978), (26835, 0.999990238837541),
    (27631, 0.999991008482917), (28451, 0.999991717866879), (29295, 0.999992371663312),
    (30164, 0.999992974188243), (31059, 0.99999352942676), (31980, 0.999994041057951),
    (32929, 0.999994512478005), (33905, 0.999994946821621), (34911, 0.999995346981819),
    (35947, 0.9999957156283), (37013, 0.999996055224422), (38111, 0.99999636804293),
    (39242, 0.999996656180495), (40406, 0.999996921571177), (41604, 0.999997165998873),
    (42838, 0.999997391108826), (44109, 0.999997598418274), (45418, 0.999997789326289),
    (46765, 0.999997965122879), (48152, 0.999998126997391), (49580, 0.999998276046281),
    (51051, 0.999998413280298), (52565, 0.999998539631112), (54125, 0.99999865595744),
    (55730, 0.999998763050707), (57383, 0.999998861640266), (59086, 0.999998952398228),
    (60838, 0.99999903594391), (62643, 0.999999112847952), (64501, 0.99999918363611),
    (66415, 0.999999248792755), (68385, 0.99999930876411), (70413, 0.999999363961231),
    (72502, 0.999999414762756), (74653, 0.999999461517448), (76867, 0.999999504546531),
    (79147, 0.999999544145854), (81495, 0.999999580587881), (83912, 0.999999614123529),
    (86401, 0.999999644983861), (88964, 0.999999673381646), (91603, 0.999999699512802),
    (94321, 0.999999723557724), (97119, 0.999999745682501), (100000, 1)]"

definition w2_a :: "(nat \<times> rat) list" where
  "w2_a = [
    (8, 0.170107627909139), (32, 0.189008475454599), (34, 0.202751220734426),
    (36, 0.216493966014254), (38, 0.230236711294082), (40, 0.24397945657391),
    (43, 0.257722201853738), (46, 0.271464947133566), (49, 0.285207692413394),
    (53, 0.298950437693222), (58, 0.31269318297305), (64, 0.326435928252878),
    (67, 0.327962652787335), (71, 0.329489377321793), (75, 0.331016101856251),
    (80, 0.332542826390709), (85, 0.334069550925166), (91, 0.335596275459624),
    (98, 0.337122999994082), (107, 0.338649724528539), (116, 0.340176449062997),
    (128, 0.341703173597455), (135, 0.353916810301949), (142, 0.366130447006443),
    (151, 0.378344083710937), (160, 0.390557720415431), (171, 0.402771357119925),
    (183, 0.414984993824419), (197, 0.427198630528913), (213, 0.439412267233407),
    (233, 0.451625903937901), (256, 0.463839540642395), (269, 0.508495648577945),
    (284, 0.553151756513495), (301, 0.597807864449045), (320, 0.642463972384595),
    (341, 0.687120080320145), (366, 0.731776188255695), (394, 0.776432296191245),
    (427, 0.821088404126795), (465, 0.865744512062345), (512, 0.910400619997895),
    (539, 0.915171571649521), (569, 0.919942523301147), (602, 0.924713474952773),
    (640, 0.929484426604399), (683, 0.934255378256025), (731, 0.939026329907651),
    (788, 0.943797281559276), (853, 0.948568233210902), (931, 0.953339184862528),
    (1024, 0.958110136514154), (1078, 0.960400194140515), (1138, 0.962690251766876),
    (1205, 0.964980309393238), (1280, 0.967270367019599), (1365, 0.96956042464596),
    (1463, 0.971850482272321), (1575, 0.974140539898682), (1707, 0.976430597525043),
    (1862, 0.978720655151404), (2048, 0.981010712777766), (2156, 0.982441997677838),
    (2276, 0.983873282577911), (2409, 0.985304567477984), (2560, 0.986735852378057),
    (2731, 0.98816713727813), (2926, 0.989598422178203), (3151, 0.991029707078276),
    (3413, 0.992460991978349), (3724, 0.993892276878422), (4096, 0.995323561778495),
    (4312, 0.995633673903787), (4551, 0.99594378602908), (4819, 0.996253898154372),
    (5120, 0.996564010279664), (5461, 0.996874122404957), (5851, 0.997184234530249),
    (6302, 0.997494346655541), (6827, 0.997804458780834), (7447, 0.998114570906126),
    (8192, 0.998424683031419), (8623, 0.998472392503279), (9102, 0.998520101975139),
    (9638, 0.998567811446999), (10240, 0.998615520918859), (10923, 0.998663230390719),
    (11703, 0.998710939862579), (12603, 0.99875864933444), (13653, 0.9988063588063),
    (14895, 0.99885406827816), (16384, 0.99890177775002), (17246, 0.99892563248595),
    (18204, 0.99894948722188), (19275, 0.99897334195781), (20480, 0.99899719669374),
    (21845, 0.99902105142967), (23406, 0.9990449061656), (25206, 0.999068760901531),
    (27307, 0.999092615637461), (29789, 0.999116470373391), (32768, 0.999140325109321),
    (34493, 0.999161198026518), (36409, 0.999182070943715), (38551, 0.999202943860912),
    (40960, 0.99922381677811), (43691, 0.999244689695307), (46811, 0.999265562612504),
    (50412, 0.999286435529701), (54613, 0.999307308446898), (59578, 0.999328181364096),
    (65536, 0.999349054281293), (68985, 0.999401236574286), (72818, 0.999453418867279),
    (77101, 0.999505601160272), (81920, 0.999557783453265), (87381, 0.999609965746258),
    (93623, 0.999662148039251), (100825, 0.999714330332244), (109227, 0.999766512625237),
    (119156, 0.99981869491823), (131072, 0.999870877211223), (137971, 0.999881313669821),
    (145636, 0.99989175012842), (154202, 0.999902186587019), (163840, 0.999912623045617),
    (174763, 0.999923059504216), (187246, 0.999933495962815), (201649, 0.999943932421413),
    (218453, 0.999954368880012), (238313, 0.99996480533861), (262144, 0.999975241797209),
    (275941, 0.999975987263521), (291271, 0.999976732729834), (308405, 0.999977478196146),
    (327680, 0.999978223662459), (349525, 0.999978969128771), (374491, 0.999979714595084),
    (403298, 0.999980460061396), (436907, 0.999981205527708), (476625, 0.999981950994021),
    (524288, 0.999982696460333), (573085, 0.9999844268143), (631896, 0.999986157168266),
    (704160, 0.999987887522233), (795085, 0.9999896178762), (912974, 0.999991348230167),
    (1071908, 0.999993078584133), (1297841, 0.9999948089381), (1644453, 0.999996539292067)]"

definition w2_b :: "(nat \<times> rat) list" where
  "w2_b = [
    (2243665, 0.999998269646033), (3529904, 1)]"

definition w3_a :: "(nat \<times> rat) list" where
  "w3_a = [
    (8, 0.0648826230027598), (32, 0.0973239345041398), (36, 0.108913294911834),
    (40, 0.120502655319528), (46, 0.132092015727223), (53, 0.143681376134917),
    (64, 0.155270736542611), (70, 0.18798780420397), (77, 0.220704871865328),
    (85, 0.253421939526687), (96, 0.286139007188045), (110, 0.318856074849404),
    (128, 0.351573142510763), (137, 0.369864095116246), (146, 0.388155047721729),
    (158, 0.406446000327212), (171, 0.424736952932695), (186, 0.443027905538178),
    (205, 0.461318858143661), (228, 0.479609810749145), (256, 0.497900763354628),
    (268, 0.523993534878443), (282, 0.550086306402258), (296, 0.576179077926073),
    (313, 0.602271849449888), (331, 0.628364620973703), (352, 0.654457392497518),
    (375, 0.680550164021333), (402, 0.706642935545148), (433, 0.732735707068963),
    (469, 0.758828478592778), (512, 0.784921250116593), (531, 0.790512558564584),
    (551, 0.796103867012575), (573, 0.801695175460566), (597, 0.807286483908557),
    (623, 0.812877792356548), (652, 0.818469100804539), (683, 0.82406040925253),
    (717, 0.829651717700521), (755, 0.835243026148512), (796, 0.840834334596503),
    (843, 0.846425643044494), (896, 0.852016951492485), (956, 0.857608259940476),
    (1024, 0.863199568388467), (1053, 0.865736365928318), (1084, 0.86827316346817),
    (1117, 0.870809961008021), (1152, 0.873346758547872), (1189, 0.875883556087723),
    (1229, 0.878420353627574), (1271, 0.880957151167425), (1317, 0.883493948707276),
    (1365, 0.886030746247128), (1418, 0.888567543786979), (1475, 0.89110434132683),
    (1536, 0.893641138866681), (1603, 0.896177936406532), (1676, 0.898714733946383),
    (1755, 0.901251531486234), (1843, 0.903788329026086), (1940, 0.906325126565937),
    (2048, 0.908861924105788), (2092, 0.909949120991973), (2137, 0.911036317878158),
    (2185, 0.912123514764344), (2234, 0.913210711650529), (2286, 0.914297908536714),
    (2341, 0.9153851054229), (2398, 0.916472302309085), (2458, 0.91755949919527),
    (2521, 0.918646696081455), (2587, 0.919733892967641), (2657, 0.920821089853826),
    (2731, 0.921908286740011), (2809, 0.922995483626197), (2891, 0.924082680512382),
    (2979, 0.925169877398567), (3072, 0.926257074284752), (3171, 0.927344271170938),
    (3277, 0.928431468057123), (3390, 0.929518664943308), (3511, 0.930605861829494),
    (3641, 0.931693058715679), (3781, 0.932780255601864), (3932, 0.933867452488049),
    (4096, 0.934954649374235), (4163, 0.935901565991808), (4233, 0.936848482609381),
    (4304, 0.937795399226954), (4378, 0.938742315844527), (4455, 0.9396892324621),
    (4535, 0.940636149079674), (4617, 0.941583065697247), (4703, 0.94252998231482),
    (4792, 0.943476898932393), (4884, 0.944423815549966), (4979, 0.945370732167539),
    (5079, 0.946317648785112), (5183, 0.947264565402686), (5291, 0.948211482020259),
    (5403, 0.949158398637832), (5521, 0.950105315255405), (5643, 0.951052231872978),
    (5772, 0.951999148490551), (5906, 0.952946065108124), (6046, 0.953892981725698),
    (6194, 0.954839898343271), (6349, 0.955786814960844), (6512, 0.956733731578417),
    (6683, 0.95768064819599), (6864, 0.958627564813563), (7054, 0.959574481431136),
    (7256, 0.96052139804871), (7469, 0.961468314666283), (7696, 0.962415231283856),
    (7936, 0.963362147901429), (8192, 0.964309064519002), (8293, 0.964806259070139),
    (8397, 0.965303453621275), (8503, 0.965800648172412), (8612, 0.966297842723548),
    (8724, 0.966795037274685), (8839, 0.967292231825821), (8957, 0.967789426376958),
    (9078, 0.968286620928094), (9202, 0.968783815479231), (9330, 0.969281010030367),
    (9461, 0.969778204581504), (9596, 0.97027539913264), (9735, 0.970772593683777),
    (9879, 0.971269788234913), (10026, 0.97176698278605), (10178, 0.972264177337186),
    (10335, 0.972761371888322), (10496, 0.973258566439459), (10663, 0.973755760990595),
    (10835, 0.974252955541732), (11012, 0.974750150092868), (11196, 0.975247344644005),
    (11385, 0.975744539195141), (11582, 0.976241733746278), (11785, 0.976738928297414),
    (11995, 0.977236122848551), (12214, 0.977733317399687), (12440, 0.978230511950824),
    (12674, 0.97872770650196), (12918, 0.979224901053097), (13171, 0.979722095604233)]"

definition w3_b :: "(nat \<times> rat) list" where
  "w3_b = [
    (13435, 0.98021929015537), (13709, 0.980716484706506), (13995, 0.981213679257643),
    (14292, 0.981710873808779), (14603, 0.982208068359916), (14928, 0.982705262911052),
    (15267, 0.983202457462189), (15622, 0.983699652013325), (15994, 0.984196846564462),
    (16384, 0.984694041115598), (16540, 0.984801735350781), (16699, 0.984909429585963),
    (16861, 0.985017123821145), (17027, 0.985124818056328), (17195, 0.98523251229151),
    (17367, 0.985340206526693), (17542, 0.985447900761875), (17721, 0.985555594997057),
    (17904, 0.98566328923224), (18091, 0.985770983467422), (18281, 0.985878677702604),
    (18476, 0.985986371937787), (18674, 0.986094066172969), (18877, 0.986201760408151),
    (19085, 0.986309454643334), (19297, 0.986417148878516), (19514, 0.986524843113698),
    (19735, 0.986632537348881), (19962, 0.986740231584063), (20194, 0.986847925819246),
    (20432, 0.986955620054428), (20675, 0.98706331428961), (20924, 0.987171008524793),
    (21179, 0.987278702759975), (21441, 0.987386396995157), (21709, 0.98749409123034),
    (21984, 0.987601785465522), (22265, 0.987709479700704), (22555, 0.987817173935887),
    (22851, 0.987924868171069), (23156, 0.988032562406252), (23469, 0.988140256641434),
    (23790, 0.988247950876616), (24121, 0.988355645111799), (24461, 0.988463339346981),
    (24810, 0.988571033582163), (25170, 0.988678727817346), (25540, 0.988786422052528),
    (25921, 0.98889411628771), (26314, 0.989001810522893), (26719, 0.989109504758075),
    (27136, 0.989217198993258), (27567, 0.98932489322844), (28011, 0.989432587463622),
    (28471, 0.989540281698805), (28945, 0.989647975933987), (29436, 0.989755670169169),
    (29943, 0.989863364404352), (30468, 0.989971058639534), (31013, 0.990078752874716),
    (31576, 0.990186447109899), (32161, 0.990294141345081), (32768, 0.990401835580264),
    (33007, 0.990443196317542), (33250, 0.990484557054821), (33496, 0.990525917792099),
    (33746, 0.990567278529378), (34000, 0.990608639266656), (34257, 0.990650000003935),
    (34519, 0.990691360741213), (34784, 0.990732721478492), (35054, 0.99077408221577),
    (35328, 0.990815442953049), (35606, 0.990856803690327), (35889, 0.990898164427606),
    (36176, 0.990939525164885), (36468, 0.990980885902163), (36764, 0.991022246639442),
    (37065, 0.99106360737672), (37372, 0.991104968113999), (37683, 0.991146328851277),
    (38000, 0.991187689588556), (38322, 0.991229050325834), (38649, 0.991270411063113),
    (38983, 0.991311771800391), (39322, 0.99135313253767), (39667, 0.991394493274948),
    (40018, 0.991435854012227), (40375, 0.991477214749506), (40739, 0.991518575486784),
    (41109, 0.991559936224063), (41486, 0.991601296961341), (41870, 0.99164265769862),
    (42262, 0.991684018435898), (42660, 0.991725379173177), (43067, 0.991766739910455),
    (43481, 0.991808100647734), (43903, 0.991849461385012), (44333, 0.991890822122291),
    (44772, 0.99193218285957), (45220, 0.991973543596848), (45677, 0.992014904334127),
    (46143, 0.992056265071405), (46618, 0.992097625808684), (47104, 0.992138986545962),
    (47600, 0.992180347283241), (48106, 0.992221708020519), (48623, 0.992263068757798),
    (49152, 0.992304429495076), (49692, 0.992345790232355), (50244, 0.992387150969633),
    (50809, 0.992428511706912), (51386, 0.992469872444191), (51977, 0.992511233181469),
    (52581, 0.992552593918748), (53200, 0.992593954656026), (53833, 0.992635315393305),
    (54482, 0.992676676130583), (55146, 0.992718036867862), (55827, 0.99275939760514),
    (56525, 0.992800758342419), (57240, 0.992842119079697), (57974, 0.992883479816976),
    (58727, 0.992924840554255), (59500, 0.992966201291533), (60293, 0.993007562028812),
    (61108, 0.99304892276609), (61945, 0.993090283503369), (62805, 0.993131644240647),
    (63690, 0.993173004977926), (64600, 0.993214365715204), (65536, 0.993255726452483),
    (65902, 0.993298761415796), (66272, 0.993341796379109), (66647, 0.993384831342422),
    (67025, 0.993427866305735), (67408, 0.993470901269048), (67796, 0.993513936232361),
    (68188, 0.993556971195674), (68584, 0.993600006158987), (68985, 0.9936430411223),
    (69391, 0.993686076085613), (69802, 0.993729111048926), (70217, 0.993772146012239),
    (70638, 0.993815180975552), (71063, 0.993858215938865), (71494, 0.993901250902179),
    (71930, 0.993944285865492), (72371, 0.993987320828805), (72818, 0.994030355792118)]"

definition w3_c :: "(nat \<times> rat) list" where
  "w3_c = [
    (73270, 0.994073390755431), (73728, 0.994116425718744), (74192, 0.994159460682057),
    (74661, 0.99420249564537), (75137, 0.994245530608683), (75618, 0.994288565571996),
    (76106, 0.994331600535309), (76601, 0.994374635498622), (77101, 0.994417670461935),
    (77608, 0.994460705425248), (78122, 0.994503740388561), (78643, 0.994546775351874),
    (79171, 0.994589810315187), (79706, 0.9946328452785), (80248, 0.994675880241813),
    (80798, 0.994718915205126), (81355, 0.994761950168439), (81920, 0.994804985131752),
    (82493, 0.994848020095065), (83074, 0.994891055058378), (83663, 0.994934090021691),
    (84261, 0.994977124985004), (84867, 0.995020159948317), (85482, 0.995063194911631),
    (86106, 0.995106229874944), (86739, 0.995149264838257), (87381, 0.99519229980157),
    (88033, 0.995235334764883), (88695, 0.995278369728196), (89367, 0.995321404691509),
    (90049, 0.995364439654822), (90742, 0.995407474618135), (91446, 0.995450509581448),
    (92160, 0.995493544544761), (92886, 0.995536579508074), (93623, 0.995579614471387),
    (94372, 0.9956226494347), (95133, 0.995665684398013), (95906, 0.995708719361326),
    (96692, 0.995751754324639), (97492, 0.995794789287952), (98304, 0.995837824251265),
    (99130, 0.995880859214578), (99970, 0.995923894177891), (100825, 0.995966929141204),
    (101694, 0.996009964104517), (102578, 0.996052999067831), (103478, 0.996096034031144),
    (104394, 0.996139068994457), (105326, 0.99618210395777), (106275, 0.996225138921083),
    (107241, 0.996268173884396), (108225, 0.996311208847709), (109227, 0.996354243811022),
    (110247, 0.996397278774335), (111288, 0.996440313737648), (112347, 0.996483348700961),
    (113428, 0.996526383664274), (114529, 0.996569418627587), (115652, 0.9966124535909),
    (116797, 0.996655488554213), (117965, 0.996698523517526), (119156, 0.996741558480839),
    (120372, 0.996784593444152), (121613, 0.996827628407465), (122880, 0.996870663370778),
    (124173, 0.996913698334091), (125494, 0.996956733297404), (126844, 0.996999768260717),
    (128223, 0.99704280322403), (129632, 0.997085838187344), (131072, 0.997128873150657),
    (131630, 0.997140095435483), (132192, 0.997151317720308), (132760, 0.997162540005134),
    (133332, 0.99717376228996), (133909, 0.997184984574786), (134491, 0.997196206859612),
    (135079, 0.997207429144438), (135671, 0.997218651429264), (136269, 0.99722987371409),
    (136872, 0.997241095998916), (137480, 0.997252318283742), (138094, 0.997263540568568),
    (138713, 0.997274762853394), (139338, 0.99728598513822), (139968, 0.997297207423046),
    (140605, 0.997308429707872), (141247, 0.997319651992698), (141894, 0.997330874277524),
    (142548, 0.997342096562349), (143208, 0.997353318847175), (143874, 0.997364541132001),
    (144547, 0.997375763416827), (145225, 0.997386985701653), (145910, 0.997398207986479),
    (146602, 0.997409430271305), (147300, 0.997420652556131), (148005, 0.997431874840957),
    (148716, 0.997443097125783), (149435, 0.997454319410609), (150160, 0.997465541695435),
    (150893, 0.997476763980261), (151632, 0.997487986265087), (152379, 0.997499208549913),
    (153134, 0.997510430834739), (153895, 0.997521653119564), (154665, 0.99753287540439),
    (155442, 0.997544097689216), (156227, 0.997555319974042), (157020, 0.997566542258868),
    (157821, 0.997577764543694), (158631, 0.99758898682852), (159448, 0.997600209113346),
    (160275, 0.997611431398172), (161109, 0.997622653682998), (161953, 0.997633875967824),
    (162805, 0.99764509825265), (163667, 0.997656320537476), (164537, 0.997667542822302),
    (165417, 0.997678765107128), (166306, 0.997689987391954), (167205, 0.997701209676779),
    (168114, 0.997712431961605), (169033, 0.997723654246431), (169961, 0.997734876531257),
    (170901, 0.997746098816083), (171850, 0.997757321100909), (172810, 0.997768543385735),
    (173781, 0.997779765670561), (174763, 0.997790987955387), (175756, 0.997802210240213),
    (176760, 0.997813432525039), (177776, 0.997824654809865), (178803, 0.997835877094691),
    (179843, 0.997847099379517), (180895, 0.997858321664343), (181959, 0.997869543949169),
    (183035, 0.997880766233995), (184125, 0.99789198851882), (185227, 0.997903210803646),
    (186343, 0.997914433088472), (187473, 0.997925655373298), (188616, 0.997936877658124),
    (189773, 0.99794809994295), (190944, 0.997959322227776), (192130, 0.997970544512602),
    (193331, 0.997981766797428), (194547, 0.997992989082254), (195778, 0.99800421136708)]"

definition w3_d :: "(nat \<times> rat) list" where
  "w3_d = [
    (197025, 0.998015433651906), (198288, 0.998026655936732), (199568, 0.998037878221558),
    (200864, 0.998049100506384), (202176, 0.99806032279121), (203507, 0.998071545076035),
    (204854, 0.998082767360861), (206220, 0.998093989645687), (207604, 0.998105211930513),
    (209007, 0.998116434215339), (210429, 0.998127656500165), (211870, 0.998138878784991),
    (213331, 0.998150101069817), (214812, 0.998161323354643), (216315, 0.998172545639469),
    (217838, 0.998183767924295), (219383, 0.998194990209121), (220950, 0.998206212493947),
    (222540, 0.998217434778773), (224152, 0.998228657063599), (225788, 0.998239879348425),
    (227448, 0.99825110163325), (229133, 0.998262323918076), (230843, 0.998273546202902),
    (232579, 0.998284768487728), (234341, 0.998295990772554), (236130, 0.99830721305738),
    (237946, 0.998318435342206), (239791, 0.998329657627032), (241664, 0.998340879911858),
    (243567, 0.998352102196684), (245500, 0.99836332448151), (247464, 0.998374546766336),
    (249460, 0.998385769051162), (251488, 0.998396991335988), (253549, 0.998408213620814),
    (255645, 0.99841943590564), (257775, 0.998430658190466), (259941, 0.998441880475291),
    (262144, 0.998453102760117), (263003, 0.998459933656693), (263869, 0.998466764553268),
    (264739, 0.998473595449844), (265616, 0.998480426346419), (266499, 0.998487257242994),
    (267387, 0.99849408813957), (268281, 0.998500919036145), (269181, 0.998507749932721),
    (270088, 0.998514580829296), (271000, 0.998521411725872), (271919, 0.998528242622447),
    (272844, 0.998535073519022), (273775, 0.998541904415598), (274713, 0.998548735312173),
    (275657, 0.998555566208749), (276607, 0.998562397105324), (277564, 0.998569228001899),
    (278528, 0.998576058898475), (279498, 0.99858288979505), (280476, 0.998589720691626),
    (281460, 0.998596551588201), (282451, 0.998603382484777), (283449, 0.998610213381352),
    (284454, 0.998617044277927), (285466, 0.998623875174503), (286486, 0.998630706071078),
    (287513, 0.998637536967654), (288547, 0.998644367864229), (289589, 0.998651198760804),
    (290638, 0.99865802965738), (291695, 0.998664860553955), (292759, 0.998671691450531),
    (293832, 0.998678522347106), (294912, 0.998685353243681), (296000, 0.998692184140257),
    (297097, 0.998699015036832), (298201, 0.998705845933408), (299314, 0.998712676829983),
    (300435, 0.998719507726558), (301564, 0.998726338623134), (302702, 0.998733169519709),
    (303849, 0.998740000416285), (305004, 0.99874683131286), (306168, 0.998753662209436),
    (307341, 0.998760493106011), (308523, 0.998767324002586), (309715, 0.998774154899162),
    (310915, 0.998780985795737), (312125, 0.998787816692313), (313344, 0.998794647588888),
    (314573, 0.998801478485463), (315811, 0.998808309382039), (317060, 0.998815140278614),
    (318318, 0.99882197117519), (319586, 0.998828802071765), (320864, 0.99883563296834),
    (322153, 0.998842463864916), (323452, 0.998849294761491), (324761, 0.998856125658067),
    (326082, 0.998862956554642), (327413, 0.998869787451218), (328754, 0.998876618347793),
    (330107, 0.998883449244368), (331471, 0.998890280140944), (332847, 0.998897111037519),
    (334234, 0.998903941934095), (335632, 0.99891077283067), (337042, 0.998917603727245),
    (338464, 0.998924434623821), (339899, 0.998931265520396), (341345, 0.998938096416972),
    (342804, 0.998944927313547), (344275, 0.998951758210122), (345759, 0.998958589106698),
    (347256, 0.998965420003273), (348765, 0.998972250899849), (350288, 0.998979081796424),
    (351825, 0.998985912693), (353375, 0.998992743589575), (354938, 0.99899957448615),
    (356516, 0.999006405382726), (358107, 0.999013236279301), (359713, 0.999020067175877),
    (361334, 0.999026898072452), (362969, 0.999033728969027), (364618, 0.999040559865603),
    (366283, 0.999047390762178), (367964, 0.999054221658754), (369659, 0.999061052555329),
    (371371, 0.999067883451904), (373098, 0.99907471434848), (374841, 0.999081545245055),
    (376601, 0.999088376141631), (378378, 0.999095207038206), (380171, 0.999102037934781),
    (381981, 0.999108868831357), (383809, 0.999115699727932), (385654, 0.999122530624508),
    (387517, 0.999129361521083), (389398, 0.999136192417658), (391298, 0.999143023314234),
    (393216, 0.999149854210809), (395153, 0.999156685107385), (397109, 0.99916351600396),
    (399085, 0.999170346900536), (401080, 0.999177177797111), (403096, 0.999184008693686),
    (405132, 0.999190839590262), (407188, 0.999197670486837), (409266, 0.999204501383413)]"

definition w3_e :: "(nat \<times> rat) list" where
  "w3_e = [
    (411364, 0.999211332279988), (413485, 0.999218163176564), (415627, 0.999224994073139),
    (417792, 0.999231824969714), (419979, 0.99923865586629), (422190, 0.999245486762865),
    (424424, 0.999252317659441), (426681, 0.999259148556016), (428963, 0.999265979452591),
    (431269, 0.999272810349167), (433600, 0.999279641245742), (435957, 0.999286472142318),
    (438339, 0.999293303038893), (440748, 0.999300133935468), (443183, 0.999306964832044),
    (445645, 0.999313795728619), (448134, 0.999320626625195), (450652, 0.99932745752177),
    (453198, 0.999334288418345), (455773, 0.999341119314921), (458378, 0.999347950211496),
    (461012, 0.999354781108072), (463677, 0.999361612004647), (466372, 0.999368442901223),
    (469100, 0.999375273797798), (471859, 0.999382104694373), (474651, 0.999388935590949),
    (477477, 0.999395766487524), (480336, 0.9994025973841), (483229, 0.999409428280675),
    (486158, 0.99941625917725), (489122, 0.999423090073826), (492123, 0.999429920970401),
    (495161, 0.999436751866977), (498236, 0.999443582763552), (501350, 0.999450413660127),
    (504504, 0.999457244556703), (507697, 0.999464075453278), (510930, 0.999470906349854),
    (514206, 0.999477737246429), (517523, 0.999484568143004), (520884, 0.99949139903958),
    (524288, 0.999498229936155), (526844, 0.999500751393763), (529425, 0.99950327285137),
    (532031, 0.999505794308977), (534663, 0.999508315766584), (537322, 0.999510837224192),
    (540006, 0.999513358681799), (542718, 0.999515880139406), (545458, 0.999518401597013),
    (548225, 0.999520923054621), (551020, 0.999523444512228), (553844, 0.999525965969835),
    (556697, 0.999528487427442), (559579, 0.99953100888505), (562492, 0.999533530342657),
    (565435, 0.999536051800264), (568408, 0.999538573257872), (571414, 0.999541094715479),
    (574451, 0.999543616173086), (577521, 0.999546137630693), (580624, 0.9995486590883),
    (583760, 0.999551180545908), (586931, 0.999553702003515), (590136, 0.999556223461122),
    (593376, 0.99955874491873), (596652, 0.999561266376337), (599964, 0.999563787833944),
    (603313, 0.999566309291551), (606700, 0.999568830749159), (610125, 0.999571352206766),
    (613590, 0.999573873664373), (617093, 0.99957639512198), (620637, 0.999578916579588),
    (624222, 0.999581438037195), (627848, 0.999583959494802), (631517, 0.999586480952409),
    (635229, 0.999589002410017), (638985, 0.999591523867624), (642786, 0.999594045325231),
    (646632, 0.999596566782838), (650524, 0.999599088240446), (654463, 0.999601609698053),
    (658451, 0.99960413115566), (662487, 0.999606652613268), (666573, 0.999609174070875),
    (670710, 0.999611695528482), (674899, 0.999614216986089), (679140, 0.999616738443697),
    (683435, 0.999619259901304), (687784, 0.999621781358911), (692190, 0.999624302816518),
    (696652, 0.999626824274126), (701172, 0.999629345731733), (705750, 0.99963186718934),
    (710390, 0.999634388646947), (715090, 0.999636910104555), (719853, 0.999639431562162),
    (724680, 0.999641953019769), (729573, 0.999644474477376), (734531, 0.999646995934984),
    (739558, 0.999649517392591), (744654, 0.999652038850198), (749820, 0.999654560307805),
    (755059, 0.999657081765413), (760371, 0.99965960322302), (765759, 0.999662124680627),
    (771224, 0.999664646138234), (776767, 0.999667167595842), (782390, 0.999669689053449),
    (788096, 0.999672210511056), (793885, 0.999674731968664), (799760, 0.999677253426271),
    (805723, 0.999679774883878), (811775, 0.999682296341485), (817919, 0.999684817799093),
    (824156, 0.9996873392567), (830490, 0.999689860714307), (836921, 0.999692382171914),
    (843453, 0.999694903629522), (850088, 0.999697425087129), (856827, 0.999699946544736),
    (863675, 0.999702468002343), (870633, 0.999704989459951), (877704, 0.999707510917558),
    (884890, 0.999710032375165), (892196, 0.999712553832772), (899623, 0.99971507529038),
    (907174, 0.999717596747987), (914854, 0.999720118205594), (922664, 0.999722639663201),
    (930609, 0.999725161120809), (938693, 0.999727682578416), (946917, 0.999730204036023),
    (955288, 0.99973272549363), (963807, 0.999735246951238), (972480, 0.999737768408845),
    (981310, 0.999740289866452), (990302, 0.99974281132406), (999461, 0.999745332781667),
    (1008790, 0.999747854239274), (1018296, 0.999750375696881), (1027982, 0.999752897154489),
    (1037854, 0.999755418612096), (1047917, 0.999757940069703), (1058178, 0.99976046152731),
    (1068642, 0.999762982984918), (1079314, 0.999765504442525), (1090202, 0.999768025900132)]"

definition w3_f :: "(nat \<times> rat) list" where
  "w3_f = [
    (1101312, 0.999770547357739), (1112651, 0.999773068815347), (1124225, 0.999775590272954),
    (1136043, 0.999778111730561), (1148112, 0.999780633188168), (1160440, 0.999783154645776),
    (1173036, 0.999785676103383), (1185908, 0.99978819756099), (1199066, 0.999790719018598),
    (1212519, 0.999793240476205), (1226277, 0.999795761933812), (1240351, 0.999798283391419),
    (1254752, 0.999800804849026), (1269492, 0.999803326306634), (1284581, 0.999805847764241),
    (1300034, 0.999808369221848), (1315863, 0.999810890679455), (1332082, 0.999813412137063),
    (1348706, 0.99981593359467), (1365751, 0.999818455052277), (1383231, 0.999820976509885),
    (1401165, 0.999823497967492), (1419570, 0.999826019425099), (1438465, 0.999828540882706),
    (1457870, 0.999831062340314), (1477805, 0.999833583797921), (1498294, 0.999836105255528),
    (1519358, 0.999838626713135), (1541023, 0.999841148170743), (1563315, 0.99984366962835),
    (1586261, 0.999846191085957), (1609891, 0.999848712543564), (1634235, 0.999851234001172),
    (1659327, 0.999853755458779), (1685202, 0.999856276916386), (1711896, 0.999858798373993),
    (1739450, 0.999861319831601), (1767905, 0.999863841289208), (1797307, 0.999866362746815),
    (1827703, 0.999868884204423), (1859145, 0.99987140566203), (1891687, 0.999873927119637),
    (1925389, 0.999876448577244), (1960314, 0.999878970034851), (1996529, 0.999881491492459),
    (2034108, 0.999884012950066), (2073128, 0.999886534407673), (2113675, 0.999889055865281),
    (2155839, 0.999891577322888), (2199720, 0.999894098780495), (2245424, 0.999896620238102),
    (2293067, 0.99989914169571), (2342777, 0.999901663153317), (2394689, 0.999904184610924),
    (2448954, 0.999906706068531), (2505735, 0.999909227526139), (2565212, 0.999911748983746),
    (2627581, 0.999914270441353), (2693059, 0.99991679189896), (2761883, 0.999919313356568),
    (2834317, 0.999921834814175), (2910653, 0.999924356271782), (2991214, 0.999926877729389),
    (3076362, 0.999929399186997), (3166500, 0.999931920644604), (3262080, 0.999934442102211),
    (3363608, 0.999936963559819), (3471660, 0.999939485017426), (3586885, 0.999942006475033),
    (3710020, 0.99994452793264), (3841911, 0.999947049390248), (3983524, 0.999949570847855),
    (4135977, 0.999952092305462), (4300563, 0.999954613763069), (4478791, 0.999957135220677),
    (4672430, 0.999959656678284), (4883570, 0.999962178135891), (5114695, 0.999964699593498),
    (5368784, 0.999967221051106), (5649438, 0.999969742508713), (5961053, 0.99997226396632),
    (6309051, 0.999974785423927), (6700199, 0.999977306881535), (7143054, 0.999979828339142),
    (7648594, 0.999982349796749), (8231141, 0.999984871254356), (8909743, 0.999987392711964),
    (9710291, 0.999989914169571), (10668901, 0.999992435627178), (11837511, 0.999994957084785),
    (13293619, 0.999997478542393), (15158197, 1)]"

definition w4_a :: "(nat \<times> rat) list" where
  "w4_a = [
    (53, 0.00074), (56, 0.00148), (60, 0.00222), (64, 0.00296), (68, 0.0037), (72, 0.00444),
    (77, 0.00518), (81, 0.00592), (87, 0.00666), (92, 0.0074), (100, 0.00815), (109, 0.0089),
    (119, 0.00965), (130, 0.0104), (141, 0.01115), (154, 0.0119), (168, 0.01265), (183, 0.0134),
    (199, 0.01415), (217, 0.0149), (222, 0.0175), (227, 0.0201), (232, 0.0227), (237, 0.0253),
    (243, 0.0279), (248, 0.0305), (254, 0.0331), (259, 0.0357), (265, 0.0383), (271, 0.0409),
    (274, 0.04201), (277, 0.04312), (279, 0.04423), (282, 0.04534), (285, 0.04645),
    (288, 0.04756), (291, 0.04867), (294, 0.04978), (297, 0.05089), (300, 0.052), (303, 0.06055),
    (305, 0.0691), (308, 0.07765), (310, 0.0862), (313, 0.09475), (315, 0.1033), (318, 0.11185),
    (321, 0.1204), (323, 0.12895), (326, 0.1375), (331, 0.14401), (335, 0.15052), (340, 0.15703),
    (345, 0.16354), (350, 0.17005), (355, 0.17656), (360, 0.18307), (365, 0.18958),
    (371, 0.19609), (376, 0.2026), (381, 0.20464), (385, 0.20668), (390, 0.20872),
    (395, 0.21076), (400, 0.2128), (405, 0.21484), (410, 0.21688), (415, 0.21892),
    (420, 0.22096), (425, 0.223), (430, 0.22709), (435, 0.23118), (441, 0.23527), (446, 0.23936),
    (452, 0.24345), (457, 0.24754), (463, 0.25163), (468, 0.25572), (474, 0.25981),
    (480, 0.2639), (491, 0.28342), (502, 0.30294), (513, 0.32246), (525, 0.34198), (537, 0.3615),
    (549, 0.38102), (561, 0.40054), (574, 0.42006), (587, 0.43958), (600, 0.4591),
    (607, 0.46486), (615, 0.47062), (623, 0.47638), (630, 0.48214), (638, 0.4879),
    (646, 0.49366), (654, 0.49942), (662, 0.50518), (671, 0.51094), (679, 0.5167),
    (685, 0.52023), (690, 0.52376), (696, 0.52729), (702, 0.53082), (707, 0.53435),
    (713, 0.53788), (719, 0.54141), (725, 0.54494), (731, 0.54847), (737, 0.552), (743, 0.55442),
    (749, 0.55684), (755, 0.55926), (762, 0.56168), (768, 0.5641), (774, 0.56652),
    (781, 0.56894), (787, 0.57136), (793, 0.57378), (800, 0.5762), (808, 0.5777), (816, 0.5792),
    (825, 0.5807), (833, 0.5822), (841, 0.5837), (850, 0.5852), (859, 0.5867), (867, 0.5882),
    (876, 0.5897), (885, 0.5912), (900, 0.59305), (914, 0.5949), (929, 0.59675), (945, 0.5986),
    (960, 0.60045), (976, 0.6023), (992, 0.60415), (1009, 0.606), (1025, 0.60785),
    (1042, 0.6097), (1063, 0.61155), (1085, 0.6134), (1108, 0.61525), (1130, 0.6171),
    (1154, 0.61895), (1177, 0.6208), (1201, 0.62265), (1226, 0.6245), (1251, 0.62635),
    (1277, 0.6282)]"

definition w4_b :: "(nat \<times> rat) list" where
  "w4_b = [
    (1290, 0.62932), (1303, 0.63044), (1316, 0.63156), (1330, 0.63268), (1343, 0.6338),
    (1357, 0.63492), (1371, 0.63604), (1385, 0.63716), (1399, 0.63828), (1413, 0.6394),
    (1425, 0.64014), (1436, 0.64088), (1448, 0.64162), (1460, 0.64236), (1472, 0.6431),
    (1484, 0.64384), (1497, 0.64458), (1509, 0.64532), (1521, 0.64606), (1534, 0.6468),
    (1547, 0.64885), (1559, 0.6509), (1572, 0.65295), (1585, 0.655), (1598, 0.65705),
    (1611, 0.6591), (1624, 0.66115), (1637, 0.6632), (1651, 0.66525), (1664, 0.6673),
    (1712, 0.66804), (1762, 0.66878), (1813, 0.66952), (1865, 0.67026), (1919, 0.671),
    (1975, 0.67174), (2032, 0.67248), (2091, 0.67322), (2152, 0.67396), (2214, 0.6747),
    (2311, 0.67563), (2412, 0.67656), (2517, 0.67749), (2627, 0.67842), (2742, 0.67935),
    (2862, 0.68028), (2987, 0.68121), (3118, 0.68214), (3254, 0.68307), (3396, 0.684),
    (3544, 0.68493), (3699, 0.68586), (3861, 0.68679), (4030, 0.68772), (4206, 0.68865),
    (4390, 0.68958), (4582, 0.69051), (4783, 0.69144), (4992, 0.69237), (5210, 0.6933),
    (5427, 0.69479), (5652, 0.69628), (5887, 0.69777), (6132, 0.69926), (6387, 0.70075),
    (6653, 0.70224), (6929, 0.70373), (7217, 0.70522), (7517, 0.70671), (7830, 0.7082),
    (9012, 0.7095), (10373, 0.7108), (11939, 0.7121), (13741, 0.7134), (15816, 0.7147),
    (18203, 0.716), (20952, 0.7173), (24115, 0.7186), (27756, 0.7199), (31946, 0.7212),
    (32405, 0.72213), (32871, 0.72306), (33343, 0.72399), (33822, 0.72492), (34308, 0.72585),
    (34801, 0.72678), (35301, 0.72771), (35808, 0.72864), (36322, 0.72957), (36844, 0.7305),
    (37146, 0.73143), (37450, 0.73236), (37756, 0.73329), (38065, 0.73422), (38377, 0.73515),
    (38691, 0.73608), (39007, 0.73701), (39327, 0.73794), (39648, 0.73887), (39973, 0.7398),
    (40382, 0.74166), (40796, 0.74352), (41214, 0.74538), (41636, 0.74724), (42062, 0.7491),
    (42493, 0.75096), (42928, 0.75282), (43367, 0.75468), (43811, 0.75654), (44260, 0.7584),
    (44531, 0.76044), (44804, 0.76248), (45079, 0.76452), (45356, 0.76656), (45634, 0.7686),
    (45913, 0.77064), (46195, 0.77268), (46478, 0.77472), (46763, 0.77676), (47050, 0.7788),
    (47435, 0.78252), (47823, 0.78624), (48215, 0.78996), (48609, 0.79368), (49007, 0.7974),
    (49408, 0.80112), (49813, 0.80484), (50221, 0.80856), (50632, 0.81228), (51046, 0.816),
    (52097, 0.81674), (53169, 0.81748), (54264, 0.81822), (55381, 0.81896), (56521, 0.8197),
    (57684, 0.82044), (58872, 0.82118), (60084, 0.82192), (61321, 0.82266), (62583, 0.8234),
    (63353, 0.82433), (64132, 0.82526), (64921, 0.82619), (65720, 0.82712), (66528, 0.82805),
    (67347, 0.82898), (68175, 0.82991), (69014, 0.83084), (69863, 0.83177), (70722, 0.8327)]"

definition w4_c :: "(nat \<times> rat) list" where
  "w4_c = [
    (71156, 0.83363), (71592, 0.83456), (72031, 0.83549), (72473, 0.83642), (72917, 0.83735),
    (73364, 0.83828), (73814, 0.83921), (74266, 0.84014), (74722, 0.84107), (75180, 0.842),
    (75795, 0.84497), (76416, 0.84794), (77041, 0.85091), (77672, 0.85388), (78307, 0.85685),
    (78948, 0.85982), (79595, 0.86279), (80246, 0.86576), (80903, 0.86873), (81565, 0.8717),
    (83414, 0.87338), (85305, 0.87506), (87238, 0.87674), (89216, 0.87842), (91238, 0.8801),
    (93306, 0.88178), (95421, 0.88346), (97584, 0.88514), (99796, 0.88682), (102058, 0.8885),
    (103313, 0.88943), (104584, 0.89036), (105871, 0.89129), (107173, 0.89222),
    (108492, 0.89315), (109826, 0.89408), (111177, 0.89501), (112545, 0.89594),
    (113929, 0.89687), (115331, 0.8978), (116988, 0.89872), (118669, 0.89964), (120373, 0.90056),
    (122103, 0.90148), (123857, 0.9024), (125636, 0.90332), (127441, 0.90424), (129272, 0.90516),
    (131129, 0.90608), (133013, 0.907), (135199, 0.90794), (137421, 0.90888), (139679, 0.90982),
    (141975, 0.91076), (144308, 0.9117), (146680, 0.91264), (149091, 0.91358), (151541, 0.91452),
    (154032, 0.91546), (156563, 0.9164), (159136, 0.91733), (161752, 0.91826), (164410, 0.91919),
    (167112, 0.92012), (169859, 0.92105), (172651, 0.92198), (175488, 0.92291),
    (178373, 0.92384), (181304, 0.92477), (184284, 0.9257), (186932, 0.92662), (189618, 0.92754),
    (192343, 0.92846), (195107, 0.92938), (197911, 0.9303), (200755, 0.93122), (203640, 0.93214),
    (206566, 0.93306), (209535, 0.93398), (212546, 0.9349), (215160, 0.93583), (217805, 0.93676),
    (220484, 0.93769), (223195, 0.93862), (225940, 0.93955), (228718, 0.94048),
    (231530, 0.94141), (234377, 0.94234), (237259, 0.94327), (240177, 0.9442), (244622, 0.94513),
    (249150, 0.94606), (253761, 0.94699), (258458, 0.94792), (263241, 0.94885),
    (268113, 0.94978), (273075, 0.95071), (278129, 0.95164), (283277, 0.95257), (288520, 0.9535),
    (302981, 0.95443), (318166, 0.95536), (334113, 0.95629), (350858, 0.95722),
    (368444, 0.95815), (386910, 0.95908), (406302, 0.96001), (426666, 0.96094),
    (448051, 0.96187), (470507, 0.9628), (492079, 0.96336), (514641, 0.96392), (538237, 0.96448),
    (562914, 0.96504), (588723, 0.9656), (615716, 0.96616), (643946, 0.96672), (673470, 0.96728),
    (704348, 0.96784), (736642, 0.9684), (754877, 0.96877), (773563, 0.96914), (792711, 0.96951),
    (812333, 0.96988), (832442, 0.97025), (853048, 0.97062), (874164, 0.97099),
    (895802, 0.97136), (917977, 0.97173), (940700, 0.9721)]"

definition w4_d :: "(nat \<times> rat) list" where
  "w4_d = [
    (1002039, 0.97303), (1067379, 0.97396), (1136978, 0.97489), (1211116, 0.97582),
    (1290088, 0.97675), (1374210, 0.97768), (1463817, 0.97861), (1559267, 0.97954),
    (1660940, 0.98047), (1769244, 0.9814), (1805665, 0.98196), (1842837, 0.98252),
    (1880773, 0.98308), (1919490, 0.98364), (1959005, 0.9842), (1999332, 0.98476),
    (2040490, 0.98532), (2082496, 0.98588), (2125366, 0.98644), (2169118, 0.987),
    (2527289, 0.9883), (2944602, 0.9896), (3430822, 0.9909), (3997329, 0.9922),
    (4657379, 0.9935), (5426418, 0.9948), (6322443, 0.9961), (7366423, 0.9974),
    (8582787, 0.9987), (10000000, 1)]"

definition w5_a :: "(nat \<times> rat) list" where
  "w5_a = [
    (1430, 0.025), (2860, 0.05), (4290, 0.075), (5720, 0.1), (7150, 0.125), (8580, 0.15),
    (10010, 0.157143), (11440, 0.164286), (13230, 0.171429), (14700, 0.178571),
    (16170, 0.185714), (17640, 0.192857), (19110, 0.2), (20580, 0.216667), (22050, 0.233333),
    (23520, 0.25), (24990, 0.266667), (26460, 0.283333), (27930, 0.3), (29400, 0.307143),
    (30870, 0.314286), (32340, 0.321429), (33810, 0.328571), (35280, 0.335714),
    (36750, 0.342857), (38220, 0.35), (39690, 0.357143), (41160, 0.364286), (42630, 0.371429),
    (44100, 0.378571), (45570, 0.385714), (47040, 0.392857), (48510, 0.4), (49980, 0.4065),
    (51450, 0.413), (52920, 0.4195), (54390, 0.426), (55860, 0.4325), (57330, 0.439),
    (58800, 0.4455), (60270, 0.452), (61740, 0.4585), (63210, 0.465), (64680, 0.4715),
    (66150, 0.478), (67620, 0.4845), (69090, 0.491), (70560, 0.4975), (72030, 0.504),
    (73500, 0.5105), (74970, 0.517), (76440, 0.5235), (77910, 0.53), (79380, 0.530875),
    (80850, 0.53175), (82320, 0.532625), (83790, 0.5335), (85260, 0.534375), (86730, 0.53525),
    (88200, 0.536125), (89670, 0.537), (91140, 0.537875), (92610, 0.53875), (94080, 0.539625),
    (95550, 0.5405), (97020, 0.541375), (98490, 0.54225), (99960, 0.543125), (101430, 0.544),
    (102900, 0.544875), (104370, 0.54575), (105840, 0.546625), (107310, 0.5475),
    (108780, 0.548375), (110250, 0.54925), (111720, 0.550125), (113190, 0.551),
    (114660, 0.551875), (116130, 0.55275), (117600, 0.553625), (119070, 0.5545),
    (120540, 0.555375), (122010, 0.55625), (123480, 0.557125), (124950, 0.558),
    (126420, 0.558875), (127890, 0.55975), (129360, 0.560625), (130830, 0.5615),
    (132300, 0.562375), (133770, 0.56325), (135240, 0.564125), (136710, 0.565),
    (138180, 0.565875), (139650, 0.56675), (141120, 0.567625), (142590, 0.5685),
    (144060, 0.569375), (145530, 0.57025), (147000, 0.571125), (148470, 0.572),
    (149940, 0.572875), (151410, 0.57375), (152880, 0.574625), (154350, 0.5755),
    (155820, 0.576375), (157290, 0.57725), (158760, 0.578125), (160230, 0.579),
    (161700, 0.579875), (163170, 0.58075), (164640, 0.581625), (166110, 0.5825),
    (167580, 0.583375), (169050, 0.58425), (170520, 0.585125), (171990, 0.586),
    (173460, 0.586875), (174930, 0.58775), (176400, 0.588625), (177870, 0.5895),
    (179340, 0.590375), (180810, 0.59125), (182280, 0.592125), (183750, 0.593),
    (185220, 0.593875), (186690, 0.59475), (188160, 0.595625), (189630, 0.5965),
    (191100, 0.597375), (192570, 0.59825), (194040, 0.599125), (195510, 0.6), (196980, 0.600187),
    (198450, 0.600375), (199920, 0.600562), (201390, 0.600749), (202860, 0.600936),
    (204330, 0.601124), (205800, 0.601311), (207270, 0.601498), (208740, 0.601685),
    (210210, 0.601873), (211680, 0.60206), (213150, 0.602247), (214620, 0.602434),
    (216090, 0.602622), (217560, 0.602809), (219030, 0.602996), (220500, 0.603184)]"

definition w5_b :: "(nat \<times> rat) list" where
  "w5_b = [
    (221970, 0.603371), (223440, 0.603558), (224910, 0.603745), (226380, 0.603933),
    (227850, 0.60412), (229320, 0.604307), (230790, 0.604494), (232260, 0.604682),
    (233730, 0.604869), (235200, 0.605056), (236670, 0.605243), (238140, 0.605431),
    (239610, 0.605618), (241080, 0.605805), (242550, 0.605993), (244020, 0.60618),
    (245490, 0.606367), (246960, 0.606554), (248430, 0.606742), (249900, 0.606929),
    (251370, 0.607116), (252840, 0.607303), (254310, 0.607491), (255780, 0.607678),
    (257250, 0.607865), (258720, 0.608052), (260190, 0.60824), (261660, 0.608427),
    (263130, 0.608614), (264600, 0.608801), (266070, 0.608989), (267540, 0.609176),
    (269010, 0.609363), (270480, 0.609551), (271950, 0.609738), (273420, 0.609925),
    (274890, 0.610112), (276360, 0.6103), (277830, 0.610487), (279300, 0.610674),
    (280770, 0.610861), (282240, 0.611049), (283710, 0.611236), (285180, 0.611423),
    (286650, 0.61161), (288120, 0.611798), (289590, 0.611985), (291060, 0.612172),
    (292530, 0.61236), (294000, 0.612547), (295470, 0.612734), (296940, 0.612921),
    (298410, 0.613109), (299880, 0.613296), (301350, 0.613483), (302820, 0.61367),
    (304290, 0.613858), (305760, 0.614045), (307230, 0.614232), (308700, 0.614419),
    (310170, 0.614607), (311640, 0.614794), (313110, 0.614981), (314580, 0.615169),
    (316050, 0.615356), (317520, 0.615543), (318990, 0.61573), (320460, 0.615918),
    (321930, 0.616105), (323400, 0.616292), (324870, 0.616479), (326340, 0.616667),
    (327810, 0.616854), (329280, 0.617041), (330750, 0.617228), (332220, 0.617416),
    (333690, 0.617603), (335160, 0.61779), (336630, 0.617978), (338100, 0.618165),
    (339570, 0.618352), (341040, 0.618539), (342510, 0.618727), (343980, 0.618914),
    (345450, 0.619101), (346920, 0.619288), (348390, 0.619476), (349860, 0.619663),
    (351330, 0.61985), (352800, 0.620037), (354270, 0.620225), (355740, 0.620412),
    (357210, 0.620599), (358680, 0.620787), (360150, 0.620974), (361620, 0.621161),
    (363090, 0.621348), (364560, 0.621536), (373380, 0.622659), (392490, 0.625094),
    (411600, 0.627528), (432180, 0.63015), (451290, 0.632584), (470400, 0.635019),
    (490980, 0.63764), (510090, 0.640075), (529200, 0.642509), (549780, 0.645131),
    (568890, 0.647566), (588000, 0.65), (608580, 0.652622), (627690, 0.655056),
    (648270, 0.657678), (667380, 0.660112), (686490, 0.662547), (707070, 0.665169),
    (726180, 0.667603), (745290, 0.670037), (765870, 0.672659), (784980, 0.675094),
    (804090, 0.677528), (824670, 0.68015), (843780, 0.682584), (862890, 0.685019),
    (883470, 0.68764), (902580, 0.690075), (921690, 0.692509), (942270, 0.695131),
    (961380, 0.697566), (980490, 0.7), (1005480, 0.702553), (1030470, 0.705105),
    (1053990, 0.707508), (1078980, 0.71006), (1103970, 0.712613), (1127490, 0.715015),
    (1152480, 0.717568), (1177470, 0.72012), (1200990, 0.722523), (1225980, 0.725075),
    (1250970, 0.727628), (1274490, 0.73003), (1299480, 0.732583), (1324470, 0.735135),
    (1347990, 0.737538), (1372980, 0.74009), (1397970, 0.742643), (1421490, 0.745045),
    (1446480, 0.747598), (1470000, 0.75)]"

definition w5_c :: "(nat \<times> rat) list" where
  "w5_c = [
    (1494990, 0.752553), (1519980, 0.755105), (1543500, 0.757508), (1568490, 0.76006),
    (1593480, 0.762613), (1617000, 0.765015), (1641990, 0.767568), (1666980, 0.77012),
    (1690500, 0.772523), (1715490, 0.775075), (1740480, 0.777628), (1764000, 0.78003),
    (1788990, 0.782583), (1813980, 0.785135), (1837500, 0.787538), (1862490, 0.79009),
    (1887480, 0.792643), (1911000, 0.795045), (1935990, 0.797598), (1959510, 0.8),
    (2033010, 0.8025), (2106510, 0.805), (2180010, 0.8075), (2253510, 0.81), (2327010, 0.8125),
    (2400510, 0.815), (2474010, 0.8175), (2547510, 0.82), (2621010, 0.8225), (2694510, 0.825),
    (2768010, 0.8275), (2841510, 0.83), (2915010, 0.8325), (2988510, 0.835), (3062010, 0.8375),
    (3135510, 0.84), (3209010, 0.8425), (3282510, 0.845), (3356010, 0.8475), (3429510, 0.85),
    (3503010, 0.8525), (3576510, 0.855), (3650010, 0.8575), (3723510, 0.86), (3797010, 0.8625),
    (3870510, 0.865), (3944010, 0.8675), (4017510, 0.87), (4091010, 0.8725), (4164510, 0.875),
    (4238010, 0.8775), (4311510, 0.88), (4385010, 0.8825), (4458510, 0.885), (4532010, 0.8875),
    (4605510, 0.89), (4679010, 0.8925), (4752510, 0.895), (4826010, 0.8975), (4899510, 0.9),
    (10291470, 0.902505), (10780980, 0.905003), (11270490, 0.9075), (11761470, 0.910005),
    (12250980, 0.912503), (12740490, 0.915), (13231470, 0.917505), (13720980, 0.920003),
    (14210490, 0.922501), (14701470, 0.925006), (15190980, 0.927503), (15680490, 0.930001),
    (16171470, 0.932506), (16660980, 0.935003), (17150490, 0.937501), (17641470, 0.940006),
    (18130980, 0.942504), (18620490, 0.945001), (19111470, 0.947506), (19600980, 0.950004),
    (20090490, 0.952501), (20581470, 0.955006), (21070980, 0.957504), (21560490, 0.960002),
    (22051470, 0.962507), (22540980, 0.965004), (23030490, 0.967502), (23521470, 0.970007),
    (24010980, 0.972504), (24500490, 0.975002), (24991470, 0.977507), (25480980, 0.980005),
    (25970490, 0.982502), (26461470, 0.985007), (26950980, 0.987505), (27440490, 0.990002),
    (27931470, 0.992507), (28420980, 0.995005), (28910490, 0.997502), (29400000, 1)]"

definition w1 :: "(nat \<times> rat) list" where
  "w1 = w1_a @ w1_b"

definition w2 :: "(nat \<times> rat) list" where
  "w2 = w2_a @ w2_b"

definition w3 :: "(nat \<times> rat) list" where
  "w3 = w3_a @ w3_b @ w3_c @ w3_d @ w3_e @ w3_f"

definition w4 :: "(nat \<times> rat) list" where
  "w4 = w4_a @ w4_b @ w4_c @ w4_d"

definition w5 :: "(nat \<times> rat) list" where
  "w5 = w5_a @ w5_b @ w5_c"

definition table :: "(nat \<times> rat) list \<Rightarrow> cdf_point list" where
  "table w = map (\<lambda>(l, f). cdf_point l (fl f)) w"

text \<open>The selection of the array by its name; any other name aborts.\<close>

definition builtin :: "string \<Rightarrow> cdf_point list res" where
  "builtin name =
     (if name = ''w1'' then Inr (table w1)
      else if name = ''w2'' then Inr (table w2)
      else if name = ''w3'' then Inr (table w3)
      else if name = ''w4'' then Inr (table w4)
      else if name = ''w5'' then Inr (table w5)
      else Inl Aborted)"

subsection \<open>The arrays are distributions\<close>

text \<open>\<open>chain p ps q\<close>: from \<open>p\<close> on, lengths increase and fractions do not decrease, up to \<open>q\<close>.\<close>

fun chain :: "nat \<times> rat \<Rightarrow> (nat \<times> rat) list \<Rightarrow> nat \<times> rat \<Rightarrow> bool" where
  "chain p [] q \<longleftrightarrow> p = q"
| "chain p (x # xs) q \<longleftrightarrow> fst p < fst x \<and> snd p \<le> snd x \<and> chain x xs q"

lemma chain_append: "chain p xs q \<Longrightarrow> chain q ys r \<Longrightarrow> chain p (xs @ ys) r"
  by (induction p xs q rule: chain.induct) auto

lemma chain_below:
  "chain p xs q \<Longrightarrow> (\<forall>x \<in> set xs. fst p < fst x \<and> snd p \<le> snd x) \<and>
     sorted_wrt (\<lambda>x y. fst x < fst y \<and> snd x \<le> snd y) xs \<and> last (p # xs) = q"
  by (induction p xs q rule: chain.induct) fastforce+

lemma table_ok:
  assumes "chain (0, 1 / 10000) w (l, 1)"
  shows "cdf_table (table w)"
proof
  have c: "\<forall>x \<in> set w. 0 < fst x \<and> 1 / 10000 \<le> snd x"
    "sorted_wrt (\<lambda>x y. fst x < fst y \<and> snd x \<le> snd y) w" "last ((0, 1 / 10000) # w) = (l, 1)"
    using chain_below [OF assms] by auto
  have ne: "w \<noteq> []" using c(3) by auto
  show "table w \<noteq> []" using ne by (simp add: table_def)
  have "last w = (l, 1)" using c(3) ne by simp
  then show "1 \<le> fraction (last (table w))"
    using ne by (simp add: table_def last_map)
  show "sorted_wrt below (table w)"
    using c(2) by (auto simp: table_def sorted_wrt_map below_def case_prod_beta dbl.rnd_mono
        elim!: sorted_wrt_mono_rel [rotated])
  have "0 < fl (snd x)" if "x \<in> set w" for x
    using c(1) that by (intro dbl.rnd_pos) fastforce
  then show "\<forall>p \<in> set (table w). 0 < pt_length p \<and> 0 < fraction p"
    using c(1) by (force simp: table_def)
qed

lemma chain_w1_a: "chain (0, 1 / 10000) w1_a (1246, 0.977388793954181)"
  by (simp add: w1_a_def)

lemma chain_w1_b: "chain (1246, 0.977388793954181) w1_b (100000, 1)"
  by (simp add: w1_b_def)

interpretation w1_cdf: cdf_table "table w1"
  unfolding w1_def
  by (rule table_ok [OF chain_append [OF chain_w1_a chain_w1_b]])

lemma chain_w2_a: "chain (0, 1 / 10000) w2_a (1644453, 0.999996539292067)"
  by (simp add: w2_a_def)

lemma chain_w2_b: "chain (1644453, 0.999996539292067) w2_b (3529904, 1)"
  by (simp add: w2_b_def)

interpretation w2_cdf: cdf_table "table w2"
  unfolding w2_def
  by (rule table_ok [OF chain_append [OF chain_w2_a chain_w2_b]])

lemma chain_w3_a: "chain (0, 1 / 10000) w3_a (13171, 0.979722095604233)"
  by (simp add: w3_a_def)

lemma chain_w3_b: "chain (13171, 0.979722095604233) w3_b (72818, 0.994030355792118)"
  by (simp add: w3_b_def)

lemma chain_w3_c: "chain (72818, 0.994030355792118) w3_c (195778, 0.99800421136708)"
  by (simp add: w3_c_def)

lemma chain_w3_d: "chain (195778, 0.99800421136708) w3_d (409266, 0.999204501383413)"
  by (simp add: w3_d_def)

lemma chain_w3_e: "chain (409266, 0.999204501383413) w3_e (1090202, 0.999768025900132)"
  by (simp add: w3_e_def)

lemma chain_w3_f: "chain (1090202, 0.999768025900132) w3_f (15158197, 1)"
  by (simp add: w3_f_def)

interpretation w3_cdf: cdf_table "table w3"
  unfolding w3_def
  by (rule table_ok [OF chain_append [OF chain_w3_a chain_append [OF chain_w3_b chain_append [OF chain_w3_c chain_append [OF chain_w3_d chain_append [OF chain_w3_e chain_w3_f]]]]]])

lemma chain_w4_a: "chain (0, 1 / 10000) w4_a (1277, 0.6282)"
  by (simp add: w4_a_def)

lemma chain_w4_b: "chain (1277, 0.6282) w4_b (70722, 0.8327)"
  by (simp add: w4_b_def)

lemma chain_w4_c: "chain (70722, 0.8327) w4_c (940700, 0.9721)"
  by (simp add: w4_c_def)

lemma chain_w4_d: "chain (940700, 0.9721) w4_d (10000000, 1)"
  by (simp add: w4_d_def)

interpretation w4_cdf: cdf_table "table w4"
  unfolding w4_def
  by (rule table_ok [OF chain_append [OF chain_w4_a chain_append [OF chain_w4_b chain_append [OF chain_w4_c chain_w4_d]]]])

lemma chain_w5_a: "chain (0, 1 / 10000) w5_a (220500, 0.603184)"
  by (simp add: w5_a_def)

lemma chain_w5_b: "chain (220500, 0.603184) w5_b (1470000, 0.75)"
  by (simp add: w5_b_def)

lemma chain_w5_c: "chain (1470000, 0.75) w5_c (29400000, 1)"
  by (simp add: w5_c_def)

interpretation w5_cdf: cdf_table "table w5"
  unfolding w5_def
  by (rule table_ok [OF chain_append [OF chain_w5_a chain_append [OF chain_w5_b chain_w5_c]]])

text \<open>The five names, which select a table and are not numbers.\<close>

definition workload_names :: "string list" where
  "workload_names = [''w1'', ''w2'', ''w3'', ''w4'', ''w5'']"

lemma builtin_table:
  assumes "name \<in> set workload_names"
  shows "\<exists>points. builtin name = Inr points \<and> cdf_table points \<and> fst (strtol10 name) = 0"
proof -
  have "list_all (\<lambda>n. fst (strtol10 n) = 0) workload_names" by code_simp
  then have "fst (strtol10 name) = 0" using assms by (auto simp: list_all_iff)
  then show ?thesis
    using assms w1_cdf.cdf_table_axioms w2_cdf.cdf_table_axioms w3_cdf.cdf_table_axioms
      w4_cdf.cdf_table_axioms w5_cdf.cdf_table_axioms
    by (auto simp: workload_names_def builtin_def)
qed

subsection \<open>Properties\<close>

text \<open>C10: For every built-in workload, every positive maximum length and all bucket parameters the
  constructor succeeds, without reading past the end of an array, and builds a distribution:
  lengths strictly increase and stay within the maximum, fractions are positive, do not decrease
  and reach exactly 1 with the last point.\<close>

theorem workload_constructed:
  assumes "name \<in> set workload_names" "0 < m" "m \<le> 2 ^ 53"
  shows "\<exists>d. dist_point_gen builtin name m mbf msr = Inr d \<and> cdf_ok m (dist_points d) \<and> 0 < dist_mean d"
proof -
  obtain points where t: "builtin name = Inr points" "cdf_table points" "fst (strtol10 name) = 0"
    using builtin_table [OF assms(1)] by blast
  obtain d where "dist_point_gen builtin name m mbf msr = Inr d" "cdf_ok m (dist_points d)" "0 < dist_mean d"
    by (rule cdf_table.constructed [OF t(2), of builtin name m mbf msr]) (use t assms in auto)
  then show ?thesis by blast
qed

theorem workload_constructed_witness:
  "\<exists>d. dist_point_gen builtin ''w3'' 5000 default_min_bucket_frac default_max_size_ratio = Inr d \<and>
     cdf_ok 5000 (dist_points d) \<and> 0 < dist_mean d"
  by (rule workload_constructed) (simp_all add: workload_names_def)

text \<open>The mean the constructor computes in double arithmetic is the mean message length in slots of
  64 bytes of the distribution it built, up to the relative error of \<open>n + 2\<close> roundings for \<open>n\<close>
  points.\<close>

theorem workload_mean:
  assumes "name \<in> set workload_names" "0 < m" "m \<le> 2 ^ 53"
    "dist_point_gen builtin name m mbf msr = Inr d"
  shows "exact_mean (dist_points d) 0 * (1 - ulp) ^ (length (dist_points d) + 2) \<le> dist_mean d \<and>
     dist_mean d \<le> exact_mean (dist_points d) 0 * (1 + ulp) ^ (length (dist_points d) + 2)"
proof -
  obtain points where t: "builtin name = Inr points" "cdf_table points" "fst (strtol10 name) = 0"
    using builtin_table [OF assms(1)] by blast
  have "near (length (dist_points d) + 2) (exact_mean (dist_points d) 0) (dist_mean d)"
    by (rule cdf_table.constructed [OF t(2), of builtin name m mbf msr]) (use t assms in auto)
  then show ?thesis by (simp only: near_def)
qed

theorem workload_mean_witness:
  "\<exists>d. dist_point_gen builtin ''w2'' 1000000 0 0 = Inr d \<and>
     exact_mean (dist_points d) 0 * (1 - ulp) ^ (length (dist_points d) + 2) \<le> dist_mean d"
proof -
  have w: "''w2'' \<in> set workload_names" by (simp add: workload_names_def)
  obtain points where t: "builtin ''w2'' = Inr points" "cdf_table points" "fst (strtol10 ''w2'') = 0"
    using builtin_table [OF w] by blast
  obtain d where d: "dist_point_gen builtin ''w2'' 1000000 0 0 = Inr d"
    by (rule cdf_table.constructed [OF t(2), of builtin "''w2''" 1000000 0 0]) (use t in auto)
  show ?thesis using workload_mean [OF w _ _ d] d by auto
qed

text \<open>C11: Sampling inverts the distribution: for every number \<open>u\<close> above 0 and up to 1 the call returns,
  a positive length within the maximum, and that length is at most \<open>l\<close> exactly if \<open>u\<close> is at most
  the fraction of messages of length up to \<open>l\<close>. It never aborts.\<close>

theorem sample_inverts:
  assumes "cdf_ok m pts" "int m \<le> int_max" "0 < u" "u \<le> 1"
  shows "\<exists>v. dist_sample pts u = Inr v \<and> 0 < v \<and> v \<le> int m \<and> (\<forall>l. v \<le> l \<longleftrightarrow> u \<le> cdf_at pts l)"
  by (rule dist_sample_galois [OF assms])

definition demo_points :: "cdf_point list" where
  "demo_points = [cdf_point 100 (1 / 4), cdf_point 1500 (1 / 2), cdf_point 9000 1]"

lemma demo_points_ok: "cdf_ok 9000 demo_points"
  by (auto simp: demo_points_def cdf_ok_def)

theorem sample_inverts_witness:
  "\<exists>v. dist_sample demo_points (2 / 5) = Inr v \<and> 0 < v \<and> v \<le> int 9000 \<and>
     (\<forall>l. v \<le> l \<longleftrightarrow> 2 / 5 \<le> cdf_at demo_points l)"
  by (rule sample_inverts [OF demo_points_ok]) (simp_all add: int_max_def)

text \<open>C15: Merging buckets respects \<open>max_size_ratio\<close>: from one point of the result to the next the
  length, as a double, grows at most by that factor, unless the array itself has no point in
  between.\<close>

theorem workload_buckets:
  assumes "name \<in> set workload_names" "0 < m" "m \<le> 2 ^ 53" "builtin name = Inr tab"
    "dist_point_gen builtin name m mbf msr = Inr d" "Suc i < length (dist_points d)"
  shows "(\<exists>us r vs. tab = us @ dist_points d ! i # r # vs \<and>
            pt_length (dist_points d ! Suc i) \<le> pt_length r) \<or>
     fl (of_nat (pt_length (dist_points d ! Suc i))) \<le> fl (msr * fl (of_nat (pt_length (dist_points d ! i))))"
proof -
  have t: "cdf_table tab" "fst (strtol10 name) = 0" using builtin_table [OF assms(1)] assms(4) by auto
  have "successively (bucket_ok tab msr) (dist_points d)"
    by (rule cdf_table.constructed [OF t(1), of builtin name m mbf msr]) (use t assms in auto)
  then have "bucket_ok tab msr (dist_points d ! i) (dist_points d ! Suc i)"
    using assms(6) by (simp add: successively_conv_nth)
  then show ?thesis by (simp only: bucket_ok_def)
qed

theorem workload_buckets_witness:
  "\<exists>d. dist_point_gen builtin ''w1'' 1000000 0 1 = Inr d \<and>
     ((\<exists>us r vs. table w1 = us @ dist_points d ! 0 # r # vs \<and> pt_length (dist_points d ! Suc 0) \<le> pt_length r) \<or>
     fl (of_nat (pt_length (dist_points d ! Suc 0))) \<le> fl (1 * fl (of_nat (pt_length (dist_points d ! 0)))))"
proof -
  have w: "''w1'' \<in> set workload_names" "builtin ''w1'' = Inr (table w1)"
    by (simp_all add: workload_names_def builtin_def)
  have name: "fst (strtol10 ''w1'') = 0" using builtin_table [OF w(1)] by blast
  obtain d where d: "dist_point_gen builtin ''w1'' 1000000 0 1 = Inr d"
    "dist_points d = takeWhile (plain 1000000) (table w1) @ [closing 1000000 (table w1)]"
    by (rule w1_cdf.constructed [of builtin "''w1''" 1000000 0 1]) (use w(2) name in auto)
  have "fl 0.31094 < 1" by code_simp
  then have "Suc 0 < length (dist_points d)"
    by (simp add: d(2) table_def w1_def w1_a_def plain_def)
  then show ?thesis using workload_buckets [OF w(1) _ _ w(2) d(1), of 0] d(1) by auto
qed

text \<open>With a minimum bucket of 0, which the simulator asks for, no point is merged away: the result
  is the array below the maximum length followed by one closing point.\<close>

theorem workload_unmerged:
  assumes "name \<in> set workload_names" "0 < m" "m \<le> 2 ^ 53" "builtin name = Inr tab"
  shows "\<exists>d. dist_point_gen builtin name m 0 msr = Inr d \<and>
     dist_points d = takeWhile (\<lambda>p. pt_length p < m \<and> fraction p < 1) tab @
       [cdf_point (min m (pt_length (hd (dropWhile (\<lambda>p. pt_length p < m \<and> fraction p < 1) tab)))) 1]"
proof -
  have t: "cdf_table tab" "fst (strtol10 name) = 0" using builtin_table [OF assms(1)] assms(4) by auto
  obtain d where "dist_point_gen builtin name m 0 msr = Inr d"
    "dist_points d = takeWhile (plain m) tab @ [closing m tab]"
    by (rule cdf_table.constructed [OF t(1), of builtin name m 0 msr]) (use t assms in auto)
  then show ?thesis by (auto simp: closing_def plain_def [abs_def])
qed

theorem workload_unmerged_witness:
  "\<exists>d. dist_point_gen builtin ''w5'' 1000000 0 0 = Inr d \<and>
     dist_points d = takeWhile (\<lambda>p. pt_length p < 1000000 \<and> fraction p < 1) (table w5) @
       [cdf_point (min 1000000 (pt_length (hd (dropWhile (\<lambda>p. pt_length p < 1000000 \<and> fraction p < 1)
         (table w5))))) 1]"
  by (rule workload_unmerged) (simp_all add: workload_names_def builtin_def)

text \<open>A decimal number as the name of a distribution is read back as that length: the constructor
  builds the distribution of one point with the number as its length, whatever the maximum length,
  and with the length in bytes as its mean.\<close>

theorem fixed_distribution:
  assumes "0 < n" "int n \<le> int_max"
  shows "dist_point_gen builtin (decimal n) max_length mbf msr =
    Inr \<lparr>dist_points = [cdf_point n 1], dist_mean = of_nat n\<rparr>"
  by (rule fixed_length [OF assms])

theorem fixed_distribution_witness:
  "dist_point_gen builtin (decimal 64000) 1000 0 0 =
    Inr \<lparr>dist_points = [cdf_point 64000 1], dist_mean = of_nat 64000\<rparr>"
  by (rule fixed_distribution) (simp_all add: int_max_def)

text \<open>Any other name stops the program: if \<open>strtol\<close> does not consume all of it or reads 0, and it
  is not one of the five workloads, the constructor aborts.\<close>

theorem unknown_workload:
  assumes "name \<notin> set workload_names" "snd (strtol10 name) \<noteq> [] \<or> fst (strtol10 name) = 0"
  shows "dist_point_gen builtin name m mbf msr = Inl Aborted"
  using assms
  by (auto simp: dist_point_gen_def builtin_def workload_names_def to_int32_def split: prod.splits)

theorem unknown_workload_witness: "dist_point_gen builtin ''w6'' 1000000 0 0 = Inl Aborted"
proof -
  have "fst (strtol10 ''w6'') = 0" by code_simp
  then show ?thesis by (intro unknown_workload) (simp_all add: workload_names_def)
qed

text \<open>The overhead of a message is computed as meant, and without overflow, for every length and
  every mtu above 68 for which the result fits: 110 bytes for each of the packets needed and 95
  bytes for each grant beyond the unscheduled bytes, both numbers rounded up.\<close>

theorem msg_overhead:
  assumes "0 \<le> len" "68 < mtu" "len + mtu \<le> int_max" "overhead_spec len mtu \<le> int_max"
  shows "dist_msg_overhead len mtu = Inr (110 * \<lceil>of_int len / (of_int (mtu - 68) :: rat)\<rceil> +
     95 * (if len \<le> 70000 then 0 else \<lceil>of_int (len - 70000) / (10000 :: rat)\<rceil>))"
  using dist_msg_overhead_ok [OF assms] by (simp only: overhead_spec_def)

theorem msg_overhead_witness: "dist_msg_overhead 80001 1500 = Inr (110 * 56 + 95 * 2)"
proof -
  have "\<lceil>of_int 80001 / (of_int (1500 - 68) :: rat)\<rceil> = 56" "\<lceil>of_int (80001 - 70000) / (10000 :: rat)\<rceil> = 2"
    by code_simp+
  then show ?thesis using msg_overhead [of 80001 1500] by (simp add: overhead_spec_def int_max_def)
qed

text \<open>The overhead grows with the length of the message and shrinks with the mtu.\<close>

theorem msg_overhead_mono:
  assumes "0 \<le> len" "len \<le> len'" "68 < mtu'" "mtu' \<le> mtu" "len' + mtu \<le> int_max"
    "overhead_spec len' mtu' \<le> int_max"
  shows "\<exists>a b. dist_msg_overhead len mtu = Inr a \<and> dist_msg_overhead len' mtu' = Inr b \<and> a \<le> b"
proof -
  have le: "overhead_spec len mtu \<le> overhead_spec len mtu'" "overhead_spec len mtu' \<le> overhead_spec len' mtu'"
    using overhead_spec_mono_mtu [of len mtu' mtu] overhead_spec_mono_length [of len len' mtu'] assms by auto
  have "dist_msg_overhead len mtu = Inr (overhead_spec len mtu)"
    "dist_msg_overhead len' mtu' = Inr (overhead_spec len' mtu')"
    using assms le by (auto intro!: dist_msg_overhead_ok)
  then show ?thesis using le by auto
qed

theorem msg_overhead_mono_witness:
  "\<exists>a b. dist_msg_overhead 1000 1500 = Inr a \<and> dist_msg_overhead 60000 1068 = Inr b \<and> a \<le> b"
proof -
  have "overhead_spec 60000 1068 \<le> int_max" by code_simp
  then show ?thesis by (intro msg_overhead_mono) (simp_all add: int_max_def)
qed

text \<open>An mtu equal to the bytes of the headers divides by zero, for every message length.\<close>

theorem msg_overhead_small_mtu:
  assumes "0 \<le> len" "len \<le> int_max"
  shows "dist_msg_overhead len 68 = Inl DivByZero"
  using assms by (simp add: dist_msg_overhead_def Let_def int_val_def int32_range_def int_div_def int_min_def int_max_def)

theorem msg_overhead_small_mtu_witness: "dist_msg_overhead 500 68 = Inl DivByZero"
  by (rule msg_overhead_small_mtu) (simp_all add: int_max_def)

end
