(* ===== verification/Qsim_Main.thy ===== *)
theory Qsim_Main
  imports Qsim Workloads
begin

section \<open>The program qsim\<close>

text \<open>
  \<open>main\<close> of \<open>model/qsim.cc\<close>, and what a whole simulation does. \<open>options\<close> is the outcome of
  reading the command line, which is in theory \<open>Command_Line\<close>. \<open>exponential\<close> gives, for a rate, the interarrival times in
  the order the program draws them, \<open>uniform\<close> the numbers from which lengths are sampled.
\<close>

subsection \<open>main\<close>

record options =
  opt_priorities :: int
  opt_type :: string
  opt_workload :: string
  opt_util :: rat
  opt_duration :: u64
  opt_max :: u32

definition queue_kind :: "string \<Rightarrow> nat" where
  "queue_kind t =
     (if t = ''ideal'' then 0 else if t = ''pifo_naive'' then 1
      else if t = ''pifo_naive_snapshot'' then 2 else if t = ''pifo_insertion_pulse'' then 3
      else 0)"

datatype sim_end =
    IdealEnd "(ideal \<times> sim_clock) option"
  | PifoEnd "(pifo \<times> sim_clock) option"
  | DrainEnd "(u64 \<times> pifo) option"

text \<open>The clock before a loop: the first arrival and length are drawn.\<close>

definition first_clock :: "sim_env \<Rightarrow> sim_clock res" where
  "first_clock env =
     rbind (draw_length env 0) (\<lambda>n.
       Inr \<lparr>sim_ts = 0, next_arrival = arrivals_gen env 0, next_length = n, arr_draws = 1,
            len_draws = 1, drain = False, pulses_done = 0\<rparr>)"

definition qsim :: "nat \<Rightarrow> (rat \<Rightarrow> nat \<Rightarrow> rat) \<Rightarrow> (nat \<Rightarrow> rat) \<Rightarrow> options \<Rightarrow> sim_end res" where
  "qsim fuel exponential uniform opts =
     rbind (dist_point_gen builtin (opt_workload opts) 1000000 0 default_max_size_ratio) (\<lambda>wk.
     let desired_arrival = fl (dist_mean wk / opt_util opts);
         env = \<lparr>arrivals_gen = exponential (fl (1 / desired_arrival)), uniform_gen = uniform,
                wk_points = dist_points wk\<rparr>
     in if queue_kind (opt_type opts) = 2 then
          rbind (drain_loop fuel pifo_vt 0 (pifo_init (opt_priorities opts))) (\<lambda>e. Inr (DrainEnd e))
        else if queue_kind (opt_type opts) = 3 then
          rbind (first_clock env) (\<lambda>c.
            let q = pifo_init (opt_priorities opts);
                q' = q\<lparr>gstats := False, simstats := (simstats q)\<lparr>pulses := opt_duration opts\<rparr>\<rparr>
            in rbind (pulse_loop fuel pifo_vt env (opt_max opts) (opt_duration opts) (q', c))
                 (\<lambda>e. Inr (PifoEnd e)))
        else
          rbind (first_clock env) (\<lambda>c.
            if queue_kind (opt_type opts) = 1 then
              rbind (load_loop fuel pifo_vt env (opt_duration opts)
                ((pifo_init (opt_priorities opts))\<lparr>gstats := True\<rparr>, c)) (\<lambda>e. Inr (PifoEnd e))
            else
              rbind (load_loop fuel ideal_vt env (opt_duration opts)
                (ideal_init\<lparr>gstats := True\<rparr>, c)) (\<lambda>e. Inr (IdealEnd e))))"

subsection \<open>Where the loops start\<close>

text \<open>An environment whose lengths come from a built-in workload, and the clock before the loops.\<close>

lemma workload_env:
  assumes "name \<in> set workload_names" "\<forall>i. uniform i \<le> 1"
  shows "\<exists>wk. dist_point_gen builtin name 1000000 0 msr = Inr wk \<and>
     (\<forall>gen. env_ok \<lparr>arrivals_gen = gen, uniform_gen = uniform, wk_points = dist_points wk\<rparr>)"
proof -
  obtain points where t: "builtin name = Inr points" "cdf_table points" "fst (strtol10 name) = 0"
    using builtin_table [OF assms(1)] by blast
  obtain wk where "dist_point_gen builtin name 1000000 0 msr = Inr wk" "cdf_ok 1000000 (dist_points wk)"
    by (rule cdf_table.constructed [OF t(2), of builtin name 1000000 0 msr]) (use t(1,3) in auto)
  moreover have "int 1000000 \<le> int_max" by (simp add: int_max_def)
  ultimately show ?thesis using assms(2) by (fastforce simp: env_ok_def)
qed

lemma first_clock_ok:
  assumes "env_ok env"
  shows "\<exists>c. first_clock env = Inr c \<and> length_ok c \<and> \<not> drain c \<and> pulses_done c = 0"
  using draw_length_ok [OF assms, of 0] by (auto simp: first_clock_def length_ok_def)

lemma pifo_start:
  fixes g :: bool and st :: simstat_t
  assumes "8 \<le> p" "length_ok c"
  shows "pif.sim_inv 0 ((pifo_init p)\<lparr>gstats := g, simstats := st\<rparr>, c)"
proof -
  have "pif.qinv ((pifo_init p)\<lparr>gstats := g, simstats := st\<rparr>)"
    using pif.qinv_base(1) [of "pifo_init p" "(pifo_init p)\<lparr>gstats := g, simstats := st\<rparr>"]
      pifo_init_ok(1) [OF assms(1)] by (simp add: pifo_ok_qinv)
  then show ?thesis using assms(2)
    by (simp add: pif.sim_inv_def pifo_ready_def pifo_hw_def in_hand_def) (simp add: pifo_init_def)
qed

lemma pifo_start_plain:
  assumes "8 \<le> p" "length_ok c"
  shows "pif.sim_inv 0 (pifo_init p, c)"
proof -
  have "(pifo_init p)\<lparr>gstats := True, simstats := zero_simstat\<rparr> = pifo_init p"
    by (simp add: pifo_init_def)
  then show ?thesis using pifo_start [OF assms, of zero_simstat True] by (simp only:)
qed

lemma ideal_start: "length_ok c \<Longrightarrow> idl.sim_inv 0 (ideal_init, c)"
  using ideal_init_ok by (simp add: idl.sim_inv_def ideal_ok_qinv ideal_hw_def) (simp add: ideal_init_def)

lemma gstats_init [simp]: "ideal_init\<lparr>gstats := True\<rparr> = ideal_init"
  "(pifo_init p)\<lparr>gstats := True\<rparr> = pifo_init p"
  "(pifo_init p)\<lparr>gstats := True, simstats := simstats (pifo_init p)\<rparr> = pifo_init p"
  by (simp_all add: ideal_init_def pifo_init_def)

lemma zero_stats [simp]:
  "simstats (pifo_init p) = zero_simstat" "simstats ideal_init = zero_simstat"
  "next_id (pifo_init p) = 0" "next_id ideal_init = 0" "gstats (pifo_init p)" "gstats ideal_init"
  "comps zero_simstat = 0" "underflow zero_simstat = 0" "pktinacc zero_simstat = 0"
  "buff (pifo_init p) = 0" "buff ideal_init = 0" "ideal_hwqueue ideal_init = []"
  by (simp_all add: pifo_init_def ideal_init_def zero_simstat_def)

subsection \<open>Properties\<close>

text \<open>The run of the simulation of the ideal queue: its loop starts in the invariant and does not fail.\<close>

lemma qsim_ideal_run:
  assumes "opt_type opts = ''ideal''" "opt_workload opts \<in> set workload_names"
    "\<forall>i. uniform i \<le> 1" "fuel \<le> SLOTS"
  shows "\<exists>env c r. length_ok c \<and> env_ok env \<and> qsim fuel exponential uniform opts = Inr (IdealEnd r) \<and>
    (\<forall>s'. r = Some s' \<longrightarrow> opt_duration opts \<le> comps (simstats (fst s')) \<and>
       (\<exists>k \<le> fuel. idl.sim_inv (0 + k) s' \<and> iterate k (load_iter ideal_vt env) (ideal_init, c) = Inr s'))"
proof -
  obtain wk where wk: "dist_point_gen builtin (opt_workload opts) 1000000 0 default_max_size_ratio = Inr wk"
    "\<And>gen. env_ok \<lparr>arrivals_gen = gen, uniform_gen = uniform, wk_points = dist_points wk\<rparr>"
    using workload_env [OF assms(2,3)] by blast
  let ?env = "\<lparr>arrivals_gen = exponential (fl (1 / fl (dist_mean wk / opt_util opts))),
    uniform_gen = uniform, wk_points = dist_points wk\<rparr>"
  have env: "env_ok ?env" by (rule wk(2))
  obtain c where c: "first_clock ?env = Inr c" "length_ok c" using first_clock_ok [OF env] by blast
  have cap: "0 + fuel \<le> SLOTS" "0 + fuel < 2 ^ 64" using assms(4) by (simp_all add: SLOTS_def)
  obtain r where r: "load_loop fuel ideal_vt ?env (opt_duration opts) (ideal_init, c) = Inr r"
    "\<And>s'. r = Some s' \<Longrightarrow> opt_duration opts \<le> comps (simstats (fst s')) \<and>
       (\<exists>k \<le> fuel. idl.sim_inv (0 + k) s' \<and> iterate k (load_iter ideal_vt ?env) (ideal_init, c) = Inr s')"
    using idl.load_loop_ok [OF env ideal_start [OF c(2)] cap] by blast
  have "qsim fuel exponential uniform opts = Inr (IdealEnd r)"
    using assms(1) wk(1) c(1) r(1) by (auto simp: qsim_def Let_def queue_kind_def)
  then show ?thesis using c(2) env r(2) by (intro exI [of _ ?env] exI [of _ c] exI [of _ r]) simp
qed

text \<open>C14: The simulation of the ideal queue with any built-in workload never fails in its first 1024
  slots: no assertion fails, sampling never aborts and no array is overrun. When it ends, the
  demanded number of messages has completed, all the others that arrived still wait, and it has
  counted neither an inaccuracy nor an underflow.\<close>

theorem qsim_ideal:
  assumes "opt_type opts = ''ideal''" "opt_workload opts \<in> set workload_names"
    "\<forall>i. uniform i \<le> 1" "fuel \<le> SLOTS"
  shows "\<exists>r. qsim fuel exponential uniform opts = Inr (IdealEnd r) \<and> (\<forall>q c. r = Some (q, c) \<longrightarrow>
     ideal_ok q \<and> opt_duration opts \<le> comps (simstats q) \<and>
     comps (simstats q) + of_nat (length (ideal_hwqueue q)) = next_id q \<and>
     pktinacc (simstats q) = 0 \<and> underflow (simstats q) = 0)"
proof -
  obtain env c r where c: "length_ok c" and env: "env_ok env"
    and run: "qsim fuel exponential uniform opts = Inr (IdealEnd r)"
    and r: "\<forall>s'. r = Some s' \<longrightarrow> opt_duration opts \<le> comps (simstats (fst s')) \<and>
       (\<exists>k \<le> fuel. idl.sim_inv (0 + k) s' \<and> iterate k (load_iter ideal_vt env) (ideal_init, c) = Inr s')"
    using qsim_ideal_run [OF assms, of exponential] by (elim exE conjE)
  have "ideal_ok q \<and> opt_duration opts \<le> comps (simstats q) \<and>
     comps (simstats q) + of_nat (length (ideal_hwqueue q)) = next_id q \<and>
     pktinacc (simstats q) = 0 \<and> underflow (simstats q) = 0" if rs: "r = Some (q, c')" for q c'
  proof -
    obtain k where k: "k \<le> fuel" "idl.sim_inv (0 + k) (q, c')"
      "iterate k (load_iter ideal_vt env) (ideal_init, c) = Inr (q, c')" using r [rule_format, OF rs] by auto
    have cap: "0 + k \<le> SLOTS" "0 + k < 2 ^ 64" using assms(4) k(1) by (simp_all add: SLOTS_def)
    show ?thesis
      using r [rule_format, OF rs] k(2) idl.load_iters_result(3,4) [OF env ideal_start [OF c] cap k(3)]
        idl.load_iters_exact [OF env ideal_start [OF c] cap k(3)]
      by (simp add: idl.sim_inv_def ideal_ok_qinv ideal_hw_def)
  qed
  then show ?thesis using run by auto
qed

text \<open>The run of the simulation of \<open>PIFO_Naive\<close>: its loop starts in the invariant and does not fail.\<close>

lemma qsim_pifo_run:
  assumes "opt_type opts = ''pifo_naive''" "opt_workload opts \<in> set workload_names"
    "8 \<le> opt_priorities opts" "\<forall>i. uniform i \<le> 1" "int fuel \<le> int_max"
  shows "\<exists>env c r. pif.sim_inv 0 (pifo_init (opt_priorities opts), c) \<and> env_ok env \<and>
    qsim fuel exponential uniform opts = Inr (PifoEnd r) \<and>
    (\<forall>s'. r = Some s' \<longrightarrow> opt_duration opts \<le> comps (simstats (fst s')) \<and>
       (\<exists>k \<le> fuel. pif.sim_inv (0 + k) s' \<and>
          iterate k (load_iter pifo_vt env) (pifo_init (opt_priorities opts), c) = Inr s'))"
proof -
  obtain wk where wk: "dist_point_gen builtin (opt_workload opts) 1000000 0 default_max_size_ratio = Inr wk"
    "\<And>gen. env_ok \<lparr>arrivals_gen = gen, uniform_gen = uniform, wk_points = dist_points wk\<rparr>"
    using workload_env [OF assms(2,4)] by blast
  let ?env = "\<lparr>arrivals_gen = exponential (fl (1 / fl (dist_mean wk / opt_util opts))),
    uniform_gen = uniform, wk_points = dist_points wk\<rparr>"
  let ?q = "pifo_init (opt_priorities opts)"
  have env: "env_ok ?env" by (rule wk(2))
  obtain c where c: "first_clock ?env = Inr c" "length_ok c" using first_clock_ok [OF env] by blast
  have st: "pif.sim_inv 0 (?q, c)" by (rule pifo_start_plain [OF assms(3) c(2)])
  have cap: "0 + fuel \<le> nat int_max" "0 + fuel < 2 ^ 64" using assms(5) by (simp_all add: int_max_def)
  obtain r where r: "load_loop fuel pifo_vt ?env (opt_duration opts) (?q, c) = Inr r"
    "\<And>s'. r = Some s' \<Longrightarrow> opt_duration opts \<le> comps (simstats (fst s')) \<and>
       (\<exists>k \<le> fuel. pif.sim_inv (0 + k) s' \<and> iterate k (load_iter pifo_vt ?env) (?q, c) = Inr s')"
    using pif.load_loop_ok [OF env st cap] by blast
  have "qsim fuel exponential uniform opts = Inr (PifoEnd r)"
    using assms(1) wk(1) c(1) r(1) by (auto simp: qsim_def Let_def queue_kind_def)
  then show ?thesis using st env r(2) by (intro exI [of _ ?env] exI [of _ c] exI [of _ r]) simp
qed


subsection \<open>Inputs for the witnesses\<close>

definition demo_opts :: "string \<Rightarrow> int \<Rightarrow> u32 \<Rightarrow> options" where
  "demo_opts t p m = \<lparr>opt_priorities = p, opt_type = t, opt_workload = ''w1'', opt_util = 1 / 2,
     opt_duration = 3, opt_max = m\<rparr>"

lemma demo_opts_simps [simp]: "opt_priorities (demo_opts t p m) = p" "opt_type (demo_opts t p m) = t"
  "opt_workload (demo_opts t p m) = ''w1''" "opt_duration (demo_opts t p m) = 3" "opt_max (demo_opts t p m) = m"
  "''w1'' \<in> set workload_names"
  by (simp_all add: demo_opts_def workload_names_def)

definition demo_env :: sim_env where
  "demo_env = \<lparr>arrivals_gen = (\<lambda>_. 10), uniform_gen = (\<lambda>_. 1 / 2), wk_points = [cdf_point 1000 1]\<rparr>"

lemma demo_env_ok: "env_ok demo_env"
  by (auto simp: env_ok_def demo_env_def cdf_ok_def int_max_def intro!: exI [of _ 1000])

theorem qsim_ideal_witness:
  "\<exists>r. qsim 1000 (\<lambda>_ _. 10) (\<lambda>_. 1 / 2) (demo_opts ''ideal'' 0 9) = Inr (IdealEnd r) \<and>
     (\<forall>q c. r = Some (q, c) \<longrightarrow>
     ideal_ok q \<and> opt_duration (demo_opts ''ideal'' 0 9) \<le> comps (simstats q) \<and>
     comps (simstats q) + of_nat (length (ideal_hwqueue q)) = next_id q \<and>
     pktinacc (simstats q) = 0 \<and> underflow (simstats q) = 0)"
  by (rule qsim_ideal) (simp_all add: SLOTS_def)


lemma first_clock_length: "env_ok env \<Longrightarrow> first_clock env = Inr c \<Longrightarrow> length_ok c \<and> \<not> drain c \<and> pulses_done c = 0"
  using first_clock_ok by fastforce

lemma start_work: "idl.work_of (ideal_init, c) = ((0, True), c)" "pif.work_of (pifo_init p, c) = ((0, True), c)"
  using pifo_init_ok(2) [of p]
  by (simp_all add: idl.work_of_def pif.work_of_def idl.backlog_def pif.backlog_def idl.idle_def pif.idle_def
      ideal_hw_def)







text \<open>The run of the pulse simulation.\<close>

definition pulse_start :: "options \<Rightarrow> pifo" where
  "pulse_start opts = (let q = pifo_init (opt_priorities opts)
     in q\<lparr>gstats := False, simstats := (simstats q)\<lparr>pulses := opt_duration opts\<rparr>\<rparr>)"

lemma qsim_pulse_run:
  assumes "opt_type opts = ''pifo_insertion_pulse''" "opt_workload opts \<in> set workload_names"
    "8 \<le> opt_priorities opts" "unat (opt_max opts) < nat int_max" "\<forall>i. uniform i \<le> 1" "fuel < 2 ^ 64"
  shows "\<exists>env c r. pif.pulse_inv (opt_max opts) 0 (pulse_start opts, c) \<and> env_ok env \<and>
    qsim fuel exponential uniform opts = Inr (PifoEnd r) \<and>
    pulse_loop fuel pifo_vt env (opt_max opts) (opt_duration opts) (pulse_start opts, c) = Inr r \<and>
    (\<forall>s'. r = Some s' \<longrightarrow> pif.qinv (fst s') \<and> size (pifo_hw (fst s')) \<le> unat (opt_max opts) + 1 \<and>
       underflow (simstats (fst s')) = 0)"
proof -
  obtain wk where wk: "dist_point_gen builtin (opt_workload opts) 1000000 0 default_max_size_ratio = Inr wk"
    "\<And>gen. env_ok \<lparr>arrivals_gen = gen, uniform_gen = uniform, wk_points = dist_points wk\<rparr>"
    using workload_env [OF assms(2,5)] by blast
  let ?env = "\<lparr>arrivals_gen = exponential (fl (1 / fl (dist_mean wk / opt_util opts))),
    uniform_gen = uniform, wk_points = dist_points wk\<rparr>"
  let ?q = "pulse_start opts"
  have env: "env_ok ?env" by (rule wk(2))
  obtain c where c: "first_clock ?env = Inr c" "length_ok c" "\<not> drain c" using first_clock_ok [OF env] by blast
  have st: "pif.pulse_inv (opt_max opts) 0 (?q, c)"
    using pifo_start [OF assms(3) c(2), of "(simstats (pifo_init (opt_priorities opts)))\<lparr>pulses := opt_duration opts\<rparr>" False] c(3)
    by (simp add: pulse_start_def pif.sim_inv_def pif.pulse_inv_def Let_def)
  have cap: "unat (opt_max opts) + 1 \<le> nat int_max" "unat (opt_max opts) + 1 < 2 ^ 32" "0 + fuel < 2 ^ 64"
    using assms(4,6) by (simp_all add: int_max_def)
  obtain r where r: "pulse_loop fuel pifo_vt ?env (opt_max opts) (opt_duration opts) (?q, c) = Inr r"
    "\<And>s'. r = Some s' \<Longrightarrow> pif.qinv (fst s') \<and> size (pifo_hw (fst s')) \<le> unat (opt_max opts) + 1 \<and>
       underflow (simstats (fst s')) = underflow (simstats (fst (?q, c)))"
    using pif.pulse_loop_ok [OF env st cap] by blast
  have "qsim fuel exponential uniform opts = Inr (PifoEnd r)"
    using assms(1) wk(1) c(1) r(1) by (simp add: qsim_def Let_def queue_kind_def pulse_start_def)
  moreover have "underflow (simstats ?q) = 0" by (simp add: pulse_start_def Let_def)
  ultimately show ?thesis using st env r by (intro exI [of _ ?env] exI [of _ c] exI [of _ r]) simp
qed

text \<open>The pulse simulation never fails while the maximum is below \<open>INT_MAX\<close>, for as many slots
  as the 64 bit clock and identifiers can count; when it ends, at most \<open>max + 1\<close> messages wait and no
  slot was wasted.\<close>

theorem qsim_pulse:
  assumes "opt_type opts = ''pifo_insertion_pulse''" "opt_workload opts \<in> set workload_names"
    "8 \<le> opt_priorities opts" "unat (opt_max opts) < nat int_max" "\<forall>i. uniform i \<le> 1" "fuel < 2 ^ 64"
  shows "\<exists>r. qsim fuel exponential uniform opts = Inr (PifoEnd r) \<and> (\<forall>q c. r = Some (q, c) \<longrightarrow>
     pifo_ok q \<and> size (pifo_hw q) \<le> unat (opt_max opts) + 1 \<and> underflow (simstats q) = 0)"
proof -
  obtain env c r where "pif.pulse_inv (opt_max opts) 0 (pulse_start opts, c)" "env_ok env"
    and run: "qsim fuel exponential uniform opts = Inr (PifoEnd r)"
    and "pulse_loop fuel pifo_vt env (opt_max opts) (opt_duration opts) (pulse_start opts, c) = Inr r"
    and r: "\<forall>s'. r = Some s' \<longrightarrow> pif.qinv (fst s') \<and> size (pifo_hw (fst s')) \<le> unat (opt_max opts) + 1 \<and>
       underflow (simstats (fst s')) = 0"
    using qsim_pulse_run [OF assms, of exponential] by (elim exE conjE)
  then show ?thesis by (fastforce simp: pifo_ok_qinv)
qed

theorem qsim_pulse_witness:
  "\<exists>r. qsim 100000 (\<lambda>_ _. 10) (\<lambda>_. 1 / 2) (demo_opts ''pifo_insertion_pulse'' 64 100) = Inr (PifoEnd r) \<and>
     (\<forall>q c. r = Some (q, c) \<longrightarrow>
     pifo_ok q \<and> size (pifo_hw q) \<le> unat (opt_max (demo_opts ''pifo_insertion_pulse'' 64 100)) + 1 \<and>
     underflow (simstats q) = 0)"
  by (rule qsim_pulse) (simp_all add: int_max_def)

text \<open>A pulse ends: once the simulation drains the queue, it counts a pulse after at most two slots
  more than there is work, because no message arrives while it drains.\<close>

theorem qsim_pulse_ends:
  assumes "env_ok env" "pifo_ok q" "pifo_ready q" "size (pifo_hw q) \<le> unat maximum + 1"
    "unat maximum < nat int_max" "unat (next_id q) + pifo_work q + 2 < 2 ^ 64"
    "length_ok c" "drain c" "gstats q"
  shows "\<exists>k s'. k \<le> pifo_work q + 2 \<and> iterate k (pulse_iter pifo_vt env maximum) (q, c) = Inr s' \<and>
     pulses_done (snd s') = pulses_done c + 1"
proof -
  have "pif.pulse_inv maximum (unat (next_id q)) (q, c)"
    using assms by (simp add: pif.pulse_inv_def pifo_ok_qinv)
  then show ?thesis
    unfolding pifo_work_backlog
    by (rule pif.pulse_drains [OF assms(1)])
      (use assms(5,6,8) in \<open>simp_all add: int_max_def flip: pifo_work_backlog\<close>)
qed

theorem qsim_pulse_ends_witness:
  "\<exists>k s'. k \<le> pifo_work pifo_five + 2 \<and>
     iterate k (pulse_iter pifo_vt demo_env 4) (pifo_five, \<lparr>sim_ts = 0, next_arrival = 0, next_length = 1,
       arr_draws = 0, len_draws = 0, drain = True, pulses_done = 6\<rparr>) = Inr s' \<and> pulses_done (snd s') = 7"
  using qsim_pulse_ends [OF demo_env_ok pifo_five_ok, of 4 "\<lparr>sim_ts = 0, next_arrival = 0, next_length = 1,
    arr_draws = 0, len_draws = 0, drain = True, pulses_done = 6\<rparr>"]
  by (simp add: pifo_five_hw int_max_def length_ok_def pifo_work_def)
    (simp add: pifo_five_def pifo_init_def)

text \<open>Without the option \<open>--max\<close> the pulse simulation never ends, since no queue is longer than
  the default maximum: whatever the number of pulses asked for, it is still running after any number
  of slots up to 2147483647.\<close>

theorem qsim_pulse_default_max:
  assumes "opt_type opts = ''pifo_insertion_pulse''" "opt_workload opts \<in> set workload_names"
    "8 \<le> opt_priorities opts" "opt_max opts = - 1" "0 < opt_duration opts" "\<forall>i. uniform i \<le> 1"
    "int fuel \<le> int_max"
  shows "qsim fuel exponential uniform opts = Inr (PifoEnd None)"
proof -
  obtain wk where wk: "dist_point_gen builtin (opt_workload opts) 1000000 0 default_max_size_ratio = Inr wk"
    "\<And>gen. env_ok \<lparr>arrivals_gen = gen, uniform_gen = uniform, wk_points = dist_points wk\<rparr>"
    using workload_env [OF assms(2,6)] by blast
  let ?env = "\<lparr>arrivals_gen = exponential (fl (1 / fl (dist_mean wk / opt_util opts))),
    uniform_gen = uniform, wk_points = dist_points wk\<rparr>"
  let ?p = "pifo_init (opt_priorities opts)"
  let ?q = "?p\<lparr>gstats := False, simstats := (simstats ?p)\<lparr>pulses := opt_duration opts\<rparr>\<rparr>"
  have env: "env_ok ?env" by (rule wk(2))
  obtain c where c: "first_clock ?env = Inr c" "length_ok c" "\<not> drain c" "pulses_done c = 0"
    using first_clock_ok [OF env] by blast
  have "pulse_loop fuel pifo_vt ?env (- 1) (opt_duration opts) (?q, c) = Inr None"
    by (rule pif.pulse_loop_unlimited [OF env, where n = 0])
      (use pifo_start [OF assms(3) c(2), of "(simstats ?p)\<lparr>pulses := opt_duration opts\<rparr>" False] c(3,4) assms(5,7)
        in \<open>simp_all add: int_max_def\<close>)
  then show ?thesis using assms(1,4) wk(1) c(1) by (simp add: qsim_def Let_def queue_kind_def)
qed

theorem qsim_pulse_default_max_witness:
  "qsim 9000 (\<lambda>_ _. 10) (\<lambda>_. 1 / 2) (demo_opts ''pifo_insertion_pulse'' 64 (- 1)) = Inr (PifoEnd None)"
  by (rule qsim_pulse_default_max) (simp_all add: int_max_def)

text \<open>The simulation of a snapshot, type 2, sends nothing: the constructor that takes a snapshot file
  loads no message from it, so the draining loop ends before its first slot.\<close>

theorem qsim_snapshot:
  assumes "opt_type opts = ''pifo_naive_snapshot''" "opt_workload opts \<in> set workload_names"
    "\<forall>i. uniform i \<le> 1"
  shows "qsim (Suc fuel) exponential uniform opts =
     Inr (DrainEnd (Some (0, pifo_init (opt_priorities opts))))"
proof -
  obtain wk where "dist_point_gen builtin (opt_workload opts) 1000000 0 default_max_size_ratio = Inr wk"
    using workload_env [OF assms(2,3)] by blast
  moreover have "pifo_empty (pifo_init (opt_priorities opts))" by (simp add: pifo_empty_def pifo_init_def)
  ultimately show ?thesis using assms(1) by (simp add: qsim_def Let_def queue_kind_def)
qed

theorem qsim_snapshot_witness:
  "qsim (Suc 0) (\<lambda>_ _. 10) (\<lambda>_. 1 / 2) (demo_opts ''pifo_naive_snapshot'' 64 9) =
     Inr (DrainEnd (Some (0, pifo_init 64)))"
  using qsim_snapshot [of "demo_opts ''pifo_naive_snapshot'' 64 9" "\<lambda>_. 1 / 2" 0 "\<lambda>_ _. 10"] by simp

text \<open>A single message with no priorities: the state in which every slot leaves it.\<close>

definition stuck :: "pifo \<Rightarrow> bool" where
  "stuck q \<longleftrightarrow> hwqueue q = [] \<and> backing q = [] \<and> scan q = 0 \<and> firstunsort q = -1 \<and> active q = 1 \<and>
     priorities q = 0 \<and> buff q = 0"

lemma stuck_slot:
  assumes "stuck q"
  shows "\<exists>q1 q2. departure pifo_vt ts q = Inr q1 \<and> pifo_step ts q1 = Inr q2 \<and> stuck q2"
proof -
  let ?q = "departure_tick ts q"
  have t: "hwqueue ?q = []" "backing ?q = []" "scan ?q = 0" "firstunsort ?q = -1" "active ?q = 1"
    "priorities ?q = 0" "buff ?q = 0"
    using assms pifo_more [of ?q q] by (simp_all add: stuck_def frame) (simp add: departure_tick_def Let_def)
  have d: "departure pifo_vt ts q = Inr (count_underflow ?q)"
    using t by (simp add: departure_def Let_def pifo_empty_def pifo_dequeue_def null_entry_def)
  let ?q1 = "pifo_maxsize (count_underflow ?q)"
  have u: "hwqueue ?q1 = []" "backing ?q1 = []" "scan ?q1 = 0" "firstunsort ?q1 = -1" "active ?q1 = 1"
    "priorities ?q1 = 0" "buff ?q1 = 0"
    using t pifo_more [of "count_underflow ?q" ?q] by (simp_all add: pifo_maxsize_def Let_def frame)
  have "\<exists>q2. pifo_step ts (count_underflow ?q) = Inr q2 \<and> stuck q2"
    using u by (simp add: pifo_step_def pifo_pick_def pifo_scan_def pifo_scan_once_def int_ge_size_def
      vec_insert_def pifo_refill_def refill_wanted_def size_le_int_def pifo_overflow_def size_ge_int_def
      pifo_put_down_def ms_last_def stuck_def)
  then show ?thesis using d by blast
qed

text \<open>With the default of no priorities a single message is never sent: \<open>step\<close> moves it from the
  small queue back to the backing store in every slot, so that a queue holding it never drains.\<close>

theorem pifo_no_priorities:
  assumes "0 < n" "n \<le> int_max"
  shows "\<exists>q. rbind (arrival pifo_vt 0 n (pifo_init 0)) (pifo_step 0) = Inr q \<and> size (pifo_hw q) = 1 \<and>
     (\<forall>fuel ts. drain_loop fuel pifo_vt ts q = Inr None)"
proof -
  have "drain_loop fuel pifo_vt ts q = Inr None" if "stuck q" for fuel ts q
    using that
  proof (induction fuel arbitrary: ts q)
    case (Suc fuel)
    then obtain q1 q2 where "departure pifo_vt ts q = Inr q1" "pifo_step ts q1 = Inr q2" "stuck q2"
      using stuck_slot by blast
    moreover have "\<not> pifo_empty q" using Suc.prems by (simp add: stuck_def pifo_empty_def)
    ultimately show ?case using Suc.IH by simp
  qed simp
  moreover have "\<exists>q. rbind (arrival pifo_vt 0 n (pifo_init 0)) (pifo_step 0) = Inr q \<and> stuck q \<and> size (pifo_hw q) = 1"
    using assms by (simp add: arrival_def Let_def pifo_enqueue_def pifo_init_def pifo_step_def pifo_pick_def
      pifo_maxsize_def pifo_scan_def pifo_refill_def refill_wanted_def pifo_overflow_def size_ge_int_def
      pifo_put_down_def ms_last_def stuck_def pifo_hw_def in_hand_def int_max_def zero_queuestat_def)
  ultimately show ?thesis by blast
qed

theorem pifo_no_priorities_witness:
  "\<exists>q. rbind (arrival pifo_vt 0 5 (pifo_init 0)) (pifo_step 0) = Inr q \<and> size (pifo_hw q) = 1 \<and>
     (\<forall>fuel ts. drain_loop fuel pifo_vt ts q = Inr None)"
  by (rule pifo_no_priorities) (simp_all add: int_max_def)

end
