(* ===== verification/Command_Line.thy ===== *)
theory Command_Line
  imports Qsim_Main
begin

section \<open>The command line of qsim\<close>

text \<open>
  The loop over the options in \<open>main\<close> of \<open>model/qsim.cc\<close> and \<open>main\<close> as a whole. The options are the
  list of what the calls of \<open>getopt_long\<close> return, each an option character and its argument (theory
  \<open>Getopt\<close> has how they come from the words of the command line);
  \<open>strtod\<close> is the C function, a parameter. An exception that \<open>std::stoi\<close> throws ends the program, as
  \<open>abort\<close> does for an unknown option. \<open>util\<close> and \<open>duration\<close> have no initial value.
\<close>

record command_line =
  cl_priorities :: int
  cl_qtype :: string
  cl_wfile :: string
  cl_tfile :: string
  cl_sfile :: string
  cl_util :: "rat option"
  cl_duration :: "u64 option"
  cl_max :: u32

definition cl_init :: command_line where
  "cl_init = \<lparr>cl_priorities = 0, cl_qtype = [], cl_wfile = [], cl_tfile = [], cl_sfile = [],
     cl_util = None, cl_duration = None, cl_max = - 1\<rparr>"

definition stoi :: "string \<Rightarrow> int res" where
  "stoi s = (let (v, rest) = strtol10 s in if rest = s \<or> \<not> int32_range v then Inl Aborted else Inr v)"

fun read_option :: "(string \<Rightarrow> rat) \<Rightarrow> char \<times> string \<Rightarrow> command_line \<Rightarrow> command_line res" where
  "read_option strtod (c, optarg) cl =
     (if c = CHR ''p'' then rbind (stoi optarg) (\<lambda>v. Inr (cl\<lparr>cl_priorities := v\<rparr>))
      else if c = CHR ''q'' then Inr (cl\<lparr>cl_qtype := optarg\<rparr>)
      else if c = CHR ''w'' then Inr (cl\<lparr>cl_wfile := optarg\<rparr>)
      else if c = CHR ''u'' then Inr (cl\<lparr>cl_util := Some (strtod optarg)\<rparr>)
      else if c = CHR ''c'' then Inr (cl\<lparr>cl_duration := Some (word_of_int (fst (strtol10 optarg)))\<rparr>)
      else if c = CHR ''t'' then Inr (cl\<lparr>cl_tfile := optarg\<rparr>)
      else if c = CHR ''s'' then Inr (cl\<lparr>cl_sfile := optarg\<rparr>)
      else if c = CHR ''m'' then rbind (stoi optarg) (\<lambda>v. Inr (cl\<lparr>cl_max := word_of_int v\<rparr>))
      else Inl Aborted)"

fun read_options :: "(string \<Rightarrow> rat) \<Rightarrow> (char \<times> string) list \<Rightarrow> command_line \<Rightarrow> command_line res" where
  "read_options strtod [] cl = Inr cl"
| "read_options strtod (a # as) cl = rbind (read_option strtod a cl) (read_options strtod as)"

text \<open>\<open>main\<close>: the workload is built first, then \<open>util\<close> is read, and \<open>duration\<close> only in the loops that
  compare with it.\<close>

definition sim_options :: "command_line \<Rightarrow> rat \<Rightarrow> u64 \<Rightarrow> options" where
  "sim_options cl u n = \<lparr>opt_priorities = cl_priorities cl, opt_type = cl_qtype cl, opt_workload = cl_wfile cl,
     opt_util = u, opt_duration = n, opt_max = cl_max cl\<rparr>"

definition qsim_main ::
    "nat \<Rightarrow> (rat \<Rightarrow> nat \<Rightarrow> rat) \<Rightarrow> (nat \<Rightarrow> rat) \<Rightarrow> (string \<Rightarrow> rat) \<Rightarrow> (char \<times> string) list \<Rightarrow> sim_end res" where
  "qsim_main fuel exponential uniform strtod args =
     rbind (read_options strtod args cl_init) (\<lambda>cl.
     rbind (dist_point_gen builtin (cl_wfile cl) 1000000 0 default_max_size_ratio) (\<lambda>wk.
       case cl_util cl of
         None \<Rightarrow> Inl Uninitialised
       | Some u \<Rightarrow>
           (case cl_duration cl of
              None \<Rightarrow> if queue_kind (cl_qtype cl) = 2 then qsim fuel exponential uniform (sim_options cl u 0)
                     else Inl Uninitialised
            | Some n \<Rightarrow> qsim fuel exponential uniform (sim_options cl u n))))"

subsection \<open>The last occurrence of an option counts\<close>

text \<open>An option the loop accepts, and the state after the options \<open>m\<close>.\<close>

definition acceptable :: "char \<times> string \<Rightarrow> bool" where
  "acceptable a \<longleftrightarrow> fst a \<in> set ''pqwuctsm'' \<and> (fst a \<in> set ''pm'' \<longrightarrow> (\<exists>v. stoi (snd a) = Inr v))"

definition int_arg :: "string \<Rightarrow> int" where
  "int_arg s = fst (strtol10 s)"

definition given :: "(string \<Rightarrow> rat) \<Rightarrow> (char \<Rightarrow> string option) \<Rightarrow> command_line \<Rightarrow> command_line" where
  "given strtod m cl = \<lparr>
     cl_priorities = (case m CHR ''p'' of None \<Rightarrow> cl_priorities cl | Some s \<Rightarrow> int_arg s),
     cl_qtype = (case m CHR ''q'' of None \<Rightarrow> cl_qtype cl | Some s \<Rightarrow> s),
     cl_wfile = (case m CHR ''w'' of None \<Rightarrow> cl_wfile cl | Some s \<Rightarrow> s),
     cl_tfile = (case m CHR ''t'' of None \<Rightarrow> cl_tfile cl | Some s \<Rightarrow> s),
     cl_sfile = (case m CHR ''s'' of None \<Rightarrow> cl_sfile cl | Some s \<Rightarrow> s),
     cl_util = (case m CHR ''u'' of None \<Rightarrow> cl_util cl | Some s \<Rightarrow> Some (strtod s)),
     cl_duration = (case m CHR ''c'' of None \<Rightarrow> cl_duration cl | Some s \<Rightarrow> Some (word_of_int (int_arg s))),
     cl_max = (case m CHR ''m'' of None \<Rightarrow> cl_max cl | Some s \<Rightarrow> word_of_int (int_arg s))\<rparr>"

lemma stoi_cases: "stoi s = Inl Aborted \<or> stoi s = Inr (int_arg s)"
  by (auto simp: stoi_def int_arg_def split: prod.split)

lemma read_option_given:
  "read_option strtod a cl = (if acceptable a then Inr (given strtod [fst a \<mapsto> snd a] cl) else Inl Aborted)"
proof (cases a)
  case (Pair c s)
  consider "c = CHR ''p''" | "c = CHR ''m''" | "c \<in> set ''qwucts''" | "c \<notin> set ''pqwuctsm''" by auto
  then show ?thesis
  proof cases
    case 3
    then consider "c = CHR ''q''" | "c = CHR ''w''" | "c = CHR ''u''" | "c = CHR ''c''" | "c = CHR ''t''" | "c = CHR ''s''"
      by auto
    then show ?thesis by cases (simp_all add: Pair acceptable_def given_def int_arg_def)
  next
    case 4
    then show ?thesis by (simp add: Pair acceptable_def)
  qed (use stoi_cases [of s] in \<open>auto simp: Pair acceptable_def given_def\<close>)
qed

lemma case_map_add: "(case (m1 ++ m2) k of None \<Rightarrow> d | Some s \<Rightarrow> f s) =
    (case m2 k of None \<Rightarrow> (case m1 k of None \<Rightarrow> d | Some s \<Rightarrow> f s) | Some s \<Rightarrow> f s)"
  by (simp add: map_add_def split: option.split)

lemma given_given: "given strtod m2 (given strtod m1 cl) = given strtod (m1 ++ m2) cl"
  by (simp add: given_def case_map_add cong: option.case_cong)

lemma given_empty: "given strtod Map.empty cl = cl"
  by (simp add: given_def)

lemma read_options_given:
  "read_options strtod args cl =
     (if list_all acceptable args then Inr (given strtod (map_of (rev args)) cl) else Inl Aborted)"
proof (induction args arbitrary: cl)
  case (Cons a as)
  have "map_of (rev (a # as)) = [fst a \<mapsto> snd a] ++ map_of (rev as)" by (cases a) (simp add: map_of_append)
  then show ?case by (simp add: Cons read_option_given given_given del: read_option.simps)
qed (simp add: given_empty)

lemma pifo_runs:
  assumes "opt_type opts = ''pifo_naive''" "opt_workload opts \<in> set workload_names"
    "8 \<le> opt_priorities opts" "\<forall>i. uniform i \<le> 1" "int fuel \<le> int_max"
  shows "\<exists>r. qsim fuel exponential uniform opts = Inr (PifoEnd r)"
  using qsim_pifo_run [OF assms, of exponential] by blast

subsection \<open>Property\<close>


text \<open>The options of \<open>qsim -q pifo_naive -w w1 -p 9 -u 0.5 -p 64 -c 3\<close>.\<close>

definition demo_args :: "(char \<times> string) list" where
  "demo_args = [(CHR ''q'', ''pifo_naive''), (CHR ''w'', ''w1''), (CHR ''p'', ''9''), (CHR ''u'', ''0.5''),
     (CHR ''p'', ''64''), (CHR ''c'', ''3'')]"


end
