(* ===== verification/Getopt.thy ===== *)
theory Getopt
  imports Command_Line
begin

section \<open>The words of the command line\<close>

text \<open>
  How the calls of \<open>getopt_long\<close> in \<open>main\<close> of \<open>model/qsim.cc\<close> turn the words of the command line into the
  options of theory \<open>Command_Line\<close>, by the rules that GNU documents for it: words that do not start with a dash
  are passed over, \<open>--\<close> ends the options, an option has its argument in the same word or in the next one, and
  where the argument is missing or the letter unknown the result is \<open>?\<close>. All options of the program need
  an argument. The table \<open>longOpts\<close> does not end with an element of zeros, as it has to: only a name
  that stands in the table is found before the search has left the array, so abbreviations, which
  \<open>getopt_long\<close> otherwise accepts, and unknown names are undefined behaviour.
\<close>

subsection \<open>getopt_long\<close>

definition longOpts :: "(string \<times> char) list" where
  "longOpts = [(''priorities'', CHR ''p''), (''type'', CHR ''q''), (''snapshot'', CHR ''s''), (''workload'', CHR ''w''),
     (''comps'', CHR ''c''), (''utilization'', CHR ''u''), (''trace-file'', CHR ''t''), (''max'', CHR ''m'')]"

definition optstring :: string where
  "optstring = ''p:q:w:u:c:t:s:m:''"

text \<open>An option with its argument, which may have to be the next word.\<close>

definition required :: "char \<Rightarrow> string option \<Rightarrow> string list \<Rightarrow> (char \<times> string) \<times> string list" where
  "required c arg ws =
     (case arg of
        Some s \<Rightarrow> ((c, s), ws)
      | None \<Rightarrow> (case ws of [] \<Rightarrow> ((CHR ''?'', []), []) | w # ws' \<Rightarrow> ((c, w), ws')))"

text \<open>A word that starts with two dashes, and one that starts with one; \<open>None\<close>: the search leaves the table.\<close>

definition long_option :: "string \<Rightarrow> string list \<Rightarrow> ((char \<times> string) \<times> string list) option" where
  "long_option w ws =
     (let name = takeWhile (\<lambda>c. c \<noteq> CHR ''='') w; rest = dropWhile (\<lambda>c. c \<noteq> CHR ''='') w
      in map_option (\<lambda>c. required c (if rest = [] then None else Some (tl rest)) ws) (map_of longOpts name))"

definition short_option :: "char \<Rightarrow> string \<Rightarrow> string list \<Rightarrow> (char \<times> string) \<times> string list" where
  "short_option c rest ws =
     (if c \<in> set optstring \<and> c \<noteq> CHR '':''
      then required c (if rest = [] then None else Some rest) ws else ((CHR ''?'', []), ws))"

text \<open>All calls: the options, and whether the search left the table after them. \<open>main\<close> aborts at a \<open>?\<close>, so what
  would follow one does not matter.\<close>

function getopt_all :: "string list \<Rightarrow> (char \<times> string) list \<times> bool" where
  "getopt_all [] = ([], False)"
| "getopt_all (w # ws) =
     (if length w < 2 \<or> hd w \<noteq> CHR ''-'' then getopt_all ws
      else if w = ''--'' then ([], False)
      else if w ! 1 = CHR ''-'' then
        (case long_option (drop 2 w) ws of
           None \<Rightarrow> ([], True)
         | Some (a, ws') \<Rightarrow> (case getopt_all ws' of (as, b) \<Rightarrow> (a # as, b)))
      else case short_option (w ! 1) (drop 2 w) ws of
             (a, ws') \<Rightarrow> (case getopt_all ws' of (as, b) \<Rightarrow> (a # as, b)))"
  by pat_completeness auto
termination
  by (relation "measure length")
    (auto simp: long_option_def short_option_def required_def Let_def split: option.splits list.splits if_splits)

declare getopt_all.simps [simp del]

text \<open>The program on its words.\<close>

definition qsim_argv ::
    "nat \<Rightarrow> (rat \<Rightarrow> nat \<Rightarrow> rat) \<Rightarrow> (nat \<Rightarrow> rat) \<Rightarrow> (string \<Rightarrow> rat) \<Rightarrow> string list \<Rightarrow> sim_end res" where
  "qsim_argv fuel exponential uniform strtod argv =
     (case getopt_all argv of
        (args, False) \<Rightarrow> qsim_main fuel exponential uniform strtod args
      | (args, True) \<Rightarrow> rbind (read_options strtod args cl_init) (\<lambda>_. Inl OutOfRange))"

subsection \<open>Writing a command line\<close>

text \<open>The four ways to write an option, and words that are none.\<close>

datatype written =
    Apart char string \<comment> \<open>\<open>-c s\<close>\<close>
  | Joined char string \<comment> \<open>\<open>-cs\<close>\<close>
  | Long_Apart string string \<comment> \<open>\<open>--name s\<close>\<close>
  | Long_Joined string string \<comment> \<open>\<open>--name=s\<close>\<close>
  | Operand string

fun words_of :: "written \<Rightarrow> string list" where
  "words_of (Apart c s) = [[CHR ''-'', c], s]"
| "words_of (Joined c s) = [CHR ''-'' # c # s]"
| "words_of (Long_Apart name s) = [''--'' @ name, s]"
| "words_of (Long_Joined name s) = [''--'' @ name @ ''='' @ s]"
| "words_of (Operand w) = [w]"

fun writable :: "written \<Rightarrow> bool" where
  "writable (Apart c s) \<longleftrightarrow> c \<in> snd ` set longOpts"
| "writable (Joined c s) \<longleftrightarrow> c \<in> snd ` set longOpts \<and> s \<noteq> []"
| "writable (Long_Apart name s) \<longleftrightarrow> name \<in> fst ` set longOpts"
| "writable (Long_Joined name s) \<longleftrightarrow> name \<in> fst ` set longOpts"
| "writable (Operand w) \<longleftrightarrow> length w < 2 \<or> hd w \<noteq> CHR ''-''"

fun meaning :: "written \<Rightarrow> (char \<times> string) list" where
  "meaning (Apart c s) = [(c, s)]"
| "meaning (Joined c s) = [(c, s)]"
| "meaning (Long_Apart name s) = [(the (map_of longOpts name), s)]"
| "meaning (Long_Joined name s) = [(the (map_of longOpts name), s)]"
| "meaning (Operand w) = []"

lemma letters: "c \<in> snd ` set longOpts \<Longrightarrow> c \<in> set optstring \<and> c \<noteq> CHR '':'' \<and> c \<noteq> CHR ''-''"
  by (auto simp: longOpts_def optstring_def)

lemma names:
  "name \<in> fst ` set longOpts \<Longrightarrow> CHR ''='' \<notin> set name \<and> name \<noteq> [] \<and> (\<exists>c. map_of longOpts name = Some c)"
  by (auto simp: longOpts_def)

lemma split_name:
  assumes "CHR ''='' \<notin> set name"
  shows "takeWhile (\<lambda>c. c \<noteq> CHR ''='') name = name" "dropWhile (\<lambda>c. c \<noteq> CHR ''='') name = []"
    "takeWhile (\<lambda>c. c \<noteq> CHR ''='') (name @ CHR ''='' # s) = name"
    "dropWhile (\<lambda>c. c \<noteq> CHR ''='') (name @ CHR ''='' # s) = CHR ''='' # s"
  using assms by (induction name) auto

lemma getopt_word:
  assumes "writable x"
  shows "getopt_all (words_of x @ ws) = (meaning x @ fst (getopt_all ws), snd (getopt_all ws))"
proof (cases x)
  case (Apart c s)
  then show ?thesis using assms letters [of c]
    by (simp add: getopt_all.simps(2) short_option_def required_def case_prod_beta)
next
  case (Joined c s)
  then show ?thesis using assms letters [of c]
    by (simp add: getopt_all.simps(2) short_option_def required_def case_prod_beta)
next
  case (Long_Apart name s)
  then obtain c where c: "map_of longOpts name = Some c" "CHR ''='' \<notin> set name" "name \<noteq> []" using assms names [of name] by auto
  then show ?thesis
    by (simp add: Long_Apart getopt_all.simps(2) long_option_def split_name required_def case_prod_beta)
next
  case (Long_Joined name s)
  then obtain c where c: "map_of longOpts name = Some c" "CHR ''='' \<notin> set name" "name \<noteq> []" using assms names [of name] by auto
  then show ?thesis
    by (simp add: Long_Joined getopt_all.simps(2) long_option_def split_name required_def case_prod_beta)
next
  case (Operand w)
  then show ?thesis using assms by (simp add: getopt_all.simps(2))
qed

lemma getopt_words:
  "list_all writable xs \<Longrightarrow> getopt_all (concat (map words_of xs) @ ws) =
     (concat (map meaning xs) @ fst (getopt_all ws), snd (getopt_all ws))"
  by (induction xs) (simp_all add: getopt_word)

text \<open>A long name that is not in the table, an abbreviation for example.\<close>

lemma getopt_unknown:
  assumes "map_of longOpts (takeWhile (\<lambda>c. c \<noteq> CHR ''='') name) = None" "name \<noteq> []"
  shows "getopt_all ((''--'' @ name) # ws) = ([], True)"
  using assms by (simp add: getopt_all.simps(2) long_option_def)

subsection \<open>Claims\<close>



end
