(* ===== verification/Time_Trace.thy ===== *)
theory Time_Trace
  imports Prelude
begin

unbundle bit_operations_syntax

section \<open>Time traces\<close>

text \<open>
  Class \<open>time_trace\<close> of \<open>app/lib/time_trace.h\<close> and \<open>app/lib/time_trace.cc\<close>: every thread
  records events in a ring buffer of its own, a table holds all buffers, and a printout merges them
  by time. The first part models the ring buffer and shows that it keeps the most recent events;
  the second part models the merge of \<open>print_internal\<close>, with fuel for its loops, and shows that
  it terminates and prints each kept event once, in order. A printout here is the list of the events
  with the number of their buffer; theory \<open>Trace_Lines\<close> has its text.
\<close>

subsection \<open>Events and buffers\<close>

record event =
  timestamp :: u64
  format :: "string option"
  arg0 :: u32
  arg1 :: u32
  arg2 :: u32
  arg3 :: u32

record buffer =
  buffer_name :: string
  next_index :: nat
  ref_count :: int
  events :: "nat \<Rightarrow> event"

definition BUFFER_SIZE_EXP :: nat where "BUFFER_SIZE_EXP = 16"
definition BUFFER_SIZE :: nat where "BUFFER_SIZE = 2 ^ BUFFER_SIZE_EXP"
definition BUFFER_MASK :: nat where "BUFFER_MASK = BUFFER_SIZE - 1"

definition null_event :: event where
  "null_event = \<lparr>timestamp = 0, format = None, arg0 = 0, arg1 = 0, arg2 = 0, arg3 = 0\<rparr>"

definition new_buffer :: "string \<Rightarrow> buffer" where
  "new_buffer name = \<lparr>buffer_name = name, next_index = 0, ref_count = 0, events = (\<lambda>_. null_event)\<rparr>"

definition new_event :: "u64 \<Rightarrow> string \<Rightarrow> u32 \<Rightarrow> u32 \<Rightarrow> u32 \<Rightarrow> u32 \<Rightarrow> event" where
  "new_event ts fmt a0 a1 a2 a3 =
     \<lparr>timestamp = ts, format = Some fmt, arg0 = a0, arg1 = a1, arg2 = a2, arg3 = a3\<rparr>"

definition buffer_record ::
    "bool \<Rightarrow> u64 \<Rightarrow> string \<Rightarrow> u32 \<Rightarrow> u32 \<Rightarrow> u32 \<Rightarrow> u32 \<Rightarrow> buffer \<Rightarrow> buffer" where
  "buffer_record frozen ts fmt a0 a1 a2 a3 b =
     (if frozen then b
      else b\<lparr>next_index := (next_index b + 1) AND BUFFER_MASK,
             events := (events b)(next_index b := new_event ts fmt a0 a1 a2 a3)\<rparr>)"

subsection \<open>The ring\<close>

lemma size_pos [simp]: "0 < BUFFER_SIZE" "Suc 0 < BUFFER_SIZE"
  by (simp_all add: BUFFER_SIZE_def BUFFER_SIZE_EXP_def)

lemma and_mask_mod: "n AND BUFFER_MASK = n mod BUFFER_SIZE"
  using take_bit_eq_mask [of BUFFER_SIZE_EXP n]
  by (simp add: BUFFER_MASK_def BUFFER_SIZE_def mask_eq_exp_minus_1 take_bit_eq_mod)

text \<open>
  \<open>ring b h\<close>: the buffer is what recording the events of \<open>h\<close>, oldest first, leaves. Only the last
  \<open>BUFFER_SIZE\<close> of them are still there; slots never used are empty.
\<close>

definition ring :: "buffer \<Rightarrow> event list \<Rightarrow> bool" where
  "ring b h \<longleftrightarrow> next_index b = length h mod BUFFER_SIZE \<and>
     (\<forall>j < length h. length h \<le> j + BUFFER_SIZE \<longrightarrow> events b (j mod BUFFER_SIZE) = h ! j) \<and>
     (\<forall>i. length h \<le> i \<and> i < BUFFER_SIZE \<longrightarrow> format (events b i) = None) \<and>
     (\<forall>e \<in> set h. format e \<noteq> None)"

lemma ring_new: "ring (new_buffer name) []"
  by (simp add: ring_def new_buffer_def null_event_def)

lemma mod_neq: "j < k \<Longrightarrow> k < j + n \<Longrightarrow> j mod n \<noteq> k mod (n :: nat)"
proof
  assume jk: "j < k" "k < j + n" and eq: "j mod n = k mod n"
  then have "n dvd k - j" using mod_eq_dvd_iff_nat [of j k n] by (simp add: eq_commute)
  then show False using jk by (auto dest: dvd_imp_le)
qed

lemma ring_store:
  assumes r: "ring b h" and x: "format x \<noteq> None"
  shows "ring (b\<lparr>next_index := (next_index b + 1) AND BUFFER_MASK, events := (events b)(next_index b := x)\<rparr>) (h @ [x])"
proof -
  let ?L = "length h" and ?S = BUFFER_SIZE
  let ?b = "b\<lparr>next_index := (next_index b + 1) AND BUFFER_MASK, events := (events b)(next_index b := x)\<rparr>"
  have b: "next_index ?b = (?L + 1) mod ?S" "events ?b = (events b)(?L mod ?S := x)"
    using r by (simp_all add: ring_def and_mask_mod mod_Suc_eq)
  have "events ?b (j mod ?S) = (h @ [x]) ! j" if "j < Suc ?L" "Suc ?L \<le> j + ?S" for j
  proof (cases "j = ?L")
    case False
    then have j: "j < ?L" "?L < j + ?S" using that by auto
    then have "j mod ?S \<noteq> ?L mod ?S" by (rule mod_neq)
    then show ?thesis using r j by (simp add: b ring_def nth_append)
  qed (use r in \<open>simp add: ring_def\<close>)
  moreover have "format (events ?b i) = None" if "Suc ?L \<le> i" "i < ?S" for i
    using r that by (simp add: b ring_def)
  ultimately show ?thesis using r b(1) x by (auto simp: ring_def)
qed

lemma ring_record:
  "ring b h \<Longrightarrow> ring (buffer_record False ts fmt a0 a1 a2 a3 b) (h @ [new_event ts fmt a0 a1 a2 a3])"
  using ring_store [of b h "new_event ts fmt a0 a1 a2 a3"] by (simp add: buffer_record_def new_event_def)

subsection \<open>Cursors\<close>

text \<open>
  A cursor of \<open>print_internal\<close> is an index into the ring; \<open>cursor b c w\<close> says that from index
  \<open>c\<close> on, up to \<open>next_index\<close>, the ring holds the events \<open>w\<close>.
\<close>

definition cursor :: "buffer \<Rightarrow> nat \<Rightarrow> event list \<Rightarrow> bool" where
  "cursor b c w \<longleftrightarrow> (\<exists>h p. ring b h \<and> p \<le> length h \<and> length h < p + BUFFER_SIZE \<and>
     c = p mod BUFFER_SIZE \<and> w = drop p h)"

lemma cursor_Nil: "cursor b c [] \<Longrightarrow> c = next_index b"
  by (auto simp: cursor_def ring_def)

lemma cursor_Cons:
  assumes "cursor b c (x # xs)"
  shows "c \<noteq> next_index b" "events b c = x" "format x \<noteq> None" "cursor b ((c + 1) mod BUFFER_SIZE) xs"
proof -
  obtain h p where h: "ring b h" "p \<le> length h" "length h < p + BUFFER_SIZE" "c = p mod BUFFER_SIZE"
    "x # xs = drop p h" using assms by (auto simp: cursor_def)
  have p: "p < length h" using h(5) by (cases "p < length h") auto
  have hp: "h ! p = x" "drop (Suc p) h = xs" using h(5) p by (simp_all flip: Cons_nth_drop_Suc)
  show "c \<noteq> next_index b" using mod_neq [OF p h(3)] h(1,4) by (simp add: ring_def)
  show "events b c = x" using h(1,3,4) p hp(1) by (simp add: ring_def)
  show "format x \<noteq> None" using h(1) hp(1) p by (auto simp: ring_def)
  have "ring b h \<and> Suc p \<le> length h \<and> length h < Suc p + BUFFER_SIZE \<and>
      (c + 1) mod BUFFER_SIZE = Suc p mod BUFFER_SIZE \<and> xs = drop (Suc p) h"
    using h p hp(2) by (simp add: mod_Suc_eq)
  then show "cursor b ((c + 1) mod BUFFER_SIZE) xs" unfolding cursor_def by blast
qed

subsection \<open>print_internal\<close>

text \<open>The first event to consider of a buffer.\<close>

definition first_index :: "buffer \<Rightarrow> nat" where
  "first_index b =
     (let index = (next_index b + 1) mod BUFFER_SIZE
      in if format (events b index) \<noteq> None then index else 0)"

text \<open>The time of the first event in the output: the latest of the oldest times.\<close>

definition start_time :: "(buffer \<times> nat) list \<Rightarrow> u64" where
  "start_time bs = fold (\<lambda>(b, c) st. let e = events b c
     in if format e \<noteq> None \<and> timestamp e > st then timestamp e else st) bs 0"

fun skip_loop :: "nat \<Rightarrow> u64 \<Rightarrow> buffer \<Rightarrow> nat \<Rightarrow> nat option" where
  "skip_loop 0 st b c = None"
| "skip_loop (Suc n) st b c =
     (if format (events b c) \<noteq> None \<and> timestamp (events b c) < st \<and> c \<noteq> next_index b
      then skip_loop n st b ((c + 1) mod BUFFER_SIZE) else Some c)"

text \<open>The search for the earliest event, with \<open>cur_buf\<close> and \<open>earliest_time\<close>.\<close>

fun find_earliest :: "nat \<Rightarrow> (buffer \<times> nat) list \<Rightarrow> nat option \<Rightarrow> u64 \<Rightarrow> nat option" where
  "find_earliest i [] cur_buf earliest = cur_buf"
| "find_earliest i ((b, c) # bs) cur_buf earliest =
     (if c \<noteq> next_index b \<and> format (events b c) \<noteq> None \<and> timestamp (events b c) < earliest
      then find_earliest (i + 1) bs (Some i) (timestamp (events b c))
      else find_earliest (i + 1) bs cur_buf earliest)"

fun merge_loop :: "nat \<Rightarrow> (buffer \<times> nat) list \<Rightarrow> (nat \<times> event) list option" where
  "merge_loop 0 bs = None"
| "merge_loop (Suc n) bs =
     (case find_earliest 0 bs None (- 1) of
        None \<Rightarrow> Some []
      | Some k \<Rightarrow>
          (case bs ! k of (b, c) \<Rightarrow>
             map_option ((#) (k, events b c)) (merge_loop n (bs[k := (b, (c + 1) mod BUFFER_SIZE)]))))"

fun skip_all :: "u64 \<Rightarrow> (buffer \<times> nat) list \<Rightarrow> (buffer \<times> nat) list option" where
  "skip_all st [] = Some []"
| "skip_all st ((b, c) # bs) =
     (case skip_loop BUFFER_SIZE st b c of
        None \<Rightarrow> None
      | Some c' \<Rightarrow> map_option ((#) (b, c')) (skip_all st bs))"

definition print_internal :: "buffer list \<Rightarrow> (nat \<times> event) list option" where
  "print_internal buffers =
     (let bs = map (\<lambda>b. (b, first_index b)) buffers
      in case skip_all (start_time bs) bs of
           None \<Rightarrow> None
         | Some bs' \<Rightarrow> merge_loop (length buffers * BUFFER_SIZE + 1) bs')"

subsection \<open>The first part of print_internal\<close>

text \<open>The events a buffer still offers: the last \<open>BUFFER_SIZE - 1\<close>.\<close>

definition kept :: "event list \<Rightarrow> event list" where
  "kept h = drop (length h + 1 - BUFFER_SIZE) h"

lemma cursor_first:
  assumes r: "ring b h"
  shows "cursor b (first_index b) (kept h)"
proof -
  let ?L = "length h" and ?S = BUFFER_SIZE
  let ?p = "?L + 1 - ?S"
  have index: "(next_index b + 1) mod ?S = (?L + 1) mod ?S" using r by (simp add: ring_def mod_Suc_eq)
  have "first_index b = ?p mod ?S"
  proof (cases "?L + 1 < ?S")
    case True
    then have "format (events b (?L + 1)) = None" using r by (simp add: ring_def)
    then show ?thesis using True index by (simp add: first_index_def Let_def)
  next
    case False
    then have e: "(?L + 1) mod ?S = ?p mod ?S" by (simp add: le_mod_geq)
    have lt: "?p < ?L \<or> ?L = 0" using size_pos(2) False by linarith
    have p: "?p < ?L" using lt False size_pos(2) by (cases "?L = 0") auto
    have "events b (?p mod ?S) = h ! ?p" using r p False by (simp add: ring_def)
    moreover have "format (h ! ?p) \<noteq> None" using r p by (auto simp: ring_def)
    ultimately show ?thesis using index e by (simp add: first_index_def Let_def)
  qed
  moreover have "?p \<le> ?L" "?L < ?p + ?S" using size_pos(2) by linarith+
  ultimately show ?thesis using r unfolding cursor_def kept_def by blast
qed

lemma cursor_length: "cursor b c w \<Longrightarrow> length w < BUFFER_SIZE"
  by (auto simp: cursor_def)

lemma skip_loop_ok:
  "cursor b c w \<Longrightarrow> length w < n \<Longrightarrow>
   \<exists>c'. skip_loop n st b c = Some c' \<and> cursor b c' (dropWhile (\<lambda>e. timestamp e < st) w)"
proof (induction n arbitrary: c w)
  case 0
  then show ?case by simp
next
  case (Suc n)
  show ?case
  proof (cases w)
    case Nil
    then show ?thesis using Suc.prems(1) cursor_Nil [of b c] by auto
  next
    case (Cons x xs)
    note cc = cursor_Cons [OF Suc.prems(1) [unfolded Cons]]
    show ?thesis
    proof (cases "timestamp x < st")
      case True
      then show ?thesis using Suc.IH [OF cc(4)] Suc.prems(2) cc(1-3) by (simp add: Cons)
    next
      case False
      then show ?thesis using Suc.prems(1) cc(2) by (simp add: Cons)
    qed
  qed
qed

lemma skip_all_ok:
  "list_all2 (\<lambda>(b, c) w. cursor b c w) bs ws \<Longrightarrow>
   \<exists>bs'. skip_all st bs = Some bs' \<and> length bs' = length bs \<and>
     list_all2 (\<lambda>(b, c) w. cursor b c w) bs' (map (dropWhile (\<lambda>e. timestamp e < st)) ws)"
proof (induction bs ws rule: list_all2_induct)
  case Nil
  then show ?case by simp
next
  case (Cons bc bs w ws)
  obtain b c where bc: "bc = (b, c)" by (cases bc)
  have "cursor b c w" using Cons.hyps(1) by (simp add: bc)
  then obtain c' where "skip_loop BUFFER_SIZE st b c = Some c'"
    "cursor b c' (dropWhile (\<lambda>e. timestamp e < st) w)"
    using skip_loop_ok [of b c w BUFFER_SIZE st] cursor_length by blast
  then show ?case using Cons.IH by (auto simp: bc)
qed

subsection \<open>The merge\<close>

text \<open>The search on the lists of events that are left.\<close>

fun find_first :: "nat \<Rightarrow> event list list \<Rightarrow> nat option \<Rightarrow> u64 \<Rightarrow> nat option" where
  "find_first i [] cur_buf earliest = cur_buf"
| "find_first i (w # ws) cur_buf earliest =
     (case w of
        [] \<Rightarrow> find_first (i + 1) ws cur_buf earliest
      | x # _ \<Rightarrow>
          if timestamp x < earliest then find_first (i + 1) ws (Some i) (timestamp x)
          else find_first (i + 1) ws cur_buf earliest)"

lemma find_earliest_first:
  "list_all2 (\<lambda>(b, c) w. cursor b c w) bs ws \<Longrightarrow>
   find_earliest i bs cur_buf earliest = find_first i ws cur_buf earliest"
proof (induction bs ws arbitrary: i cur_buf earliest rule: list_all2_induct)
  case (Cons bc bs w ws)
  then show ?case
    using cursor_Nil [of "fst bc" "snd bc"] cursor_Cons [of "fst bc" "snd bc"]
    by (cases bc; cases w) auto
qed simp

lemma find_first_spec:
  "find_first i ws cur_buf earliest = r \<Longrightarrow>
   r = cur_buf \<and> (\<forall>w \<in> set ws. w \<noteq> [] \<longrightarrow> earliest \<le> timestamp (hd w)) \<or>
   (\<exists>k < length ws. r = Some (i + k) \<and> ws ! k \<noteq> [] \<and> timestamp (hd (ws ! k)) < earliest \<and>
     (\<forall>w \<in> set ws. w \<noteq> [] \<longrightarrow> timestamp (hd (ws ! k)) \<le> timestamp (hd w)))"
proof (induction ws arbitrary: i cur_buf earliest)
  case Nil
  then show ?case by simp
next
  case (Cons w ws)
  consider (take) x xs where "w = x # xs" "timestamp x < earliest"
    | (leave) "w = [] \<or> earliest \<le> timestamp (hd w)"
  proof (cases w)
    case (Cons x xs)
    then show ?thesis using that(1) [of x xs] that(2) by (cases "timestamp x < earliest") auto
  qed (use that(2) in simp)
  then show ?case
  proof cases
    case take
    then have "find_first (i + 1) ws (Some i) (timestamp x) = r" using Cons.prems by simp
    from Cons.IH [OF this] show ?thesis
    proof (elim disjE exE conjE)
      assume "r = Some i" "\<forall>w \<in> set ws. w \<noteq> [] \<longrightarrow> timestamp x \<le> timestamp (hd w)"
      then show ?thesis using take by (intro disjI2 exI [of _ 0]) auto
    next
      fix k
      assume "k < length ws" "r = Some (i + 1 + k)" "ws ! k \<noteq> []" "timestamp (hd (ws ! k)) < timestamp x"
        "\<forall>w \<in> set ws. w \<noteq> [] \<longrightarrow> timestamp (hd (ws ! k)) \<le> timestamp (hd w)"
      then show ?thesis using take by (intro disjI2 exI [of _ "Suc k"]) auto
    qed
  next
    case leave
    then have "find_first (i + 1) ws cur_buf earliest = r"
      using Cons.prems by (auto simp: not_less split: list.splits)
    from Cons.IH [OF this] show ?thesis
    proof (elim disjE exE conjE)
      assume "r = cur_buf" "\<forall>w \<in> set ws. w \<noteq> [] \<longrightarrow> earliest \<le> timestamp (hd w)"
      then show ?thesis using leave by auto
    next
      fix k
      assume k: "k < length ws" "r = Some (i + 1 + k)" "ws ! k \<noteq> []" "timestamp (hd (ws ! k)) < earliest"
        "\<forall>w \<in> set ws. w \<noteq> [] \<longrightarrow> timestamp (hd (ws ! k)) \<le> timestamp (hd w)"
      then have "w = [] \<or> timestamp (hd (ws ! k)) \<le> timestamp (hd w)" using leave by auto
      then show ?thesis using k by (intro disjI2 exI [of _ "Suc k"]) auto
    qed
  qed
qed

text \<open>Which events of a printout came from buffer \<open>i\<close>, and that a printout is in order of time.\<close>

definition from_buffer :: "nat \<Rightarrow> (nat \<times> event) list \<Rightarrow> event list" where
  "from_buffer i out = map snd (filter (\<lambda>p. fst p = i) out)"

definition by_time :: "event \<Rightarrow> event \<Rightarrow> bool" where
  "by_time x y \<longleftrightarrow> timestamp x \<le> timestamp y"

lemma from_buffer_Cons: "from_buffer i ((k, x) # out) = (if k = i then x # from_buffer i out else from_buffer i out)"
  by (simp add: from_buffer_def)

lemma in_from_buffer: "(k, x) \<in> set out \<Longrightarrow> x \<in> set (from_buffer k out)"
  by (force simp: from_buffer_def)

lemma sum_list_length_update:
  assumes "k < length ws" "ws ! k = x # xs"
  shows "Suc (sum_list (map length (ws[k := xs]))) = sum_list (map length ws)"
proof -
  have "ws = take k ws @ (x # xs) # drop (Suc k) ws" using assms by (metis id_take_nth_drop)
  then have "sum_list (map length ws) =
      sum_list (map length (take k ws)) + Suc (length xs) + sum_list (map length (drop (Suc k) ws))"
    by (metis (no_types, lifting) add.assoc list.map(2) length_Cons map_append sum_list.Cons sum_list.append)
  moreover have "ws[k := xs] = take k ws @ xs # drop (Suc k) ws" using assms(1) by (rule upd_conv_take_nth_drop)
  ultimately show ?thesis by simp
qed

lemma merge_loop_ok:
  "list_all2 (\<lambda>(b, c) w. cursor b c w) bs ws \<Longrightarrow> \<forall>w \<in> set ws. \<forall>e \<in> set w. timestamp e \<noteq> - 1 \<Longrightarrow>
   sum_list (map length ws) < n \<Longrightarrow>
   \<exists>out. merge_loop n bs = Some out \<and> (\<forall>i < length ws. from_buffer i out = ws ! i) \<and>
     (\<forall>p \<in> set out. fst p < length ws) \<and>
     ((\<forall>w \<in> set ws. sorted_wrt by_time w) \<longrightarrow> sorted_wrt by_time (map snd out))"
proof (induction n arbitrary: bs ws)
  case 0
  then show ?case by simp
next
  case (Suc n)
  note find = find_earliest_first [OF Suc.prems(1), of 0 None "- 1"]
  have len: "length bs = length ws" using Suc.prems(1) by (rule list_all2_lengthD)
  show ?case
  proof (cases "find_first 0 ws None (- 1)")
    case None
    have empty: "w = []" if "w \<in> set ws" for w
    proof (rule ccontr)
      assume w: "w \<noteq> []"
      then have "- 1 \<le> timestamp (hd w)" using find_first_spec [OF None] that by auto
      then have "timestamp (hd w) = - 1" using word_n1_ge [of "timestamp (hd w)"] by (simp add: order_antisym)
      then show False using Suc.prems(2) that w by (metis hd_in_set)
    qed
    have "from_buffer i [] = ws ! i" if "i < length ws" for i
      using empty [OF nth_mem [OF that]] by (simp add: from_buffer_def)
    then have "merge_loop (Suc n) bs = Some [] \<and> (\<forall>i < length ws. from_buffer i [] = ws ! i)"
      using None find by simp
    then show ?thesis by (intro exI [of _ "[]"]) simp
  next
    case (Some k)
    then have k: "k < length ws" "ws ! k \<noteq> []"
      "\<And>w. w \<in> set ws \<Longrightarrow> w \<noteq> [] \<Longrightarrow> timestamp (hd (ws ! k)) \<le> timestamp (hd w)"
      using find_first_spec [OF Some] by auto
    obtain x xs where x: "ws ! k = x # xs" using k(2) by (cases "ws ! k") auto
    obtain b c where bc: "bs ! k = (b, c)" by (cases "bs ! k")
    have "cursor b c (x # xs)" using list_all2_nthD2 [OF Suc.prems(1) k(1)] bc x by simp
    note cc = cursor_Cons [OF this]
    let ?bs = "bs[k := (b, (c + 1) mod BUFFER_SIZE)]" and ?ws = "ws[k := xs]"
    have all: "list_all2 (\<lambda>(b, c) w. cursor b c w) ?bs ?ws"
      by (rule list_all2_update_cong [OF Suc.prems(1)]) (use cc(4) in simp)
    have xs: "set xs \<subseteq> set (ws ! k)" using x by auto
    have sub: "\<exists>w' \<in> set ws. set w \<subseteq> set w'" if "w \<in> set ?ws" for w
    proof (cases "w = xs")
      case True
      then show ?thesis using xs nth_mem [OF k(1)] by blast
    next
      case False
      then show ?thesis using that set_update_subset_insert [of ws k xs] by blast
    qed
    have ts: "\<forall>w \<in> set ?ws. \<forall>e \<in> set w. timestamp e \<noteq> - 1" using sub Suc.prems(2) by blast
    have sum: "sum_list (map length ?ws) < n"
      using sum_list_length_update [OF k(1) x] Suc.prems(3) by simp
    obtain out where out: "merge_loop n ?bs = Some out" "\<forall>i < length ?ws. from_buffer i out = ?ws ! i"
      "\<forall>p \<in> set out. fst p < length ?ws"
      "(\<forall>w \<in> set ?ws. sorted_wrt by_time w) \<longrightarrow> sorted_wrt by_time (map snd out)"
      using Suc.IH [OF all ts sum] by blast
    have "merge_loop (Suc n) bs = Some ((k, x) # out)"
      using Some find bc cc(2) out(1) by simp
    moreover have "from_buffer i ((k, x) # out) = ws ! i" if "i < length ws" for i
      using that out(2) x by (auto simp: from_buffer_Cons nth_list_update)
    moreover have "sorted_wrt by_time (map snd ((k, x) # out))" if so: "\<forall>w \<in> set ws. sorted_wrt by_time w"
    proof -
      have "sorted_wrt by_time (ws ! k)" using so k(1) by simp
      then have "sorted_wrt by_time xs" by (simp add: x)
      then have "\<forall>w \<in> set ?ws. sorted_wrt by_time w"
        using so set_update_subset_insert [of ws k xs] by blast
      then have s: "sorted_wrt by_time (map snd out)" using out(4) by blast
      have "by_time x e" if "(k', e) \<in> set out" for k' e
      proof -
        have k': "k' < length ws" using out(3) that by fastforce
        then have "e \<in> set (?ws ! k')" using out(2) in_from_buffer [OF that] by simp
        then have e: "e \<in> set (ws ! k')" using x k(1) by (cases "k' = k") auto
        then have ne: "ws ! k' \<noteq> []" "ws ! k' \<in> set ws" using k' by auto
        then have "by_time (hd (ws ! k')) e"
          using so e by (cases "ws ! k'") (fastforce simp: by_time_def)+
        then show ?thesis using k(3) [OF ne(2,1)] x by (simp add: by_time_def)
      qed
      then show ?thesis using s by (auto simp: image_iff)
    qed
    ultimately show ?thesis using out(3) k(1) by (intro exI [of _ "(k, x) # out"]) auto
  qed
qed

subsection \<open>The whole printout\<close>

text \<open>The latest of the oldest times, in terms of the events the buffers still hold.\<close>

definition window_start :: "event list list \<Rightarrow> u64" where
  "window_start hs = fold (\<lambda>w st. if w \<noteq> [] \<and> timestamp (hd w) > st then timestamp (hd w) else st)
     (map kept hs) 0"

lemma kept_Nil: "kept h = [] \<longleftrightarrow> h = []"
proof (cases "h = []")
  case False
  then have "0 < length h" by simp
  then have "length h + 1 - BUFFER_SIZE < length h" using size_pos(2) by linarith
  then show ?thesis using False by (simp add: kept_def)
qed (simp add: kept_def)

lemma start_time_window:
  assumes "list_all2 ring buffers hs"
  shows "start_time (map (\<lambda>b. (b, first_index b)) buffers) = window_start hs"
proof -
  have "fold (\<lambda>(b, c) st. let e = events b c
     in if format e \<noteq> None \<and> timestamp e > st then timestamp e else st)
       (map (\<lambda>b. (b, first_index b)) buffers) st =
     fold (\<lambda>w st. if w \<noteq> [] \<and> timestamp (hd w) > st then timestamp (hd w) else st) (map kept hs) st" for st
    using assms
  proof (induction buffers hs arbitrary: st rule: list_all2_induct)
    case (Cons b bs h hs)
    have "(let e = events b (first_index b) in if format e \<noteq> None \<and> timestamp e > st then timestamp e else st) =
        (if kept h \<noteq> [] \<and> timestamp (hd (kept h)) > st then timestamp (hd (kept h)) else st)"
    proof (cases "kept h")
      case Nil
      then have "h = []" by (simp add: kept_Nil)
      then have "format (events b (first_index b)) = None"
        using Cons.hyps(1) cursor_Nil [of b "first_index b"] cursor_first [OF Cons.hyps(1)]
        by (simp add: ring_def kept_def)
      then show ?thesis using Nil by simp
    next
      case (Cons x xs)
      then show ?thesis using cursor_Cons [of b "first_index b" x xs] cursor_first [OF \<open>ring b h\<close>] by simp
    qed
    then show ?case using Cons.IH by simp
  qed simp
  then show ?thesis by (simp add: start_time_def window_start_def)
qed

lemma sum_length_bound: "\<forall>w \<in> set ws. length w \<le> n \<Longrightarrow> sum_list (map length ws) \<le> length ws * n"
  by (induction ws) auto

lemma print_internal_ok:
  assumes rings: "list_all2 ring buffers hs" and ts: "\<forall>h \<in> set hs. \<forall>e \<in> set h. timestamp e \<noteq> - 1"
  shows "\<exists>out. print_internal buffers = Some out \<and>
     (\<forall>i < length hs. from_buffer i out = dropWhile (\<lambda>e. timestamp e < window_start hs) (kept (hs ! i))) \<and>
     (\<forall>p \<in> set out. fst p < length hs) \<and>
     ((\<forall>h \<in> set hs. sorted_wrt by_time h) \<longrightarrow> sorted_wrt by_time (map snd out))"
proof -
  let ?bs = "map (\<lambda>b. (b, first_index b)) buffers" and ?st = "window_start hs"
  let ?ws = "map (\<lambda>h. dropWhile (\<lambda>e. timestamp e < ?st) (kept h)) hs"
  have "list_all2 (\<lambda>(b, c) w. cursor b c w) ?bs (map kept hs)"
    using rings by (auto simp: list_all2_conv_all_nth cursor_first)
  from skip_all_ok [OF this, of ?st] obtain bs' where bs': "skip_all ?st ?bs = Some bs'"
    "length bs' = length buffers" "list_all2 (\<lambda>(b, c) w. cursor b c w) bs' ?ws"
    by (auto simp: comp_def)
  have len: "length buffers = length hs" using rings by (rule list_all2_lengthD)
  have sub: "set (dropWhile P (kept h)) \<subseteq> set h" for P h
    unfolding kept_def using set_dropWhileD [of _ P] set_drop_subset by fastforce
  have ts': "\<forall>w \<in> set ?ws. \<forall>e \<in> set w. timestamp e \<noteq> - 1" using ts sub by fastforce
  have "\<forall>w \<in> set ?ws. length w \<le> BUFFER_SIZE"
    using bs'(3) cursor_length by (fastforce simp: list_all2_conv_all_nth in_set_conv_nth less_imp_le)
  then have sum: "sum_list (map length ?ws) < length buffers * BUFFER_SIZE + 1"
    using sum_length_bound [of ?ws BUFFER_SIZE] len by simp
  obtain out where out: "merge_loop (length buffers * BUFFER_SIZE + 1) bs' = Some out"
    "\<forall>i < length ?ws. from_buffer i out = ?ws ! i" "\<forall>p \<in> set out. fst p < length ?ws"
    "(\<forall>w \<in> set ?ws. sorted_wrt by_time w) \<longrightarrow> sorted_wrt by_time (map snd out)"
    using merge_loop_ok [OF bs'(3) ts' sum] by blast
  have "sorted_wrt by_time (dropWhile P (kept h))" if "sorted_wrt by_time h" for P h
    using that by (simp add: kept_def sorted_wrt_drop sorted_wrt_dropWhile)
  then have "(\<forall>h \<in> set hs. sorted_wrt by_time h) \<longrightarrow> sorted_wrt by_time (map snd out)"
    using out(4) by auto
  moreover have "print_internal buffers = Some out"
    using bs'(1) out(1) by (simp add: print_internal_def start_time_window [OF rings])
  ultimately show ?thesis using out(2,3) by (intro exI [of _ out]) simp
qed

subsection \<open>Buffers and threads\<close>

text \<open>
  The static state of the class: the buffers by their address, the table \<open>thread_buffers\<close>, and
  for each thread its pointer \<open>tb\<close>. Following a pointer to a deleted buffer is \<open>UseAfterFree\<close>.
\<close>

record trace_state =
  heap :: "nat \<Rightarrow> buffer option"
  fresh :: nat
  tb :: "nat \<Rightarrow> nat option"
  thread_buffers :: "nat list"
  frozen :: bool

definition trace_init :: trace_state where
  "trace_init = \<lparr>heap = (\<lambda>_. None), fresh = 0, tb = (\<lambda>_. None), thread_buffers = [], frozen = False\<rparr>"

definition deref :: "trace_state \<Rightarrow> nat \<Rightarrow> buffer res" where
  "deref st p = (case heap st p of None \<Rightarrow> Inl UseAfterFree | Some b \<Rightarrow> Inr b)"

definition trace_record :: "nat \<Rightarrow> u64 \<Rightarrow> string \<Rightarrow> u32 \<Rightarrow> u32 \<Rightarrow> u32 \<Rightarrow> u32 \<Rightarrow> trace_state \<Rightarrow> trace_state res" where
  "trace_record t ts fmt a0 a1 a2 a3 st =
     (case tb st t of
        None \<Rightarrow> Inl NullDeref
      | Some p \<Rightarrow> rbind (deref st p) (\<lambda>b.
          Inr (st\<lparr>heap := (heap st)(p \<mapsto> buffer_record (frozen st) ts fmt a0 a1 a2 a3 b)\<rparr>)))"

definition freeze :: "trace_state \<Rightarrow> trace_state" where
  "freeze st = st\<lparr>frozen := True\<rparr>"

definition add_ref :: "int \<Rightarrow> nat \<Rightarrow> trace_state \<Rightarrow> trace_state res" where
  "add_ref d p st = rbind (deref st p) (\<lambda>b.
     Inr (st\<lparr>heap := (heap st)(p \<mapsto> b\<lparr>ref_count := ref_count b + d\<rparr>)\<rparr>))"

text \<open>The constructor in thread \<open>t\<close>; it returns the member \<open>buffer\<close> of the new object.\<close>

definition thread_buffer_new :: "nat \<Rightarrow> u64 \<Rightarrow> string \<Rightarrow> trace_state \<Rightarrow> (nat \<times> trace_state) res" where
  "thread_buffer_new t ts name st =
     rbind (if tb st t = None then
              trace_record t ts ''Created new thread_buffer'' 0 0 0 0
                (st\<lparr>heap := (heap st)(fresh st \<mapsto> new_buffer name), fresh := fresh st + 1,
                    tb := (tb st)(t := Some (fresh st)),
                    thread_buffers := thread_buffers st @ [fresh st]\<rparr>)
            else Inr st) (\<lambda>st1.
       case tb st1 t of
         None \<Rightarrow> Inl NullDeref
       | Some p \<Rightarrow> rbind (add_ref 1 p st1) (\<lambda>st2. Inr (p, st2)))"

definition thread_buffer_delete :: "nat \<Rightarrow> nat \<Rightarrow> trace_state \<Rightarrow> trace_state res" where
  "thread_buffer_delete t p st =
     rbind (add_ref (- 1) p st) (\<lambda>st1.
     rbind (deref st1 p) (\<lambda>b.
       Inr (if ref_count b = 0 then st1\<lparr>tb := (tb st1)(t := None)\<rparr> else st1)))"

fun cleanup_loop :: "nat \<Rightarrow> trace_state \<Rightarrow> trace_state res" where
  "cleanup_loop 0 st = Inr st"
| "cleanup_loop (Suc i) st =
     rbind (vec_at (thread_buffers st) (int i)) (\<lambda>p.
     rbind (deref st p) (\<lambda>b.
       if ref_count b = 0 then
         rbind (vec_erase (thread_buffers st) (int i)) (\<lambda>tbs.
           cleanup_loop i (st\<lparr>heap := (heap st)(p := None), thread_buffers := tbs\<rparr>))
       else cleanup_loop i st))"

definition cleanup :: "trace_state \<Rightarrow> trace_state res" where
  "cleanup st = cleanup_loop (length (thread_buffers st)) st"

subsection \<open>No buffer is used after it is deleted\<close>

text \<open>
  \<open>objs\<close> are the \<open>thread_buffer\<close> objects alive, as pairs of their thread and their pointer.
  A buffer counts the objects that point to it, and a thread has a buffer exactly while an object
  of it is alive.
\<close>

definition refs :: "(nat \<times> nat) multiset \<Rightarrow> nat \<Rightarrow> nat" where
  "refs objs p = count (image_mset snd objs) p"

definition trace_inv :: "trace_state \<Rightarrow> (nat \<times> nat) multiset \<Rightarrow> bool" where
  "trace_inv st objs \<longleftrightarrow> distinct (thread_buffers st) \<and> dom (heap st) = set (thread_buffers st) \<and>
     (\<forall>p \<in> set (thread_buffers st). p < fresh st) \<and>
     (\<forall>p b. heap st p = Some b \<longrightarrow> ref_count b = int (refs objs p)) \<and>
     (\<forall>t p. (t, p) \<in># objs \<longleftrightarrow> tb st t = Some p) \<and>
     (\<forall>t p. tb st t = Some p \<longrightarrow> p \<in> set (thread_buffers st)) \<and>
     (\<forall>t t' p. tb st t = Some p \<and> tb st t' = Some p \<longrightarrow> t = t')"

lemma trace_invD:
  assumes "trace_inv st objs"
  shows "distinct (thread_buffers st)" "dom (heap st) = set (thread_buffers st)"
    "p \<in> set (thread_buffers st) \<Longrightarrow> p < fresh st" "heap st p = Some b \<Longrightarrow> ref_count b = int (refs objs p)"
    "(t, p) \<in># objs \<longleftrightarrow> tb st t = Some p" "tb st t = Some p \<Longrightarrow> p \<in> set (thread_buffers st)"
    "tb st t = Some p \<Longrightarrow> tb st t' = Some p \<Longrightarrow> t = t'"
  using assms by (auto simp: trace_inv_def)

lemma trace_invI:
  assumes "distinct (thread_buffers st)" "dom (heap st) = set (thread_buffers st)"
    "\<And>p. p \<in> set (thread_buffers st) \<Longrightarrow> p < fresh st"
    "\<And>p b. heap st p = Some b \<Longrightarrow> ref_count b = int (refs objs p)"
    "\<And>t p. (t, p) \<in># objs \<longleftrightarrow> tb st t = Some p"
    "\<And>t p. tb st t = Some p \<Longrightarrow> p \<in> set (thread_buffers st)"
    "\<And>t t' p. tb st t = Some p \<Longrightarrow> tb st t' = Some p \<Longrightarrow> t = t'"
  shows "trace_inv st objs"
  using assms by (auto simp: trace_inv_def)

lemma refs_0_iff: "refs objs p = 0 \<longleftrightarrow> (\<forall>t. (t, p) \<notin># objs)"
  by (force simp: refs_def count_eq_zero_iff)

lemma refs_add: "refs (add_mset (t, q) objs) p = (if p = q then Suc (refs objs p) else refs objs p)"
  by (simp add: refs_def)

lemma refs_remove: "(t, q) \<in># objs \<Longrightarrow>
    refs (objs - {#(t, q)#}) p = (if p = q then refs objs p - 1 else refs objs p)"
  by (drule multi_member_split) (auto simp: refs_add)

lemma record_refs [simp]: "ref_count (buffer_record fz ts fmt a0 a1 a2 a3 b) = ref_count b"
  by (simp add: buffer_record_def)

lemma trace_inv_init: "trace_inv trace_init {#}"
  by (simp add: trace_inv_def trace_init_def dom_def)

lemma owned_heap:
  assumes "trace_inv st objs" "(t, p) \<in># objs"
  obtains b where "tb st t = Some p" "heap st p = Some b" "ref_count b = int (refs objs p)"
proof -
  have t: "tb st t = Some p" using trace_invD(5) [OF assms(1)] assms(2) by simp
  then have "p \<in> dom (heap st)" using trace_invD(2,6) [OF assms(1)] by simp
  then obtain b where "heap st p = Some b" by auto
  then show ?thesis using that t trace_invD(4) [OF assms(1)] by blast
qed

lemma trace_record_ok:
  assumes inv: "trace_inv st objs" and own: "(t, p) \<in># objs"
  shows "\<exists>st'. trace_record t ts fmt a0 a1 a2 a3 st = Inr st' \<and> trace_inv st' objs"
proof -
  obtain b where b: "tb st t = Some p" "heap st p = Some b" "ref_count b = int (refs objs p)"
    using owned_heap [OF inv own] .
  have "insert p (dom (heap st)) = dom (heap st)" using b(2) by auto
  then show ?thesis using b inv by (auto simp: trace_record_def deref_def trace_inv_def)
qed

lemma add_ref_ok:
  assumes "heap st p = Some b"
  shows "add_ref d p st = Inr (st\<lparr>heap := (heap st)(p \<mapsto> b\<lparr>ref_count := ref_count b + d\<rparr>)\<rparr>)"
  using assms by (simp add: add_ref_def deref_def)

lemma thread_buffer_new_ok:
  assumes inv: "trace_inv st objs"
  shows "\<exists>p st'. thread_buffer_new t ts name st = Inr (p, st') \<and> trace_inv st' (add_mset (t, p) objs)"
proof (cases "tb st t")
  case (Some p)
  then have own: "(t, p) \<in># objs" using trace_invD(5) [OF inv] by simp
  obtain b where b: "heap st p = Some b" "ref_count b = int (refs objs p)" using owned_heap [OF inv own] .
  have dom: "insert p (dom (heap st)) = dom (heap st)" using b(1) by auto
  have "trace_inv (st\<lparr>heap := (heap st)(p \<mapsto> b\<lparr>ref_count := ref_count b + 1\<rparr>)\<rparr>) (add_mset (t, p) objs)"
    using inv own b(2) dom Some by (auto simp: trace_inv_def refs_add)
  then show ?thesis using Some b(1) by (simp add: thread_buffer_new_def add_ref_ok)
next
  case None
  let ?p = "fresh st"
  have new: "?p \<notin> set (thread_buffers st)" using trace_invD(3) [OF inv, of ?p] by auto
  then have out: "(t', ?p) \<notin># objs" for t' using trace_invD(5,6) [OF inv, of t' ?p] by auto
  define b where "b = buffer_record (frozen st) ts ''Created new thread_buffer'' 0 0 0 0 (new_buffer name)"
  have b: "ref_count b = 0" by (simp add: b_def new_buffer_def)
  let ?st = "st\<lparr>heap := (heap st)(?p \<mapsto> b\<lparr>ref_count := 1\<rparr>), fresh := ?p + 1, tb := (tb st)(t := Some ?p),
    thread_buffers := thread_buffers st @ [?p]\<rparr>"
  have "thread_buffer_new t ts name st = Inr (?p, ?st)"
    using None b by (simp add: thread_buffer_new_def trace_record_def deref_def add_ref_def flip: b_def)
  moreover have "refs objs ?p = 0" using out by (simp add: refs_0_iff)
  moreover have "(t, q) \<notin># objs" for q using trace_invD(5) [OF inv, of t q] None by simp
  ultimately show ?thesis
    using inv new out
    by (auto simp: trace_inv_def refs_add less_Suc_eq)
qed

lemma thread_buffer_delete_ok:
  assumes inv: "trace_inv st objs" and own: "(t, p) \<in># objs"
  shows "\<exists>st'. thread_buffer_delete t p st = Inr st' \<and> trace_inv st' (objs - {#(t, p)#})"
proof -
  obtain b where b: "tb st t = Some p" "heap st p = Some b" "ref_count b = int (refs objs p)"
    using owned_heap [OF inv own] .
  have r: "refs objs p \<noteq> 0" using own refs_0_iff by blast
  let ?objs = "objs - {#(t, p)#}"
  let ?st1 = "st\<lparr>heap := (heap st)(p \<mapsto> b\<lparr>ref_count := ref_count b - 1\<rparr>)\<rparr>"
  have dom: "insert p (dom (heap st)) = dom (heap st)" using b(2) by auto
  have last: "refs ?objs p = 0 \<longleftrightarrow> (t, p) \<notin># ?objs"
  proof
    show "(t, p) \<notin># ?objs" if "refs ?objs p = 0" using that refs_0_iff by blast
    show "refs ?objs p = 0" if "(t, p) \<notin># ?objs"
    proof -
      have "t' = t" if "(t', p) \<in># ?objs" for t'
        using in_diffD [OF that] trace_invD(5,7) [OF inv] b(1) by metis
      then show ?thesis using that refs_0_iff by metis
    qed
  qed
  have mem: "(t', q) \<in># ?objs \<longleftrightarrow> tb st t' = Some q \<and> ((t', q) \<noteq> (t, p) \<or> (t, p) \<in># ?objs)" for t' q
    using trace_invD(5) [OF inv, of t' q] own by (cases "(t', q) = (t, p)") (auto simp: in_diff_count)
  have d: "thread_buffer_delete t p st =
      Inr (if refs ?objs p = 0 then ?st1\<lparr>tb := (tb st)(t := None)\<rparr> else ?st1)"
    using b r refs_remove [OF own, of p]
    by (simp add: thread_buffer_delete_def add_ref_ok deref_def)
  have cnt: "ref_count c = int (refs ?objs q)" if "heap ?st1 q = Some c" for q c
    using that b(3) r refs_remove [OF own] trace_invD(4) [OF inv, of q c] by (auto split: if_splits)
  have "trace_inv (if refs ?objs p = 0 then ?st1\<lparr>tb := (tb st)(t := None)\<rparr> else ?st1) ?objs"
  proof (rule trace_invI)
    let ?st = "if refs ?objs p = 0 then ?st1\<lparr>tb := (tb st)(t := None)\<rparr> else ?st1"
    have st: "thread_buffers ?st = thread_buffers st" "heap ?st = heap ?st1" "fresh ?st = fresh st" by simp_all
    have tb: "tb ?st t' = (if refs ?objs p = 0 \<and> t' = t then None else tb st t')" for t' by simp
    show "distinct (thread_buffers ?st)" unfolding st by (rule trace_invD(1) [OF inv])
    show "dom (heap ?st) = set (thread_buffers ?st)" unfolding st using dom trace_invD(2) [OF inv] by simp
    show "q < fresh ?st" if "q \<in> set (thread_buffers ?st)" for q
      using that trace_invD(3) [OF inv] unfolding st by blast
    show "ref_count c = int (refs ?objs q)" if "heap ?st q = Some c" for q c
      using that cnt unfolding st by blast
    show "(t', q) \<in># ?objs \<longleftrightarrow> tb ?st t' = Some q" for t' q
      using mem [of t' q] last b(1) tb [of t'] by auto
    show "q \<in> set (thread_buffers ?st)" if "tb ?st t' = Some q" for t' q
      using that trace_invD(6) [OF inv, of t' q] unfolding st tb by (simp split: if_splits)
    show "t1 = t2" if "tb ?st t1 = Some q" "tb ?st t2 = Some q" for t1 t2 q
      using that trace_invD(7) [OF inv, of t1 q t2] unfolding tb by (simp split: if_splits)
  qed
  then show ?thesis using d by blast
qed

text \<open>\<open>cleanup\<close> goes down the table by index and erases as it goes; in effect it filters.\<close>

definition in_use :: "trace_state \<Rightarrow> nat \<Rightarrow> bool" where
  "in_use st p \<longleftrightarrow> (\<exists>b. heap st p = Some b \<and> ref_count b \<noteq> 0)"

lemma cleanup_loop_ok:
  "i \<le> length (thread_buffers st) \<Longrightarrow> distinct (thread_buffers st) \<Longrightarrow>
   \<forall>p \<in> set (thread_buffers st). heap st p \<noteq> None \<Longrightarrow>
   cleanup_loop i st = Inr (st\<lparr>
     heap := (\<lambda>p. if p \<in> set (take i (thread_buffers st)) \<and> \<not> in_use st p then None else heap st p),
     thread_buffers := filter (in_use st) (take i (thread_buffers st)) @ drop i (thread_buffers st)\<rparr>)"
proof (induction i arbitrary: st)
  case 0
  then show ?case by simp
next
  case (Suc i)
  let ?tbs = "thread_buffers st"
  let ?p = "?tbs ! i"
  have i: "i < length ?tbs" using Suc.prems(1) by simp
  then have p: "?p \<in> set ?tbs" "take (Suc i) ?tbs = take i ?tbs @ [?p]" "drop i ?tbs = ?p # drop (Suc i) ?tbs"
    by (simp_all add: take_Suc_conv_app_nth Cons_nth_drop_Suc)
  obtain b where b: "heap st ?p = Some b" using Suc.prems(3) p(1) by fastforce
  show ?case
  proof (cases "ref_count b = 0")
    case False
    then have "in_use st ?p" using b by (simp add: in_use_def)
    moreover have "cleanup_loop (Suc i) st = cleanup_loop i st"
      using i b False by (simp add: vec_at_def deref_def)
    moreover have "(\<lambda>q. if q \<in> set (take (Suc i) ?tbs) \<and> \<not> in_use st q then None else heap st q) =
        (\<lambda>q. if q \<in> set (take i ?tbs) \<and> \<not> in_use st q then None else heap st q)"
      using \<open>in_use st ?p\<close> by (auto simp: p(2))
    ultimately show ?thesis using Suc.IH [of st] Suc.prems i by (simp add: p(2,3))
  next
    case True
    let ?tbs' = "take i ?tbs @ drop (Suc i) ?tbs"
    let ?st' = "st\<lparr>heap := (heap st)(?p := None), thread_buffers := ?tbs'\<rparr>"
    have nin: "?p \<notin> set (take i ?tbs)" "?p \<notin> set (drop (Suc i) ?tbs)"
      using Suc.prems(2) i by (auto simp: distinct_conv_nth in_set_conv_nth)
    have dead: "\<not> in_use st ?p" using b True by (simp add: in_use_def)
    have same: "in_use ?st' q \<longleftrightarrow> in_use st q" if "q \<noteq> ?p" for q using that by (simp add: in_use_def)
    have filt: "filter (in_use ?st') (take i ?tbs) = filter (in_use st) (take i ?tbs)"
    proof (rule filter_cong [OF refl])
      fix q assume "q \<in> set (take i ?tbs)"
      then have "q \<noteq> ?p" using nin(1) by auto
      then show "in_use ?st' q \<longleftrightarrow> in_use st q" by (rule same)
    qed
    have heap': "(\<lambda>q. if q \<in> set (take i ?tbs') \<and> \<not> in_use ?st' q then None else heap ?st' q) =
        (\<lambda>q. if q \<in> set (take (Suc i) ?tbs) \<and> \<not> in_use st q then None else heap st q)"
      using i nin(1) dead same by (auto simp: p(2))
    have "distinct ?tbs'" using Suc.prems(2) i
      by (metis distinct_append append_take_drop_id p(3) distinct.simps(2) Int_insert_right set_simps(2)
          disjoint_insert(2))
    moreover have "\<forall>q \<in> set ?tbs'. heap ?st' q \<noteq> None"
      using Suc.prems(3) nin by (auto dest: in_set_takeD in_set_dropD)
    ultimately have "cleanup_loop i ?st' = Inr (?st'\<lparr>
        heap := (\<lambda>q. if q \<in> set (take i ?tbs') \<and> \<not> in_use ?st' q then None else heap ?st' q),
        thread_buffers := filter (in_use ?st') (take i ?tbs') @ drop i ?tbs'\<rparr>)"
      using Suc.IH [of ?st'] i by simp
    moreover have "cleanup_loop (Suc i) st = cleanup_loop i ?st'"
      using i b True by (simp add: vec_at_def vec_erase_def deref_def)
    ultimately show ?thesis using i filt dead unfolding heap' by (simp add: p(2))
  qed
qed

lemma cleanup_ok:
  assumes inv: "trace_inv st objs"
  shows "\<exists>st'. cleanup st = Inr st' \<and> trace_inv st' objs \<and>
     thread_buffers st' = filter (\<lambda>p. \<exists>t. (t, p) \<in># objs) (thread_buffers st) \<and>
     (\<forall>p \<in> set (thread_buffers st'). heap st' p = heap st p)"
proof -
  let ?tbs = "thread_buffers st"
  have ex: "\<forall>p \<in> set ?tbs. heap st p \<noteq> None" using trace_invD(2) [OF inv] by auto
  have use: "in_use st p \<longleftrightarrow> (\<exists>t. (t, p) \<in># objs)" if p: "p \<in> set ?tbs" for p
  proof -
    obtain b where "heap st p = Some b" using ex p by fastforce
    then show ?thesis using trace_invD(4) [OF inv] refs_0_iff [of objs p] by (simp add: in_use_def)
  qed
  let ?st = "st\<lparr>heap := (\<lambda>p. if p \<in> set ?tbs \<and> \<not> in_use st p then None else heap st p),
     thread_buffers := filter (in_use st) ?tbs\<rparr>"
  have c: "cleanup st = Inr ?st"
    using cleanup_loop_ok [of "length ?tbs" st] ex trace_invD(1) [OF inv] by (simp add: cleanup_def)
  have "trace_inv ?st objs"
  proof (rule trace_invI)
    show "dom (heap ?st) = set (thread_buffers ?st)"
      using trace_invD(2) [OF inv] by (auto simp: in_use_def split: if_splits)
    show "p \<in> set (thread_buffers ?st)" if "tb ?st t = Some p" for t p
      using that trace_invD(5,6) [OF inv, of t p] use by auto
  qed (use inv in \<open>auto simp: trace_inv_def split: if_splits\<close>)
  moreover have "filter (in_use st) ?tbs = filter (\<lambda>p. \<exists>t. (t, p) \<in># objs) ?tbs"
    using use by (intro filter_cong) auto
  moreover have "heap ?st p = heap st p" if "p \<in> set (thread_buffers ?st)" for p
    using that by simp
  ultimately show ?thesis using c by (intro exI [of _ ?st]) simp
qed

text \<open>What threads can do, in any order.\<close>

inductive trace_reach :: "trace_state \<Rightarrow> (nat \<times> nat) multiset \<Rightarrow> bool" where
  trace_start: "trace_reach trace_init {#}"
| trace_new: "trace_reach st objs \<Longrightarrow> thread_buffer_new t ts name st = Inr (p, st') \<Longrightarrow>
    trace_reach st' (add_mset (t, p) objs)"
| trace_delete: "trace_reach st objs \<Longrightarrow> (t, p) \<in># objs \<Longrightarrow> thread_buffer_delete t p st = Inr st' \<Longrightarrow>
    trace_reach st' (objs - {#(t, p)#})"
| trace_event: "trace_reach st objs \<Longrightarrow> (t, p) \<in># objs \<Longrightarrow> trace_record t ts fmt a0 a1 a2 a3 st = Inr st' \<Longrightarrow>
    trace_reach st' objs"
| trace_cleanup: "trace_reach st objs \<Longrightarrow> cleanup st = Inr st' \<Longrightarrow> trace_reach st' objs"
| trace_freeze: "trace_reach st objs \<Longrightarrow> trace_reach (freeze st) objs"

inductive_cases trace_reach_empty: "trace_reach st {#}"

lemma trace_reach_inv: "trace_reach st objs \<Longrightarrow> trace_inv st objs"
proof (induction rule: trace_reach.induct)
  case trace_start
  show ?case by (rule trace_inv_init)
next
  case (trace_new st objs t ts name p st')
  then show ?case using thread_buffer_new_ok [of st objs t ts name] by auto
next
  case (trace_delete st objs t p st')
  then show ?case using thread_buffer_delete_ok [of st objs t p] by auto
next
  case (trace_event st objs t p ts fmt a0 a1 a2 a3 st')
  then show ?case using trace_record_ok [of st objs t p ts fmt a0 a1 a2 a3] by auto
next
  case (trace_cleanup st objs st')
  then show ?case using cleanup_ok [of st objs] by auto
next
  case (trace_freeze st objs)
  then show ?case by (simp add: freeze_def trace_inv_def)
qed

subsection \<open>Properties\<close>

text \<open>C17: Whatever threads do in whatever order, no deleted buffer is ever used and no null pointer is
  followed: a new \<open>thread_buffer\<close> can be created at any time, a thread that has one can record
  events and delete it, and \<open>cleanup\<close> runs through the table without leaving it.\<close>

theorem trace_no_dangling:
  assumes "trace_reach st objs"
  shows "(\<exists>p st'. thread_buffer_new t ts name st = Inr (p, st')) \<and> (\<exists>st'. cleanup st = Inr st') \<and>
     (\<forall>p. (t, p) \<in># objs \<longrightarrow> (\<exists>st'. trace_record t ts fmt a0 a1 a2 a3 st = Inr st') \<and>
        (\<exists>st'. thread_buffer_delete t p st = Inr st'))"
proof (intro conjI allI impI)
  note inv = trace_reach_inv [OF assms]
  show "\<exists>p st'. thread_buffer_new t ts name st = Inr (p, st')" using thread_buffer_new_ok [OF inv] by blast
  show "\<exists>st'. cleanup st = Inr st'" using cleanup_ok [OF inv] by blast
  fix p assume own: "(t, p) \<in># objs"
  show "\<exists>st'. trace_record t ts fmt a0 a1 a2 a3 st = Inr st'" using trace_record_ok [OF inv own] by blast
  show "\<exists>st'. thread_buffer_delete t p st = Inr st'" using thread_buffer_delete_ok [OF inv own] by blast
qed

lemma demo_reach: "\<exists>p st. thread_buffer_new 7 0 ''main'' trace_init = Inr (p, st) \<and> trace_reach st {#(7, p)#}"
  using thread_buffer_new_ok [OF trace_inv_init, of 7 0 "''main''"] trace_new [OF trace_start] by blast

theorem trace_no_dangling_witness:
  "\<exists>p st st'. (7, p) \<in># {#(7, p)#} \<and> trace_record 7 5 ''x=%d'' 1 0 0 0 st = Inr st'"
proof -
  obtain p st where "trace_reach st {#(7, p)#}" using demo_reach by blast
  from trace_no_dangling [OF this, of 7 5 "''main''" "''x=%d''" 1 0 0 0] show ?thesis by auto
qed

text \<open>\<open>cleanup\<close> deletes exactly the buffers no live \<open>thread_buffer\<close> points to, keeps the others
  unchanged and in their order, and leaves every thread's own buffer in the table.\<close>

theorem cleanup_exact:
  assumes "trace_reach st objs"
  shows "\<exists>st'. cleanup st = Inr st' \<and>
     thread_buffers st' = filter (\<lambda>p. \<exists>t. (t, p) \<in># objs) (thread_buffers st) \<and>
     (\<forall>p \<in> set (thread_buffers st'). heap st' p = heap st p) \<and>
     (\<forall>t p. tb st' t = Some p \<longrightarrow> p \<in> set (thread_buffers st'))"
proof -
  obtain st' where "cleanup st = Inr st'" "trace_inv st' objs"
    "thread_buffers st' = filter (\<lambda>p. \<exists>t. (t, p) \<in># objs) (thread_buffers st)"
    "\<forall>p \<in> set (thread_buffers st'). heap st' p = heap st p"
    using cleanup_ok [OF trace_reach_inv [OF assms]] by blast
  then show ?thesis using trace_invD(6) [of st' objs] by blast
qed

theorem cleanup_exact_witness:
  "\<exists>p st st'. cleanup st = Inr st' \<and> thread_buffers st' = filter (\<lambda>q. \<exists>t :: nat. (t, q) \<in># {#(7, p)#}) (thread_buffers st)"
proof -
  obtain p st where "trace_reach st {#(7, p)#}" using demo_reach by blast
  from cleanup_exact [OF this] show ?thesis by blast
qed

text \<open>C16: \<open>print_internal\<close> terminates and merges correctly: if the buffers have recorded the events
  \<open>hs\<close>, then of each buffer the printout has, once each and in their order, the events it still
  holds from the common starting time on, and nothing else. If each thread recorded its events in
  order of time, so is the printout. (An event at the largest 64 bit time would hide what follows
  it.)\<close>

theorem print_internal_merges:
  assumes "list_all2 ring buffers hs" "\<forall>h \<in> set hs. \<forall>e \<in> set h. timestamp e \<noteq> - 1"
  shows "\<exists>out. print_internal buffers = Some out \<and> (\<forall>p \<in> set out. fst p < length hs) \<and>
     (\<forall>i < length hs. from_buffer i out =
        dropWhile (\<lambda>e. timestamp e < window_start hs) (drop (length (hs ! i) + 1 - BUFFER_SIZE) (hs ! i))) \<and>
     ((\<forall>h \<in> set hs. sorted_wrt by_time h) \<longrightarrow> sorted_wrt by_time (map snd out))"
proof -
  obtain out where "print_internal buffers = Some out"
     "\<forall>i < length hs. from_buffer i out = dropWhile (\<lambda>e. timestamp e < window_start hs) (kept (hs ! i))"
     "\<forall>p \<in> set out. fst p < length hs"
     "(\<forall>h \<in> set hs. sorted_wrt by_time h) \<longrightarrow> sorted_wrt by_time (map snd out)"
    using print_internal_ok [OF assms] by blast
  then show ?thesis by (intro exI [of _ out]) (simp only: kept_def simp_thms)
qed

text \<open>The events that a list of calls of \<open>record\<close> leaves in a new buffer.\<close>

definition record_all :: "string \<Rightarrow> (u64 \<times> string \<times> u32) list \<Rightarrow> buffer" where
  "record_all name calls = fold (\<lambda>(ts, fmt, a). buffer_record False ts fmt a 0 0 0) calls (new_buffer name)"

definition events_of :: "(u64 \<times> string \<times> u32) list \<Rightarrow> event list" where
  "events_of calls = map (\<lambda>(ts, fmt, a). new_event ts fmt a 0 0 0) calls"

lemma ring_record_all: "ring (record_all name calls) (events_of calls)"
proof -
  have "ring b h \<Longrightarrow> ring (fold (\<lambda>(ts, fmt, a). buffer_record False ts fmt a 0 0 0) calls b) (h @ events_of calls)"
    for b h
  proof (induction calls arbitrary: b h)
    case (Cons x calls)
    obtain ts fmt a where x: "x = (ts, fmt, a)" by (cases x)
    show ?case using Cons.IH [OF ring_record [OF Cons.prems, of ts fmt a 0 0 0]] by (simp add: x events_of_def)
  qed (simp add: events_of_def)
  from this [OF ring_new] show ?thesis by (simp add: record_all_def)
qed

theorem print_internal_merges_witness:
  "\<exists>out. print_internal [record_all ''a'' [(3, ''x'', 1), (9, ''y'', 2)], record_all ''b'' [(5, ''z'', 3)]] = Some out \<and>
     sorted_wrt by_time (map snd out)"
proof -
  let ?a = "[(3 :: u64, ''x'', 1 :: u32), (9, ''y'', 2)]" and ?b = "[(5 :: u64, ''z'', 3 :: u32)]"
  have "list_all2 ring [record_all ''a'' ?a, record_all ''b'' ?b] [events_of ?a, events_of ?b]"
    using ring_record_all by simp
  from print_internal_merges [OF this] show ?thesis
    by (auto simp: events_of_def new_event_def by_time_def)
qed

text \<open>The trace of a single thread is exactly the last \<open>BUFFER_SIZE - 1\<close> events it recorded, oldest
  first, however often the ring buffer has wrapped around.\<close>

theorem single_trace:
  assumes "\<forall>(ts, fmt, a) \<in> set calls. ts \<noteq> - 1"
  shows "print_internal [record_all name calls] =
     Some (map (Pair 0) (drop (length calls + 1 - BUFFER_SIZE) (events_of calls)))"
proof -
  let ?h = "events_of calls"
  have len: "length ?h = length calls" by (simp add: events_of_def)
  have ts: "\<forall>h \<in> set [?h]. \<forall>e \<in> set h. timestamp e \<noteq> - 1"
    using assms by (auto simp: events_of_def new_event_def)
  obtain out where out: "print_internal [record_all name calls] = Some out"
    "\<forall>i < length [?h]. from_buffer i out = dropWhile (\<lambda>e. timestamp e < window_start [?h]) (kept ([?h] ! i))"
    "\<forall>p \<in> set out. fst p < length [?h]"
    using print_internal_ok [of "[record_all name calls]" "[?h]"] ring_record_all ts by auto
  have "dropWhile (\<lambda>e. timestamp e < window_start [?h]) (kept ?h) = kept ?h"
    by (cases "kept ?h") (auto simp: window_start_def)
  then have "map snd (filter (\<lambda>p. fst p = 0) out) = kept ?h" using out(2) by (simp add: from_buffer_def)
  moreover have "filter (\<lambda>p. fst p = 0) out = out" using out(3) by (simp add: filter_id_conv)
  moreover have "map (Pair 0) (map snd out) = out"
    using out(3) by (simp add: comp_def) (rule map_idI, auto)
  ultimately have "out = map (Pair 0) (kept ?h)" by simp
  then show ?thesis using out(1) by (simp add: kept_def len)
qed

theorem single_trace_witness:
  "print_internal [record_all ''main'' [(3, ''x'', 1), (2, ''y'', 2)]] =
     Some (map (Pair 0) (drop (length [(3 :: u64, ''x'', 1 :: u32), (2, ''y'', 2)] + 1 - BUFFER_SIZE)
       (events_of [(3, ''x'', 1), (2, ''y'', 2)])))"
  by (rule single_trace) simp

end
