(* ===== verification/Record_Race.thy ===== *)
theory Record_Race
  imports Time_Trace
begin

section \<open>Printing while a thread records\<close>

text \<open>
  \<open>buffer::record\<close> of \<open>app/lib/time_trace.cc\<close> statement by statement. Neither it nor \<open>print_internal\<close> locks a
  buffer: freezing the trace stops the threads that have not yet passed the test of \<open>frozen\<close>, and a
  thread that has passed it finishes its event while the buffers are being printed. \<open>interrupted_record k\<close>
  is the buffer when \<open>k\<close> of the seven stores after the test have been made.
\<close>

definition set_event :: "nat \<Rightarrow> (event \<Rightarrow> event) \<Rightarrow> buffer \<Rightarrow> buffer" where
  "set_event i f b = b\<lparr>events := (events b)(i := f (events b i))\<rparr>"

text \<open>The stores to the event, in the order of the code.\<close>

definition event_stores :: "u64 \<Rightarrow> string \<Rightarrow> u32 \<Rightarrow> u32 \<Rightarrow> u32 \<Rightarrow> u32 \<Rightarrow> (event \<Rightarrow> event) list" where
  "event_stores ts fmt a0 a1 a2 a3 =
     [\<lambda>e. e\<lparr>timestamp := ts\<rparr>, \<lambda>e. e\<lparr>format := Some fmt\<rparr>, \<lambda>e. e\<lparr>arg0 := a0\<rparr>, \<lambda>e. e\<lparr>arg1 := a1\<rparr>,
      \<lambda>e. e\<lparr>arg2 := a2\<rparr>, \<lambda>e. e\<lparr>arg3 := a3\<rparr>]"

definition record_stores :: "nat \<Rightarrow> u64 \<Rightarrow> string \<Rightarrow> u32 \<Rightarrow> u32 \<Rightarrow> u32 \<Rightarrow> u32 \<Rightarrow> (buffer \<Rightarrow> buffer) list" where
  "record_stores i ts fmt a0 a1 a2 a3 =
     (\<lambda>b. b\<lparr>next_index := (next_index b + 1) AND BUFFER_MASK\<rparr>) # map (set_event i) (event_stores ts fmt a0 a1 a2 a3)"

definition interrupted_record :: "nat \<Rightarrow> u64 \<Rightarrow> string \<Rightarrow> u32 \<Rightarrow> u32 \<Rightarrow> u32 \<Rightarrow> u32 \<Rightarrow> buffer \<Rightarrow> buffer" where
  "interrupted_record k ts fmt a0 a1 a2 a3 b =
     fold (\<lambda>s b. s b) (take k (record_stores (next_index b) ts fmt a0 a1 a2 a3)) b"

text \<open>An event of which the first \<open>k\<close> fields are stored.\<close>

definition torn_event :: "nat \<Rightarrow> u64 \<Rightarrow> string \<Rightarrow> u32 \<Rightarrow> u32 \<Rightarrow> u32 \<Rightarrow> u32 \<Rightarrow> event \<Rightarrow> event" where
  "torn_event k ts fmt a0 a1 a2 a3 e = fold (\<lambda>f e. f e) (take k (event_stores ts fmt a0 a1 a2 a3)) e"

lemma fold_set_event: "fold (\<lambda>s b. s b) (map (set_event i) fs) b = set_event i (fold (\<lambda>f e. f e) fs) b"
proof (induction fs arbitrary: b)
  case Nil
  then show ?case by (simp add: set_event_def)
next
  case (Cons f fs)
  then show ?case by (simp add: set_event_def)
qed

lemma interrupted_simp:
  "interrupted_record (Suc k) ts fmt a0 a1 a2 a3 b =
     b\<lparr>next_index := (next_index b + 1) AND BUFFER_MASK,
       events := (events b)(next_index b := torn_event k ts fmt a0 a1 a2 a3 (events b (next_index b)))\<rparr>"
  by (simp add: interrupted_record_def record_stores_def take_map fold_set_event torn_event_def) (simp add: set_event_def)

lemma record_complete:
  "interrupted_record 7 ts fmt a0 a1 a2 a3 b = buffer_record False ts fmt a0 a1 a2 a3 b"
proof -
  have "torn_event 6 ts fmt a0 a1 a2 a3 e = new_event ts fmt a0 a1 a2 a3" for e
    by (simp add: torn_event_def event_stores_def new_event_def)
  then show ?thesis using interrupted_simp [of 6 ts fmt a0 a1 a2 a3 b] by (simp add: buffer_record_def)
qed

lemma torn_fields:
  "timestamp (torn_event k ts fmt a0 a1 a2 a3 e) = (if k = 0 then timestamp e else ts)"
  "format (torn_event k ts fmt a0 a1 a2 a3 e) = (if k < 2 then format e else Some fmt)"
proof -
  have big: "torn_event k ts fmt a0 a1 a2 a3 e = torn_event 6 ts fmt a0 a1 a2 a3 e" if "6 \<le> k"
    using that by (simp add: torn_event_def event_stores_def)
  have small: "k = 0 \<or> k = 1 \<or> k = 2 \<or> k = 3 \<or> k = 4 \<or> k = 5 \<or> 6 \<le> k" by auto
  show "timestamp (torn_event k ts fmt a0 a1 a2 a3 e) = (if k = 0 then timestamp e else ts)"
    using small by (elim disjE) (simp_all add: big, simp_all add: torn_event_def event_stores_def eval_nat_numeral)
  show "format (torn_event k ts fmt a0 a1 a2 a3 e) = (if k < 2 then format e else Some fmt)"
    using small by (elim disjE) (simp_all add: big, simp_all add: torn_event_def event_stores_def eval_nat_numeral)
qed

text \<open>A full buffer in the middle of a record is the ring of a history that ends with the torn event, made from
  the oldest one.\<close>

lemma ring_interrupted:
  assumes r: "ring b h" and full: "BUFFER_SIZE \<le> length h"
  shows "ring (interrupted_record (Suc k) ts fmt a0 a1 a2 a3 b)
    (h @ [torn_event k ts fmt a0 a1 a2 a3 (h ! (length h - BUFFER_SIZE))])"
proof -
  let ?j = "length h - BUFFER_SIZE"
  have j: "?j < length h" using full size_pos(1) by linarith
  have "?j mod BUFFER_SIZE = length h mod BUFFER_SIZE" using full by (simp add: le_mod_geq)
  then have e: "events b (next_index b) = h ! ?j" using r full j by (auto simp: ring_def)
  have "format (h ! ?j) \<noteq> None" using r j by (auto simp: ring_def)
  then have "format (torn_event k ts fmt a0 a1 a2 a3 (h ! ?j)) \<noteq> None" by (simp add: torn_fields)
  from ring_store [OF r this] show ?thesis unfolding interrupted_simp e .
qed

text \<open>The printout of one buffer.\<close>

lemma print_one:
  assumes "ring b h" "\<forall>e \<in> set h. timestamp e \<noteq> - 1"
  shows "print_internal [b] = Some (map (Pair 0) (kept h))"
proof -
  obtain out where out: "print_internal [b] = Some out" "\<forall>i < length [h]. from_buffer i out =
      dropWhile (\<lambda>e. timestamp e < window_start [h]) (kept ([h] ! i))" "\<forall>p \<in> set out. fst p < length [h]"
    using print_internal_ok [of "[b]" "[h]"] assms by auto
  have "dropWhile (\<lambda>e. timestamp e < window_start [h]) (kept h) = kept h"
    by (cases "kept h") (auto simp: window_start_def)
  then have "map snd (filter (\<lambda>p. fst p = 0) out) = kept h" using out(2) by (simp add: from_buffer_def)
  moreover have "filter (\<lambda>p. fst p = 0) out = out" using out(3) by (simp add: filter_id_conv)
  moreover have "map (Pair 0) (map snd out) = out" using out(3) by (simp add: comp_def) (rule map_idI, auto)
  ultimately show ?thesis using out(1) by simp
qed

subsection \<open>Claims\<close>



end
