(* ===== verification/Bytes.thy ===== *)
theory Bytes
  imports Prelude
begin

section \<open>Bytes in memory\<close>

text \<open>
  Memory as a list of bytes, and numbers of a fixed number of bytes in it, the least significant
  byte first (the code runs on x86). The application library and the benchmark programs access the
  same memory as bytes and as integers, and the driver and the NIC exchange packed structures of
  64 bytes; all of them are described by \<open>load\<close> and \<open>store\<close>, which fail outside the memory.
\<close>

type_synonym byte = "8 word"

subsection \<open>Numbers as bytes\<close>

primrec le_bytes :: "nat \<Rightarrow> nat \<Rightarrow> byte list" where
  "le_bytes 0 v = []"
| "le_bytes (Suc n) v = word_of_nat v # le_bytes n (v div 256)"

primrec of_bytes :: "byte list \<Rightarrow> nat" where
  "of_bytes [] = 0"
| "of_bytes (b # bs) = unat b + 256 * of_bytes bs"

lemma length_le_bytes [simp]: "length (le_bytes n v) = n"
  by (induction n arbitrary: v) auto

lemma unat_byte: "unat (word_of_nat v :: byte) = v mod 256"
  by (simp add: unsigned_of_nat take_bit_eq_mod)

lemma of_bytes_le_bytes [simp]: "of_bytes (le_bytes n v) = v mod 256 ^ n"
proof (induction n arbitrary: v)
  case (Suc n)
  have "v mod (256 * 256 ^ n) = 256 * (v div 256 mod 256 ^ n) + v mod 256" by (rule mod_mult2_eq)
  then show ?case using Suc by (simp add: unat_byte)
qed simp

lemma unat_byte_less [simp]: "unat (b :: byte) < 256"
proof -
  have "unat b < 2 ^ LENGTH(8)" by (rule unsigned_less)
  then show ?thesis by simp
qed

lemma of_bytes_less: "of_bytes bs < 256 ^ length bs"
proof (induction bs)
  case (Cons b bs)
  then have "Suc (of_bytes bs) \<le> 256 ^ length bs" by simp
  then have "256 * Suc (of_bytes bs) \<le> 256 * 256 ^ length bs" by (rule mult_le_mono2)
  then show ?case using unat_byte_less [of b] by (simp add: less_le_trans [of _ "256 + 256 * of_bytes bs"])
qed simp

lemma le_bytes_of_bytes [simp]: "le_bytes (length bs) (of_bytes bs) = bs"
proof (induction bs)
  case (Cons b bs)
  have "(unat b + 256 * of_bytes bs) div 256 = of_bytes bs"
    using unat_byte_less [of b] by (simp add: div_add1_eq)
  moreover have "word_of_nat (unat b + 256 * of_bytes bs) = b"
    by (rule word_unat_eq_iff [THEN iffD2]) (simp only: unat_byte mod_mult_self2 mod_less unat_byte_less)
  ultimately show ?case using Cons by simp
qed simp

lemma le_bytes_inj: "le_bytes n v = le_bytes n w \<longleftrightarrow> v mod 256 ^ n = w mod 256 ^ n"
proof
  show "v mod 256 ^ n = w mod 256 ^ n" if "le_bytes n v = le_bytes n w"
    using arg_cong [OF that, of of_bytes] by simp
  show "le_bytes n v = le_bytes n w" if "v mod 256 ^ n = w mod 256 ^ n"
    using arg_cong [OF that, of "le_bytes n"] le_bytes_of_bytes [of "le_bytes n v"]
      le_bytes_of_bytes [of "le_bytes n w"] by simp
qed

subsection \<open>Memory\<close>

text \<open>Reading and overwriting bytes at a position.\<close>

definition peek :: "nat \<Rightarrow> int \<Rightarrow> byte list \<Rightarrow> byte list res" where
  "peek n pos m = (if 0 \<le> pos \<and> nat pos + n \<le> length m then Inr (take n (drop (nat pos) m)) else Inl OutOfRange)"

definition poke :: "int \<Rightarrow> byte list \<Rightarrow> byte list \<Rightarrow> byte list res" where
  "poke pos bs m = (if 0 \<le> pos \<and> nat pos + length bs \<le> length m
     then Inr (take (nat pos) m @ bs @ drop (nat pos + length bs) m) else Inl OutOfRange)"

definition load :: "nat \<Rightarrow> int \<Rightarrow> byte list \<Rightarrow> nat res" where
  "load n pos m = rbind (peek n pos m) (\<lambda>bs. Inr (of_bytes bs))"

definition store :: "nat \<Rightarrow> int \<Rightarrow> nat \<Rightarrow> byte list \<Rightarrow> byte list res" where
  "store n pos v m = poke pos (le_bytes n v) m"

lemma poke_ok:
  "0 \<le> pos \<Longrightarrow> nat pos + length bs \<le> length m \<Longrightarrow>
   poke pos bs m = Inr (take (nat pos) m @ bs @ drop (nat pos + length bs) m)"
  by (simp add: poke_def)

lemma peek_ok: "0 \<le> pos \<Longrightarrow> nat pos + n \<le> length m \<Longrightarrow> peek n pos m = Inr (take n (drop (nat pos) m))"
  by (simp add: peek_def)

lemma length_poke: "poke pos bs m = Inr m' \<Longrightarrow> length m' = length m"
  by (auto simp: poke_def split: if_splits)

lemma peek_poke_same: "poke pos bs m = Inr m' \<Longrightarrow> peek (length bs) pos m' = Inr bs"
  by (auto simp: poke_def peek_def split: if_splits)

lemma poke_take_drop:
  assumes "poke pos bs m = Inr m'"
  shows "k \<le> nat pos \<Longrightarrow> take k m' = take k m"
    "nat pos + length bs \<le> k \<Longrightarrow> drop k m' = drop k m"
  using assms by (auto simp: poke_def split: if_splits)

lemma peek_poke_other:
  assumes "poke pos bs m = Inr m'" "q + int n \<le> pos \<or> pos + int (length bs) \<le> q"
  shows "peek n q m' = peek n q m"
proof (cases "0 \<le> q \<and> nat q + n \<le> length m")
  case True
  have pos: "0 \<le> pos" "nat pos + length bs \<le> length m" using assms(1) by (auto simp: poke_def split: if_splits)
  have "take n (drop (nat q) m') = take n (drop (nat q) m)"
  proof (cases "q + int n \<le> pos")
    case True
    then have "nat q + n \<le> nat pos" using \<open>0 \<le> q \<and> _\<close> by linarith
    then have "take (nat q + n) m' = take (nat q + n) m" by (rule poke_take_drop(1) [OF assms(1)])
    then show ?thesis by (metis add.commute take_drop)
  next
    case False
    then have "nat pos + length bs \<le> nat q" using assms(2) pos(1) by linarith
    then show ?thesis using poke_take_drop(2) [OF assms(1)] by simp
  qed
  then show ?thesis using True length_poke [OF assms(1)] by (simp add: peek_def)
next
  case False
  then show ?thesis using length_poke [OF assms(1)] by (auto simp: peek_def)
qed

lemma length_store: "store n pos v m = Inr m' \<Longrightarrow> length m' = length m"
  unfolding store_def by (rule length_poke)

lemma load_store_same: "store n pos v m = Inr m' \<Longrightarrow> load n pos m' = Inr (v mod 256 ^ n)"
  using peek_poke_same [of pos "le_bytes n v" m m'] by (simp add: store_def load_def)

lemma load_store_other:
  "store n pos v m = Inr m' \<Longrightarrow> q + int k \<le> pos \<or> pos + int n \<le> q \<Longrightarrow> load k q m' = load k q m"
  using peek_poke_other [of pos "le_bytes n v" m m' q k] by (simp add: store_def load_def)

end
