(* ===== verification/Binary64.thy ===== *)
theory Binary64
  imports Doubles Bytes
begin

section \<open>Doubles in memory\<close>

text \<open>
  How a \<open>double\<close> is laid out in memory and in the files of the simulator: sign, 11 bits of
  exponent, 52 bits of fraction. \<open>binary64 x\<close> says that a rational is zero or a normal number of
  the format; such a number is read back from its bits.
\<close>

definition binary64 :: "rat \<Rightarrow> bool" where
  "binary64 x \<longleftrightarrow> fl x = x \<and> (x = 0 \<or> - 1022 \<le> ilog2 \<bar>x\<bar> \<and> ilog2 \<bar>x\<bar> \<le> 1023)"

definition double_bits :: "rat \<Rightarrow> nat" where
  "double_bits x =
     (if x = 0 then 0
      else let e = ilog2 \<bar>x\<bar>; m = \<lfloor>\<bar>x\<bar> / 2 powi (e - 52)\<rfloor>
           in (if x < 0 then 2 ^ 63 else 0) + nat (e + 1023) * 2 ^ 52 + (nat m - 2 ^ 52))"

text \<open>Infinities and NaN are no rationals.\<close>

definition double_of :: "nat \<Rightarrow> rat option" where
  "double_of w =
     (let sign = (if w div 2 ^ 63 mod 2 = 1 then - 1 else 1);
          e = w div 2 ^ 52 mod 2 ^ 11;
          f = w mod 2 ^ 52
      in if e = 2047 then None
         else if e = 0 then Some (sign * of_nat f * 2 powi (- 1074))
         else Some (sign * of_nat (2 ^ 52 + f) * 2 powi (int e - 1075)))"

subsection \<open>The round trip\<close>

lemma fl_mantissa:
  assumes "fl x = x" "0 < x"
  shows "\<exists>m. 2 ^ 52 \<le> m \<and> m < 2 ^ 53 \<and> x = of_nat m * 2 powi (ilog2 x - 52)"
proof -
  let ?e = "ilog2 x - 52"
  let ?m = "rne (x / 2 powi ?e)"
  have x: "x = of_int ?m * 2 powi ?e" using assms by (simp add: fl_def flpos_def Let_def)
  then have "of_int ?m = x / 2 powi ?e" by (simp add: field_simps)
  then have b: "(2 :: rat) ^ 52 \<le> of_int ?m" "of_int ?m < (2 :: rat) ^ 53"
    using scaled_bounds [OF assms(2)] by simp_all
  have "of_int (2 ^ 52) \<le> (of_int ?m :: rat)" "(of_int ?m :: rat) < of_int (2 ^ 53)" using b by simp_all
  then have i: "2 ^ 52 \<le> ?m" "?m < 2 ^ 53" by (simp_all only: of_int_le_iff of_int_less_iff)
  then have "(of_nat (nat ?m) :: rat) = of_int ?m" by simp
  moreover have "2 ^ 52 \<le> nat ?m" "nat ?m < 2 ^ 53" using i by simp_all
  ultimately show ?thesis using x by metis
qed

lemma pack_fields:
  fixes s e f :: nat
  assumes "s < 2" "e < 2 ^ 11" "f < 2 ^ 52"
  defines "w \<equiv> s * 2 ^ 63 + e * 2 ^ 52 + f"
  shows "w div 2 ^ 63 mod 2 = s" "w div 2 ^ 52 mod 2 ^ 11 = e" "w mod 2 ^ 52 = f" "w < 2 ^ 64"
proof -
  have w: "w = (s * 2 ^ 11 + e) * 2 ^ 52 + f" by (simp add: w_def algebra_simps)
  have d: "w div 2 ^ 52 = s * 2 ^ 11 + e" using assms(3) unfolding w by simp
  show "w mod 2 ^ 52 = f" using assms(3) unfolding w by (simp only: mod_mult_self3 mod_less)
  show "w div 2 ^ 52 mod 2 ^ 11 = e" using assms(2) unfolding d by simp
  have "w div 2 ^ 63 = w div 2 ^ 52 div 2 ^ 11" by (simp add: div_mult2_eq [symmetric])
  also have "\<dots> = s" unfolding d using assms(2) by simp
  finally show "w div 2 ^ 63 mod 2 = s" using assms(1) by simp
  have "e * 2 ^ 52 + f < 2 ^ 63" using assms(2,3) by simp
  then show "w < 2 ^ 64" using assms(1) unfolding w_def by simp
qed

lemma double_round_trip:
  assumes "binary64 x"
  shows "double_of (double_bits x) = Some x" "double_bits x < 2 ^ 64"
proof -
  consider (zero) "x = 0" | (pos) "x \<noteq> 0" by blast
  then have "double_of (double_bits x) = Some x \<and> double_bits x < 2 ^ 64"
  proof cases
    case zero
    then show ?thesis by (simp add: double_bits_def double_of_def)
  next
    case pos
    let ?x = "\<bar>x\<bar>" and ?s = "of_bool (x < 0) :: nat"
    define e where "e = ilog2 ?x"
    have e: "- 1022 \<le> e" "e \<le> 1023" using assms pos by (simp_all add: binary64_def e_def)
    have "fl ?x = ?x" using assms by (auto simp: binary64_def fl_def abs_if split: if_splits)
    then obtain m where m: "2 ^ 52 \<le> m" "m < 2 ^ 53" "?x = of_nat m * 2 powi (e - 52)"
      using fl_mantissa [of ?x] pos by (auto simp: e_def)
    have "?x / 2 powi (e - 52) = of_nat m" using m(3) by simp
    then have floor: "nat \<lfloor>?x / 2 powi (e - 52)\<rfloor> = m" by simp
    define k where "k = nat (e + 1023)"
    have k: "0 < k" "k < 2047" "int k = e + 1023" using e by (auto simp: k_def)
    have bits: "double_bits x = ?s * 2 ^ 63 + k * 2 ^ 52 + (m - 2 ^ 52)"
      using pos floor by (simp add: double_bits_def Let_def k_def flip: e_def)
    have s: "?s < 2" and k': "k < 2 ^ 11" and f: "m - 2 ^ 52 < 2 ^ 52" using k(2) m(1,2) by auto
    note p = pack_fields [OF s k' f, folded bits]
    have "of_nat (2 ^ 52 + (m - 2 ^ 52)) = (of_nat m :: rat)" using m(1) by (simp only: le_add_diff_inverse)
    moreover have "int k - 1075 = e - 52" using k(3) by simp
    moreover have "(if ?s = 1 then - 1 else 1) * ?x = x" by simp
    moreover have "(if ?s = 1 then - 1 else 1) * of_nat m * 2 powi (e - 52) = (if ?s = 1 then - 1 else 1) * ?x"
      by (simp only: m(3) mult.assoc)
    ultimately show ?thesis using k(1,2) p(4) unfolding double_of_def Let_def p(1-3) by simp
  qed
  then show "double_of (double_bits x) = Some x" "double_bits x < 2 ^ 64" by auto
qed

subsection \<open>Numbers between 1 and a power of two\<close>

lemma ilog2_range:
  assumes "2 powi i \<le> x" "x < 2 powi (j + 1)"
  shows "i \<le> ilog2 x" "ilog2 x \<le> j"
proof -
  have x: "0 < x" using assms(1) powi_pos [of i] by linarith
  have "2 powi i < (2 :: rat) powi (ilog2 x + 1)" "(2 :: rat) powi ilog2 x < 2 powi (j + 1)"
    using ilog2_bounds [OF x] assms by linarith+
  then show "i \<le> ilog2 x" "ilog2 x \<le> j" using powi_less_imp by fastforce+
qed

lemma binary64_fl:
  assumes "1 \<le> x" "x \<le> 2 powi 200"
  shows "binary64 (fl x)"
proof -
  have "fl 1 \<le> fl x" using assms(1) by (rule dbl.rnd_mono)
  then have lo: "2 powi 0 \<le> fl x" by simp
  have "fl x \<le> x * (1 + ulp)" by (rule fl_rel(2)) (use assms in simp)
  also have "\<dots> < x * 2" using assms(1) ulp_bounds by (intro mult_strict_left_mono) auto
  also have "\<dots> \<le> 2 powi 200 * 2" using assms(2) by (rule mult_right_mono) simp
  also have "(2 powi 200 * 2 :: rat) = 2 powi (200 + 1)" by (simp only: powi_Suc mult.commute)
  finally have hi: "fl x < 2 powi (200 + 1)" .
  have "1 \<le> fl x" using lo by simp
  then show ?thesis using ilog2_range [OF lo hi] by (simp add: binary64_def dbl.rnd_idem)
qed

lemma binary64_0: "binary64 0"
  by (simp add: binary64_def)

text \<open>A sum that has reached \<open>2^100\<close> no longer grows by numbers up to \<open>2^31\<close>.\<close>

lemma fl_saturated: "fl (2 ^ 100 + 2 ^ 31) = 2 ^ 100"
proof -
  let ?x = "2 ^ 100 + 2 ^ 31 :: rat"
  have "(2 :: rat) powi 100 = 2 ^ 100" "(2 :: rat) powi 101 = 2 ^ 101" by (simp_all add: power_int_def)
  then have "100 \<le> ilog2 ?x \<and> ilog2 ?x \<le> 100" using ilog2_range [of 100 ?x 100] by simp
  then have l: "ilog2 ?x = 100" by linarith
  have e: "(2 :: rat) powi 48 = 2 ^ 48" by (simp add: power_int_def)
  have x: "?x / 2 powi 48 = of_int (2 ^ 52) + 1 / 2 ^ 17" unfolding e by simp
  have "rne (of_int n + 1 / 2 ^ 17) = n" for n :: int
  proof -
    have "\<lfloor>of_int n + 1 / 2 ^ 17 :: rat\<rfloor> = n" by (rule floor_unique) simp_all
    then show ?thesis by (simp add: rne_def Let_def)
  qed
  then have "rne (?x / 2 powi 48) = 2 ^ 52" unfolding x .
  moreover have "flpos ?x = of_int (rne (?x / 2 powi 48)) * 2 powi 48"
    unfolding flpos_def Let_def l by simp
  ultimately have "flpos ?x = 2 ^ 52 * 2 powi 48" by simp
  also have "\<dots> = 2 ^ 100" unfolding e by simp
  finally show ?thesis by (simp add: fl_def)
qed

lemma fl_sum_bounded:
  assumes "x \<le> 2 ^ 100" "v \<le> 2 ^ 31"
  shows "fl (x + v) \<le> 2 ^ 100"
  using dbl.rnd_mono [of "x + v" "2 ^ 100 + 2 ^ 31"] assms by (simp only: fl_saturated add_mono)

end
