(* ===== verification/Queue_Report.thy ===== *)
theory Queue_Report
  imports Ideal Pifo Binary64 C_Library
begin

section \<open>What a queue leaves behind\<close>

text \<open>
  The constructors and the destructor of class \<open>Queue\<close> in \<open>model/queues.hh\<close>: the file that a
  queue opens when it is made, \<open>stats\<close>, which prints the statistics, and \<open>dump\<close>, which writes them
  with the list of violations to the file; and \<open>parse_stats\<close> of \<open>model/cfg.py\<close>, with which the
  plotting scripts read the file. Numbers are stored in the byte order of x86.

  The files and the open descriptors of the process are the record \<open>disk\<close>; the kernel chooses the
  descriptor (negative if it cannot open the file) and how many bytes each \<open>write\<close> accepts.
\<close>

subsection \<open>Files\<close>

record disk =
  files :: "string \<Rightarrow> byte list option"
  fds :: "int \<Rightarrow> (string \<times> nat) option"

text \<open>\<open>open (path, O_RDWR | O_CREAT, 0644)\<close>: an existing file keeps its content.\<close>

definition sys_open :: "int \<Rightarrow> string \<Rightarrow> disk \<Rightarrow> disk" where
  "sys_open n path d =
     (if n < 0 then d
      else d\<lparr>fds := (fds d)(n \<mapsto> (path, 0)),
             files := (files d)(path \<mapsto> (case files d path of None \<Rightarrow> [] | Some bs \<Rightarrow> bs))\<rparr>)"

definition overwrite :: "nat \<Rightarrow> byte list \<Rightarrow> byte list \<Rightarrow> byte list" where
  "overwrite pos bs old = take pos old @ bs @ drop (pos + length bs) old"

text \<open>\<open>write\<close>; \<open>accept\<close> is the number of bytes taken if it is not all of them.\<close>

definition sys_write :: "nat option \<Rightarrow> int \<Rightarrow> byte list \<Rightarrow> disk \<Rightarrow> disk" where
  "sys_write accept n bytes d =
     (case fds d n of
        None \<Rightarrow> d
      | Some (path, pos) \<Rightarrow>
          let bs = (case accept of None \<Rightarrow> bytes | Some k \<Rightarrow> take k bytes);
              old = (case files d path of None \<Rightarrow> [] | Some bs \<Rightarrow> bs)
          in d\<lparr>files := (files d)(path \<mapsto> overwrite pos bs old),
               fds := (fds d)(n \<mapsto> (path, pos + length bs))\<rparr>)"

definition sys_close :: "int \<Rightarrow> disk \<Rightarrow> disk" where
  "sys_close n d = d\<lparr>fds := (fds d)(n := None)\<rparr>"

subsection \<open>Constructors\<close>

record queue_file =
  tracefile :: string
  fd :: int

definition queue_open :: "int \<Rightarrow> string \<Rightarrow> disk \<Rightarrow> queue_file \<times> disk" where
  "queue_open n path d = (\<lparr>tracefile = path, fd = n\<rparr>, sys_open n path d)"

text \<open>The second constructor of \<open>PIFO_Naive\<close> closes the descriptor that \<open>Queue\<close> opened.\<close>

definition snapshot_open :: "int \<Rightarrow> string \<Rightarrow> disk \<Rightarrow> queue_file \<times> disk" where
  "snapshot_open n path d = (let (qf, d') = queue_open n path d in (qf, sys_close (fd qf) d'))"

subsection \<open>stats\<close>

text \<open>The quotient of two counters as a \<open>double\<close>.\<close>

datatype quotient = Finite rat | Infinity | NaN

definition ratio :: "u64 \<Rightarrow> u64 \<Rightarrow> quotient" where
  "ratio a b =
     (if b = 0 then (if a = 0 then NaN else Infinity)
      else Finite (fl (fl (of_nat (unat a)) / fl (of_nat (unat b)))))"

text \<open>How a stream shows a number that is not negative: six significant digits, without trailing
  zeros, with an exponent if it is below -4 or above 5. The NaN of x86 has its sign bit set.\<close>

definition dec_exp :: "rat \<Rightarrow> int" where
  "dec_exp x = (if 1 \<le> x then int (length (decimal (nat \<lfloor>x\<rfloor>))) - 1
     else - int (length (decimal (nat (\<lceil>1 / x\<rceil> - 1)))))"

definition six_digits :: "rat \<Rightarrow> nat \<times> int" where
  "six_digits x =
     (let e = dec_exp x; m = nat (rne (x / 10 powi (e - 5)))
      in if m = 10 ^ 6 then (10 ^ 5, e + 1) else (m, e))"

definition strip_zeros :: "string \<Rightarrow> string" where
  "strip_zeros s = rev (dropWhile (\<lambda>c. c = CHR ''0'') (rev s))"

definition with_point :: "string \<Rightarrow> string \<Rightarrow> string" where
  "with_point i f = (if strip_zeros f = [] then i else i @ ''.'' @ strip_zeros f)"

definition show_positive :: "rat \<Rightarrow> string" where
  "show_positive x =
     (let (m, e) = six_digits x; ds = decimal m
      in if - 4 \<le> e \<and> e < 0 then with_point ''0'' (replicate (nat (- e - 1)) CHR ''0'' @ ds)
         else if 0 \<le> e \<and> e < 6 then with_point (take (nat e + 1) ds) (drop (nat e + 1) ds)
         else with_point (take 1 ds) (drop 1 ds) @ (if e < 0 then ''e-'' else ''e+'') @
           (if \<bar>e\<bar> < 10 then ''0'' else '''') @ decimal (nat \<bar>e\<bar>))"

definition show_double :: "quotient \<Rightarrow> string" where
  "show_double r =
     (case r of
        NaN \<Rightarrow> ''-nan''
      | Infinity \<Rightarrow> ''inf''
      | Finite x \<Rightarrow> if x = 0 then ''0'' else show_positive x)"

definition show_u64 :: "u64 \<Rightarrow> string" where
  "show_u64 n = decimal (unat n)"

abbreviation endl :: string where "endl \<equiv> [CHR 0x0A]"

definition stats :: "'a queue_scheme \<Rightarrow> string" where
  "stats q =
     (let qs = queuestats q; ss = simstats q
      in ''- Queue Statistics:'' @ endl @
         ''  Highwater : '' @ show_u64 (highwater qs) @ endl @
         ''  Lowater   : '' @ show_u64 (lowwater qs) @ endl @
         ''  Max Size  : '' @ show_u64 (maxsize qs) @ endl @
         ''- Simulation Statistics:'' @ endl @
         ''  Total Completions : '' @ show_u64 (comps ss) @ endl @
         ''  Mean Completion   : '' @ show_double (ratio (comptimes ss) (comps ss)) @ endl @
         ''  Total Inacc       : '' @ show_u64 (pktinacc ss) @ endl @
         ''  Inaccuracy Ratio  : '' @ show_double (ratio (pktinacc ss) (packets ss)) @ endl @
         ''  Mean Slowdown     : '' @ show_double (ratio (slowdowns ss) (comps ss)) @ endl @
         ''  Underflow         : '' @ show_u64 (underflow ss) @ endl @
         ''  Underflow  Ratio  : '' @ show_double (ratio (underflow ss) (cycles ss)) @ endl)"

subsection \<open>dump and the destructor\<close>

definition u64_bytes :: "u64 \<Rightarrow> byte list" where "u64_bytes n = le_bytes 8 (unat n)"
definition double_bytes :: "rat \<Rightarrow> byte list" where "double_bytes x = le_bytes 8 (double_bits x)"

definition queuestat_bytes :: "queuestat_t \<Rightarrow> byte list" where
  "queuestat_bytes s = u64_bytes (highwater s) @ u64_bytes (lowwater s) @ u64_bytes (maxsize s)"

definition simstat_bytes :: "simstat_t \<Rightarrow> byte list" where
  "simstat_bytes s =
     u64_bytes (packets s) @ u64_bytes (comps s) @ u64_bytes (comptimes s) @ u64_bytes (slowdowns s) @
     double_bytes (sum_violations s) @ u64_bytes (presorted s) @ u64_bytes (pulses s) @
     u64_bytes (underflow s) @ u64_bytes (cycles s) @ u64_bytes (msginacc s) @ u64_bytes (pktinacc s)"

text \<open>The address of the violations is taken through \<open>*violations.begin()\<close>, which needs an element.\<close>

definition dump :: "(nat \<Rightarrow> nat option) \<Rightarrow> queue_file \<Rightarrow> 'a queue_scheme \<Rightarrow> disk \<Rightarrow> disk res" where
  "dump accept qf q d =
     (let d1 = sys_write (accept 0) (fd qf) (queuestat_bytes (queuestats q)) d;
          d2 = sys_write (accept 1) (fd qf) (simstat_bytes (simstats q)) d1
      in rbind (vec_at (violations q) 0) (\<lambda>_.
           let d3 = sys_write (accept 2) (fd qf) (concat (map double_bytes (violations q))) d2
           in Inr (sys_close (fd qf) d3)))"

text \<open>The destructor: what is printed, and the disk afterwards.\<close>

definition queue_delete ::
    "(nat \<Rightarrow> nat option) \<Rightarrow> queue_file \<Rightarrow> 'a queue_scheme \<Rightarrow> disk \<Rightarrow> (string \<times> disk) res" where
  "queue_delete accept qf q d =
     (let out = stats q
      in rbind (dump accept qf q d) (\<lambda>d'. Inr (out, sys_close (fd qf) d')))"

subsection \<open>parse_stats\<close>

text \<open>\<open>np.fromfile\<close> with elements of 8 bytes: a shorter rest is left out.\<close>

function words8 :: "byte list \<Rightarrow> nat list" where
  "words8 bs = (if length bs < 8 then [] else of_bytes (take 8 bs) # words8 (drop 8 bs))"
  by auto
termination by (relation "measure length") auto

declare words8.simps [simp del]

text \<open>The fields in the order of the two types; \<open>None\<close> if the file ends before them or where they
  should be holds bits that are no number.\<close>

definition parse_stats :: "byte list \<Rightarrow> (queuestat_t \<times> simstat_t \<times> rat list) option" where
  "parse_stats bs =
     (case words8 bs of
        hi # lo # mx # pk # co # ct # sd # vi # pr # pu # un # cy # mi # pa # rest \<Rightarrow>
          (case (double_of vi, those (map double_of rest)) of
             (Some v, Some vs) \<Rightarrow> Some
               (\<lparr>highwater = of_nat hi, lowwater = of_nat lo, maxsize = of_nat mx\<rparr>,
                \<lparr>packets = of_nat pk, comps = of_nat co, comptimes = of_nat ct, slowdowns = of_nat sd,
                 sum_violations = v, presorted = of_nat pr, pulses = of_nat pu, underflow = of_nat un,
                 cycles = of_nat cy, msginacc = of_nat mi, pktinacc = of_nat pa\<rparr>, vs)
           | _ \<Rightarrow> None)
      | _ \<Rightarrow> None)"

subsection \<open>Reading what was written\<close>

lemma words8_short: "length bs < 8 \<Longrightarrow> words8 bs = []"
  by (simp add: words8.simps)

lemma words8_bytes: "words8 (le_bytes 8 w @ bs) = w mod 2 ^ 64 # words8 bs"
proof -
  have "w mod 256 ^ 8 = w mod 2 ^ 64" by simp
  then show ?thesis by (subst words8.simps) simp
qed

lemma words8_u64: "words8 (u64_bytes n @ bs) = unat n # words8 bs"
proof -
  have "unat n < 2 ^ LENGTH(64)" by (rule unsigned_less)
  then show ?thesis by (simp add: u64_bytes_def words8_bytes)
qed

lemma words8_double: "binary64 x \<Longrightarrow> words8 (double_bytes x @ bs) = double_bits x # words8 bs"
  using double_round_trip(2) [of x] by (simp add: double_bytes_def words8_bytes)

lemma words8_doubles:
  "\<forall>v \<in> set vs. binary64 v \<Longrightarrow> words8 (concat (map double_bytes vs) @ bs) = map double_bits vs @ words8 bs"
  by (induction vs) (simp_all add: words8_double)

lemma those_doubles: "\<forall>v \<in> set vs. binary64 v \<Longrightarrow> those (map double_of (map double_bits vs)) = Some vs"
  by (induction vs) (simp_all add: double_round_trip)

definition report_bytes :: "'a queue_scheme \<Rightarrow> byte list" where
  "report_bytes q = queuestat_bytes (queuestats q) @ simstat_bytes (simstats q) @
     concat (map double_bytes (violations q))"

lemma length_report: "length (report_bytes q) = 112 + 8 * length (violations q)"
  by (simp add: report_bytes_def queuestat_bytes_def simstat_bytes_def u64_bytes_def double_bytes_def
      length_concat comp_def sum_list_triv)

lemma parse_report:
  assumes "binary64 (sum_violations (simstats q))" "\<forall>v \<in> set (violations q). binary64 v"
    "those (map double_of (words8 old)) = Some vs"
  shows "parse_stats (report_bytes q @ old) = Some (queuestats q, simstats q, violations q @ vs)"
proof -
  have "those (map double_of (map double_bits ws @ words8 old)) = Some (ws @ vs)" if "\<forall>v \<in> set ws. binary64 v" for ws
    using that assms(3) by (induction ws) (simp_all add: double_round_trip)
  then show ?thesis using assms(1,2) double_round_trip(1) [OF assms(1)]
    by (simp add: parse_stats_def report_bytes_def queuestat_bytes_def simstat_bytes_def words8_u64
        words8_double words8_doubles del: map_append)
qed

subsection \<open>What the destructor leaves in the file\<close>

lemma overwrite_next:
  assumes "pos \<le> length old"
  shows "overwrite (pos + length b1) b2 (overwrite pos b1 old) = overwrite pos (b1 @ b2) old"
  using assms by (simp add: overwrite_def min_def ac_simps)

lemma sys_write_full:
  assumes "fds d n = Some (path, pos)" "files d path = Some old"
  shows "sys_write None n bs d =
     d\<lparr>files := (files d)(path \<mapsto> overwrite pos bs old), fds := (fds d)(n \<mapsto> (path, pos + length bs))\<rparr>"
  using assms by (simp add: sys_write_def)

lemma delete_opened:
  assumes "0 \<le> n" "violations q \<noteq> []"
    "queue_open n path d = (qf, d1)"
  shows "queue_delete (\<lambda>_. None) qf q d1 = Inr (stats q,
     d\<lparr>files := (files d)(path \<mapsto> report_bytes q @
          drop (length (report_bytes q)) (case files d path of None \<Rightarrow> [] | Some bs \<Rightarrow> bs)),
       fds := (fds d)(n := None)\<rparr>)"
proof -
  let ?old = "case files d path of None \<Rightarrow> [] | Some bs \<Rightarrow> bs"
  have d1: "qf = \<lparr>tracefile = path, fd = n\<rparr>"
    "d1 = d\<lparr>fds := (fds d)(n \<mapsto> (path, 0)), files := (files d)(path \<mapsto> ?old)\<rparr>"
    using assms(1,3) by (auto simp: queue_open_def sys_open_def)
  have v: "vec_at (violations q) 0 = Inr (violations q ! 0)" using assms(2) by (simp add: vec_at_def)
  have 0: "overwrite 0 bs ?old = bs @ drop (length bs) ?old" for bs by (simp add: overwrite_def)
  have 1: "overwrite (length b1) b2 (overwrite 0 b1 ?old) = overwrite 0 (b1 @ b2) ?old" for b1 b2
    using overwrite_next [of 0 ?old b1 b2] by simp
  show ?thesis
    by (simp add: queue_delete_def dump_def v d1 sys_write_full sys_close_def Let_def 1 report_bytes_def
        flip: length_append) (simp add: 0)
qed

subsection \<open>The statistics of reachable states\<close>

text \<open>What makes the report readable: the sum of the violations and the violations are doubles, and
  there is one violation for each inaccuracy counted.\<close>

definition good_report :: "'a queue_scheme \<Rightarrow> bool" where
  "good_report q \<longleftrightarrow> binary64 (sum_violations (simstats q)) \<and> 0 \<le> sum_violations (simstats q) \<and>
     sum_violations (simstats q) \<le> 2 ^ 100 \<and> (\<forall>v \<in> set (violations q). binary64 v \<and> 1 \<le> v \<and> v \<le> 2 ^ 31) \<and>
     pktinacc (simstats q) = of_nat (length (violations q))"

text \<open>It depends on three fields only.\<close>

lemma good_report_frame:
  assumes "violations q' = violations q" "sum_violations (simstats q') = sum_violations (simstats q)"
    "pktinacc (simstats q') = pktinacc (simstats q)"
  shows "good_report q' \<longleftrightarrow> good_report q"
  by (simp add: good_report_def assms)

lemma good_report_base: "base_frame q q' \<Longrightarrow> good_report q' \<longleftrightarrow> good_report q"
  by (rule good_report_frame) auto

lemma tick_good: "good_report (departure_tick ts q) \<longleftrightarrow> good_report q"
  by (rule good_report_frame) (simp_all add: departure_tick_def Let_def)

lemma count_good:
  "good_report (count_underflow q) \<longleftrightarrow> good_report q" "good_report (count_packet q) \<longleftrightarrow> good_report q"
  "good_report (count_completion ts e q) \<longleftrightarrow> good_report q"
  by (rule good_report_frame; simp add: count_underflow_def count_packet_def count_completion_def)+

lemma gqueue_erase_good: "gqueue_erase e q = Inr q' \<Longrightarrow> good_report q' \<longleftrightarrow> good_report q"
  by (rule good_report_frame) (auto simp: gqueue_erase_def split: prod.splits)

lemma gqueue_good: "good_report (q\<lparr>gqueue := g\<rparr>) \<longleftrightarrow> good_report q"
  by (rule good_report_frame) simp_all

lemma retire_good:
  assumes "retire ts e q = Inr q'"
  shows "good_report q' \<longleftrightarrow> good_report q" "violations q' = violations q"
proof -
  show "good_report q' \<longleftrightarrow> good_report q"
    using assms by (auto simp: retire_def count_good gqueue_good dest!: gqueue_erase_good split: if_splits)
  have "violations q2 = violations q1" if "gqueue_erase e q1 = Inr q2" for q1 q2 :: "'a queue_scheme"
    using that by (auto simp: gqueue_erase_def split: prod.splits)
  then show "violations q' = violations q"
    using assms by (auto simp: retire_def count_completion_def split: if_splits)
qed

lemma violation_range:
  assumes "0 < remaining b" "remaining b < remaining e" "remaining e \<le> int_max"
  shows "binary64 (fl (of_int (remaining e) / of_int (remaining b)))"
    "1 \<le> fl (of_int (remaining e) / of_int (remaining b))"
    "fl (of_int (remaining e) / of_int (remaining b)) \<le> 2 ^ 31"
proof -
  let ?x = "of_int (remaining e) / of_int (remaining b) :: rat"
  have b: "1 \<le> (of_int (remaining b) :: rat)" using assms(1) by simp
  have e: "of_int (remaining e) \<le> (2 ^ 31 :: rat)" using assms(3) by (simp add: int_max_def)
  have lo: "1 \<le> ?x" using assms(1,2) by (simp add: pos_le_divide_eq)
  have "?x \<le> of_int (remaining e)" using b lo assms(1,2) by (simp add: pos_divide_le_eq mult_le_cancel_left1)
  then have hi: "?x \<le> 2 ^ 31" using e by linarith
  have "(2 :: rat) ^ 31 \<le> 2 powi 200" by (simp add: power_int_def)
  then show "binary64 (fl ?x)" using binary64_fl [OF lo] hi by linarith
  show "1 \<le> fl ?x" using dbl.rnd_mono [OF lo] by simp
  have "fl (2 ^ 31) = 2 ^ 31" using dbl.rnd_int [of "2 ^ 31"] by simp
  then show "fl ?x \<le> 2 ^ 31" using dbl.rnd_mono [OF hi] by simp
qed

lemma count_inaccuracy_good:
  assumes "good_report q" "0 < remaining b" "remaining e \<le> int_max"
  shows "good_report (count_inaccuracy e b q)"
proof (cases "remaining e > remaining b \<and> gstats q")
  case True
  let ?s = "sum_violations (simstats q)" and ?v = "fl (of_int (remaining e) / of_int (remaining b))"
  have v: "binary64 ?v" "1 \<le> ?v" "?v \<le> 2 ^ 31" using violation_range [of b e] assms True by auto
  have s: "0 \<le> ?s" "?s \<le> 2 ^ 100" using assms(1) by (simp_all add: good_report_def)
  have "?s + ?v \<le> 2 ^ 100 + 2 ^ 31" using s(2) v(3) by (rule add_mono)
  also have "\<dots> \<le> 2 powi 200" by (simp add: power_int_def)
  finally have "binary64 (fl (?s + ?v))" using s(1) v(2) by (intro binary64_fl) linarith+
  moreover have "0 \<le> fl (?s + ?v)" using s(1) v(2) by (intro dbl.rnd_nonneg) linarith
  moreover have "fl (?s + ?v) \<le> 2 ^ 100" by (rule fl_sum_bounded [OF s(2) v(3)])
  ultimately show ?thesis using True assms(1) v
    by (simp add: count_inaccuracy_def Let_def) (simp add: good_report_def)
next
  case False
  then have "count_inaccuracy e b q = q" by (auto simp: count_inaccuracy_def Let_def)
  then show ?thesis using assms(1) by simp
qed

context queue_impl
begin

lemma departure_good:
  assumes inv: "qinv q" and d: "departure vt ts q = Inr q'" and good: "good_report q"
  shows "good_report q' \<and> length (violations q') \<le> Suc (length (violations q))"
proof -
  let ?q = "departure_tick ts q"
  note qi = qinvD [OF inv]
  have h: "hw_inv ?q" "hw ?q = hw q" using qi(1) inv_more [of ?q q] hw_more [of ?q q] by (auto simp: frame)
  show ?thesis
  proof (cases "buff ?q \<noteq> 0 \<or> vt_empty vt ?q")
    case True
    then have "q' = ?q" using d by (auto simp: departure_def Let_def split: if_splits)
    then show ?thesis using good by (simp add: tick_good frame)
  next
    case False
    then obtain e q1 where e: "vt_dequeue vt ?q = Inr (e, q1)" "base_frame ?q q1"
      "e = null_entry \<or> sent e (hw q) (hw q1)"
      using dequeue_ok [of ?q] h qi(5) by auto
    have good1: "good_report q1" "violations q1 = violations q"
      using good good_report_base [OF e(2)] e(2) by (auto simp: tick_good frame base_frame_def)
    show ?thesis
    proof (cases "ent_length e = 0")
      case True
      then have "q' = count_underflow q1" using d False e(1) by (simp add: departure_def Let_def)
      then show ?thesis using good1 by (simp add: count_good frame)
    next
      case nonzero: False
      have g: "gqueue q1 = gqueue q" using e(2) by (auto simp: frame base_frame_def)
      obtain best where best: "ms_begin (gqueue q1) = Inr best"
        "retire ts e (count_inaccuracy e best (count_packet q1)) = Inr q'"
        using d False e(1) nonzero by (auto simp: departure_def Let_def)
      have "gqueue q \<noteq> []" "best = hd (gqueue q)" using best(1) g by (simp_all add: ms_begin_Inr)
      then have "best \<in># hw q" unfolding qi(2) [symmetric] by simp
      then have b: "0 < remaining best" using qi(5) [of best] by (simp add: valid_entry_def)
      have "e \<in># hw q" using e(3) nonzero by (auto simp: sent_def null_entry_def)
      then have "remaining e \<le> int_max" using qi(5) [of e] by (simp add: valid_entry_def)
      then have "good_report (count_inaccuracy e best (count_packet q1))"
        using good1 by (intro count_inaccuracy_good b) (simp_all add: count_good)
      then show ?thesis
        using retire_good [OF best(2)] good1(2) by (simp add: frame)
    qed
  qed
qed

lemma arrival_good:
  assumes "qinv q" "size (hw q) < cap" "0 < n" "n \<le> int_max" "next_id q + 1 \<noteq> 0"
    "arrival vt ts n q = Inr q'" "good_report q"
  shows "good_report q' \<and> violations q' = violations q"
  using arrival_ok [OF assms(1-5), of ts] assms(6,7) good_report_frame [of q' q] by auto

lemma step_good:
  assumes "qinv q" "size (hw q) \<le> cap" "vt_step vt ts q = Inr q'" "good_report q"
  shows "good_report q' \<and> violations q' = violations q"
  using step_ok [OF qinvD(1) [OF assms(1)] assms(2), of ts] assms(3,4) good_report_base [of q q']
  by (auto simp: base_frame_def)

lemma reach_good:
  assumes "qreach vt cap init q" "qinv init" "size (hw init) \<le> cap" "good_report init"
  shows "good_report q"
  using assms(1)
proof (induction rule: qreach.induct)
  case reach_init
  show ?case by (rule assms(4))
next
  case (reach_arrival q n ts q')
  note inv = reach_qinv [OF reach_arrival(1) assms(2,3)]
  then have "size (hw q) < cap" using size_hw [OF qinvD(1)] reach_arrival(5) by simp
  then show ?case using arrival_good [of q n ts q'] inv reach_arrival by simp
next
  case (reach_departure q ts q')
  then show ?case using departure_good reach_qinv [OF reach_departure(1) assms(2,3)] by blast
next
  case (reach_step q ts q')
  then show ?case using step_good reach_qinv [OF reach_step(1) assms(2,3)] by blast
qed

end

lemma good_report_init: "good_report (pifo_init p)" "good_report ideal_init"
  by (simp_all add: good_report_def pifo_init_def ideal_init_def zero_simstat_def binary64_0)


text \<open>With no violation there is no element through which to take the address.\<close>

lemma delete_exact: "violations q = [] \<Longrightarrow> queue_delete accept qf q d = Inl OutOfRange"
  by (simp add: queue_delete_def dump_def vec_at_def Let_def)

text \<open>With all bytes accepted, the file then reads as the statistics of the queue, followed by what an
  older and longer file held behind them.\<close>

lemma delete_parsed:
  assumes "0 \<le> n" "violations q \<noteq> []" "queue_open n path d = (qf, d1)" "good_report q"
    "those (map double_of (words8 (drop (112 + 8 * length (violations q))
       (case files d path of None \<Rightarrow> [] | Some bs \<Rightarrow> bs)))) = Some vs"
  shows "\<exists>bs. queue_delete (\<lambda>_. None) qf q d1 =
     Inr (stats q, d\<lparr>files := (files d)(path \<mapsto> bs), fds := (fds d)(n := None)\<rparr>) \<and>
     parse_stats bs = Some (queuestats q, simstats q, violations q @ vs)"
proof -
  have "parse_stats (report_bytes q @ drop (length (report_bytes q)) (case files d path of None \<Rightarrow> [] | Some bs \<Rightarrow> bs))
      = Some (queuestats q, simstats q, violations q @ vs)"
    using assms(4,5) by (intro parse_report) (simp_all add: good_report_def length_report)
  then show ?thesis using delete_opened [OF assms(1-3)] by blast
qed

text \<open>Without an open file nothing is written.\<close>

lemma delete_closed:
  assumes "fds d (fd qf) = None" "violations q \<noteq> []"
  shows "queue_delete accept qf q d = Inr (stats q, d\<lparr>fds := (fds d)(fd qf := None)\<rparr>)"
  using assms by (simp add: queue_delete_def dump_def sys_write_def sys_close_def vec_at_def Let_def)


subsection \<open>Properties\<close>

text \<open>C9: Deleting a \<open>PIFO_Naive\<close> queue in any reachable state with at least one inaccuracy, with a file
  that could be opened and takes all bytes, leaves a file that \<open>parse_stats\<close> reads as exactly the
  statistics of the queue and its violations, one for each inaccuracy counted; other files and
  descriptors are left alone. An older file of the same name is not truncated: where it is longer,
  the rest of it is read as further violations.\<close>

theorem report_parsed:
  assumes "8 \<le> p" "qreach pifo_vt (nat int_max) (pifo_init p) q" "violations q \<noteq> []"
    "0 \<le> n" "queue_open n path d = (qf, d1)"
    "those (map double_of (words8 (drop (112 + 8 * length (violations q))
       (case files d path of None \<Rightarrow> [] | Some bs \<Rightarrow> bs)))) = Some vs"
  shows "\<exists>bs. queue_delete (\<lambda>_. None) qf q d1 =
     Inr (stats q, d\<lparr>files := (files d)(path \<mapsto> bs), fds := (fds d)(n := None)\<rparr>) \<and>
     parse_stats bs = Some (queuestats q, simstats q, violations q @ vs) \<and>
     pktinacc (simstats q) = of_nat (length (violations q))"
proof -
  have "good_report q"
    by (rule pif.reach_good [OF assms(2)])
      (use assms(1) pifo_init_ok in \<open>simp_all add: pifo_ok_qinv good_report_init\<close>)
  then show ?thesis using delete_parsed [OF assms(4,3,5) _ assms(6)] by (simp add: good_report_def)
qed

text \<open>A run with an inaccuracy: eight messages of one slot and one of two slots arrive, the longest goes to
  the backing store, and when the eight are sent a new message of three slots overtakes it.\<close>

datatype op = Arr u64 int | Dep u64 | Stp u64

fun run_ops :: "op list \<Rightarrow> pifo \<Rightarrow> pifo res" where
  "run_ops [] q = Inr q"
| "run_ops (Arr ts n # ops) q =
     (if 0 < n \<and> n \<le> int_max \<and> next_id q + 1 \<noteq> 0 \<and> pifo_size q < int_max
      then rbind (arrival pifo_vt ts n q) (run_ops ops) else Inl Aborted)"
| "run_ops (Dep ts # ops) q = rbind (departure pifo_vt ts q) (run_ops ops)"
| "run_ops (Stp ts # ops) q = rbind (pifo_step ts q) (run_ops ops)"

lemma run_ops_reach:
  "qreach pifo_vt (nat int_max) init q \<Longrightarrow> run_ops ops q = Inr q' \<Longrightarrow> qreach pifo_vt (nat int_max) init q'"
proof (induction ops q rule: run_ops.induct)
  case (2 ts n ops q)
  then obtain q1 where a: "0 < n" "n \<le> int_max" "next_id q + 1 \<noteq> 0" "pifo_size q < int_max"
    "arrival pifo_vt ts n q = Inr q1" "run_ops ops q1 = Inr q'" by (auto split: if_splits)
  have "qreach pifo_vt (nat int_max) init q1"
    by (rule reach_arrival [OF 2(2) a(1-3) _ a(5)]) (use a(4) in simp)
  then show ?case using 2(1) a by simp
next
  case (3 ts ops q)
  then show ?case using reach_departure [OF 3(2)] by auto
next
  case (4 ts ops q)
  then show ?case using reach_step [OF 4(2), of ts] by auto
qed simp

definition overtaking :: "op list" where
  "overtaking = replicate 8 (Arr 0 1) @ [Arr 0 2, Stp 0] @ map Dep [1, 2, 3, 4, 5, 6, 7, 8] @ [Arr 9 3, Dep 9]"

lemma overtaking_run: "case run_ops overtaking (pifo_init 8) of Inr q \<Rightarrow> violations q = [3 / 2] | Inl e \<Rightarrow> False"
  by code_simp

theorem report_parsed_witness:
  "\<exists>(q :: pifo) qf d1 bs. violations q = [3 / 2] \<and> queue_open 3 ''trace'' \<lparr>files = \<lambda>_. None, fds = \<lambda>_. None\<rparr> = (qf, d1) \<and>
     queue_delete (\<lambda>_. None) qf q d1 =
     Inr (stats q, \<lparr>files = [''trace'' \<mapsto> bs], fds = (\<lambda>_. None)\<rparr>) \<and>
     parse_stats bs = Some (queuestats q, simstats q, violations q) \<and> pktinacc (simstats q) = 1"
proof -
  let ?d = "\<lparr>files = \<lambda>_. None, fds = \<lambda>_. None\<rparr>"
  obtain q where q: "run_ops overtaking (pifo_init 8) = Inr q" "violations q = [3 / 2]"
    using overtaking_run by (auto split: sum.splits)
  have r: "qreach pifo_vt (nat int_max) (pifo_init 8) q" by (rule run_ops_reach [OF reach_init q(1)])
  obtain qf d1 where o: "queue_open 3 ''trace'' ?d = (qf, d1)" by fastforce
  have "those (map double_of (words8 (drop (112 + 8 * length (violations q))
       (case files ?d ''trace'' of None \<Rightarrow> [] | Some bs \<Rightarrow> bs)))) = Some []" by (simp add: words8_short)
  from report_parsed [OF _ r _ _ o this] obtain bs where
    "queue_delete (\<lambda>_. None) qf q d1 = Inr (stats q, \<lparr>files = [''trace'' \<mapsto> bs], fds = (\<lambda>_. None)\<rparr>)"
    "parse_stats bs = Some (queuestats q, simstats q, violations q)" "pktinacc (simstats q) = 1"
    using q(2) by (auto simp: fun_upd_idem)
  then show ?thesis using o q(2) by blast
qed

end
