(* ===== verification/Qsim_Report.thy ===== *)
theory Qsim_Report
  imports Qsim_Main Queue_Report
begin

section \<open>The simulator from start to exit\<close>

text \<open>
  \<open>main\<close> of \<open>model/qsim.cc\<close> with the file of the queue: the constructor opens it before the
  simulation, \<open>delete queue\<close> after it prints the statistics and writes them. \<open>Queue\<close> has no virtual
  destructor, so what \<open>delete\<close> runs is the destructor of \<open>Queue\<close>; those of the derived classes are
  empty.
\<close>

text \<open>\<open>None\<close>: the simulation is still running.\<close>

fun delete_queue ::
    "(nat \<Rightarrow> nat option) \<Rightarrow> queue_file \<Rightarrow> sim_end \<Rightarrow> disk \<Rightarrow> (string \<times> disk) option res" where
  "delete_queue accept qf (IdealEnd (Some (q, c))) d = rbind (queue_delete accept qf q d) (\<lambda>r. Inr (Some r))"
| "delete_queue accept qf (PifoEnd (Some (q, c))) d = rbind (queue_delete accept qf q d) (\<lambda>r. Inr (Some r))"
| "delete_queue accept qf (DrainEnd (Some (ts, q))) d = rbind (queue_delete accept qf q d) (\<lambda>r. Inr (Some r))"
| "delete_queue accept qf _ d = Inr None"

definition qsim_program ::
    "nat \<Rightarrow> (rat \<Rightarrow> nat \<Rightarrow> rat) \<Rightarrow> (nat \<Rightarrow> rat) \<Rightarrow> (nat \<Rightarrow> nat option) \<Rightarrow> int \<Rightarrow> string \<Rightarrow> options \<Rightarrow> disk \<Rightarrow>
     (string \<times> disk) option res" where
  "qsim_program fuel exponential uniform accept n tfile opts d =
     (let (qf, d1) = (if queue_kind (opt_type opts) = 2 then snapshot_open n tfile d else queue_open n tfile d)
      in rbind (qsim fuel exponential uniform opts) (\<lambda>e. delete_queue accept qf e d1))"

subsection \<open>The statistics at the end of a simulation\<close>

context paced_impl
begin

lemma arrive_good:
  assumes "env_ok env" "qinv q" "size (hw q) < cap" "next_id q + 1 \<noteq> 0" "length_ok c"
    "arrive vt env (q, c) = Inr (q', c')" "good_report q"
  shows "good_report q' \<and> violations q' = violations q"
  using arrival_good [OF assms(2,3) _ _ assms(4)] assms(5-7) by (auto simp: arrive_def length_ok_def)

lemma load_iter_good:
  assumes env: "env_ok env" and inv: "sim_inv n (q, c)" and room: "n < cap" "n < 2 ^ 64 - 1"
    and it: "load_iter vt env (q, c) = Inr (q', c')" and good: "good_report q"
  shows "good_report q' \<and> length (violations q') \<le> Suc (length (violations q))"
proof -
  have i: "qinv q" "size (hw q) \<le> n" "unat (next_id q) \<le> n" "length_ok c"
    using inv by (simp_all add: sim_inv_def)
  obtain q1 where d: "departure vt (sim_ts c) q = Inr q1" "qinv q1" "next_id q1 = next_id q"
    using departure_ok [OF i(1)] by blast
  have good1: "good_report q1" "length (violations q1) \<le> Suc (length (violations q))"
    using departure_good [OF i(1) d(1) good] by simp_all
  have room1: "size (hw q1) < cap" "size (hw q1) \<le> n"
    using departure_backlog(2) [OF i(1) d(1)] i(2) room(1) by auto
  have id: "next_id q1 + 1 \<noteq> 0" using i(3) room(2) d(3) by (intro plus_1_nonzero) simp
  obtain q2 c2 where a: "(if next_arrival c \<le> ts_double c then arrive vt env (q1, c) else Inr (q1, c)) = Inr (q2, c2)"
    "vt_step vt (sim_ts c2) q2 = Inr q'"
    using it d(1) by (auto simp: load_iter_def)
  have "qinv q2 \<and> size (hw q2) \<le> cap \<and> good_report q2 \<and> violations q2 = violations q1"
  proof (cases "next_arrival c \<le> ts_double c")
    case True
    then have "arrive vt env (q1, c) = Inr (q2, c2)" using a(1) by simp
    then show ?thesis
      using arrive_ok [OF env d(2) room1(1) id i(4)] arrive_good [OF env d(2) room1(1) id i(4) _ good1(1)] room1(1)
      by auto
  qed (use a(1) d(2) room1 good1 in auto)
  then show ?thesis using step_good [OF _ _ a(2)] good1(2) by simp
qed

lemma load_iters_good:
  assumes "env_ok env" "sim_inv n s" "n + k \<le> cap" "n + k < 2 ^ 64"
    "iterate k (load_iter vt env) s = Inr s'" "good_report (fst s)"
  shows "good_report (fst s') \<and> length (violations (fst s')) \<le> length (violations (fst s)) + k"
  using assms(2-6)
proof (induction k arbitrary: n s)
  case (Suc k)
  obtain q c where s: "s = (q, c)" by (cases s)
  obtain q1 c1 where i: "load_iter vt env (q, c) = Inr (q1, c1)" "sim_inv (Suc n) (q1, c1)"
    using load_iter_ok [OF assms(1), of n q c] Suc.prems by (auto simp: s)
  have "good_report q1 \<and> length (violations q1) \<le> Suc (length (violations q))"
    using load_iter_good [OF assms(1) Suc.prems(1) [unfolded s] _ _ i(1)] Suc.prems by (simp add: s)
  then show ?case using Suc.IH [OF i(2)] Suc.prems i(1) by (fastforce simp: s)
qed simp


lemma pulse_flags_good:
  assumes "pulse_flags vt env maximum (q, c) = (q', c')"
  shows "good_report q' \<longleftrightarrow> good_report q"
  using assms by (intro good_report_frame) (auto simp: pulse_flags_def Let_def split: if_splits)

lemma pulse_iter_good:
  assumes env: "env_ok env" and inv: "pulse_inv maximum n (q, c)"
    and room: "unat maximum + 1 \<le> cap" "unat maximum + 1 < 2 ^ 32" "n < 2 ^ 64 - 1"
    and it: "pulse_iter vt env maximum (q, c) = Inr (q', c')" and good: "good_report q"
  shows "good_report q'"
proof -
  have i: "qinv q" "size (hw q) \<le> unat maximum + 1" "unat (next_id q) \<le> n" "length_ok c" "gstats q \<longleftrightarrow> drain c"
    using inv by (simp_all add: pulse_inv_def)
  obtain q1 where d: "departure vt (sim_ts c) q = Inr q1" "qinv q1" "next_id q1 = next_id q" "gstats q1 = gstats q"
    using departure_ok [OF i(1)] by blast
  have good1: "good_report q1" "length (violations q1) \<le> Suc (length (violations q))"
    using departure_good [OF i(1) d(1) good] by simp_all
  have size1: "size (hw q1) \<le> unat maximum + 1" using departure_backlog(2) [OF i(1) d(1)] i(2) by simp
  obtain q2 c2 where fl: "pulse_flags vt env maximum (q1, c) = (q2, c2)" by fastforce
  have f: "qinv q2" "hw q2 = hw q1" "next_id q2 = next_id q1" "next_length c2 = next_length c"
    "drain c2 \<longleftrightarrow> hw q1 \<noteq> {#} \<and> (drain c \<or> unat maximum < size (hw q1))"
    using pulse_flags_ok [OF d(2) _ _ fl] size1 room(2) d(4) i(5) by auto
  have good2: "good_report q2" using good1(1) pulse_flags_good [OF fl] by simp
  obtain q3 c3 where a: "(if next_arrival c2 \<le> ts_double c2 \<and> \<not> drain c2 then arrive vt env (q2, c2)
      else Inr (q2, c2)) = Inr (q3, c3)" "vt_step vt (sim_ts c3) q3 = Inr q'"
    using it d(1) fl by (auto simp: pulse_iter_def)
  have "qinv q3 \<and> size (hw q3) \<le> cap \<and> good_report q3"
  proof (cases "next_arrival c2 \<le> ts_double c2 \<and> \<not> drain c2")
    case True
    then have lt: "size (hw q2) < cap" using f(2,5) room(1) by auto
    have id: "next_id q2 + 1 \<noteq> 0" using i(3) room(3) d(3) f(3) by (intro plus_1_nonzero) simp
    have len: "length_ok c2" using i(4) f(4) by (simp add: length_ok_def)
    have "arrive vt env (q2, c2) = Inr (q3, c3)" using a(1) True by simp
    then show ?thesis
      using arrive_ok [OF env f(1) lt id len] arrive_good [OF env f(1) lt id len _ good2] lt by auto
  next
    case False
    then have "q3 = q2" using a(1) by auto
    then show ?thesis using f(1,2) size1 room(1) good2 by simp
  qed
  then show ?thesis using step_good [OF _ _ a(2)] by blast
qed

lemma pulse_loop_good:
  assumes "env_ok env" "pulse_inv maximum n s" "unat maximum + 1 \<le> cap" "unat maximum + 1 < 2 ^ 32"
    "n + fuel < 2 ^ 64" "pulse_loop fuel vt env maximum duration s = Inr (Some s')" "good_report (fst s)"
  shows "good_report (fst s')"
  using assms(2,5-7)
proof (induction fuel arbitrary: n s)
  case (Suc fuel)
  obtain q c where s: "s = (q, c)" by (cases s)
  have n: "n < 2 ^ 64 - 1" using Suc.prems(2) by simp
  obtain q1 c1 where i: "pulse_iter vt env maximum (q, c) = Inr (q1, c1)" "pulse_inv maximum (Suc n) (q1, c1)"
    using pulse_iter_ok [OF assms(1) Suc.prems(1) [unfolded s] assms(3,4) n] by auto
  have "good_report q1"
    using pulse_iter_good [OF assms(1) Suc.prems(1) [unfolded s] assms(3,4) n i(1)] Suc.prems(4) by (simp add: s)
  then show ?case using Suc.IH [OF i(2)] Suc.prems i(1) by (auto simp: s split: if_splits)
qed simp

end


subsection \<open>The runs\<close>

lemma pifo_run_good:
  assumes "opt_type opts = ''pifo_naive'' \<or> opt_type opts = ''pifo_insertion_pulse''"
    "opt_workload opts \<in> set workload_names" "8 \<le> opt_priorities opts"
    "unat (opt_max opts) < nat int_max" "\<forall>i. uniform i \<le> 1" "int fuel \<le> int_max"
  shows "\<exists>r. qsim fuel exponential uniform opts = Inr (PifoEnd r) \<and> (\<forall>s'. r = Some s' \<longrightarrow> good_report (fst s'))"
  using assms(1)
proof
  assume t: "opt_type opts = ''pifo_naive''"
  obtain env c r where st: "pif.sim_inv 0 (pifo_init (opt_priorities opts), c)" and env: "env_ok env"
    and run: "qsim fuel exponential uniform opts = Inr (PifoEnd r)"
    and r: "\<forall>s'. r = Some s' \<longrightarrow> opt_duration opts \<le> comps (simstats (fst s')) \<and>
       (\<exists>k \<le> fuel. pif.sim_inv (0 + k) s' \<and>
          iterate k (load_iter pifo_vt env) (pifo_init (opt_priorities opts), c) = Inr s')"
    using qsim_pifo_run [OF t assms(2,3,5,6), of exponential] by (elim exE conjE)
  have "good_report (fst s')" if rs: "r = Some s'" for s'
  proof -
    obtain k where k: "k \<le> fuel" "iterate k (load_iter pifo_vt env) (pifo_init (opt_priorities opts), c) = Inr s'"
      using r rs by blast
    have cap: "0 + k \<le> nat int_max" "0 + k < 2 ^ 64" using assms(6) k(1) by (simp_all add: int_max_def)
    show ?thesis using pif.load_iters_good [OF env st cap k(2)] by (simp add: good_report_init)
  qed
  then show ?thesis using run by blast
next
  assume t: "opt_type opts = ''pifo_insertion_pulse''"
  obtain env c r where st: "pif.pulse_inv (opt_max opts) 0 (pulse_start opts, c)" and env: "env_ok env"
    and run: "qsim fuel exponential uniform opts = Inr (PifoEnd r)"
    and r: "pulse_loop fuel pifo_vt env (opt_max opts) (opt_duration opts) (pulse_start opts, c) = Inr r"
    using qsim_pulse_run [OF t assms(2-5), of fuel exponential] assms(6) by (auto simp: int_max_def)
  have cap: "unat (opt_max opts) + 1 \<le> nat int_max" "unat (opt_max opts) + 1 < 2 ^ 32" "0 + fuel < 2 ^ 64"
    using assms(4,6) by (simp_all add: int_max_def)
  have "good_report (pulse_start opts)"
    by (simp add: pulse_start_def good_report_def pifo_init_def zero_simstat_def binary64_0)
  then have "good_report (fst s')" if "r = Some s'" for s'
    using pif.pulse_loop_good [OF env st cap r [unfolded that]] by simp
  then show ?thesis using run by blast
qed

lemma ideal_run_exact:
  assumes "opt_type opts = ''ideal''" "opt_workload opts \<in> set workload_names"
    "\<forall>i. uniform i \<le> 1" "fuel \<le> SLOTS"
  shows "\<exists>r. qsim fuel exponential uniform opts = Inr (IdealEnd r) \<and> (\<forall>s'. r = Some s' \<longrightarrow> violations (fst s') = [])"
proof -
  obtain env c r where c: "length_ok c" and env: "env_ok env"
    and run: "qsim fuel exponential uniform opts = Inr (IdealEnd r)"
    and r: "\<forall>s'. r = Some s' \<longrightarrow> opt_duration opts \<le> comps (simstats (fst s')) \<and>
       (\<exists>k \<le> fuel. idl.sim_inv (0 + k) s' \<and> iterate k (load_iter ideal_vt env) (ideal_init, c) = Inr s')"
    using qsim_ideal_run [OF assms, of exponential] by (elim exE conjE)
  have "violations (fst s') = []" if rs: "r = Some s'" for s'
  proof -
    obtain k where k: "k \<le> fuel" "iterate k (load_iter ideal_vt env) (ideal_init, c) = Inr s'"
      using r rs by blast
    have cap: "0 + k \<le> SLOTS" "0 + k < 2 ^ 64" using assms(4) k(1) by (simp_all add: SLOTS_def)
    have g: "good_report (fst s')" "length (violations (fst s')) \<le> k"
      using idl.load_iters_good [OF env ideal_start [OF c] cap k(2)]
      by (simp_all add: good_report_init) (simp add: ideal_init_def)
    moreover have "pktinacc (simstats (fst s')) = 0"
      using idl.load_iters_exact [OF env ideal_start [OF c] cap k(2)] by simp
    ultimately have "(of_nat (length (violations (fst s'))) :: u64) = 0" by (simp add: good_report_def)
    then have "2 ^ 64 dvd length (violations (fst s'))" by (simp add: word_of_nat_eq_0_iff)
    then show ?thesis using g(2) cap(2) by (auto dest: dvd_imp_le)
  qed
  then show ?thesis using run by blast
qed

subsection \<open>Properties\<close>



text \<open>A simulation of the ideal queue has no violation, so the program that ends it takes the address of
  the first element of an empty vector, whatever the disk does.\<close>

theorem ideal_file:
  assumes "opt_type opts = ''ideal''" "opt_workload opts \<in> set workload_names"
    "\<forall>i. uniform i \<le> 1" "fuel \<le> SLOTS"
  shows "\<exists>r. qsim fuel exponential uniform opts = Inr (IdealEnd r) \<and>
     qsim_program fuel exponential uniform accept n tfile opts d =
       (if r = None then Inr None else Inl OutOfRange)"
proof -
  obtain r where r: "qsim fuel exponential uniform opts = Inr (IdealEnd r)"
    "\<forall>s'. r = Some s' \<longrightarrow> violations (fst s') = []"
    using ideal_run_exact [OF assms, of exponential] by (elim exE conjE)
  then show ?thesis
    by (cases r) (auto simp: qsim_program_def delete_exact split: prod.splits)
qed

theorem ideal_file_witness:
  "\<exists>r. qsim 1000 (\<lambda>_ _. 10) (\<lambda>_. 1 / 2) (demo_opts ''ideal'' 0 9) = Inr (IdealEnd r) \<and>
     qsim_program 1000 (\<lambda>_ _. 10) (\<lambda>_. 1 / 2) (\<lambda>_. None) 3 ''trace'' (demo_opts ''ideal'' 0 9)
       \<lparr>files = \<lambda>_. None, fds = \<lambda>_. None\<rparr> = (if r = None then Inr None else Inl OutOfRange)"
  by (rule ideal_file) (simp_all add: SLOTS_def)

end
