(* ===== verification/Msg_Header.thy ===== *)
theory Msg_Header
  imports Bytes
begin

unbundle bit_operations_syntax

section \<open>Message headers\<close>

text \<open>
  The packed structure \<open>msghdr_send_t\<close> of \<open>app/lib/nic_utils.h\<close> that a program stores to the NIC to
  send a message, its 64 bytes, and the word \<open>metadata\<close> with the size and the return offset of the
  message; and the headers the benchmark programs fill in.
\<close>

record msghdr_send =
  unused :: u32
  saddr :: "byte list"
  daddr :: "byte list"
  sport :: "16 word"
  dport :: "16 word"
  buff_addr :: u32
  metadata :: u32
  msg_id :: u64
  cc :: u64

definition header_bytes :: "msghdr_send \<Rightarrow> byte list" where
  "header_bytes h = le_bytes 4 (unat (unused h)) @ saddr h @ daddr h @ le_bytes 2 (unat (sport h)) @
     le_bytes 2 (unat (dport h)) @ le_bytes 4 (unat (buff_addr h)) @ le_bytes 4 (unat (metadata h)) @
     le_bytes 8 (unat (msg_id h)) @ le_bytes 8 (unat (cc h))"

text \<open>The types of the fields: addresses are arrays of 16 characters.\<close>

definition header_typed :: "msghdr_send \<Rightarrow> bool" where
  "header_typed h \<longleftrightarrow> length (saddr h) = 16 \<and> length (daddr h) = 16"

definition decode_header :: "byte list \<Rightarrow> msghdr_send" where
  "decode_header bs = \<lparr>unused = word_of_nat (of_bytes (take 4 bs)), saddr = take 16 (drop 4 bs),
     daddr = take 16 (drop 20 bs), sport = word_of_nat (of_bytes (take 2 (drop 36 bs))),
     dport = word_of_nat (of_bytes (take 2 (drop 38 bs))), buff_addr = word_of_nat (of_bytes (take 4 (drop 40 bs))),
     metadata = word_of_nat (of_bytes (take 4 (drop 44 bs))), msg_id = word_of_nat (of_bytes (take 8 (drop 48 bs))),
     cc = word_of_nat (of_bytes (take 8 (drop 56 bs)))\<rparr>"

text \<open>\<open>(size << 12) | retoff\<close>\<close>

definition pack_metadata :: "u32 \<Rightarrow> u32 \<Rightarrow> u32" where
  "pack_metadata sz retoff = push_bit 12 sz OR retoff"

text \<open>The header of the benchmark programs: everything but the size is fixed.\<close>

definition bench_header :: "u32 \<Rightarrow> msghdr_send" where
  "bench_header sz = \<lparr>unused = 0, saddr = replicate 16 0x0F, daddr = replicate 16 0x0A, sport = 1, dport = 1,
     buff_addr = 0, metadata = pack_metadata sz 0, msg_id = 0, cc = 0\<rparr>"

lemma word_of_bytes_le: "word_of_nat (unat w mod 256 ^ n) = w" if "LENGTH('a) = 8 * n" for w :: "'a :: len word"
proof -
  have "unat w < 2 ^ LENGTH('a)" by (rule unsigned_less)
  also have "(2 :: nat) ^ LENGTH('a) = 256 ^ n" by (simp add: that power_mult)
  finally show ?thesis by simp
qed

lemma shifted_back: "drop_bit 12 (push_bit 12 w) = take_bit 20 w" for w :: u32
  by (rule bit_word_eqI) (auto simp: bit_simps)

lemma shifted_low: "take_bit 12 (push_bit 12 w) = 0" for w :: u32
  by (rule bit_word_eqI) (auto simp: bit_simps)

lemma take_bit_small: "unat w < 2 ^ n \<Longrightarrow> take_bit n w = w" for w :: u32
  by (simp add: word_unat_eq_iff unsigned_take_bit_eq take_bit_nat_eq_self)

lemma metadata_parts:
  assumes "unat sz < 2 ^ 20" "unat retoff < 2 ^ 12"
  shows "drop_bit 12 (pack_metadata sz retoff) = sz" "take_bit 12 (pack_metadata sz retoff) = retoff"
proof -
  have r: "take_bit 12 retoff = retoff" by (rule take_bit_small [OF assms(2)])
  then have "drop_bit 12 retoff = 0" by (metis drop_bit_take_bit diff_self_eq_0 take_bit_0)
  then show "drop_bit 12 (pack_metadata sz retoff) = sz" "take_bit 12 (pack_metadata sz retoff) = retoff"
    using take_bit_small [OF assms(1)] r by (simp_all add: pack_metadata_def shifted_back shifted_low)
qed

lemma length_header: "header_typed h \<Longrightarrow> length (header_bytes h) = 64"
  by (simp add: header_bytes_def header_typed_def)

lemma decode_header_bytes: "header_typed h \<Longrightarrow> decode_header (header_bytes h) = h"
  using word_of_bytes_le [of 4 "unused h"] word_of_bytes_le [of 4 "buff_addr h"] word_of_bytes_le [of 4 "metadata h"]
    word_of_bytes_le [of 2 "sport h"] word_of_bytes_le [of 2 "dport h"] word_of_bytes_le [of 8 "msg_id h"]
    word_of_bytes_le [of 8 "cc h"]
  by (cases h) (simp add: decode_header_def header_bytes_def header_typed_def)

lemma bench_header_typed [simp]: "header_typed (bench_header sz)"
  by (simp add: header_typed_def bench_header_def)

subsection \<open>Properties\<close>

text \<open>C26: A well-typed header is 64 bytes, a whole one of which the NIC reads at once, and decoding its
  bytes gives the header back; the size and the return offset are recovered from \<open>metadata\<close> when they
  fit their 20 and 12 bits.\<close>

theorem header_layout:
  assumes "header_typed h" "metadata h = pack_metadata sz retoff" "unat sz < 2 ^ 20" "unat retoff < 2 ^ 12"
  shows "length (header_bytes h) = 64 \<and> decode_header (header_bytes h) = h \<and>
     header_typed (decode_header (header_bytes h)) \<and>
     drop_bit 12 (metadata (decode_header (header_bytes h))) = sz \<and>
     take_bit 12 (metadata (decode_header (header_bytes h))) = retoff"
  using length_header decode_header_bytes metadata_parts assms by simp

theorem header_layout_witness:
  "length (header_bytes (bench_header 1000)) = 64 \<and> decode_header (header_bytes (bench_header 1000)) = bench_header 1000"
  using header_layout [of "bench_header 1000" 1000 0] by (simp add: bench_header_def header_typed_def)

end
