(* ===== verification/Hw_Delegate.thy ===== *)
theory Hw_Delegate
  imports Msg_Header
begin

section \<open>Hardware: delegation of register writes\<close>

text \<open>
  Module \<open>Delegate\<close> of \<open>hw/src/main/scala/Delegate.scala\<close>, one clock cycle at a time. A write of 64
  bytes to the registers arrives with its address as the user field of a stream; the number of the
  page says whether it comes from the driver (0) or from a program, the offset in the page what it
  means. The bundles of \<open>Interfaces.scala\<close> are records; a bundle read from a bit vector has its last
  field in the lowest bits. A stream with \<open>valid\<close> down is \<open>None\<close>. The one-element queue of the Chisel
  library in front of the decoder has both \<open>pipe\<close> and \<open>flow\<close> set: it passes a block through in the
  same cycle, and takes a new one in the cycle in which the old one leaves.
\<close>

subsection \<open>Bundles\<close>

definition field :: "nat \<Rightarrow> byte list \<Rightarrow> 'w :: len word" where
  "field lo bs = word_of_nat (of_bytes bs div 2 ^ lo)"

record dma_map =
  dm_type :: "8 word"
  dm_port :: "16 word"
  dm_pcie_addr :: u64

definition as_dma_map :: "byte list \<Rightarrow> dma_map" where
  "as_dma_map bs = \<lparr>dm_type = field 80 bs, dm_port = field 64 bs, dm_pcie_addr = field 0 bs\<rparr>"

record msghdr_t =
  mh_cc :: u64
  mh_id :: u64
  mh_buff_size :: "20 word"
  mh_ret :: "12 word"
  mh_buff_addr :: u32
  mh_dport :: "16 word"
  mh_sport :: "16 word"
  mh_daddr :: "128 word"
  mh_saddr :: "128 word"
  mh_unused :: u32

definition as_msghdr :: "byte list \<Rightarrow> msghdr_t" where
  "as_msghdr bs = \<lparr>mh_cc = field 448 bs, mh_id = field 384 bs, mh_buff_size = field 364 bs, mh_ret = field 352 bs,
     mh_buff_addr = field 320 bs, mh_dport = field 304 bs, mh_sport = field 288 bs, mh_daddr = field 160 bs,
     mh_saddr = field 32 bs, mh_unused = field 0 bs\<rparr>"

text \<open>\<open>asUInt\<close>, as the bytes of its 512 bits.\<close>

definition msghdr_bytes :: "msghdr_t \<Rightarrow> byte list" where
  "msghdr_bytes h = le_bytes 4 (unat (mh_unused h)) @ le_bytes 16 (unat (mh_saddr h)) @ le_bytes 16 (unat (mh_daddr h)) @
     le_bytes 2 (unat (mh_sport h)) @ le_bytes 2 (unat (mh_dport h)) @ le_bytes 4 (unat (mh_buff_addr h)) @
     le_bytes 4 (unat (mh_ret h) + 2 ^ 12 * unat (mh_buff_size h)) @ le_bytes 8 (unat (mh_id h)) @ le_bytes 8 (unat (mh_cc h))"

record dynamic_configuration =
  log_read_size :: "8 word"
  log_write_size :: "8 word"

definition as_config :: "byte list \<Rightarrow> dynamic_configuration" where
  "as_config bs = \<lparr>log_read_size = field 504 bs, log_write_size = field 496 bs\<rparr>"

record dma_req =
  dr_pcie_addr :: u64
  dr_ram_sel :: "2 word"
  dr_ram_addr :: "18 word"
  dr_len :: "16 word"
  dr_tag :: "10 word"
  dr_port :: "16 word"

record ram_write_req =
  rw_addr :: "18 word"
  rw_len :: "8 word"
  rw_data :: "byte list"

record queue_entry =
  qe_priority :: "3 word"
  qe_granted :: "20 word"
  qe_dbuffered :: "20 word"
  qe_remaining :: "20 word"
  qe_dbuff_id :: "10 word"
  qe_rpc_id :: "16 word"

definition ACTIVE :: "3 word" where "ACTIVE = 5"

record prefetcher_state =
  ps_local_id :: "16 word"
  ps_dbuff_id :: "10 word"
  ps_fetchable :: "20 word"
  ps_total_rem :: "20 word"
  ps_total_len :: "20 word"

subsection \<open>State, inputs and outputs\<close>

record delegate =
  dq :: "(byte list \<times> u32) option"
  send_id :: "16 word"
  dbuff_id :: "4 word"
  config :: dynamic_configuration

definition delegate_reset :: delegate where
  "delegate_reset = \<lparr>dq = None, send_id = 0, dbuff_id = 0, config = \<lparr>log_read_size = 0, log_write_size = 0\<rparr>\<rparr>"

text \<open>A block on the stream with its user field, and the \<open>ready\<close> signals that the module looks at.\<close>

record delegate_in =
  func :: "(byte list \<times> u32) option"
  rdy_sendmsg :: bool
  rdy_fetchdata :: bool
  rdy_dma_map :: bool
  rdy_meta_dma :: bool

record delegate_out =
  new_sendmsg :: "queue_entry option"
  new_fetchdata :: "prefetcher_state option"
  new_dma_map :: "dma_map option"
  egress_ram :: "ram_write_req option"
  ingress_ram :: "ram_write_req option"
  meta_ram :: "ram_write_req option"
  meta_dma :: "dma_req option"

definition no_out :: delegate_out where
  "no_out = \<lparr>new_sendmsg = None, new_fetchdata = None, new_dma_map = None, egress_ram = None,
     ingress_ram = None, meta_ram = None, meta_dma = None\<rparr>"

subsection \<open>One cycle\<close>

text \<open>The outputs for a new message of page \<open>user_id\<close>.\<close>

definition sendmsg_out :: "16 word \<Rightarrow> 4 word \<Rightarrow> u32 \<Rightarrow> byte list \<Rightarrow> delegate_out" where
  "sendmsg_out sid did user_id data =
     (let h = (as_msghdr data)\<lparr>mh_id := ucast sid\<rparr>;
          ram = \<lparr>rw_addr = word_of_nat (64 * unat sid), rw_len = 64, rw_data = msghdr_bytes h\<rparr>
      in \<lparr>new_sendmsg = Some \<lparr>qe_priority = ACTIVE, qe_granted = 0, qe_dbuffered = mh_buff_size h,
            qe_remaining = mh_buff_size h, qe_dbuff_id = ucast did, qe_rpc_id = ucast (mh_id h)\<rparr>,
          new_fetchdata = Some \<lparr>ps_local_id = ucast (mh_id h), ps_dbuff_id = ucast did, ps_fetchable = mh_buff_size h,
            ps_total_rem = mh_buff_size h, ps_total_len = mh_buff_size h\<rparr>,
          new_dma_map = None, egress_ram = Some ram, ingress_ram = None, meta_ram = Some ram,
          meta_dma = Some \<lparr>dr_pcie_addr = word_of_nat (64 * unat (mh_ret h)), dr_ram_sel = 0,
            dr_ram_addr = word_of_nat (64 * unat sid), dr_len = 64, dr_tag = 0, dr_port = ucast user_id\<rparr>\<rparr>)"

text \<open>What the block at the head of the queue causes: whether it leaves the queue, the outputs, and the
  registers afterwards. The increments of the two identifiers are commented out in the code.\<close>

definition handle :: "delegate_in \<Rightarrow> byte list \<Rightarrow> u32 \<Rightarrow> delegate \<Rightarrow> bool \<times> delegate_out \<times> delegate" where
  "handle i data user st =
     (let user_id = drop_bit 12 user; user_func = take_bit 12 user
      in if user_id = 0 then
           (if user_func = 0 then (rdy_dma_map i, no_out\<lparr>new_dma_map := Some (as_dma_map data)\<rparr>, st)
            else if user_func = 64 then (True, no_out, st\<lparr>config := as_config data\<rparr>)
            else (False, no_out, st))
         else if user_func = 0 then
           (let fire = rdy_meta_dma i \<and> rdy_sendmsg i \<and> rdy_fetchdata i
            in (fire, if fire then sendmsg_out (send_id st) (dbuff_id st) user_id data else no_out, st))
         else if user_func = 64 then
           (False, no_out\<lparr>egress_ram := Some \<lparr>rw_addr = word_of_nat (64 * unat (send_id st)), rw_len = 64,
              rw_data = msghdr_bytes (as_msghdr data)\<rparr>\<rparr>, st)
         else (False, no_out, st))"

text \<open>The result: the \<open>ready\<close> of the stream, the outputs, and the state after the clock edge.\<close>

definition delegate_cycle :: "delegate_in \<Rightarrow> delegate \<Rightarrow> bool \<times> delegate_out \<times> delegate" where
  "delegate_cycle i st =
     (case dq st of
        Some (data, user) \<Rightarrow>
          (case handle i data user st of (deq, out, st') \<Rightarrow>
             (deq, out, if deq then st'\<lparr>dq := func i\<rparr> else st'))
      | None \<Rightarrow>
          (case func i of
             None \<Rightarrow> (True, no_out, st)
           | Some (data, user) \<Rightarrow>
               (case handle i data user st of (deq, out, st') \<Rightarrow>
                  (True, out, if deq then st' else st'\<lparr>dq := func i\<rparr>))))"

fun delegate_run :: "delegate_in list \<Rightarrow> delegate \<Rightarrow> (bool \<times> delegate_out) list \<times> delegate" where
  "delegate_run [] st = ([], st)"
| "delegate_run (i # is) st =
     (case delegate_cycle i st of (rdy, out, st1) \<Rightarrow>
        (case delegate_run is st1 of (outs, st2) \<Rightarrow> ((rdy, out) # outs, st2)))"

subsection \<open>Fields of little-endian blocks\<close>

lemma of_bytes_append: "of_bytes (a @ b) = of_bytes a + 256 ^ length a * of_bytes b"
  by (induction a) (simp_all add: algebra_simps)

lemma of_bytes_drop: "of_bytes bs div 256 ^ n = of_bytes (drop n bs)"
proof (cases "n \<le> length bs")
  case True
  have "of_bytes bs = of_bytes (take n bs) + 256 ^ n * of_bytes (drop n bs)"
    using of_bytes_append [of "take n bs" "drop n bs"] True by (simp add: min_def)
  moreover have "of_bytes (take n bs) < 256 ^ n" using of_bytes_less [of "take n bs"] True by (simp add: min_absorb2)
  ultimately show ?thesis by simp
next
  case False
  then have "(256 :: nat) ^ length bs \<le> 256 ^ n" by (intro power_increasing) auto
  then have "of_bytes bs < 256 ^ n" using of_bytes_less [of bs] by (meson less_le_trans)
  then show ?thesis using False by simp
qed

lemma field_drop: "field (8 * n) bs = field 0 (drop n bs)"
  using of_bytes_drop [of bs n] by (simp add: field_def power_mult)

text \<open>The lowest bits come from the first bytes alone.\<close>

lemma field_take:
  assumes "LENGTH('w :: len) \<le> 8 * length a"
  shows "(field 0 (a @ b) :: 'w word) = field 0 a"
proof -
  have "(256 :: nat) ^ length a = 2 ^ (8 * length a)" by (simp add: power_mult)
  then have d: "2 ^ LENGTH('w) dvd (256 :: nat) ^ length a" using assms by (simp add: le_imp_power_dvd)
  then have "2 ^ LENGTH('w) dvd 256 ^ length a * of_bytes b" by (rule dvd_mult2)
  then have "(word_of_nat (256 ^ length a * of_bytes b) :: 'w word) = 0" by (simp only: word_of_nat_eq_0_iff)
  then show ?thesis by (simp only: field_def of_bytes_append power_0 div_by_1 of_nat_add add_0_right)
qed

lemma field_le_bytes:
  assumes "LENGTH('w :: len) = 8 * n"
  shows "(field 0 (le_bytes n v @ b) :: 'w word) = word_of_nat v"
proof -
  have "(field 0 (le_bytes n v @ b) :: 'w word) = word_of_nat (v mod 256 ^ n)"
    using field_take [where 'w = 'w and a = "le_bytes n v" and b = b] assms by (simp add: field_def)
  also have "(256 :: nat) ^ n = 2 ^ LENGTH('w)" by (simp add: assms power_mult)
  finally show ?thesis by (simp add: word_unat_eq_iff unsigned_of_nat take_bit_eq_mod)
qed

text \<open>The fields of a bundle in a block that is given field by field.\<close>

lemma field_at:
  assumes "lo = 8 * length a" "LENGTH('w :: len) = 8 * n"
  shows "(field lo (a @ le_bytes n v @ b) :: 'w word) = word_of_nat v"
  using field_le_bytes [OF assms(2)] by (simp add: assms(1) field_drop)

text \<open>Fields inside a wider field.\<close>

lemma field_ucast:
  assumes "LENGTH('v :: len) \<le> LENGTH('w :: len)" "(field lo bs :: 'w word) = w"
  shows "(field lo bs :: 'v word) = ucast w"
  using assms(1) unfolding assms(2) [symmetric] by (intro bit_word_eqI) (auto simp: field_def bit_simps)

lemma field_part:
  assumes "LENGTH('v :: len) + k \<le> LENGTH('w :: len)" "(field lo bs :: 'w word) = w"
  shows "(field (lo + k) bs :: 'v word) = ucast (drop_bit k w)"
proof -
  have "of_bytes bs div 2 ^ (lo + k) = drop_bit k (of_bytes bs div 2 ^ lo)"
    by (simp add: drop_bit_eq_div power_add div_mult2_eq)
  then show ?thesis
    using assms(1) unfolding assms(2) [symmetric]
    by (intro bit_word_eqI) (auto simp: field_def bit_simps add.commute)
qed

subsection \<open>Headers\<close>

text \<open>What the card reads of a header stored by a program; \<open>metadata\<close> becomes two fields.\<close>

lemma as_msghdr_header:
  assumes "header_typed h"
  shows "as_msghdr (header_bytes h) = \<lparr>mh_cc = cc h, mh_id = msg_id h, mh_buff_size = ucast (drop_bit 12 (metadata h)),
     mh_ret = ucast (metadata h), mh_buff_addr = buff_addr h, mh_dport = dport h, mh_sport = sport h,
     mh_daddr = word_of_nat (of_bytes (daddr h)), mh_saddr = word_of_nat (of_bytes (saddr h)), mh_unused = unused h\<rparr>"
proof -
  have len: "length (saddr h) = 16" "length (daddr h) = 16" using assms by (simp_all add: header_typed_def)
  let ?bs = "header_bytes h"
  have meta: "(field 352 ?bs :: u32) = metadata h"
    using field_at [where 'w = 32 and lo = 352 and n = 4 and v = "unat (metadata h)" and
        a = "le_bytes 4 (unat (unused h)) @ saddr h @ daddr h @ le_bytes 2 (unat (sport h)) @ le_bytes 2 (unat (dport h)) @
          le_bytes 4 (unat (buff_addr h))" and b = "le_bytes 8 (unat (msg_id h)) @ le_bytes 8 (unat (cc h))"] len
    by (simp add: header_bytes_def)
  have d: "drop 56 ?bs = le_bytes 8 (unat (cc h))" "drop 48 ?bs = le_bytes 8 (unat (msg_id h)) @ le_bytes 8 (unat (cc h))"
    "\<exists>r. drop 40 ?bs = le_bytes 4 (unat (buff_addr h)) @ r" "\<exists>r. drop 38 ?bs = le_bytes 2 (unat (dport h)) @ r"
    "\<exists>r. drop 36 ?bs = le_bytes 2 (unat (sport h)) @ r" "\<exists>r. drop 20 ?bs = daddr h @ r" "\<exists>r. drop 4 ?bs = saddr h @ r"
    using len by (simp_all add: header_bytes_def)
  note f = field_drop [of 56 ?bs] field_drop [of 48 ?bs] field_drop [of 40 ?bs] field_drop [of 38 ?bs]
    field_drop [of 36 ?bs] field_drop [of 20 ?bs] field_drop [of 4 ?bs]
  have "(field 448 ?bs :: u64) = cc h" "(field 384 ?bs :: u64) = msg_id h" "(field 320 ?bs :: u32) = buff_addr h"
    "(field 304 ?bs :: 16 word) = dport h" "(field 288 ?bs :: 16 word) = sport h" "(field 0 ?bs :: u32) = unused h"
    using d(1-5) field_le_bytes [where 'w = 64 and n = 8] field_le_bytes [where 'w = 64 and n = 8 and b = "[]"]
      field_le_bytes [where 'w = 32 and n = 4] field_le_bytes [where 'w = 16 and n = 2]
    by (auto simp: f [simplified]) (simp add: header_bytes_def)
  moreover have "(field 160 ?bs :: 128 word) = word_of_nat (of_bytes (daddr h))"
    "(field 32 ?bs :: 128 word) = word_of_nat (of_bytes (saddr h))"
    using d(6,7) len field_take [where 'w = 128] by (auto simp: f [simplified]) (simp_all add: field_def)
  ultimately show ?thesis
    using field_ucast [where 'v = 12, OF _ meta] field_part [where 'v = 20 and k = 12, OF _ meta]
    by (simp add: as_msghdr_def)
qed


lemma bytes_of_part: "length bs = n \<Longrightarrow> LENGTH('w :: len) = 8 * n \<Longrightarrow>
   le_bytes n (unat (word_of_nat (of_bytes bs) :: 'w word)) = bs"
proof -
  assume n: "length bs = n" "LENGTH('w) = 8 * n"
  have "of_bytes bs < 256 ^ length bs" by (rule of_bytes_less)
  also have "(256 :: nat) ^ length bs = 2 ^ LENGTH('w)" by (simp add: n power_mult)
  finally have "unat (word_of_nat (of_bytes bs) :: 'w word) = of_bytes bs"
    by (simp add: unsigned_of_nat take_bit_nat_eq_self)
  then show ?thesis using le_bytes_of_bytes [of bs] n(1) by simp
qed

lemma metadata_whole: "unat (ucast m :: 12 word) + 4096 * unat (ucast (drop_bit 12 m) :: 20 word) = unat m" for m :: u32
proof -
  have "unat m < 2 ^ LENGTH(32)" by (rule unsigned_less)
  then have "unat m div 2 ^ 12 < 2 ^ 20" by simp
  moreover have "unat (drop_bit 12 m) = unat m div 2 ^ 12" by (simp add: unat_drop_bit_eq) (simp add: drop_bit_eq_div)
  ultimately have "unat (ucast (drop_bit 12 m) :: 20 word) = unat m div 2 ^ 12"
    by (simp only: unsigned_ucast_eq) (simp add: take_bit_nat_eq_self)
  moreover have "unat (ucast m :: 12 word) = unat m mod 2 ^ 12" by (simp add: unsigned_ucast_eq take_bit_eq_mod)
  ultimately show ?thesis by simp
qed

text \<open>The block that goes to the RAMs is the header with the identifier filled in.\<close>

lemma msghdr_bytes_header:
  assumes "header_typed h"
  shows "msghdr_bytes ((as_msghdr (header_bytes h))\<lparr>mh_id := i\<rparr>) = header_bytes (h\<lparr>msg_id := i\<rparr>)"
  using assms bytes_of_part [where 'w = 128, of "saddr h" 16] bytes_of_part [where 'w = 128, of "daddr h" 16]
  by (simp add: as_msghdr_header msghdr_bytes_def metadata_whole) (simp add: header_bytes_def header_typed_def)

subsection \<open>Blocks are delivered in order\<close>

definition known_block :: "byte list \<times> u32 \<Rightarrow> bool" where
  "known_block = (\<lambda>(data, user).
     if drop_bit 12 user = 0 then take_bit 12 user = 0 \<or> take_bit 12 user = 64 else take_bit 12 user = 0)"

text \<open>What a block is meant to cause on the output streams.\<close>

definition effect :: "16 word \<Rightarrow> 4 word \<Rightarrow> byte list \<times> u32 \<Rightarrow> delegate_out" where
  "effect sid did = (\<lambda>(data, user).
     if drop_bit 12 user = 0
     then (if take_bit 12 user = 0 then no_out\<lparr>new_dma_map := Some (as_dma_map data)\<rparr> else no_out)
     else sendmsg_out sid did (drop_bit 12 user) data)"

text \<open>A map offered to a receiver that is not ready is not transferred; the other streams are only
  driven when their receivers are ready, or have receivers that always are.\<close>

definition transferred :: "delegate_in \<Rightarrow> delegate_out \<Rightarrow> delegate_out" where
  "transferred i out = (if rdy_dma_map i then out else out\<lparr>new_dma_map := None\<rparr>)"

definition visible :: "delegate_out list \<Rightarrow> delegate_out list" where
  "visible outs = filter (\<lambda>out. out \<noteq> no_out) outs"

definition accepted :: "delegate_in \<Rightarrow> bool \<Rightarrow> (byte list \<times> u32) list" where
  "accepted i rdy = (if rdy then (case func i of None \<Rightarrow> [] | Some b \<Rightarrow> [b]) else [])"

definition waiting :: "delegate \<Rightarrow> (byte list \<times> u32) list" where
  "waiting st = (case dq st of None \<Rightarrow> [] | Some b \<Rightarrow> [b])"

lemma no_out_simps [simp]: "no_out\<lparr>new_dma_map := None\<rparr> = no_out" "no_out\<lparr>new_dma_map := Some m\<rparr> \<noteq> no_out"
  "no_out\<lparr>new_dma_map := Some m, new_dma_map := None\<rparr> = no_out"
  by (simp_all add: no_out_def)

lemma sendmsg_out_simps [simp]: "sendmsg_out sid did u data \<noteq> no_out"
  "(sendmsg_out sid did u data)\<lparr>new_dma_map := None\<rparr> = sendmsg_out sid did u data"
  by (simp_all add: sendmsg_out_def no_out_def Let_def)

lemma handle_known:
  assumes "known_block (data, user)" "handle i data user st = (deq, out, st')"
  shows "visible [transferred i out] = (if deq then visible [effect (send_id st) (dbuff_id st) (data, user)] else [])"
    "dq st' = dq st" "send_id st' = send_id st" "dbuff_id st' = dbuff_id st"
  using assms
  by (auto simp: known_block_def handle_def Let_def visible_def transferred_def effect_def split: if_splits)

lemma cycle_known:
  assumes "delegate_cycle i st = (rdy, out, st')" "\<forall>b. func i = Some b \<longrightarrow> known_block b" "\<forall>b \<in> set (waiting st). known_block b"
  shows "visible (map (effect (send_id st) (dbuff_id st)) (waiting st @ accepted i rdy)) =
       visible [transferred i out] @ visible (map (effect (send_id st) (dbuff_id st)) (waiting st'))"
    "send_id st' = send_id st" "dbuff_id st' = dbuff_id st" "\<forall>b \<in> set (waiting st'). known_block b"
proof -
  let ?e = "effect (send_id st) (dbuff_id st)"
  have "visible (map ?e (waiting st @ accepted i rdy)) = visible [transferred i out] @ visible (map ?e (waiting st')) \<and>
     send_id st' = send_id st \<and> dbuff_id st' = dbuff_id st \<and> (\<forall>b \<in> set (waiting st'). known_block b)"
  proof (cases "dq st")
    case None
    show ?thesis
    proof (cases "func i")
      case None
      then show ?thesis using assms(1) \<open>dq st = None\<close>
        by (auto simp: delegate_cycle_def waiting_def accepted_def visible_def transferred_def)
    next
      case (Some b)
      obtain data user where b: "b = (data, user)" by (cases b)
      obtain deq o1 s1 where h: "handle i data user st = (deq, o1, s1)" using prod_cases3 by blast
      have k: "known_block (data, user)" using assms(2) Some b by blast
      then show ?thesis using assms(1) None Some b h handle_known [OF k h]
        by (cases deq) (auto simp: delegate_cycle_def waiting_def accepted_def visible_def)
    qed
  next
    case (Some b)
    obtain data user where b: "b = (data, user)" by (cases b)
    obtain deq o1 s1 where h: "handle i data user st = (deq, o1, s1)" using prod_cases3 by blast
    have k: "known_block (data, user)" using assms(3) Some b by (simp add: waiting_def)
    then show ?thesis using assms(1,2) Some b h handle_known [OF k h]
      by (cases deq) (auto simp: delegate_cycle_def waiting_def accepted_def visible_def split: option.splits)
  qed
  then show "visible (map ?e (waiting st @ accepted i rdy)) = visible [transferred i out] @ visible (map ?e (waiting st'))"
    "send_id st' = send_id st" "dbuff_id st' = dbuff_id st" "\<forall>b \<in> set (waiting st'). known_block b" by blast+
qed

text \<open>What a run accepted and transferred.\<close>

definition accepted_run :: "delegate_in list \<Rightarrow> (bool \<times> delegate_out) list \<Rightarrow> (byte list \<times> u32) list" where
  "accepted_run is outs = concat (map2 (\<lambda>i (rdy, out). accepted i rdy) is outs)"

definition transferred_run :: "delegate_in list \<Rightarrow> (bool \<times> delegate_out) list \<Rightarrow> delegate_out list" where
  "transferred_run is outs = visible (map2 (\<lambda>i (rdy, out). transferred i out) is outs)"

lemma visible_append [simp]: "visible (a @ b) = visible a @ visible b"
  by (simp add: visible_def)

lemma run_known:
  assumes "delegate_run is st = (outs, st')" "\<forall>i \<in> set is. \<forall>b. func i = Some b \<longrightarrow> known_block b"
    "\<forall>b \<in> set (waiting st). known_block b"
  shows "visible (map (effect (send_id st) (dbuff_id st)) (waiting st @ accepted_run is outs)) =
     transferred_run is outs @ visible (map (effect (send_id st) (dbuff_id st)) (waiting st'))"
  using assms
proof (induction "is" arbitrary: st outs)
  case Nil
  then show ?case by (simp add: accepted_run_def transferred_run_def visible_def)
next
  case (Cons i "is")
  let ?e = "effect (send_id st) (dbuff_id st)"
  obtain rdy out st1 where c: "delegate_cycle i st = (rdy, out, st1)" using prod_cases3 by blast
  obtain outs1 where r: "delegate_run is st1 = (outs1, st')" "outs = (rdy, out) # outs1"
    using Cons.prems(1) c by (auto split: prod.splits)
  note k = cycle_known [OF c _ Cons.prems(3)]
  have i: "\<forall>b. func i = Some b \<longrightarrow> known_block b" using Cons.prems(2) by simp
  have IH: "visible (map ?e (waiting st1 @ accepted_run is outs1)) =
     transferred_run is outs1 @ visible (map ?e (waiting st'))"
    using Cons.IH [OF r(1)] Cons.prems(2) k(2-4) [OF i] by simp
  have "visible (map ?e (waiting st @ accepted_run (i # is) outs)) =
      visible (map ?e (waiting st @ accepted i rdy)) @ visible (map ?e (accepted_run is outs1))"
    by (simp add: r(2) accepted_run_def)
  also have "\<dots> = visible [transferred i out] @ visible (map ?e (waiting st1 @ accepted_run is outs1))"
    using k(1) [OF i] by simp
  also have "\<dots> = transferred_run (i # is) outs @ visible (map ?e (waiting st'))"
    using IH by (simp add: r(2) transferred_run_def visible_def)
  finally show ?case .
qed

text \<open>A block with any other address never leaves the queue.\<close>

lemma handle_unknown:
  assumes "\<not> known_block (data, user)" "handle i data user st = (deq, out, st')"
  shows "\<not> deq" "st' = st" "new_sendmsg out = None" "new_fetchdata out = None" "new_dma_map out = None" "meta_dma out = None"
  using assms by (auto simp: known_block_def handle_def Let_def no_out_def split: if_splits)

lemma run_ids: "delegate_run is st = (outs, st') \<Longrightarrow> send_id st' = send_id st \<and> dbuff_id st' = dbuff_id st"
proof (induction "is" arbitrary: st outs)
  case (Cons i "is")
  obtain rdy out st1 where c: "delegate_cycle i st = (rdy, out, st1)" using prod_cases3 by blast
  have "send_id st1 = send_id st \<and> dbuff_id st1 = dbuff_id st"
    using c by (auto simp: delegate_cycle_def handle_def Let_def split: option.splits if_splits)
  then show ?case using Cons c by (auto split: prod.splits)
qed simp

lemma run_stuck:
  assumes "dq st = Some b" "\<not> known_block b"
  shows "snd (delegate_run is st) = st \<and>
     (\<forall>(rdy, out) \<in> set (fst (delegate_run is st)). \<not> rdy \<and> new_sendmsg out = None \<and> new_fetchdata out = None \<and>
       new_dma_map out = None \<and> meta_dma out = None)"
proof (induction "is")
  case (Cons i "is")
  obtain data user where b: "b = (data, user)" by (cases b)
  obtain deq out st1 where h: "handle i data user st = (deq, out, st1)" using prod_cases3 by blast
  have k: "\<not> known_block (data, user)" using assms(2) b by simp
  note u = handle_unknown [OF k h]
  have "delegate_cycle i st = (False, out, st)" using assms(1) b h u(1,2) by (simp add: delegate_cycle_def)
  then show ?case using Cons u(3-6) by (simp add: case_prod_beta)
qed simp


lemma recvmsg_cycles:
  assumes "dq st = Some (data, user)" "drop_bit 12 user \<noteq> 0" "take_bit 12 user = 64"
  shows "\<forall>(rdy, out) \<in> set (fst (delegate_run is st)). ingress_ram out = None \<and>
     egress_ram out = Some \<lparr>rw_addr = word_of_nat (64 * unat (send_id st)), rw_len = 64, rw_data = msghdr_bytes (as_msghdr data)\<rparr>"
proof (induction "is")
  case (Cons i "is")
  have "delegate_cycle i st = (False, no_out\<lparr>egress_ram := Some \<lparr>rw_addr = word_of_nat (64 * unat (send_id st)), rw_len = 64,
      rw_data = msghdr_bytes (as_msghdr data)\<rparr>\<rparr>, st)"
    using assms by (simp add: delegate_cycle_def handle_def Let_def)
  then show ?case using Cons by (simp add: case_prod_beta no_out_def)
qed simp

subsection \<open>Properties\<close>

text \<open>C34: As long as every block that arrives is a map or a configuration of the driver or a new message of
  a program, \<open>Delegate\<close> delivers exactly what the accepted blocks mean, once and in order, whatever the
  receivers do with their \<open>ready\<close> signals; at most the last accepted block is still waiting.\<close>

theorem delegate_in_order:
  assumes "delegate_run is delegate_reset = (outs, st')" "\<forall>i \<in> set is. \<forall>b. func i = Some b \<longrightarrow> known_block b"
  shows "visible (map (effect 0 0) (accepted_run is outs)) =
     transferred_run is outs @ visible (map (effect 0 0) (waiting st'))"
  using run_known [OF assms] by (simp add: waiting_def delegate_reset_def)

text \<open>A map of the driver that has to wait one cycle, and a message of the program with page 1.\<close>

definition demo_cycle :: "bool \<Rightarrow> (byte list \<times> u32) option \<Rightarrow> delegate_in" where
  "demo_cycle rdy b = \<lparr>func = b, rdy_sendmsg = rdy, rdy_fetchdata = rdy, rdy_dma_map = rdy, rdy_meta_dma = rdy\<rparr>"

definition demo_cycles :: "delegate_in list" where
  "demo_cycles = [demo_cycle False (Some (replicate 64 1, 0)), demo_cycle True (Some (replicate 64 2, 0x1000)),
     demo_cycle False None, demo_cycle True None]"

lemma demo_users: "drop_bit 12 (0 :: u32) = 0" "take_bit 12 (0 :: u32) = 0" "drop_bit 12 (0x1000 :: u32) = 1"
  "take_bit 12 (0x1000 :: u32) = 0" "drop_bit 12 (0x1040 :: u32) = 1" "take_bit 12 (0x1040 :: u32) = 64"
  by (simp_all add: drop_bit_eq_div take_bit_eq_mod)

theorem delegate_in_order_witness:
  "\<exists>outs st'. delegate_run demo_cycles delegate_reset = (outs, st') \<and> waiting st' = [] \<and>
     transferred_run demo_cycles outs =
       [effect 0 0 (replicate 64 1, 0), effect 0 0 (replicate 64 2, 0x1000)]"
proof -
  obtain outs st' where r: "delegate_run demo_cycles delegate_reset = (outs, st')" by fastforce
  have k: "\<forall>i \<in> set demo_cycles. \<forall>b. func i = Some b \<longrightarrow> known_block b"
    by (simp add: demo_cycles_def demo_cycle_def known_block_def demo_users)
  have "waiting st' = []" "accepted_run demo_cycles outs = [(replicate 64 1, 0), (replicate 64 2, 0x1000)]"
    using r by (auto simp: demo_cycles_def demo_cycle_def delegate_reset_def delegate_cycle_def handle_def Let_def
      demo_users waiting_def accepted_run_def accepted_def)
  then show ?thesis using delegate_in_order [OF r k] r
    by (simp add: effect_def demo_users visible_def)
qed

text \<open>A block with any other address stops the module for ever: it is accepted and never leaves the
  queue, no later block is accepted, and no stream is driven but one. If the block is meant for \<open>recvmsg\<close>
  (offset 64 of a program's page), it is written to the memory of the send control blocks again in
  every cycle, at the place of message \<open>send_id\<close>, and never to that of the receive control blocks.\<close>

theorem delegate_stuck:
  assumes "dq st = None" "func i = Some (data, user)" "\<not> known_block (data, user)"
  shows "\<exists>out outs. delegate_run (i # is) st = ((True, out) # outs, st\<lparr>dq := Some (data, user)\<rparr>) \<and>
     (\<forall>(rdy, o1) \<in> set outs. \<not> rdy \<and> new_sendmsg o1 = None \<and> new_fetchdata o1 = None \<and> new_dma_map o1 = None \<and>
        meta_dma o1 = None) \<and>
     (drop_bit 12 user \<noteq> 0 \<and> take_bit 12 user = 64 \<longrightarrow> (\<forall>(rdy, o1) \<in> set outs. ingress_ram o1 = None \<and>
        egress_ram o1 = Some \<lparr>rw_addr = word_of_nat (64 * unat (send_id st)), rw_len = 64,
          rw_data = msghdr_bytes (as_msghdr data)\<rparr>))"
proof -
  let ?st = "st\<lparr>dq := Some (data, user)\<rparr>"
  obtain deq out st1 where h: "handle i data user st = (deq, out, st1)" using prod_cases3 by blast
  note u = handle_unknown [OF assms(3) h]
  have c: "delegate_cycle i st = (True, out, ?st)" using assms(1,2) h u(1,2) by (simp add: delegate_cycle_def)
  show ?thesis
    using run_stuck [of ?st "(data, user)" "is"] assms(3) recvmsg_cycles [of ?st data user "is"] c
    by (auto simp: case_prod_beta)
qed

theorem delegate_stuck_witness:
  "\<exists>out outs st'. delegate_run [demo_cycle True (Some (replicate 64 7, 0x1040)), demo_cycle True (Some (replicate 64 2, 0x1000))]
     delegate_reset = ((True, out) # outs, st') \<and> waiting st' = [(replicate 64 7, 0x1040)] \<and> (\<forall>(rdy, o1) \<in> set outs. \<not> rdy)"
  using delegate_stuck [of delegate_reset "demo_cycle True (Some (replicate 64 7, 0x1040))" "replicate 64 7" "0x1040"
    "[demo_cycle True (Some (replicate 64 2, 0x1000))]"]
  by (fastforce simp: delegate_reset_def demo_cycle_def known_block_def demo_users waiting_def)

end
