(* ===== verification/Hw_Address_Map.thy ===== *)
theory Hw_Address_Map
  imports Hw_Delegate
begin

section \<open>Hardware: translation of DMA addresses\<close>

text \<open>
  Module \<open>AddressMap\<close> of \<open>hw/src/main/scala/AddressMap.scala\<close>, one clock cycle at a time: a table of
  300 entries, one block of 100 ports for each of three channels, and for each channel a pipeline of
  three one-element queues with \<open>pipe\<close> set, in which the address of a request is replaced by the sum
  of it and the table's entry. The table is a memory with synchronous reads: the entry is at its
  output in the cycle after the read, and in no later one; entries never written, reads outside and
  reads of an entry that is being written give undefined values, here \<open>None\<close>.
\<close>

subsection \<open>State\<close>

record channel =
  q_in :: "dma_req option"
  q_read :: "dma_req option"
  q_out :: "(dma_req \<times> u64 option) option" \<comment> \<open>the request, and the address put in its place\<close>
  mem_out :: "u64 option"

record addr_map =
  table :: "nat \<Rightarrow> u64 option"
  map_reg :: "dma_map option"
  channels :: "nat \<Rightarrow> channel"

definition empty_channel :: channel where
  "empty_channel = \<lparr>q_in = None, q_read = None, q_out = None, mem_out = None\<rparr>"

definition addr_map_reset :: addr_map where
  "addr_map_reset = \<lparr>table = (\<lambda>_. None), map_reg = None, channels = (\<lambda>_. empty_channel)\<rparr>"

text \<open>The sums of the code are 16 bits wide, and the memory takes the lowest 9 bits of its address.\<close>

definition table_index :: "16 word \<Rightarrow> nat \<Rightarrow> nat" where
  "table_index port k = unat (port + word_of_nat (k * 100)) mod 2 ^ 9"

definition table_write :: "dma_map \<Rightarrow> (nat \<Rightarrow> u64 option) \<Rightarrow> nat \<Rightarrow> u64 option" where
  "table_write m t =
     (let i = table_index (dm_port m) (unat (dm_type m))
      in if i < 300 then t(i \<mapsto> dm_pcie_addr m) else t)"

subsection \<open>One cycle\<close>

definition table_read :: "dma_map option \<Rightarrow> (nat \<Rightarrow> u64 option) \<Rightarrow> nat \<Rightarrow> u64 option" where
  "table_read writing t i =
     (case writing of
        None \<Rightarrow> t i
      | Some m \<Rightarrow> if table_index (dm_port m) (unat (dm_type m)) = i then None else t i)"

text \<open>Channel \<open>k\<close> with the request at its input and the \<open>ready\<close> of its receiver: its own \<open>ready\<close>, what
  it offers at its output, and its state after the clock edge.\<close>

definition channel_cycle ::
    "dma_map option \<Rightarrow> (nat \<Rightarrow> u64 option) \<Rightarrow> nat \<Rightarrow> dma_req option \<Rightarrow> bool \<Rightarrow> channel \<Rightarrow>
     bool \<times> (dma_req \<times> u64 option) option \<times> channel" where
  "channel_cycle writing t k req out_ready c =
     (let out_enq = (q_out c = None \<or> out_ready);
          read_enq = (q_read c = None \<or> out_enq);
          in_ready = (q_in c = None \<or> read_enq);
          out_fire = (q_read c \<noteq> None \<and> out_enq);
          in_fire = (q_in c \<noteq> None \<and> read_enq)
      in (in_ready, q_out c,
          \<lparr>q_in = (if in_ready then req else q_in c),
           q_read = (if read_enq then q_in c else q_read c),
           q_out = (if out_fire then map_option (\<lambda>r. (r, map_option (\<lambda>base. dr_pcie_addr r + base) (mem_out c))) (q_read c)
                    else if out_ready then None else q_out c),
           mem_out = (if in_fire then table_read writing t (table_index (dr_port (the (q_in c))) k) else None)\<rparr>))"

record addr_map_in =
  dma_map_in :: "dma_map option"
  mappable_in :: "nat \<Rightarrow> dma_req option"
  out_ready :: "nat \<Rightarrow> bool"

text \<open>The outputs: the \<open>ready\<close> of the three inputs and what is offered at the three outputs.\<close>

definition addr_map_cycle ::
    "addr_map_in \<Rightarrow> addr_map \<Rightarrow> (nat \<Rightarrow> bool) \<times> (nat \<Rightarrow> (dma_req \<times> u64 option) option) \<times> addr_map" where
  "addr_map_cycle i a =
     (let step = (\<lambda>k. channel_cycle (map_reg a) (table a) k (mappable_in i k) (out_ready i k) (channels a k))
      in (\<lambda>k. fst (step k), \<lambda>k. fst (snd (step k)),
          \<lparr>table = (case map_reg a of None \<Rightarrow> table a | Some m \<Rightarrow> table_write m (table a)),
           map_reg = dma_map_in i,
           channels = (\<lambda>k. if k < 3 then snd (snd (step k)) else channels a k)\<rparr>))"

text \<open>The outputs of channel \<open>k\<close> in a run.\<close>

fun addr_map_run :: "nat \<Rightarrow> addr_map_in list \<Rightarrow> addr_map \<Rightarrow> (dma_req \<times> u64 option) option list \<times> addr_map" where
  "addr_map_run k [] a = ([], a)"
| "addr_map_run k (i # is) a =
     (case addr_map_cycle i a of (rdy, out, a1) \<Rightarrow>
        (case addr_map_run k is a1 of (outs, a2) \<Rightarrow> (out k # outs, a2)))"

subsection \<open>Writing the table\<close>

text \<open>Maps are taken one a cycle and are in the table two cycles after they arrived.\<close>

definition pending_write :: "addr_map \<Rightarrow> nat \<Rightarrow> u64 option" where
  "pending_write a = (case map_reg a of None \<Rightarrow> table a | Some m \<Rightarrow> table_write m (table a))"

fun write_all :: "dma_map list \<Rightarrow> (nat \<Rightarrow> u64 option) \<Rightarrow> nat \<Rightarrow> u64 option" where
  "write_all [] t = t"
| "write_all (m # ms) t = write_all ms (table_write m t)"

lemma cycle_pending:
  assumes "addr_map_cycle i a = (rdy, out, a')"
  shows "table a' = pending_write a"
    "pending_write a' = write_all (case dma_map_in i of None \<Rightarrow> [] | Some m \<Rightarrow> [m]) (pending_write a)"
  using assms by (auto simp: addr_map_cycle_def Let_def pending_write_def split: option.splits)

lemma write_all_append: "write_all (xs @ ys) t = write_all ys (write_all xs t)"
  by (induction xs arbitrary: t) auto

lemma run_pending:
  "addr_map_run k is a = (outs, a') \<Longrightarrow>
   pending_write a' = write_all (concat (map (\<lambda>i. case dma_map_in i of None \<Rightarrow> [] | Some m \<Rightarrow> [m]) is)) (pending_write a)"
proof (induction "is" arbitrary: a outs)
  case (Cons i "is")
  obtain rdy out a1 where c: "addr_map_cycle i a = (rdy, out, a1)" using prod_cases3 by blast
  then obtain outs1 where "addr_map_run k is a1 = (outs1, a')" using Cons.prems by (auto split: prod.splits)
  from Cons.IH [OF this] show ?case using cycle_pending(2) [OF c] by (simp add: write_all_append)
qed simp

text \<open>The entries of ports below 100 and the three types do not collide.\<close>

lemma table_index_small:
  assumes "unat port < 100" "k < 3"
  shows "table_index port k = unat port + 100 * k"
proof -
  have "unat (word_of_nat (k * 100) :: 16 word) = k * 100"
    using assms(2) by (simp only: unsigned_of_nat of_nat_id) (simp add: take_bit_nat_eq_self)
  then have "unat (port + word_of_nat (k * 100)) = unat port + k * 100"
    using assms by (simp add: unat_word_ariths)
  then show ?thesis using assms by (simp add: table_index_def)
qed

subsection \<open>The pipeline\<close>

definition translate :: "(nat \<Rightarrow> u64 option) \<Rightarrow> nat \<Rightarrow> dma_req \<Rightarrow> dma_req \<times> u64 option" where
  "translate t k r = (r, map_option (\<lambda>base. dr_pcie_addr r + base) (t (table_index (dr_port r) k)))"

text \<open>While the output is taken in every cycle and no map arrives, the channel is a delay of three cycles.\<close>

definition steady_in :: "nat \<Rightarrow> addr_map_in \<Rightarrow> bool" where
  "steady_in k i \<longleftrightarrow> dma_map_in i = None \<and> out_ready i k"

definition in_step :: "(nat \<Rightarrow> u64 option) \<Rightarrow> nat \<Rightarrow> channel \<Rightarrow> bool" where
  "in_step t k c \<longleftrightarrow> (\<forall>r. q_read c = Some r \<longrightarrow> mem_out c = t (table_index (dr_port r) k))"

lemma steady_cycle:
  assumes "k < 3" "steady_in k i" "map_reg a = None" "in_step (table a) k (channels a k)"
    "addr_map_cycle i a = (rdy, out, a')"
  shows "rdy k" "out k = q_out (channels a k)" "table a' = table a" "map_reg a' = None"
    "q_in (channels a' k) = mappable_in i k" "q_read (channels a' k) = q_in (channels a k)"
    "q_out (channels a' k) = map_option (translate (table a) k) (q_read (channels a k))"
    "in_step (table a) k (channels a' k)"
  using assms
  by (auto simp: addr_map_cycle_def channel_cycle_def Let_def steady_in_def in_step_def translate_def table_read_def
      split: option.splits)

lemma steady_run:
  assumes "k < 3" "\<forall>i \<in> set is. steady_in k i" "map_reg a = None" "in_step (table a) k (channels a k)"
  shows "fst (addr_map_run k is a) = take (length is)
     ([q_out (channels a k), map_option (translate (table a) k) (q_read (channels a k)),
       map_option (translate (table a) k) (q_in (channels a k))] @
      map (\<lambda>i. map_option (translate (table a) k) (mappable_in i k)) is)"
  using assms(2-4)
proof (induction "is" arbitrary: a)
  case (Cons i "is")
  obtain rdy out a1 where c: "addr_map_cycle i a = (rdy, out, a1)" using prod_cases3 by blast
  note s = steady_cycle [OF assms(1) _ Cons.prems(2,3) c]
  have "steady_in k i" using Cons.prems(1) by simp
  note s = s [OF this]
  have "fst (addr_map_run k is a1) = take (length is)
     ([q_out (channels a1 k), map_option (translate (table a1) k) (q_read (channels a1 k)),
       map_option (translate (table a1) k) (q_in (channels a1 k))] @
      map (\<lambda>i. map_option (translate (table a1) k) (mappable_in i k)) is)"
    by (rule Cons.IH) (use Cons.prems(1) s in simp_all)
  then show ?case using c s by (simp add: case_prod_beta)
qed simp

text \<open>A request that waits in the middle of the pipeline for more than a cycle loses its address.\<close>

lemma stalled:
  assumes "k < 3" "q_read (channels a k) = Some r" "q_out (channels a k) = Some o1" "\<not> out_ready i k"
    "addr_map_cycle i a = (rdy, out, a')"
  shows "q_read (channels a' k) = Some r" "q_out (channels a' k) = Some o1" "mem_out (channels a' k) = None"
  using assms by (auto simp: addr_map_cycle_def channel_cycle_def Let_def)

lemma released:
  assumes "k < 3" "q_read (channels a k) = Some r" "mem_out (channels a k) = None" "out_ready i k"
    "addr_map_cycle i a = (rdy, out, a')"
  shows "q_out (channels a' k) = Some (r, None)"
  using assms by (auto simp: addr_map_cycle_def channel_cycle_def Let_def)


subsection \<open>Properties\<close>


definition demo_req :: "u64 \<Rightarrow> dma_req" where
  "demo_req addr = \<lparr>dr_pcie_addr = addr, dr_ram_sel = 0, dr_ram_addr = 0, dr_len = 64, dr_tag = 0, dr_port = 1\<rparr>"

definition demo_map_in :: "bool \<Rightarrow> dma_req option \<Rightarrow> addr_map_in" where
  "demo_map_in rdy r = \<lparr>dma_map_in = None, mappable_in = (\<lambda>_. r), out_ready = (\<lambda>_. rdy)\<rparr>"


text \<open>If the output of a full pipeline is not taken for one cycle, the request behind it leaves with an
  undefined address: the memory no longer shows the entry that was read for it.\<close>

theorem addr_map_stall:
  assumes "k < 3" "q_read (channels a k) = Some r" "q_out (channels a k) = Some o1" "\<not> out_ready i k" "out_ready j k"
  shows "\<exists>a'. addr_map_run k [i, j] a = ([Some o1, Some o1], a') \<and> q_out (channels a' k) = Some (r, None)"
proof -
  obtain rdy out a1 where c: "addr_map_cycle i a = (rdy, out, a1)" using prod_cases3 by blast
  obtain rdy2 out2 a2 where c2: "addr_map_cycle j a1 = (rdy2, out2, a2)" using prod_cases3 by blast
  note s = stalled [OF assms(1-4) c]
  have "out k = Some o1" "out2 k = Some o1" using c c2 assms(3) s(2) by (auto simp: addr_map_cycle_def channel_cycle_def Let_def)
  then show ?thesis using released [OF assms(1) s(1,3) assms(5) c2] c c2 by simp
qed

text \<open>Two requests one after the other, and a receiver that is busy in the cycle after it saw the first.\<close>

theorem addr_map_stall_witness:
  "\<exists>o1 a a'. fst (addr_map_run 0 [demo_map_in True (Some (demo_req 64)), demo_map_in True (Some (demo_req 128)),
       demo_map_in True None] (addr_map_reset\<lparr>table := [1 \<mapsto> 0x10000]\<rparr>)) = [None, None, None] \<and>
     a = snd (addr_map_run 0 [demo_map_in True (Some (demo_req 64)), demo_map_in True (Some (demo_req 128)),
       demo_map_in True None] (addr_map_reset\<lparr>table := [1 \<mapsto> 0x10000]\<rparr>)) \<and>
     o1 = (demo_req 64, Some 0x10040) \<and>
     addr_map_run 0 [demo_map_in False None, demo_map_in True None] a = ([Some o1, Some o1], a') \<and>
     q_out (channels a' 0) = Some (demo_req 128, None)"
proof -
  let ?is = "[demo_map_in True (Some (demo_req 64)), demo_map_in True (Some (demo_req 128)), demo_map_in True None]"
  let ?a = "addr_map_reset\<lparr>table := [1 \<mapsto> 0x10000]\<rparr>"
  have i: "table_index 1 0 = 1" using table_index_small [of 1 0] by simp
  have r: "fst (addr_map_run 0 ?is ?a) = [None, None, None]"
    "q_read (channels (snd (addr_map_run 0 ?is ?a)) 0) = Some (demo_req 128)"
    "q_out (channels (snd (addr_map_run 0 ?is ?a)) 0) = Some (demo_req 64, Some 0x10040)"
    by (simp_all add: addr_map_cycle_def channel_cycle_def Let_def addr_map_reset_def empty_channel_def demo_map_in_def
      table_read_def demo_req_def i)
  show ?thesis
    using addr_map_stall [OF _ r(2,3), of "demo_map_in False None" "demo_map_in True None"] r(1)
    by (auto simp: demo_map_in_def)
qed

end
