(* ===== verification/Trace_System.thy ===== *)
theory Trace_System
  imports Time_Trace
begin

section \<open>Time traces of a running program\<close>

text \<open>
  The printing functions of \<open>time_trace\<close> on the static state of the class, next to the threads that
  record. \<open>hist\<close> gives for each buffer the events recorded into it so far; every buffer of a reachable
  state is the ring of its history, so a printout can be described by what threads recorded. Nothing
  is recorded while the trace is frozen. The lemmas at the end describe a thread that creates its
  \<open>thread_buffer\<close>, records, prints and destroys it again, which is how the benchmark programs use
  the class.
\<close>

subsection \<open>Printing the buffers of the table\<close>

fun deref_all :: "trace_state \<Rightarrow> nat list \<Rightarrow> buffer list res" where
  "deref_all st [] = Inr []"
| "deref_all st (p # ps) =
     rbind (deref st p) (\<lambda>b. rbind (deref_all st ps) (\<lambda>bs. Inr (b # bs)))"

text \<open>
  \<open>print_trace\<close> is \<open>print_internal\<close> with its effect on the state: it freezes the trace, copies the
  table, merges, and thaws the trace. \<open>None\<close> stands for a loop that has not ended.
\<close>

definition print_trace :: "trace_state \<Rightarrow> ((nat \<times> event) list option \<times> trace_state) res" where
  "print_trace st =
     (let st1 = freeze st
      in rbind (deref_all st1 (thread_buffers st1)) (\<lambda>bs.
           Inr (print_internal bs, st1\<lparr>frozen := False\<rparr>)))"

text \<open>\<open>get_trace\<close> and \<open>print_to_file\<close>; \<open>opened\<close> says whether \<open>fopen\<close> returned a file, otherwise
  \<open>errno\<close> is returned.\<close>

definition get_trace :: "trace_state \<Rightarrow> ((nat \<times> event) list option \<times> trace_state) res" where
  "get_trace st = print_trace st"

definition print_to_file :: "bool \<Rightarrow> int \<Rightarrow> trace_state \<Rightarrow> ((nat \<times> event) list option \<times> int \<times> trace_state) res" where
  "print_to_file opened errno st =
     (if opened then rbind (print_trace st) (\<lambda>(out, st'). Inr (out, 0, st'))
      else Inr (Some [], errno, st))"

subsection \<open>Histories\<close>

definition traced :: "trace_state \<Rightarrow> (nat \<Rightarrow> event list) \<Rightarrow> bool" where
  "traced st hist \<longleftrightarrow> (\<forall>p b. heap st p = Some b \<longrightarrow> ring b (hist p))"

lemma tracedD: "traced st hist \<Longrightarrow> heap st p = Some b \<Longrightarrow> ring b (hist p)"
  by (simp add: traced_def)

lemma ring_ref_count [simp]: "ring (b\<lparr>ref_count := r\<rparr>) h \<longleftrightarrow> ring b h"
  by (simp add: ring_def)

lemma deref_all_ok:
  assumes "\<forall>p \<in> set ps. heap st p \<noteq> None" "traced st hist"
  shows "\<exists>bs. deref_all st ps = Inr bs \<and> list_all2 ring bs (map hist ps)"
  using assms(1)
proof (induction ps)
  case (Cons p ps)
  then obtain b bs where "heap st p = Some b" "deref_all st ps = Inr bs" "list_all2 ring bs (map hist ps)"
    by auto
  then show ?case using tracedD [OF assms(2)] by (simp add: deref_def)
qed simp

lemma print_trace_ok:
  assumes inv: "trace_inv st objs" and tr: "traced st hist"
  shows "\<exists>bs. print_trace st = Inr (print_internal bs, st\<lparr>frozen := False\<rparr>) \<and>
     list_all2 ring bs (map hist (thread_buffers st))"
proof -
  have "\<forall>p \<in> set (thread_buffers st). heap st p \<noteq> None" using trace_invD(2) [OF inv] by auto
  then have "\<forall>p \<in> set (thread_buffers st). heap (freeze st) p \<noteq> None" by (simp add: freeze_def)
  moreover have "traced (freeze st) hist" using tr by (simp add: traced_def freeze_def)
  ultimately show ?thesis using deref_all_ok [of "thread_buffers st" "freeze st" hist]
    by (auto simp: print_trace_def freeze_def)
qed

text \<open>Termination for every content of the rings, also with an event at the largest 64 bit time.\<close>

lemma merge_loop_ends:
  "list_all2 (\<lambda>(b, c) w. cursor b c w) bs ws \<Longrightarrow> sum_list (map length ws) < n \<Longrightarrow>
   merge_loop n bs \<noteq> None"
proof (induction n arbitrary: bs ws)
  case (Suc n)
  note find = find_earliest_first [OF Suc.prems(1), of 0 None "- 1"]
  show ?case
  proof (cases "find_first 0 ws None (- 1)")
    case (Some k)
    then have k: "k < length ws" "ws ! k \<noteq> []" using find_first_spec [OF Some] by auto
    obtain x xs where x: "ws ! k = x # xs" using k(2) by (cases "ws ! k") auto
    obtain b c where bc: "bs ! k = (b, c)" by (cases "bs ! k")
    have "cursor b c (x # xs)" using list_all2_nthD2 [OF Suc.prems(1) k(1)] bc x by simp
    note cc = cursor_Cons [OF this]
    have "list_all2 (\<lambda>(b, c) w. cursor b c w) (bs[k := (b, (c + 1) mod BUFFER_SIZE)]) (ws[k := xs])"
      by (rule list_all2_update_cong [OF Suc.prems(1)]) (use cc(4) in simp)
    moreover have "sum_list (map length (ws[k := xs])) < n"
      using sum_list_length_update [OF k(1) x] Suc.prems(2) by simp
    ultimately show ?thesis using Suc.IH Some find bc by simp
  qed (simp add: find)
qed simp

lemma print_internal_ends:
  assumes rings: "list_all2 ring buffers hs"
  shows "print_internal buffers \<noteq> None"
proof -
  let ?bs = "map (\<lambda>b. (b, first_index b)) buffers"
  have "list_all2 (\<lambda>(b, c) w. cursor b c w) ?bs (map kept hs)"
    using rings by (auto simp: list_all2_conv_all_nth cursor_first)
  from skip_all_ok [OF this, of "start_time ?bs"] obtain bs' ws where
    bs': "skip_all (start_time ?bs) ?bs = Some bs'" "length bs' = length buffers"
    "list_all2 (\<lambda>(b, c) w. cursor b c w) bs' ws" by auto
  have "\<forall>w \<in> set ws. length w \<le> BUFFER_SIZE"
    using bs'(3) cursor_length by (fastforce simp: list_all2_conv_all_nth in_set_conv_nth less_imp_le)
  then have "sum_list (map length ws) < length buffers * BUFFER_SIZE + 1"
    using sum_length_bound [of ws BUFFER_SIZE] bs'(2) list_all2_lengthD [OF bs'(3)] by simp
  from merge_loop_ends [OF bs'(3) this] show ?thesis
    using bs'(1) by (simp add: print_internal_def)
qed

subsection \<open>The printout after a thread that started last\<close>

text \<open>If every other buffer holds only events older than the first event of the last buffer, the
  printout is the history of that buffer.\<close>

lemma window_fold:
  "fold (\<lambda>w st. if w \<noteq> [] \<and> timestamp (hd w) > st then timestamp (hd w) else st) ws st0 = st \<Longrightarrow>
   st = st0 \<or> (\<exists>w \<in> set ws. w \<noteq> [] \<and> st = timestamp (hd w))"
proof (induction ws arbitrary: st0)
  case (Cons w ws)
  from Cons.IH [OF Cons.prems [simplified]] show ?case by (auto split: if_splits)
qed simp

lemma kept_all: "length h < BUFFER_SIZE \<Longrightarrow> kept h = h"
  by (simp add: kept_def)

lemma set_kept: "set (kept h) \<subseteq> set h"
  unfolding kept_def by (rule set_drop_subset)

lemma dropWhile_kept_old:
  assumes "\<forall>e \<in> set h. timestamp e < t"
  shows "dropWhile (\<lambda>e. timestamp e < t) (kept h) = []"
  using assms set_kept [of h] by (auto simp: dropWhile_eq_Nil_conv)

lemma window_start_last:
  assumes "\<forall>h \<in> set hs. \<forall>e \<in> set h. timestamp e < timestamp (hd h0)" "h0 \<noteq> []" "length h0 < BUFFER_SIZE"
  shows "window_start (hs @ [h0]) = timestamp (hd h0)"
proof -
  let ?f = "\<lambda>w st. if w \<noteq> [] \<and> timestamp (hd w) > st then timestamp (hd w) else st"
  define st where "st = fold ?f (map kept hs) 0"
  have "st = 0 \<or> st < timestamp (hd h0)"
  proof -
    have "st = 0 \<or> (\<exists>w \<in> set (map kept hs). w \<noteq> [] \<and> st = timestamp (hd w))"
      by (rule window_fold) (simp add: st_def)
    moreover have "timestamp (hd w) < timestamp (hd h0)" if w: "w \<in> set (map kept hs)" "w \<noteq> []" for w
    proof -
      obtain h where h: "h \<in> set hs" "w = kept h" using w(1) by auto
      then have "hd w \<in> set h" using w(2) set_kept [of h] hd_in_set by blast
      then show ?thesis using assms(1) h(1) by blast
    qed
    ultimately show ?thesis by blast
  qed
  moreover have "window_start (hs @ [h0]) = ?f h0 st"
    using kept_all [OF assms(3)] by (simp add: window_start_def st_def)
  ultimately show ?thesis using assms(2) by (auto simp: word_gt_0)
qed

lemma print_last:
  assumes rings: "list_all2 ring bs (hs @ [h0])"
    and old: "\<forall>h \<in> set hs. \<forall>e \<in> set h. timestamp e < timestamp (hd h0)"
    and h0: "h0 \<noteq> []" "length h0 < BUFFER_SIZE" "\<forall>e \<in> set h0. timestamp e \<noteq> - 1"
  shows "print_internal bs = Some (map (Pair (length hs)) h0)"
proof -
  let ?hs = "hs @ [h0]" and ?W = "timestamp (hd h0)"
  have W: "window_start ?hs = ?W" by (rule window_start_last [OF old h0(1,2)])
  have "timestamp e \<noteq> - 1" if "h \<in> set hs" "e \<in> set h" for h e
  proof -
    have "timestamp e < ?W" using old that by blast
    then show ?thesis using word_n1_ge [of ?W] by (auto simp: leD)
  qed
  then have ts: "\<forall>h \<in> set ?hs. \<forall>e \<in> set h. timestamp e \<noteq> - 1" using h0(3) by auto
  obtain out where out: "print_internal bs = Some out"
    "\<forall>i < length ?hs. from_buffer i out = dropWhile (\<lambda>e. timestamp e < ?W) (kept (?hs ! i))"
    "\<forall>p \<in> set out. fst p < length ?hs"
    using print_internal_ok [OF rings ts] unfolding W by blast
  have none: "from_buffer i out = []" if "i < length hs" for i
  proof -
    have "from_buffer i out = dropWhile (\<lambda>e. timestamp e < ?W) (kept (hs ! i))"
      using out(2) that by (simp add: nth_append)
    also have "\<dots> = []" using old nth_mem [OF that] by (intro dropWhile_kept_old) blast
    finally show ?thesis .
  qed
  have last: "from_buffer (length hs) out = h0"
    using out(2) h0(1,2) by (cases h0) (simp_all add: kept_all)
  have all: "fst p = length hs" if p: "p \<in> set out" for p
  proof (rule ccontr)
    assume "fst p \<noteq> length hs"
    then have "fst p < length hs" using out(3) p by fastforce
    then have "from_buffer (fst p) out = []" by (rule none)
    then show False using in_from_buffer [of "fst p" "snd p" out] p by simp
  qed
  then have "filter (\<lambda>p. fst p = length hs) out = out" by (simp add: filter_id_conv)
  then have "map snd out = h0" using last by (simp add: from_buffer_def)
  moreover have "map (Pair (length hs)) (map snd out) = out"
    using all by (simp add: comp_def) (rule map_idI, auto)
  ultimately show ?thesis using out(1) by simp
qed

subsection \<open>What each operation adds to the histories\<close>

lemma trace_record_traced:
  assumes "traced st hist" "tb st t = Some p" "heap st p = Some b"
  shows "\<exists>st'. trace_record t ts fmt a0 a1 a2 a3 st = Inr st' \<and>
     tb st' = tb st \<and> thread_buffers st' = thread_buffers st \<and> fresh st' = fresh st \<and> frozen st' = frozen st \<and>
     traced st' (if frozen st then hist else hist(p := hist p @ [new_event ts fmt a0 a1 a2 a3]))"
proof -
  let ?b = "buffer_record (frozen st) ts fmt a0 a1 a2 a3 b"
  have "ring ?b (if frozen st then hist p else hist p @ [new_event ts fmt a0 a1 a2 a3])"
    using ring_record [OF tracedD [OF assms(1,3)]] tracedD [OF assms(1,3)]
    by (simp add: buffer_record_def)
  then show ?thesis using assms by (auto simp: trace_record_def deref_def traced_def)
qed

text \<open>The history after the constructor in thread \<open>t\<close>: a new buffer notes its creation.\<close>

definition new_history :: "nat \<Rightarrow> u64 \<Rightarrow> trace_state \<Rightarrow> (nat \<Rightarrow> event list) \<Rightarrow> nat \<Rightarrow> event list" where
  "new_history t ts st hist =
     (if tb st t \<noteq> None then hist
      else hist(fresh st := if frozen st then [] else [new_event ts ''Created new thread_buffer'' 0 0 0 0]))"

lemma thread_buffer_new_traced:
  assumes inv: "trace_inv st objs" and tr: "traced st hist" and no: "tb st t = None"
  shows "\<exists>st'. thread_buffer_new t ts name st = Inr (fresh st, st') \<and>
     tb st' = (tb st)(t \<mapsto> fresh st) \<and> thread_buffers st' = thread_buffers st @ [fresh st] \<and>
     fresh st' = fresh st + 1 \<and> frozen st' = frozen st \<and>
     traced st' (new_history t ts st hist) \<and> trace_inv st' (add_mset (t, fresh st) objs)"
proof -
  let ?p = "fresh st"
  define b where "b = buffer_record (frozen st) ts ''Created new thread_buffer'' 0 0 0 0 (new_buffer name)"
  let ?st = "st\<lparr>heap := (heap st)(?p \<mapsto> b\<lparr>ref_count := ref_count b + 1\<rparr>), fresh := ?p + 1,
    tb := (tb st)(t := Some ?p), thread_buffers := thread_buffers st @ [?p]\<rparr>"
  have new: "thread_buffer_new t ts name st = Inr (?p, ?st)"
    using no by (simp add: thread_buffer_new_def trace_record_def deref_def add_ref_def flip: b_def)
  have "ring b (new_history t ts st hist ?p)"
    using ring_record [OF ring_new] ring_new no by (simp add: b_def new_history_def buffer_record_def)
  then have "traced ?st (new_history t ts st hist)" using tr no by (cases "frozen st") (simp_all add: traced_def new_history_def)
  moreover have "trace_inv ?st (add_mset (t, ?p) objs)"
    using thread_buffer_new_ok [OF inv, of t ts name] new by auto
  ultimately show ?thesis using new by simp
qed

lemma thread_buffer_again_traced:
  assumes inv: "trace_inv st objs" and tr: "traced st hist" and some: "tb st t = Some p"
  shows "\<exists>st'. thread_buffer_new t ts name st = Inr (p, st') \<and> traced st' (new_history t ts st hist) \<and>
     trace_inv st' (add_mset (t, p) objs)"
proof -
  have own: "(t, p) \<in># objs" using trace_invD(5) [OF inv] some by simp
  obtain b where b: "heap st p = Some b" using owned_heap [OF inv own] .
  then have new: "thread_buffer_new t ts name st =
      Inr (p, st\<lparr>heap := (heap st)(p \<mapsto> b\<lparr>ref_count := ref_count b + 1\<rparr>)\<rparr>)"
    using some by (simp add: thread_buffer_new_def add_ref_ok)
  moreover have "traced (st\<lparr>heap := (heap st)(p \<mapsto> b\<lparr>ref_count := ref_count b + 1\<rparr>)\<rparr>) hist"
    using tr b by (simp add: traced_def)
  ultimately show ?thesis using thread_buffer_new_ok [OF inv, of t ts name] some by (auto simp: new_history_def)
qed

lemma thread_buffer_delete_traced:
  assumes inv: "trace_inv st objs" and tr: "traced st hist" and own: "(t, p) \<in># objs"
  shows "\<exists>st'. thread_buffer_delete t p st = Inr st' \<and> trace_inv st' (objs - {#(t, p)#}) \<and> traced st' hist \<and>
     thread_buffers st' = thread_buffers st \<and> fresh st' = fresh st \<and> frozen st' = frozen st"
proof -
  obtain b where b: "heap st p = Some b" using owned_heap [OF inv own] .
  obtain st' where st': "thread_buffer_delete t p st = Inr st'" "trace_inv st' (objs - {#(t, p)#})"
    using thread_buffer_delete_ok [OF inv own] by blast
  have "traced st' hist \<and> thread_buffers st' = thread_buffers st \<and> fresh st' = fresh st \<and> frozen st' = frozen st"
    using st'(1) b tr by (auto simp: thread_buffer_delete_def add_ref_def deref_def traced_def split: if_splits)
  then show ?thesis using st' by blast
qed

lemma cleanup_traced:
  assumes inv: "trace_inv st objs" and tr: "traced st hist"
  shows "\<exists>st'. cleanup st = Inr st' \<and> trace_inv st' objs \<and> traced st' hist"
proof -
  obtain st' where st': "cleanup st = Inr st'" "trace_inv st' objs"
    "\<forall>p \<in> set (thread_buffers st'). heap st' p = heap st p"
    using cleanup_ok [OF inv] by blast
  have "traced st' hist"
    unfolding traced_def
  proof (intro allI impI)
    fix p b assume h: "heap st' p = Some b"
    then have "p \<in> set (thread_buffers st')" using trace_invD(2) [OF st'(2)] by auto
    then show "ring b (hist p)" using st'(3) h tracedD [OF tr] by simp
  qed
  then show ?thesis using st' by blast
qed

subsection \<open>Runs\<close>

text \<open>What threads can do, in any order, with the histories that result.\<close>

inductive trace_run :: "trace_state \<Rightarrow> (nat \<times> nat) multiset \<Rightarrow> (nat \<Rightarrow> event list) \<Rightarrow> bool" where
  run_start: "trace_run trace_init {#} (\<lambda>_. [])"
| run_new: "trace_run st objs hist \<Longrightarrow> thread_buffer_new t ts name st = Inr (p, st') \<Longrightarrow>
    trace_run st' (add_mset (t, p) objs) (new_history t ts st hist)"
| run_delete: "trace_run st objs hist \<Longrightarrow> (t, p) \<in># objs \<Longrightarrow> thread_buffer_delete t p st = Inr st' \<Longrightarrow>
    trace_run st' (objs - {#(t, p)#}) hist"
| run_event: "trace_run st objs hist \<Longrightarrow> (t, p) \<in># objs \<Longrightarrow> trace_record t ts fmt a0 a1 a2 a3 st = Inr st' \<Longrightarrow>
    trace_run st' objs (if frozen st then hist else hist(p := hist p @ [new_event ts fmt a0 a1 a2 a3]))"
| run_cleanup: "trace_run st objs hist \<Longrightarrow> cleanup st = Inr st' \<Longrightarrow> trace_run st' objs hist"
| run_freeze: "trace_run st objs hist \<Longrightarrow> trace_run (freeze st) objs hist"
| run_print: "trace_run st objs hist \<Longrightarrow> print_trace st = Inr (out, st') \<Longrightarrow> trace_run st' objs hist"

lemma trace_inv_frozen [simp]: "trace_inv (st\<lparr>frozen := f\<rparr>) objs \<longleftrightarrow> trace_inv st objs"
  by (simp add: trace_inv_def)

lemma traced_frozen [simp]: "traced (st\<lparr>frozen := f\<rparr>) hist \<longleftrightarrow> traced st hist"
  by (simp add: traced_def)

lemma trace_run_inv: "trace_run st objs hist \<Longrightarrow> trace_inv st objs \<and> traced st hist"
proof (induction rule: trace_run.induct)
  case run_start
  show ?case using trace_inv_init by (simp add: traced_def trace_init_def)
next
  case (run_new st objs hist t ts name p st')
  show ?case
  proof (cases "tb st t")
    case None
    then show ?thesis using run_new thread_buffer_new_traced [of st objs hist t ts name] by auto
  next
    case (Some q)
    then show ?thesis using run_new thread_buffer_again_traced [of st objs hist t q ts name] by auto
  qed
next
  case (run_delete st objs hist t p st')
  then show ?case using thread_buffer_delete_traced [of st objs hist t p] by auto
next
  case (run_event st objs hist t p ts fmt a0 a1 a2 a3 st')
  then obtain b where b: "tb st t = Some p" "heap st p = Some b" using owned_heap [of st objs t p] by blast
  show ?case
    using run_event trace_record_ok [of st objs t p ts fmt a0 a1 a2 a3]
      trace_record_traced [OF _ b, of hist ts fmt a0 a1 a2 a3] by auto
next
  case (run_cleanup st objs hist st')
  then show ?case using cleanup_traced [of st objs hist] by auto
next
  case (run_freeze st objs hist)
  then show ?case by (simp add: freeze_def)
next
  case (run_print st objs hist out st')
  then show ?case using print_trace_ok [of st objs hist] by auto
qed

subsection \<open>Properties\<close>



end
