(* ===== verification/Driver.thy ===== *)
theory Driver
  imports Bytes
begin

unbundle bit_operations_syntax

section \<open>The kernel driver\<close>

text \<open>
  The character device of \<open>driver/homanic.c\<close>: the table of 16 sessions, \<open>open\<close>, \<open>release\<close> and
  \<open>mmap\<close> with every change of state in them, and what the driver writes to the NIC. The services of
  the kernel are not under the repository: what \<open>dma_alloc_coherent\<close> returns (an address and a
  handle, or nothing) and what the mapping functions return are parameters. The fields \<open>live\<close> and
  \<open>uncached\<close> are not variables of the driver: they record which buffers are allocated and which pages
  were set uncached, by the rules the kernel documents for its services, so that freeing or mapping one that is not is the error
  \<open>UseAfterFree\<close> and mapping a null pointer is \<open>NullDeref\<close>. The kernel calls \<open>release\<close> once for each
  successful \<open>open\<close>; the relation \<open>drv_reach\<close> describes the calls it can make in any order.
\<close>

subsection \<open>Data\<close>

definition MAX_PORTS :: nat where "MAX_PORTS = 16"
definition METADATA_BYTES :: nat where "METADATA_BYTES = 16384"
definition MSGBUFF_BYTES :: nat where "MSGBUFF_BYTES = 1000000"
definition PAGE_SIZE :: nat where "PAGE_SIZE = 4096"

definition H2C_MSGBUFF_MAP :: nat where "H2C_MSGBUFF_MAP = 0"
definition C2H_MSGBUFF_MAP :: nat where "C2H_MSGBUFF_MAP = 1"
definition C2H_METADATA_MAP :: nat where "C2H_METADATA_MAP = 2"

record session =
  assigned :: bool
  session_port :: nat
  h2c_msgbuff_cpu_addr :: nat
  h2c_msgbuff_dma_handle :: nat
  c2h_msgbuff_cpu_addr :: nat
  c2h_msgbuff_dma_handle :: nat
  c2h_metadata_cpu_addr :: nat
  c2h_metadata_dma_handle :: nat

record port_to_phys =
  phys_addr :: nat
  map_port :: nat
  map_type :: nat

text \<open>A DMA buffer: address, handle and size.\<close>

type_synonym dma_buffer = "nat \<times> nat \<times> nat"

record driver =
  sessions :: "session list"
  dma_map :: port_to_phys
  files :: "nat \<Rightarrow> nat option" \<comment> \<open>\<open>private_data\<close> of the open files: an index of \<open>sessions\<close>\<close>
  live :: "dma_buffer multiset"
  mmio :: "(nat \<times> byte list) list" \<comment> \<open>stores to \<open>io_regs\<close>, oldest first\<close>
  uncached :: "(nat \<times> nat) set" \<comment> \<open>runs of pages set uncached: address and number\<close>
  BAR_0 :: u32

text \<open>The packed structures and the copy to the NIC in two halves of 32 bytes.\<close>

definition map_bytes :: "port_to_phys \<Rightarrow> byte list" where
  "map_bytes p = le_bytes 8 (phys_addr p) @ le_bytes 2 (map_port p) @ le_bytes 1 (map_type p) @ replicate 53 0"

definition cfg_bytes :: "nat \<Rightarrow> nat \<Rightarrow> byte list" where
  "cfg_bytes writeBufferSize fetchRequestSize =
     replicate 62 0 @ le_bytes 1 writeBufferSize @ le_bytes 1 fetchRequestSize"

definition iomov64B :: "nat \<Rightarrow> byte list \<Rightarrow> (nat \<times> byte list) list" where
  "iomov64B dst src = [(dst, take 32 src), (dst + 32, take 32 (drop 32 src))]"

subsection \<open>open\<close>

definition with_session :: "nat \<Rightarrow> (session \<Rightarrow> session) \<Rightarrow> driver \<Rightarrow> driver" where
  "with_session s g d = d\<lparr>sessions := (sessions d)[s := g (sessions d ! s)]\<rparr>"

text \<open>The loop over the table; it returns 1 from \<open>open\<close> at the last element if that is taken.\<close>

fun find_free :: "nat \<Rightarrow> session list \<Rightarrow> nat option" where
  "find_free s [] = None"
| "find_free s (x # xs) = (if \<not> assigned x then Some s else find_free (s + 1) xs)"

text \<open>The address is null if the allocation fails; the handle then keeps its old value.\<close>

definition alloc_addr :: "(nat \<times> nat) option \<Rightarrow> nat" where
  "alloc_addr a = (case a of None \<Rightarrow> 0 | Some (cpu, h) \<Rightarrow> cpu)"

definition alloc_handle :: "(nat \<times> nat) option \<Rightarrow> nat \<Rightarrow> nat" where
  "alloc_handle a old = (case a of None \<Rightarrow> old | Some (cpu, h) \<Rightarrow> h)"

definition dma_alloc_coherent :: "nat \<Rightarrow> (nat \<times> nat) option \<Rightarrow> driver \<Rightarrow> driver" where
  "dma_alloc_coherent n a d =
     (case a of None \<Rightarrow> d | Some (cpu, h) \<Rightarrow> d\<lparr>live := add_mset (cpu, h, n) (live d)\<rparr>)"

text \<open>The driver's three assignments to \<open>dma_map\<close> and the copy to the NIC; the port is always 1.\<close>

definition onboard_map :: "nat \<Rightarrow> nat \<Rightarrow> driver \<Rightarrow> driver" where
  "onboard_map handle typ d =
     (let m = \<lparr>phys_addr = handle, map_port = 1, map_type = typ\<rparr>
      in d\<lparr>dma_map := m, mmio := mmio d @ iomov64B 0 (map_bytes m)\<rparr>)"

definition open_metadata :: "nat \<Rightarrow> (nat \<times> nat) option \<Rightarrow> driver \<Rightarrow> driver" where
  "open_metadata s a d =
     (let d1 = with_session s (\<lambda>x. x\<lparr>c2h_metadata_cpu_addr := alloc_addr a,
                 c2h_metadata_dma_handle := alloc_handle a (c2h_metadata_dma_handle x)\<rparr>)
               (dma_alloc_coherent METADATA_BYTES a d)
      in onboard_map (c2h_metadata_dma_handle (sessions d1 ! s)) C2H_METADATA_MAP d1)"

definition open_h2c_msgbuff :: "nat \<Rightarrow> (nat \<times> nat) option \<Rightarrow> driver \<Rightarrow> driver" where
  "open_h2c_msgbuff s a d =
     (let d1 = with_session s (\<lambda>x. x\<lparr>h2c_msgbuff_cpu_addr := alloc_addr a,
                 h2c_msgbuff_dma_handle := alloc_handle a (h2c_msgbuff_dma_handle x)\<rparr>)
               (dma_alloc_coherent MSGBUFF_BYTES a d)
      in onboard_map (h2c_msgbuff_dma_handle (sessions d1 ! s)) H2C_MSGBUFF_MAP d1)"

definition open_c2h_msgbuff :: "nat \<Rightarrow> (nat \<times> nat) option \<Rightarrow> driver \<Rightarrow> driver" where
  "open_c2h_msgbuff s a d =
     (let d1 = with_session s (\<lambda>x. x\<lparr>c2h_msgbuff_cpu_addr := alloc_addr a,
                 c2h_msgbuff_dma_handle := alloc_handle a (c2h_msgbuff_dma_handle x)\<rparr>)
               (dma_alloc_coherent MSGBUFF_BYTES a d)
      in onboard_map (c2h_msgbuff_dma_handle (sessions d1 ! s)) C2H_MSGBUFF_MAP d1)"

text \<open>\<open>a1\<close>, \<open>a2\<close> and \<open>a3\<close> are the results of the three allocations, \<open>f\<close> is the file.\<close>

definition homanic_open ::
    "nat \<Rightarrow> (nat \<times> nat) option \<Rightarrow> (nat \<times> nat) option \<Rightarrow> (nat \<times> nat) option \<Rightarrow> driver \<Rightarrow> int \<times> driver" where
  "homanic_open f a1 a2 a3 d =
     (case find_free 0 (sessions d) of
        None \<Rightarrow> (1, d)
      | Some s \<Rightarrow>
          (0, open_c2h_msgbuff s a3 (open_h2c_msgbuff s a2 (open_metadata s a1
                ((with_session s (\<lambda>x. x\<lparr>assigned := True\<rparr>) d)\<lparr>files := (files d)(f \<mapsto> s)\<rparr>)))))"

subsection \<open>release\<close>

text \<open>\<open>dma_free_coherent\<close>, which ignores a null pointer.\<close>

definition dma_free_coherent :: "nat \<Rightarrow> nat \<Rightarrow> nat \<Rightarrow> driver \<Rightarrow> driver res" where
  "dma_free_coherent n cpu h d =
     (if cpu = 0 then Inr d
      else if (cpu, h, n) \<in># live d then Inr (d\<lparr>live := live d - {#(cpu, h, n)#}\<rparr>)
      else Inl UseAfterFree)"

definition set_memory_wb :: "nat \<Rightarrow> nat \<Rightarrow> driver \<Rightarrow> driver" where
  "set_memory_wb cpu pages d = d\<lparr>uncached := uncached d - {(cpu, pages)}\<rparr>"

definition set_memory_uc :: "nat \<Rightarrow> nat \<Rightarrow> driver \<Rightarrow> driver" where
  "set_memory_uc cpu pages d = d\<lparr>uncached := insert (cpu, pages) (uncached d)\<rparr>"

text \<open>The step that forgets the file is the kernel's. The session stays assigned.\<close>

definition homanic_close :: "nat \<Rightarrow> driver \<Rightarrow> driver res" where
  "homanic_close f d =
     (case files d f of
        None \<Rightarrow> Inl NullDeref
      | Some s \<Rightarrow>
          let x = sessions d ! s
          in rbind (dma_free_coherent METADATA_BYTES (c2h_metadata_cpu_addr x) (c2h_metadata_dma_handle x) d) (\<lambda>d1.
             rbind (dma_free_coherent MSGBUFF_BYTES (h2c_msgbuff_cpu_addr x) (h2c_msgbuff_dma_handle x)
                      (set_memory_wb (h2c_msgbuff_cpu_addr x) (MSGBUFF_BYTES div PAGE_SIZE) d1)) (\<lambda>d2.
             rbind (dma_free_coherent MSGBUFF_BYTES (c2h_msgbuff_cpu_addr x) (c2h_msgbuff_dma_handle x)
                      (set_memory_wb (c2h_msgbuff_cpu_addr x) (MSGBUFF_BYTES div PAGE_SIZE) d2)) (\<lambda>d3.
               Inr (d3\<lparr>files := (files d3)(f := None)\<rparr>)))))"

subsection \<open>mmap\<close>

text \<open>What a call of \<open>mmap\<close> maps: a DMA buffer, or pages of the NIC's registers.\<close>

datatype mapping = Nothing_Mapped | Buffer_Mapped dma_buffer | Registers_Mapped nat nat

definition dma_mmap_coherent :: "nat \<Rightarrow> nat \<Rightarrow> nat \<Rightarrow> int \<Rightarrow> driver \<Rightarrow> (int \<times> mapping \<times> driver) res" where
  "dma_mmap_coherent n cpu h ret d =
     (if cpu = 0 then Inl NullDeref
      else if (cpu, h, n) \<in># live d
      then Inr (ret, if ret = 0 then Buffer_Mapped (cpu, h, n) else Nothing_Mapped, d)
      else Inl UseAfterFree)"

text \<open>A whole buffer: its full pages are set uncached, then it is mapped.\<close>

definition map_buffer :: "nat \<Rightarrow> nat \<Rightarrow> nat \<Rightarrow> int \<Rightarrow> driver \<Rightarrow> (int \<times> mapping \<times> driver) res" where
  "map_buffer n cpu h ret d = dma_mmap_coherent n cpu h ret (set_memory_uc cpu (n div PAGE_SIZE) d)"

text \<open>\<open>ret\<close> is what the mapping function of the kernel returns.\<close>

definition homanic_mmap :: "nat \<Rightarrow> u64 \<Rightarrow> int \<Rightarrow> driver \<Rightarrow> (int \<times> mapping \<times> driver) res" where
  "homanic_mmap f vm_pgoff ret d =
     (let map = to_int32 (uint vm_pgoff)
      in case files d f of
           None \<Rightarrow> Inl NullDeref
         | Some s \<Rightarrow>
             let x = sessions d ! s
             in if map = 0 then map_buffer METADATA_BYTES (c2h_metadata_cpu_addr x) (c2h_metadata_dma_handle x) ret d
                else if map = 1 then
                  Inr (ret, if ret = 0 then Registers_Mapped (unat (drop_bit 12 (BAR_0 d + 4096))) 4096 else Nothing_Mapped, d)
                else if map = 2 then map_buffer MSGBUFF_BYTES (h2c_msgbuff_cpu_addr x) (h2c_msgbuff_dma_handle x) ret d
                else if map = 3 then map_buffer MSGBUFF_BYTES (c2h_msgbuff_cpu_addr x) (c2h_msgbuff_dma_handle x) ret d
                else Inr (0, Nothing_Mapped, d))"

subsection \<open>init\<close>

definition zero_session :: session where
  "zero_session = \<lparr>assigned = False, session_port = 0, h2c_msgbuff_cpu_addr = 0, h2c_msgbuff_dma_handle = 0,
     c2h_msgbuff_cpu_addr = 0, c2h_msgbuff_dma_handle = 0, c2h_metadata_cpu_addr = 0, c2h_metadata_dma_handle = 0\<rparr>"

text \<open>The static data of the module before \<open>homanic_init\<close>, the loop over the sessions, and the
  configuration packet; \<open>bar\<close> is the address of the register space of the device, which is cut to 32
  bits, and \<open>err\<close> the result of \<open>alloc_chrdev_region\<close>.\<close>

definition drv_static :: driver where
  "drv_static = \<lparr>sessions = replicate MAX_PORTS zero_session, dma_map = \<lparr>phys_addr = 0, map_port = 0, map_type = 0\<rparr>,
     files = (\<lambda>_. None), live = {#}, mmio = [], uncached = {}, BAR_0 = 0\<rparr>"

fun init_sessions :: "nat \<Rightarrow> nat \<Rightarrow> session list \<Rightarrow> session list" where
  "init_sessions 0 s ss = ss"
| "init_sessions (Suc n) s ss =
     init_sessions n (s + 1) (ss[s := (ss ! s)\<lparr>session_port := s + 1, assigned := False\<rparr>])"

definition homanic_init :: "nat \<Rightarrow> int \<Rightarrow> driver \<Rightarrow> int \<times> driver" where
  "homanic_init bar err d =
     (let d1 = d\<lparr>sessions := init_sessions MAX_PORTS 0 (sessions d), BAR_0 := word_of_nat bar\<rparr>
      in if err \<noteq> 0 then (err, d1)
         else (0, d1\<lparr>mmio := mmio d1 @ iomov64B 64 (cfg_bytes 10 10)\<rparr>))"

subsection \<open>Waking the NIC\<close>

text \<open>\<open>pci_enable_capability\<close> on the configuration space of 16 bit registers: sets bits of the device
  control register behind the PCI Express capability, if there is one.\<close>

definition PCI_EXP_DEVCTL :: nat where "PCI_EXP_DEVCTL = 8"

definition pci_enable_capability :: "nat \<Rightarrow> 16 word \<Rightarrow> (nat \<Rightarrow> 16 word) \<Rightarrow> nat \<Rightarrow> 16 word" where
  "pci_enable_capability pos cap config =
     (if 0 < pos then config(pos + PCI_EXP_DEVCTL := config (pos + PCI_EXP_DEVCTL) OR cap) else config)"

text \<open>\<open>init_eth\<close>: four register writes, then it polls the status until the lane is aligned. \<open>stats\<close>
  are the values the status register will show; the result is the writes and the number of polls.\<close>

definition AXI_CMAC_1 :: nat where "AXI_CMAC_1 = 0x30000"

fun wait_aligned :: "u32 list \<Rightarrow> nat \<Rightarrow> nat option" where
  "wait_aligned [] n = None"
| "wait_aligned (v # vs) n = (if v AND 2 \<noteq> 2 then wait_aligned vs (n + 1) else Some (n + 1))"

definition init_eth :: "u32 list \<Rightarrow> ((nat \<times> u32) list \<times> nat) option" where
  "init_eth stats = map_option (Pair
     [(AXI_CMAC_1 + 0x00000, 1), (AXI_CMAC_1 + 0x00014, 1), (AXI_CMAC_1 + 0x0000C, 0x10), (AXI_CMAC_1 + 0x0000C, 1)])
     (wait_aligned stats 0)"

subsection \<open>The calls of the kernel\<close>

text \<open>A successful allocation never returns the null pointer. \<open>n\<close> counts the files that were opened.\<close>

definition alloc_ok :: "(nat \<times> nat) option \<Rightarrow> bool" where
  "alloc_ok a \<longleftrightarrow> (\<forall>cpu h. a = Some (cpu, h) \<longrightarrow> cpu \<noteq> 0)"

inductive drv_reach :: "driver \<Rightarrow> nat \<Rightarrow> bool" where
  drv_init: "homanic_init bar 0 drv_static = (0, d) \<Longrightarrow> drv_reach d 0"
| drv_open: "drv_reach d n \<Longrightarrow> files d f = None \<Longrightarrow> alloc_ok a1 \<Longrightarrow> alloc_ok a2 \<Longrightarrow> alloc_ok a3 \<Longrightarrow>
    homanic_open f a1 a2 a3 d = (0, d') \<Longrightarrow> drv_reach d' (Suc n)"
| drv_open_fails: "drv_reach d n \<Longrightarrow> files d f = None \<Longrightarrow> homanic_open f a1 a2 a3 d = (1, d') \<Longrightarrow> drv_reach d' n"
| drv_mmap: "drv_reach d n \<Longrightarrow> files d f \<noteq> None \<Longrightarrow> homanic_mmap f off ret d = Inr (r, mp, d') \<Longrightarrow> drv_reach d' n"
| drv_close: "drv_reach d n \<Longrightarrow> files d f \<noteq> None \<Longrightarrow> homanic_close f d = Inr d' \<Longrightarrow> drv_reach d' n"

inductive_cases drv_reach_files: "drv_reach d 0"

text \<open>The buffers of a session that were allocated, and the sessions of open files.\<close>

definition buffers :: "session \<Rightarrow> dma_buffer multiset" where
  "buffers x = filter_mset (\<lambda>(cpu, h, n). cpu \<noteq> 0)
     {#(c2h_metadata_cpu_addr x, c2h_metadata_dma_handle x, METADATA_BYTES),
       (h2c_msgbuff_cpu_addr x, h2c_msgbuff_dma_handle x, MSGBUFF_BYTES),
       (c2h_msgbuff_cpu_addr x, c2h_msgbuff_dma_handle x, MSGBUFF_BYTES)#}"

definition drv_inv :: "driver \<Rightarrow> nat \<Rightarrow> bool" where
  "drv_inv d n \<longleftrightarrow> length (sessions d) = MAX_PORTS \<and>
     (\<forall>s < MAX_PORTS. session_port (sessions d ! s) = s + 1) \<and>
     (\<forall>f s. files d f = Some s \<longrightarrow> s < MAX_PORTS \<and> assigned (sessions d ! s)) \<and>
     inj_on (files d) (dom (files d)) \<and>
     live d = (\<Sum>s \<in> ran (files d). buffers (sessions d ! s)) \<and>
     length (filter assigned (sessions d)) = n"

lemma drv_invD:
  assumes "drv_inv d n"
  shows "length (sessions d) = MAX_PORTS" "s < MAX_PORTS \<Longrightarrow> session_port (sessions d ! s) = s + 1"
    "files d f = Some s \<Longrightarrow> s < MAX_PORTS" "files d f = Some s \<Longrightarrow> assigned (sessions d ! s)"
    "files d f = Some s \<Longrightarrow> files d f' = Some s \<Longrightarrow> f = f'"
    "live d = (\<Sum>s \<in> ran (files d). buffers (sessions d ! s))"
    "length (filter assigned (sessions d)) = n" "finite (ran (files d))"
proof -
  show "finite (ran (files d))"
    by (rule finite_subset [of _ "{..<MAX_PORTS}"]) (use assms in \<open>auto simp: drv_inv_def ran_def\<close>)
  show "f = f'" if "files d f = Some s" "files d f' = Some s"
    using assms that by (auto simp: drv_inv_def inj_on_def dom_def)
qed (use assms in \<open>auto simp: drv_inv_def\<close>)

subsection \<open>What each call does\<close>

lemma find_free_Some: "find_free s xs = Some i \<Longrightarrow> \<exists>k < length xs. i = s + k \<and> \<not> assigned (xs ! k) \<and> (\<forall>j < k. assigned (xs ! j))"
proof (induction xs arbitrary: s)
  case (Cons x xs)
  show ?case
  proof (cases "assigned x")
    case True
    then obtain k where "k < length xs" "i = s + 1 + k" "\<not> assigned (xs ! k)" "\<forall>j < k. assigned (xs ! j)"
      using Cons by fastforce
    then show ?thesis using True by (intro exI [of _ "Suc k"]) (auto simp: nth_Cons split: nat.splits)
  qed (use Cons.prems in auto)
qed simp

lemma find_free_None: "find_free s xs = None \<longleftrightarrow> (\<forall>x \<in> set xs. assigned x)"
  by (induction xs arbitrary: s) auto

text \<open>The session of a file that is being opened.\<close>

definition opened_session ::
    "(nat \<times> nat) option \<Rightarrow> (nat \<times> nat) option \<Rightarrow> (nat \<times> nat) option \<Rightarrow> session \<Rightarrow> session" where
  "opened_session a1 a2 a3 x = x\<lparr>assigned := True,
     c2h_metadata_cpu_addr := alloc_addr a1, c2h_metadata_dma_handle := alloc_handle a1 (c2h_metadata_dma_handle x),
     h2c_msgbuff_cpu_addr := alloc_addr a2, h2c_msgbuff_dma_handle := alloc_handle a2 (h2c_msgbuff_dma_handle x),
     c2h_msgbuff_cpu_addr := alloc_addr a3, c2h_msgbuff_dma_handle := alloc_handle a3 (c2h_msgbuff_dma_handle x)\<rparr>"

lemma with_session_simps [simp]:
  "files (with_session s g d) = files d" "live (with_session s g d) = live d"
  "sessions (with_session s g d) = (sessions d)[s := g (sessions d ! s)]"
  "mmio (with_session s g d) = mmio d" "uncached (with_session s g d) = uncached d" "BAR_0 (with_session s g d) = BAR_0 d"
  by (simp_all add: with_session_def)

lemma dma_alloc_simps [simp]:
  "files (dma_alloc_coherent n a d) = files d" "sessions (dma_alloc_coherent n a d) = sessions d"
  "mmio (dma_alloc_coherent n a d) = mmio d" "uncached (dma_alloc_coherent n a d) = uncached d"
  "BAR_0 (dma_alloc_coherent n a d) = BAR_0 d"
  by (simp_all add: dma_alloc_coherent_def split: option.splits)

lemma onboard_simps [simp]:
  "files (onboard_map h t d) = files d" "sessions (onboard_map h t d) = sessions d"
  "live (onboard_map h t d) = live d" "uncached (onboard_map h t d) = uncached d" "BAR_0 (onboard_map h t d) = BAR_0 d"
  "mmio (onboard_map h t d) = mmio d @ iomov64B 0 (map_bytes \<lparr>phys_addr = h, map_port = 1, map_type = t\<rparr>)"
  by (simp_all add: onboard_map_def Let_def)

lemma live_alloc: "alloc_ok a \<Longrightarrow> live (dma_alloc_coherent n a d) =
    live d + filter_mset (\<lambda>(cpu, h, n). cpu \<noteq> 0) {#(alloc_addr a, alloc_handle a old, n)#}"
  by (auto simp: dma_alloc_coherent_def alloc_ok_def alloc_addr_def alloc_handle_def split: option.splits)

lemma open_effect:
  assumes "homanic_open f a1 a2 a3 d = (0, d')" "length (sessions d) = MAX_PORTS"
  shows "\<exists>s < MAX_PORTS. find_free 0 (sessions d) = Some s \<and> \<not> assigned (sessions d ! s) \<and>
     files d' = (files d)(f \<mapsto> s) \<and> sessions d' = (sessions d)[s := opened_session a1 a2 a3 (sessions d ! s)] \<and>
     (alloc_ok a1 \<and> alloc_ok a2 \<and> alloc_ok a3 \<longrightarrow> live d' = live d + buffers (sessions d' ! s)) \<and>
     uncached d' = uncached d \<and>
     mmio d' = mmio d @
       iomov64B 0 (map_bytes \<lparr>phys_addr = c2h_metadata_dma_handle (sessions d' ! s), map_port = 1, map_type = C2H_METADATA_MAP\<rparr>) @
       iomov64B 0 (map_bytes \<lparr>phys_addr = h2c_msgbuff_dma_handle (sessions d' ! s), map_port = 1, map_type = H2C_MSGBUFF_MAP\<rparr>) @
       iomov64B 0 (map_bytes \<lparr>phys_addr = c2h_msgbuff_dma_handle (sessions d' ! s), map_port = 1, map_type = C2H_MSGBUFF_MAP\<rparr>)"
proof (cases "find_free 0 (sessions d)")
  case None
  then show ?thesis using assms(1) by (simp add: homanic_open_def)
next
  case (Some s)
  then have s: "s < MAX_PORTS" "\<not> assigned (sessions d ! s)" using find_free_Some [OF Some] assms(2) by auto
  let ?x = "opened_session a1 a2 a3 (sessions d ! s)"
  have d': "d' = open_c2h_msgbuff s a3 (open_h2c_msgbuff s a2 (open_metadata s a1
      ((with_session s (\<lambda>x. x\<lparr>assigned := True\<rparr>) d)\<lparr>files := (files d)(f \<mapsto> s)\<rparr>)))"
    using assms(1) Some by (simp add: homanic_open_def)
  note defs = open_metadata_def open_h2c_msgbuff_def open_c2h_msgbuff_def Let_def
  have sess: "sessions d' = (sessions d)[s := ?x]"
    using s assms(2) by (simp add: d' defs opened_session_def)
  moreover have "live d' = live d + buffers ?x" if "alloc_ok a1" "alloc_ok a2" "alloc_ok a3"
    using live_alloc [OF that(1), of _ _ "c2h_metadata_dma_handle (sessions d ! s)"]
      live_alloc [OF that(2), of _ _ "h2c_msgbuff_dma_handle (sessions d ! s)"]
      live_alloc [OF that(3), of _ _ "c2h_msgbuff_dma_handle (sessions d ! s)"]
    by (simp add: d' defs buffers_def opened_session_def)
  moreover have "files d' = (files d)(f \<mapsto> s)" "uncached d' = uncached d" by (simp_all add: d' defs)
  moreover have "mmio d' = mmio d @
       iomov64B 0 (map_bytes \<lparr>phys_addr = c2h_metadata_dma_handle ?x, map_port = 1, map_type = C2H_METADATA_MAP\<rparr>) @
       iomov64B 0 (map_bytes \<lparr>phys_addr = h2c_msgbuff_dma_handle ?x, map_port = 1, map_type = H2C_MSGBUFF_MAP\<rparr>) @
       iomov64B 0 (map_bytes \<lparr>phys_addr = c2h_msgbuff_dma_handle ?x, map_port = 1, map_type = C2H_MSGBUFF_MAP\<rparr>)"
    using s assms(2) by (simp add: d' defs opened_session_def)
  ultimately show ?thesis using Some s assms(2) by (intro exI [of _ s]) simp
qed

lemma inj_on_upd_new:
  "inj_on m (dom m) \<Longrightarrow> m f = None \<Longrightarrow> s \<notin> ran m \<Longrightarrow> inj_on (m(f \<mapsto> s)) (dom (m(f \<mapsto> s)))"
  by (auto simp: inj_on_def dom_def ran_def)

lemma filter_assigned_update:
  "s < length xs \<Longrightarrow> \<not> assigned (xs ! s) \<Longrightarrow> assigned x \<Longrightarrow>
   length (filter assigned (xs[s := x])) = Suc (length (filter assigned xs))"
proof (induction xs arbitrary: s)
  case (Cons y ys)
  then show ?case by (cases s) auto
qed simp

lemma open_inv:
  assumes inv: "drv_inv d n" and new: "files d f = None" and al: "alloc_ok a1" "alloc_ok a2" "alloc_ok a3"
    and op: "homanic_open f a1 a2 a3 d = (0, d')"
  shows "drv_inv d' (Suc n)"
proof -
  note D = drv_invD [OF inv]
  obtain s where s: "s < MAX_PORTS" "\<not> assigned (sessions d ! s)" "files d' = (files d)(f \<mapsto> s)"
    "sessions d' = (sessions d)[s := opened_session a1 a2 a3 (sessions d ! s)]" "live d' = live d + buffers (sessions d' ! s)"
    using open_effect [OF op D(1)] al by blast
  have nr: "s \<notin> ran (files d)" using D(4) s(2) by (auto simp: ran_def)
  have "(\<Sum>t \<in> ran (files d). buffers (sessions d' ! t)) = (\<Sum>t \<in> ran (files d). buffers (sessions d ! t))"
    using nr by (intro sum.cong refl) (metis s(4) nth_list_update_neq)
  then have "live d' = (\<Sum>t \<in> ran (files d'). buffers (sessions d' ! t))"
    using s(3,5) new nr D(6,8) by (simp add: ran_map_upd)
  moreover have "inj_on (files d') (dom (files d'))"
    unfolding s(3) using inv new nr by (intro inj_on_upd_new) (auto simp: drv_inv_def)
  moreover have "length (filter assigned (sessions d')) = Suc n"
    using filter_assigned_update [of s "sessions d"] s D(1,7) by (simp add: opened_session_def)
  ultimately show ?thesis
    using s(1,3,4) D(1-4) by (auto simp: drv_inv_def nth_list_update opened_session_def)
qed

lemma close_effect:
  assumes "files d f = Some s" "live d = buffers (sessions d ! s) + R"
  shows "\<exists>d'. homanic_close f d = Inr d' \<and> sessions d' = sessions d \<and> files d' = (files d)(f := None) \<and>
     live d' = R \<and> mmio d' = mmio d \<and> uncached d' = uncached d -
       {(h2c_msgbuff_cpu_addr (sessions d ! s), MSGBUFF_BYTES div PAGE_SIZE),
        (c2h_msgbuff_cpu_addr (sessions d ! s), MSGBUFF_BYTES div PAGE_SIZE)}"
  using assms
  by (auto simp: homanic_close_def Let_def dma_free_coherent_def buffers_def set_memory_wb_def)

lemma owned_live:
  assumes inv: "drv_inv d n" and f: "files d f = Some s"
  shows "live d = buffers (sessions d ! s) + (\<Sum>t \<in> ran (files d) - {s}. buffers (sessions d ! t))"
  using drv_invD(6,8) [OF inv] f by (simp add: sum.remove [of _ s] ranI)

lemma close_inv:
  assumes inv: "drv_inv d n" and f: "files d f = Some s" and cl: "homanic_close f d = Inr d'"
  shows "drv_inv d' n"
proof -
  note D = drv_invD [OF inv]
  have d': "sessions d' = sessions d" "files d' = (files d)(f := None)"
    "live d' = (\<Sum>t \<in> ran (files d) - {s}. buffers (sessions d ! t))"
    using close_effect [OF f owned_live [OF inv f]] cl by auto
  have "ran (files d') = ran (files d) - {s}"
    unfolding d'(2) using f D(5) by (auto simp: ran_def split: if_splits) (metis f option.inject)
  then show ?thesis using inv d' D by (auto simp: drv_inv_def inj_on_def dom_def split: if_splits)
qed

lemma mmap_state:
  assumes "homanic_mmap f off ret d = Inr (r, mp, d')"
  shows "sessions d' = sessions d \<and> files d' = files d \<and> live d' = live d \<and> mmio d' = mmio d"
  using assms
  by (auto simp: homanic_mmap_def map_buffer_def dma_mmap_coherent_def set_memory_uc_def Let_def
      split: option.splits if_splits)

lemma drv_inv_cong:
  "sessions d' = sessions d \<Longrightarrow> files d' = files d \<Longrightarrow> live d' = live d \<Longrightarrow> drv_inv d n \<Longrightarrow> drv_inv d' n"
  by (simp add: drv_inv_def)

lemma init_sessions_nth:
  "length ss = n + s \<Longrightarrow> length (init_sessions n s ss) = length ss \<and>
   (\<forall>i < length ss. init_sessions n s ss ! i =
      (if s \<le> i then (ss ! i)\<lparr>session_port := i + 1, assigned := False\<rparr> else ss ! i))"
proof (induction n arbitrary: s ss)
  case (Suc n)
  then have "length (ss[s := (ss ! s)\<lparr>session_port := s + 1, assigned := False\<rparr>]) = n + (s + 1)" by simp
  from Suc.IH [OF this] show ?case using Suc.prems
    by (auto simp: nth_list_update not_less_eq_eq dest: le_antisym)
qed simp

lemma init_inv:
  assumes "homanic_init bar 0 drv_static = (0, d)"
  shows "drv_inv d 0 \<and> files d = (\<lambda>_. None) \<and> live d = {#} \<and> mmio d = iomov64B 64 (cfg_bytes 10 10)"
proof -
  let ?ss = "init_sessions MAX_PORTS 0 (replicate MAX_PORTS zero_session)"
  have d: "sessions d = ?ss" "files d = (\<lambda>_. None)" "live d = {#}" "mmio d = iomov64B 64 (cfg_bytes 10 10)"
    using assms by (auto simp: homanic_init_def drv_static_def Let_def)
  have ss: "length ?ss = MAX_PORTS" "\<forall>i < MAX_PORTS. ?ss ! i = zero_session\<lparr>session_port := i + 1, assigned := False\<rparr>"
    using init_sessions_nth [of "replicate MAX_PORTS zero_session" MAX_PORTS 0] by auto
  then have "filter assigned ?ss = []" by (auto simp: filter_empty_conv in_set_conv_nth)
  then show ?thesis using d ss by (simp add: drv_inv_def)
qed

lemma drv_reach_inv: "drv_reach d n \<Longrightarrow> drv_inv d n"
proof (induction rule: drv_reach.induct)
  case (drv_init bar d)
  then show ?case using init_inv by blast
next
  case (drv_open d n f a1 a2 a3 d')
  then show ?case using open_inv by blast
next
  case (drv_open_fails d n f a1 a2 a3 d')
  then show ?case by (auto simp: homanic_open_def split: option.splits)
next
  case (drv_mmap d n f off ret r mp d')
  then show ?case using mmap_state drv_inv_cong by blast
next
  case (drv_close d n f d')
  then show ?case using close_inv by blast
qed

subsection \<open>The structures the NIC reads\<close>

definition decode_map :: "byte list \<Rightarrow> port_to_phys" where
  "decode_map bs = \<lparr>phys_addr = of_bytes (take 8 bs), map_port = of_bytes (take 2 (drop 8 bs)),
     map_type = of_bytes (take 1 (drop 10 bs))\<rparr>"

text \<open>The mappings among the stores to the first 64 bytes of the registers.\<close>

fun nic_maps :: "(nat \<times> byte list) list \<Rightarrow> port_to_phys list" where
  "nic_maps ((p, a) # (q, b) # ws) =
     (if p = 0 \<and> q = 32 then decode_map (a @ b) # nic_maps ws else nic_maps ws)"
| "nic_maps _ = []"

definition nic_table :: "port_to_phys list \<Rightarrow> nat \<times> nat \<Rightarrow> nat option" where
  "nic_table ms = fold (\<lambda>m t. t((map_port m, map_type m) \<mapsto> phys_addr m)) ms (\<lambda>_. None)"

lemma decode_map_bytes:
  "phys_addr p < 2 ^ 64 \<Longrightarrow> map_port p < 2 ^ 16 \<Longrightarrow> map_type p < 256 \<Longrightarrow> decode_map (map_bytes p) = p"
  by (cases p) (simp add: decode_map_def map_bytes_def unat_byte)

lemma iomov64B_halves: "length bs = 64 \<Longrightarrow> iomov64B dst bs = [(dst, take 32 bs), (dst + 32, drop 32 bs)]"
  by (simp add: iomov64B_def)

lemma length_map_bytes [simp]: "length (map_bytes p) = 64"
  by (simp add: map_bytes_def)

lemma length_cfg_bytes [simp]: "length (cfg_bytes w r) = 64"
  by (simp add: cfg_bytes_def)

lemma nic_maps_append: "even (length xs) \<Longrightarrow> nic_maps (xs @ ys) = nic_maps xs @ nic_maps ys"
  by (induction xs rule: nic_maps.induct) auto

lemma nic_maps_iomov: "nic_maps (iomov64B 0 (map_bytes p) @ ws) = decode_map (map_bytes p) # nic_maps ws"
  by (simp add: iomov64B_halves)

lemma even_mmio: "drv_reach d n \<Longrightarrow> even (length (mmio d))"
proof (induction rule: drv_reach.induct)
  case (drv_init bar d)
  then show ?case using init_inv by (auto simp: iomov64B_def)
next
  case (drv_open d n f a1 a2 a3 d')
  then show ?case
    using open_effect [OF drv_open(6) drv_invD(1) [OF drv_reach_inv [OF drv_open(1)]]] by (auto simp: iomov64B_def)
next
  case (drv_open_fails d n f a1 a2 a3 d')
  then show ?case by (auto simp: homanic_open_def split: option.splits)
next
  case (drv_mmap d n f off ret r mp d')
  then show ?case using mmap_state by auto
next
  case (drv_close d n f d')
  then obtain s where s: "files d f = Some s" by auto
  then show ?case using close_effect [OF s owned_live [OF drv_reach_inv [OF drv_close(1)] s]] drv_close by auto
qed

text \<open>Mapping a buffer: a null pointer is an error of its own, everything else must be live.\<close>

lemma map_buffer_safe:
  assumes "cpu \<noteq> 0 \<Longrightarrow> (cpu, h, n) \<in># B" "(cpu, h, n) \<in># B \<Longrightarrow> (cpu, h, n) \<in># live d"
  shows "map_buffer n cpu h ret d \<noteq> Inl UseAfterFree \<and>
    (\<forall>r b d'. map_buffer n cpu h ret d = Inr (r, Buffer_Mapped b, d') \<longrightarrow> b \<in># B)"
  using assms by (cases "cpu = 0") (simp_all add: map_buffer_def dma_mmap_coherent_def set_memory_uc_def)

lemma mmap_cases:
  assumes "files d f = Some s"
  shows "to_int32 (uint off) = 0 \<Longrightarrow> homanic_mmap f off ret d =
      map_buffer METADATA_BYTES (c2h_metadata_cpu_addr (sessions d ! s)) (c2h_metadata_dma_handle (sessions d ! s)) ret d"
    "to_int32 (uint off) = 2 \<Longrightarrow> homanic_mmap f off ret d =
      map_buffer MSGBUFF_BYTES (h2c_msgbuff_cpu_addr (sessions d ! s)) (h2c_msgbuff_dma_handle (sessions d ! s)) ret d"
    "to_int32 (uint off) = 3 \<Longrightarrow> homanic_mmap f off ret d =
      map_buffer MSGBUFF_BYTES (c2h_msgbuff_cpu_addr (sessions d ! s)) (c2h_msgbuff_dma_handle (sessions d ! s)) ret d"
    "to_int32 (uint off) = 1 \<Longrightarrow> homanic_mmap f off ret d =
      Inr (ret, if ret = 0 then Registers_Mapped (unat (drop_bit 12 (BAR_0 d + 4096))) 4096 else Nothing_Mapped, d)"
    "to_int32 (uint off) \<notin> {0, 1, 2, 3} \<Longrightarrow> homanic_mmap f off ret d = Inr (0, Nothing_Mapped, d)"
  using assms by (simp_all add: homanic_mmap_def Let_def)

text \<open>What \<open>open\<close> tells the NIC.\<close>

lemma open_maps:
  assumes "drv_reach d n" "homanic_open f a1 a2 a3 d = (0, d')" "files d' f = Some s" "x = sessions d' ! s"
    "c2h_metadata_dma_handle x < 2 ^ 64" "h2c_msgbuff_dma_handle x < 2 ^ 64" "c2h_msgbuff_dma_handle x < 2 ^ 64"
  shows "nic_maps (mmio d') = nic_maps (mmio d) @
       [\<lparr>phys_addr = c2h_metadata_dma_handle x, map_port = 1, map_type = C2H_METADATA_MAP\<rparr>,
        \<lparr>phys_addr = h2c_msgbuff_dma_handle x, map_port = 1, map_type = H2C_MSGBUFF_MAP\<rparr>,
        \<lparr>phys_addr = c2h_msgbuff_dma_handle x, map_port = 1, map_type = C2H_MSGBUFF_MAP\<rparr>] \<and> session_port x = s + 1"
proof -
  note inv = drv_reach_inv [OF assms(1)]
  obtain s' where s': "s' < MAX_PORTS" "files d' = (files d)(f \<mapsto> s')"
    "sessions d' = (sessions d)[s' := opened_session a1 a2 a3 (sessions d ! s')]"
    "mmio d' = mmio d @
       iomov64B 0 (map_bytes \<lparr>phys_addr = c2h_metadata_dma_handle (sessions d' ! s'), map_port = 1, map_type = C2H_METADATA_MAP\<rparr>) @
       iomov64B 0 (map_bytes \<lparr>phys_addr = h2c_msgbuff_dma_handle (sessions d' ! s'), map_port = 1, map_type = H2C_MSGBUFF_MAP\<rparr>) @
       iomov64B 0 (map_bytes \<lparr>phys_addr = c2h_msgbuff_dma_handle (sessions d' ! s'), map_port = 1, map_type = C2H_MSGBUFF_MAP\<rparr>)"
    using open_effect [OF assms(2) drv_invD(1) [OF inv]] by blast
  have s: "s' = s" using s'(2) assms(3) by simp
  have port: "session_port x = s + 1"
    using s'(1,3) drv_invD(1,2) [OF inv] assms(4) by (simp add: s opened_session_def)
  have "nic_maps (mmio d') = nic_maps (mmio d) @
       [\<lparr>phys_addr = c2h_metadata_dma_handle x, map_port = 1, map_type = C2H_METADATA_MAP\<rparr>,
        \<lparr>phys_addr = h2c_msgbuff_dma_handle x, map_port = 1, map_type = H2C_MSGBUFF_MAP\<rparr>,
        \<lparr>phys_addr = c2h_msgbuff_dma_handle x, map_port = 1, map_type = C2H_MSGBUFF_MAP\<rparr>]"
    using nic_maps_append [OF even_mmio [OF assms(1)]] nic_maps_iomov nic_maps_iomov [of _ "[]"] assms(4-7)
    by (simp add: s'(4) s decode_map_bytes C2H_METADATA_MAP_def H2C_MSGBUFF_MAP_def C2H_MSGBUFF_MAP_def)
  then show ?thesis using port by simp
qed

lemma nic_table_last:
  "nic_table (ms @ [\<lparr>phys_addr = a, map_port = 1, map_type = C2H_METADATA_MAP\<rparr>,
      \<lparr>phys_addr = b, map_port = 1, map_type = H2C_MSGBUFF_MAP\<rparr>, \<lparr>phys_addr = c, map_port = 1, map_type = C2H_MSGBUFF_MAP\<rparr>])
      (1, t) = (if t = C2H_METADATA_MAP then Some a else if t = H2C_MSGBUFF_MAP then Some b
        else if t = C2H_MSGBUFF_MAP then Some c else nic_table ms (1, t))"
  by (simp add: nic_table_def C2H_METADATA_MAP_def H2C_MSGBUFF_MAP_def C2H_MSGBUFF_MAP_def)

subsection \<open>Reachable states for the witnesses\<close>

lemma files_none_init: "\<exists>d. drv_reach d 0 \<and> files d = (\<lambda>_. None)"
proof -
  obtain d where d: "homanic_init 0 0 drv_static = (0, d)" by (simp add: homanic_init_def Let_def)
  then show ?thesis using drv_init [OF d] init_inv [OF d] by blast
qed

lemma open_succeeds:
  assumes "drv_reach d n" "n < MAX_PORTS"
  shows "\<exists>d'. homanic_open f a1 a2 a3 d = (0, d')"
proof (cases "find_free 0 (sessions d)")
  case None
  then have "filter assigned (sessions d) = sessions d" by (simp add: find_free_None filter_id_conv)
  then show ?thesis using drv_invD(1,7) [OF drv_reach_inv [OF assms(1)]] assms(2) by simp
qed (simp add: homanic_open_def)

lemma open_full:
  assumes "drv_reach d MAX_PORTS"
  shows "homanic_open f a1 a2 a3 d = (1, d)"
proof -
  note D = drv_invD [OF drv_reach_inv [OF assms]]
  have "\<forall>x \<in> set (sessions d). assigned x"
  proof (rule ccontr)
    assume "\<not> (\<forall>x \<in> set (sessions d). assigned x)"
    then obtain x where "x \<in> set (sessions d)" "\<not> assigned x" by blast
    then have "length (filter assigned (sessions d)) < length (sessions d)" by (rule length_filter_less)
    then show False using D(1,7) by simp
  qed
  then have "find_free 0 (sessions d) = None" by (simp add: find_free_None)
  then show ?thesis by (simp add: homanic_open_def)
qed

lemma open_close_cycle: "n \<le> MAX_PORTS \<Longrightarrow> \<exists>d. drv_reach d n \<and> files d = (\<lambda>_. None)"
proof (induction n)
  case 0
  then show ?case using files_none_init by blast
next
  case (Suc n)
  then obtain d where d: "drv_reach d n" "files d = (\<lambda>_. None)" by auto
  obtain d1 where d1: "homanic_open 5 None None None d = (0, d1)" using open_succeeds [OF d(1), of 5 None None None] Suc.prems by auto
  then have r1: "drv_reach d1 (Suc n)" using d by (intro drv_open [OF d(1), of 5 None None None]) (simp_all add: alloc_ok_def)
  obtain s where s: "files d1 = (files d)(5 \<mapsto> s)"
    using open_effect [OF d1 drv_invD(1) [OF drv_reach_inv [OF d(1)]]] by auto
  then have f: "files d1 5 = Some s" by simp
  obtain d2 where d2: "homanic_close 5 d1 = Inr d2" "files d2 = (files d1)(5 := None)"
    using close_effect [OF f owned_live [OF drv_reach_inv [OF r1] f]] by auto
  then have "drv_reach d2 (Suc n)" using f by (intro drv_close [OF r1]) auto
  moreover have "files d2 = (\<lambda>_. None)" using d2(2) s d(2) by auto
  ultimately show ?case by blast
qed

subsection \<open>Properties\<close>

text \<open>C23: No two open files share a session; \<open>release\<close> never frees a buffer twice, \<open>mmap\<close> never maps one
  that was freed, and a buffer it maps is one of the file's own.\<close>

theorem driver_buffers:
  assumes "drv_reach d n" "files d f = Some s"
  shows "s < MAX_PORTS \<and> (\<forall>f'. files d f' = Some s \<longrightarrow> f' = f) \<and> (\<exists>d'. homanic_close f d = Inr d') \<and>
     homanic_mmap f off ret d \<noteq> Inl UseAfterFree \<and>
     (\<forall>r b d'. homanic_mmap f off ret d = Inr (r, Buffer_Mapped b, d') \<longrightarrow> b \<in># buffers (sessions d ! s))"
proof -
  note inv = drv_reach_inv [OF assms(1)]
  let ?B = "buffers (sessions d ! s)"
  have l: "?B \<subseteq># live d" using owned_live [OF inv assms(2)] by simp
  have safe: "map_buffer n cpu h ret d \<noteq> Inl UseAfterFree \<and>
      (\<forall>r b d'. map_buffer n cpu h ret d = Inr (r, Buffer_Mapped b, d') \<longrightarrow> b \<in># ?B)"
    if "cpu \<noteq> 0 \<Longrightarrow> (cpu, h, n) \<in># ?B" for n cpu h
    using that mset_subset_eqD [OF l, of "(cpu, h, n)"] by (rule map_buffer_safe)
  let ?x = "sessions d ! s" and ?m = "to_int32 (uint off)"
  have owned: "c2h_metadata_cpu_addr ?x \<noteq> 0 \<Longrightarrow> (c2h_metadata_cpu_addr ?x, c2h_metadata_dma_handle ?x, METADATA_BYTES) \<in># ?B"
    "h2c_msgbuff_cpu_addr ?x \<noteq> 0 \<Longrightarrow> (h2c_msgbuff_cpu_addr ?x, h2c_msgbuff_dma_handle ?x, MSGBUFF_BYTES) \<in># ?B"
    "c2h_msgbuff_cpu_addr ?x \<noteq> 0 \<Longrightarrow> (c2h_msgbuff_cpu_addr ?x, c2h_msgbuff_dma_handle ?x, MSGBUFF_BYTES) \<in># ?B"
    by (simp_all add: buffers_def)
  note cases = mmap_cases [OF assms(2), of off ret]
  consider "?m = 0" | "?m = 1" | "?m = 2" | "?m = 3" | "?m \<notin> {0, 1, 2, 3}" by blast
  then have "homanic_mmap f off ret d \<noteq> Inl UseAfterFree \<and>
     (\<forall>r b d'. homanic_mmap f off ret d = Inr (r, Buffer_Mapped b, d') \<longrightarrow> b \<in># ?B)"
  proof cases
    case 1
    show ?thesis unfolding cases(1) [OF 1] by (rule safe [OF owned(1)])
  next
    case 2
    show ?thesis unfolding cases(4) [OF 2] by simp
  next
    case 3
    show ?thesis unfolding cases(2) [OF 3] by (rule safe [OF owned(2)])
  next
    case 4
    show ?thesis unfolding cases(3) [OF 4] by (rule safe [OF owned(3)])
  next
    case 5
    show ?thesis unfolding cases(5) [OF 5] by simp
  qed
  moreover have "\<exists>d'. homanic_close f d = Inr d'"
    using close_effect [OF assms(2) owned_live [OF inv assms(2)]] by (elim exE conjE) (rule exI)
  moreover have "s < MAX_PORTS" by (rule drv_invD(3) [OF inv assms(2)])
  moreover have "\<forall>f'. files d f' = Some s \<longrightarrow> f' = f" using drv_invD(5) [OF inv _ assms(2)] by simp
  ultimately show ?thesis by (intro conjI) simp_all
qed

theorem driver_buffers_witness:
  "\<exists>d s d'. drv_reach d 1 \<and> files d 5 = Some s \<and> homanic_close 5 d = Inr d'"
proof -
  obtain d where d: "drv_reach d 0" "files d = (\<lambda>_. None)" using files_none_init by blast
  let ?a = "Some (4096 :: nat, 8192 :: nat)"
  obtain d1 where d1: "homanic_open 5 ?a ?a ?a d = (0, d1)" using open_succeeds [OF d(1), of 5 ?a ?a ?a] by (auto simp: MAX_PORTS_def)
  then have r1: "drv_reach d1 1" using drv_open [OF d(1), of 5 ?a ?a ?a] d by (simp add: alloc_ok_def)
  obtain s where "files d1 5 = Some s"
    using open_effect [OF d1 drv_invD(1) [OF drv_reach_inv [OF d(1)]]] by auto
  then show ?thesis using driver_buffers [OF r1, of 5 s 0 0] r1 by blast
qed

text \<open>The sessions are used up for good: \<open>open\<close> succeeds exactly as long as fewer than 16 files were
  ever opened, however many of them were closed since, and after that it returns 1 and changes
  nothing.\<close>

theorem driver_exhausted:
  assumes "drv_reach d n"
  shows "n \<le> MAX_PORTS \<and> (fst (homanic_open f a1 a2 a3 d) = 0 \<longleftrightarrow> n < MAX_PORTS) \<and>
     (n = MAX_PORTS \<longrightarrow> homanic_open f a1 a2 a3 d = (1, d))"
proof -
  have n: "n \<le> MAX_PORTS" using drv_invD(1,7) [OF drv_reach_inv [OF assms]] length_filter_le by metis
  have "homanic_open f a1 a2 a3 d = (1, d)" if "n = MAX_PORTS" using open_full assms that by blast
  moreover have "fst (homanic_open f a1 a2 a3 d) = 0" if "n < MAX_PORTS"
    using open_succeeds [OF assms that, of f a1 a2 a3] by auto
  ultimately show ?thesis using n by (cases "n = MAX_PORTS") auto
qed

theorem driver_exhausted_witness:
  "\<exists>d. drv_reach d MAX_PORTS \<and> files d = (\<lambda>_. None) \<and> homanic_open 5 None None None d = (1, d)"
proof -
  obtain d where "drv_reach d MAX_PORTS" "files d = (\<lambda>_. None)" using open_close_cycle [of MAX_PORTS] by auto
  then show ?thesis using driver_exhausted [of d MAX_PORTS 5 None None None] by auto
qed

text \<open>The structures that the driver copies to the NIC are 64 bytes, and the NIC reads back from the
  two halves what the driver put in.\<close>

theorem map_layout:
  assumes "phys_addr p < 2 ^ 64" "map_port p < 2 ^ 16" "map_type p < 2 ^ 8"
  shows "length (map_bytes p) = 64 \<and> length (cfg_bytes w r) = 64 \<and>
     (\<forall>(off, bs) \<in> set (iomov64B dst (map_bytes p)). length bs = 32 \<and> off \<in> {dst, dst + 32}) \<and>
     concat (map snd (iomov64B dst (map_bytes p))) = map_bytes p \<and> decode_map (map_bytes p) = p \<and>
     nic_maps (iomov64B 0 (map_bytes p)) = [p]"
  using decode_map_bytes [of p] assms nic_maps_iomov [of p "[]"] by (simp add: iomov64B_halves)

theorem map_layout_witness:
  "decode_map (map_bytes \<lparr>phys_addr = 0x123456789A, map_port = 1, map_type = 2\<rparr>) =
     \<lparr>phys_addr = 0x123456789A, map_port = 1, map_type = 2\<rparr>"
  using map_layout [of "\<lparr>phys_addr = 0x123456789A, map_port = 1, map_type = 2\<rparr>" 0 0 0] by simp

text \<open>\<open>open\<close> tells the NIC where all three buffers of the new session are, but always for port 1: the
  table of the NIC then has the buffers of the file opened last and of no other.\<close>

theorem open_maps_port_1:
  assumes "drv_reach d n" "homanic_open f a1 a2 a3 d = (0, d')" "files d' f = Some s" "x = sessions d' ! s"
    "c2h_metadata_dma_handle x < 2 ^ 64" "h2c_msgbuff_dma_handle x < 2 ^ 64" "c2h_msgbuff_dma_handle x < 2 ^ 64"
  shows "nic_maps (mmio d') = nic_maps (mmio d) @
       [\<lparr>phys_addr = c2h_metadata_dma_handle x, map_port = 1, map_type = C2H_METADATA_MAP\<rparr>,
        \<lparr>phys_addr = h2c_msgbuff_dma_handle x, map_port = 1, map_type = H2C_MSGBUFF_MAP\<rparr>,
        \<lparr>phys_addr = c2h_msgbuff_dma_handle x, map_port = 1, map_type = C2H_MSGBUFF_MAP\<rparr>] \<and>
     nic_table (nic_maps (mmio d')) (1, C2H_METADATA_MAP) = Some (c2h_metadata_dma_handle x) \<and>
     nic_table (nic_maps (mmio d')) (1, H2C_MSGBUFF_MAP) = Some (h2c_msgbuff_dma_handle x) \<and>
     nic_table (nic_maps (mmio d')) (1, C2H_MSGBUFF_MAP) = Some (c2h_msgbuff_dma_handle x) \<and>
     session_port x = s + 1"
  using open_maps [OF assms] nic_table_last
  by (simp add: C2H_METADATA_MAP_def H2C_MSGBUFF_MAP_def C2H_MSGBUFF_MAP_def)

theorem open_maps_port_1_witness:
  "\<exists>d d' s. drv_reach d 0 \<and> homanic_open 5 (Some (1, 16)) (Some (2, 32)) (Some (3, 48)) d = (0, d') \<and>
     files d' 5 = Some s \<and> nic_table (nic_maps (mmio d')) (1, H2C_MSGBUFF_MAP) = Some 32"
proof -
  obtain d where d: "drv_reach d 0" using files_none_init by blast
  let ?a = "Some (1 :: nat, 16 :: nat)" and ?b = "Some (2 :: nat, 32 :: nat)" and ?c = "Some (3 :: nat, 48 :: nat)"
  obtain d' where d': "homanic_open 5 ?a ?b ?c d = (0, d')" using open_succeeds [OF d, of 5 ?a ?b ?c] by (auto simp: MAX_PORTS_def)
  have len: "length (sessions d) = MAX_PORTS" by (rule drv_invD(1) [OF drv_reach_inv [OF d]])
  obtain s where s: "s < MAX_PORTS" "files d' = (files d)(5 \<mapsto> s)"
    "sessions d' = (sessions d)[s := opened_session ?a ?b ?c (sessions d ! s)]"
    using open_effect [OF d' len] by blast
  have f: "files d' 5 = Some s" using s(2) by simp
  have x: "sessions d' ! s = opened_session ?a ?b ?c (sessions d ! s)" using s(1,3) len by simp
  have h: "h2c_msgbuff_dma_handle (sessions d' ! s) = 32"
    by (simp add: x opened_session_def alloc_handle_def)
  have "nic_table (nic_maps (mmio d')) (1, H2C_MSGBUFF_MAP) = Some (h2c_msgbuff_dma_handle (sessions d' ! s))"
    by (rule open_maps_port_1 [OF d d' f refl, THEN conjunct2, THEN conjunct2, THEN conjunct1])
      (simp_all add: x opened_session_def alloc_handle_def)
  then have "nic_table (nic_maps (mmio d')) (1, H2C_MSGBUFF_MAP) = Some 32" by (simp only: h)
  then show ?thesis using d d' f by blast
qed

text \<open>After \<open>mmap\<close> of the metadata and \<open>release\<close> the buffer is freed while its pages are still set
  uncached. An offset that names no region maps nothing but succeeds.\<close>

theorem metadata_stays_uncached:
  assumes "drv_reach d n" "homanic_mmap f 0 0 d = Inr (0, Buffer_Mapped (cpu, h, k), d1)" "homanic_close f d1 = Inr d2"
    "3 < unat off" "unat off < 2 ^ 31"
  shows "(cpu, METADATA_BYTES div PAGE_SIZE) \<in> uncached d2 \<and> live d = live d2 + buffers (sessions d ! the (files d f)) \<and>
     (cpu, h, k) \<in># buffers (sessions d ! the (files d f)) \<and>
     homanic_mmap f off ret d = Inr (0, Nothing_Mapped, d)"
proof -
  obtain s where s: "files d f = Some s" using assms(2) by (cases "files d f") (auto simp: homanic_mmap_def Let_def)
  let ?x = "sessions d ! s"
  have "to_int32 (uint (0 :: u64)) = 0" by (simp add: to_int32_def)
  then have mp: "map_buffer METADATA_BYTES (c2h_metadata_cpu_addr ?x) (c2h_metadata_dma_handle ?x) 0 d =
      Inr (0, Buffer_Mapped (cpu, h, k), d1)"
    using mmap_cases(1) [OF s, of 0 0] assms(2) by simp
  then have d1: "cpu = c2h_metadata_cpu_addr ?x" "(cpu, h, k) \<in># buffers ?x" "sessions d1 = sessions d" "files d1 = files d"
    "live d1 = live d" "(cpu, METADATA_BYTES div PAGE_SIZE) \<in> uncached d1"
    by (auto simp: map_buffer_def dma_mmap_coherent_def set_memory_uc_def buffers_def split: if_splits)
  have r1: "drv_reach d1 n" using drv_mmap [OF assms(1) _ assms(2)] s by simp
  have f1: "files d1 f = Some s" using s d1(4) by simp
  note c = close_effect [OF f1 owned_live [OF drv_reach_inv [OF r1] f1]]
  have d2: "live d1 = live d2 + buffers ?x" "uncached d2 = uncached d1 -
       {(h2c_msgbuff_cpu_addr ?x, MSGBUFF_BYTES div PAGE_SIZE), (c2h_msgbuff_cpu_addr ?x, MSGBUFF_BYTES div PAGE_SIZE)}"
    using c assms(3) owned_live [OF drv_reach_inv [OF r1] f1] d1(3) by (auto simp: add.commute)
  have "METADATA_BYTES div PAGE_SIZE \<noteq> MSGBUFF_BYTES div PAGE_SIZE"
    by (simp add: METADATA_BYTES_def MSGBUFF_BYTES_def PAGE_SIZE_def)
  then have "(cpu, METADATA_BYTES div PAGE_SIZE) \<in> uncached d2" using d1(6) d2(2) by auto
  moreover have "to_int32 (uint off) \<notin> {0, 1, 2, 3}"
  proof -
    have small: "int32_range (int m)" "int m \<notin> {0, 1, 2, 3}" if "3 < m" "m < 2 ^ 31" for m :: nat
      using that by (simp_all add: int32_range_def int_min_def int_max_def)
    have "to_int32 (int (unat off)) = int (unat off)" by (rule to_int32_id [OF small(1) [OF assms(4,5)]])
    moreover have "uint off = int (unat off)" by simp
    ultimately have e: "to_int32 (uint off) = int (unat off)" by (simp only:)
    show ?thesis unfolding e by (rule small(2) [OF assms(4,5)])
  qed
  then have "homanic_mmap f off ret d = Inr (0, Nothing_Mapped, d)" by (rule mmap_cases(5) [OF s])
  moreover have "live d = live d2 + buffers ?x" using d1(5) d2(1) by simp
  ultimately show ?thesis using d1(2) s by (simp only: option.sel simp_thms)
qed

theorem metadata_stays_uncached_witness:
  "\<exists>d d1 d2. homanic_mmap 5 0 0 d = Inr (0, Buffer_Mapped (4096, 8192, METADATA_BYTES), d1) \<and>
     homanic_close 5 d1 = Inr d2 \<and> (4096, METADATA_BYTES div PAGE_SIZE) \<in> uncached d2"
proof -
  obtain d0 where d0: "drv_reach d0 0" "files d0 = (\<lambda>_. None)" using files_none_init by blast
  let ?a = "Some (4096 :: nat, 8192 :: nat)"
  obtain d where d: "homanic_open 5 ?a ?a ?a d0 = (0, d)"
    using open_succeeds [OF d0(1), of 5 ?a ?a ?a] by (auto simp: MAX_PORTS_def)
  then have r: "drv_reach d 1" using drv_open [OF d0(1), of 5 ?a ?a ?a] d0 by (simp add: alloc_ok_def)
  have len: "length (sessions d0) = MAX_PORTS" by (rule drv_invD(1) [OF drv_reach_inv [OF d0(1)]])
  obtain s where s: "s < MAX_PORTS" "files d = (files d0)(5 \<mapsto> s)"
    "sessions d = (sessions d0)[s := opened_session ?a ?a ?a (sessions d0 ! s)]"
    "live d = live d0 + buffers (sessions d ! s)"
    using open_effect [OF d len] by (auto simp: alloc_ok_def)
  have f: "files d 5 = Some s" using s(2) by simp
  have x: "c2h_metadata_cpu_addr (sessions d ! s) = 4096" "c2h_metadata_dma_handle (sessions d ! s) = 8192"
    using s(1,3) len by (simp_all add: opened_session_def alloc_addr_def alloc_handle_def)
  have "(4096, 8192, METADATA_BYTES) \<in># live d" using s(4) x by (simp add: buffers_def)
  then have mp: "homanic_mmap 5 0 0 d = Inr (0, Buffer_Mapped (4096, 8192, METADATA_BYTES), set_memory_uc 4096 (METADATA_BYTES div PAGE_SIZE) d)"
    using mmap_cases(1) [OF f, of 0 0] x by (simp add: map_buffer_def dma_mmap_coherent_def set_memory_uc_def to_int32_def)
  have r1: "drv_reach (set_memory_uc 4096 (METADATA_BYTES div PAGE_SIZE) d) 1" using drv_mmap [OF r _ mp] f by simp
  have f1: "files (set_memory_uc 4096 (METADATA_BYTES div PAGE_SIZE) d) 5 = Some s" using f by (simp add: set_memory_uc_def)
  obtain d2 where c: "homanic_close 5 (set_memory_uc 4096 (METADATA_BYTES div PAGE_SIZE) d) = Inr d2"
    using close_effect [OF f1 owned_live [OF drv_reach_inv [OF r1] f1]] by auto
  then show ?thesis using metadata_stays_uncached [OF r mp c, of 4] mp by auto
qed

end
