(* ===== verification/Driver_Module.thy ===== *)
theory Driver_Module
  imports Driver
begin

section \<open>Loading and unloading the driver\<close>

text \<open>
  The services of the kernel that \<open>homanic_init\<close> and \<open>homanic_exit\<close> call, as the list of their calls in
  the order of the code. The services are not under the repository; \<open>account\<close> is the rule of use that
  the kernel documents for them: what each call acquires, and that only what is held may be given
  back. The session table and the packets that \<open>homanic_init\<close> sends are in the theory \<open>Driver\<close>.
\<close>

subsection \<open>The calls\<close>

datatype kernel_call =
    Pci_get_device nat nat
  | Pci_enable_device
  | Pci_enable_capability
  | Pci_set_master
  | Dma_set_mask nat
  | Alloc_chrdev_region
  | Class_create string
  | Device_create string
  | Cdev_init
  | Cdev_add
  | Ioremap_wc nat
  | Device_destroy
  | Class_destroy
  | Cdev_del
  | Unregister_chrdev_region
  | Iounmap

text \<open>\<open>err\<close> is the result of \<open>alloc_chrdev_region\<close>, the only one that is tested.\<close>

definition init_calls :: "int \<Rightarrow> kernel_call list" where
  "init_calls err =
     [Pci_get_device 0x1234 0x0001, Pci_enable_device, Pci_enable_capability, Pci_set_master, Dma_set_mask 48,
      Alloc_chrdev_region] @
     (if err \<noteq> 0 then []
      else [Class_create ''homanic'', Device_create ''homanic'', Cdev_init, Cdev_add, Ioremap_wc 0xA0000])"

definition homanic_exit :: "kernel_call list" where
  "homanic_exit = [Device_destroy, Class_destroy, Cdev_del, Unregister_chrdev_region, Iounmap]"

subsection \<open>What the module holds\<close>

record held =
  pci_refs :: nat \<comment> \<open>references to the PCI device\<close>
  pci_enabled :: bool
  numbers :: bool \<comment> \<open>range of device numbers\<close>
  class_node :: "string option option" \<comment> \<open>the class, and the device in it\<close>
  cdev_added :: bool
  regs_mapped :: bool

definition nothing_held :: held where
  "nothing_held = \<lparr>pci_refs = 0, pci_enabled = False, numbers = False, class_node = None, cdev_added = False,
     regs_mapped = False\<rparr>"

text \<open>A call with its result, if it is \<open>alloc_chrdev_region\<close>.\<close>

fun account :: "int \<Rightarrow> kernel_call \<Rightarrow> held \<Rightarrow> held res" where
  "account err (Pci_get_device v d) k = Inr (k\<lparr>pci_refs := pci_refs k + 1\<rparr>)"
| "account err Pci_enable_device k = Inr (k\<lparr>pci_enabled := True\<rparr>)"
| "account err Alloc_chrdev_region k = Inr (if err = 0 then k\<lparr>numbers := True\<rparr> else k)"
| "account err (Class_create s) k = Inr (k\<lparr>class_node := Some None\<rparr>)"
| "account err (Device_create s) k =
     (if class_node k = Some None \<and> numbers k then Inr (k\<lparr>class_node := Some (Some s)\<rparr>) else Inl UseAfterFree)"
| "account err Cdev_add k = (if numbers k then Inr (k\<lparr>cdev_added := True\<rparr>) else Inl UseAfterFree)"
| "account err (Ioremap_wc n) k = Inr (k\<lparr>regs_mapped := True\<rparr>)"
| "account err Device_destroy k =
     (case class_node k of Some (Some s) \<Rightarrow> Inr (k\<lparr>class_node := Some None\<rparr>) | _ \<Rightarrow> Inl UseAfterFree)"
| "account err Class_destroy k = (if class_node k = Some None then Inr (k\<lparr>class_node := None\<rparr>) else Inl UseAfterFree)"
| "account err Cdev_del k = (if cdev_added k then Inr (k\<lparr>cdev_added := False\<rparr>) else Inl UseAfterFree)"
| "account err Unregister_chrdev_region k = (if numbers k then Inr (k\<lparr>numbers := False\<rparr>) else Inl UseAfterFree)"
| "account err Iounmap k = (if regs_mapped k then Inr (k\<lparr>regs_mapped := False\<rparr>) else Inl UseAfterFree)"
| "account err _ k = Inr k"

fun account_all :: "int \<Rightarrow> kernel_call list \<Rightarrow> held \<Rightarrow> held res" where
  "account_all err [] k = Inr k"
| "account_all err (c # cs) k = rbind (account err c k) (account_all err cs)"

lemma account_all_append: "account_all err (xs @ ys) k = rbind (account_all err xs k) (account_all err ys)"
proof (induction xs arbitrary: k)
  case (Cons c cs)
  then show ?case by (cases "account err c k") simp_all
qed simp

text \<open>Loading and unloading \<open>n\<close> times, and the device files there are in between.\<close>

definition reload_calls :: "nat \<Rightarrow> kernel_call list" where
  "reload_calls n = concat (replicate n (init_calls 0 @ homanic_exit))"

fun device_files :: "kernel_call list \<Rightarrow> string list" where
  "device_files [] = []"
| "device_files (Device_create s # cs) = s # device_files cs"
| "device_files (_ # cs) = device_files cs"

definition driver_devices :: "string list" where
  "driver_devices = device_files (init_calls 0)"

lemma driver_devices_eq: "driver_devices = [''homanic'']"
  by (simp add: driver_devices_def init_calls_def)

lemma load_unload:
  assumes "\<not> numbers k" "class_node k = None" "\<not> cdev_added k" "\<not> regs_mapped k"
  shows "account_all 0 (init_calls 0 @ homanic_exit) k = Inr (k\<lparr>pci_refs := pci_refs k + 1, pci_enabled := True\<rparr>)"
  using assms by (cases k) (simp add: init_calls_def homanic_exit_def)

subsection \<open>Property\<close>

text \<open>Unloading gives back the device file, its class, the character device, the numbers and the
  registers, in an order in which each is still held, so that the module can be loaded again any number
  of times; but each time a reference to the PCI device stays. If there are no device numbers, loading
  holds only the PCI device.\<close>

theorem module_reload:
  "account_all 0 (reload_calls n) nothing_held = Inr (nothing_held\<lparr>pci_refs := n, pci_enabled := (0 < n)\<rparr>) \<and>
   account_all 0 (init_calls 0) nothing_held = Inr \<lparr>pci_refs = 1, pci_enabled = True, numbers = True,
     class_node = Some (Some ''homanic''), cdev_added = True, regs_mapped = True\<rparr> \<and>
   (\<forall>err. err \<noteq> 0 \<longrightarrow>
      account_all err (init_calls err) nothing_held = Inr (nothing_held\<lparr>pci_refs := 1, pci_enabled := True\<rparr>))"
proof (intro conjI allI impI)
  have "account_all 0 (reload_calls n) k = Inr (k\<lparr>pci_refs := pci_refs k + n, pci_enabled := (pci_enabled k \<or> 0 < n)\<rparr>)"
    if "\<not> numbers k" "class_node k = None" "\<not> cdev_added k" "\<not> regs_mapped k" for k
    using that
  proof (induction n arbitrary: k)
    case 0
    then show ?case by (cases k) (simp add: reload_calls_def)
  next
    case (Suc n)
    let ?k = "k\<lparr>pci_refs := pci_refs k + 1, pci_enabled := True\<rparr>"
    have "reload_calls (Suc n) = (init_calls 0 @ homanic_exit) @ reload_calls n" by (simp add: reload_calls_def)
    then have "account_all 0 (reload_calls (Suc n)) k = account_all 0 (reload_calls n) ?k"
      using load_unload [OF Suc.prems] by (simp only: account_all_append rbind.simps)
    then show ?case using Suc by simp
  qed
  from this [of nothing_held]
  show "account_all 0 (reload_calls n) nothing_held = Inr (nothing_held\<lparr>pci_refs := n, pci_enabled := (0 < n)\<rparr>)"
    by (simp add: nothing_held_def)
qed (simp_all add: nothing_held_def init_calls_def)

theorem module_reload_witness:
  "account_all (- 12) (init_calls (- 12)) nothing_held = Inr (nothing_held\<lparr>pci_refs := 1, pci_enabled := True\<rparr>)"
  using module_reload [of 0] by simp

end
