(* ===== verification/Perf.thy ===== *)
theory Perf
  imports Trace_System Msg_Header Driver_Module
begin

section \<open>The benchmark programs\<close>

text \<open>
  The programs of \<open>app/src\<close>, each \<open>main\<close> as a function of the environment to the state it leaves:
  what they write into the message buffer, which headers they store to the NIC in which order, which
  events they record and what is in the trace files they print. The NIC and the clock are parameters
  in \<open>env\<close>: \<open>nic n k\<close> is the byte that read \<open>k\<close> of poll loop \<open>n\<close> sees, \<open>clock k\<close> the result of call \<open>k\<close> of
  \<open>rdtsc\<close>, \<open>reads\<close> bounds the reads of one poll loop. The result \<open>None\<close> stands for a poll loop that has
  not ended after that many reads. A device that does not exist makes \<open>open\<close> and then \<open>mmap\<close> fail;
  \<open>mmap\<close> then returns the invalid pointer \<open>MAP_FAILED\<close>, which the programs do not test for (they
  compare with \<open>NULL\<close>), and the first access through it is the error \<open>OutOfRange\<close>.
\<close>

subsection \<open>Environment and state\<close>

record env =
  devices :: "string list" \<comment> \<open>device files that can be opened\<close>
  clock :: "nat \<Rightarrow> u64"
  nic :: "nat \<Rightarrow> nat \<Rightarrow> byte"
  reads :: nat
  fopen :: bool

record world =
  h2c_buf :: "byte list"
  trace :: trace_state
  now :: nat
  stores :: "byte list list"
  polls :: nat
  files_out :: "(string \<times> (nat \<times> event) list) list"

type_synonym step = "world \<Rightarrow> world option res"

datatype region = H2C_Metadata | C2H_Metadata | H2C_Msgbuff | C2H_Msgbuff

fun region_size :: "region \<Rightarrow> nat" where
  "region_size H2C_Metadata = 16384"
| "region_size C2H_Metadata = 16384"
| "region_size H2C_Msgbuff = 1000000"
| "region_size C2H_Msgbuff = 1000000"

text \<open>The device of each region: one for all in \<open>perf_write\<close>, one for each in the other programs.\<close>

definition one_device :: "region \<Rightarrow> string" where
  "one_device r = ''homanic''"

fun own_device :: "region \<Rightarrow> string" where
  "own_device H2C_Metadata = ''homa_nic_h2c_metadata''"
| "own_device C2H_Metadata = ''homa_nic_c2h_metadata''"
| "own_device H2C_Msgbuff = ''homa_nic_h2c_msgbuff''"
| "own_device C2H_Msgbuff = ''homa_nic_c2h_msgbuff''"

subsection \<open>Sequencing\<close>

fun andthen :: "world option res \<Rightarrow> step \<Rightarrow> world option res" where
  "andthen (Inl e) f = Inl e"
| "andthen (Inr None) f = Inr None"
| "andthen (Inr (Some w)) f = f w"

fun for_loop :: "nat \<Rightarrow> nat \<Rightarrow> (nat \<Rightarrow> step) \<Rightarrow> step" where
  "for_loop 0 i body w = Inr (Some w)"
| "for_loop (Suc n) i body w = andthen (body i w) (for_loop n (i + 1) body)"

lemma for_loop_invariant:
  assumes "\<And>i w. i < n \<Longrightarrow> I i w \<Longrightarrow> \<exists>w'. body i w = Inr (Some w') \<and> I (Suc i) w'" "I 0 w"
  shows "\<exists>w'. for_loop n 0 body w = Inr (Some w') \<and> I n w'"
proof -
  have "k + m = n \<Longrightarrow> I k w \<Longrightarrow> \<exists>w'. for_loop m k body w = Inr (Some w') \<and> I n w'" for k m w
  proof (induction m arbitrary: k w)
    case (Suc m)
    then obtain w1 where w1: "body k w = Inr (Some w1)" "I (Suc k) w1" using assms(1) [of k w] by auto
    then show ?case using Suc.IH [of "Suc k" w1] Suc.prems(1) by simp
  qed simp
  from this [of 0 n w] show ?thesis using assms(2) by simp
qed

lemma for_loop_fails: "0 < n \<Longrightarrow> body i w = Inl e \<Longrightarrow> for_loop n i body w = Inl e"
  by (cases n) simp_all

subsection \<open>Accesses\<close>

text \<open>An access of \<open>n\<close> bytes at \<open>pos\<close> of a region mapped from its device.\<close>

definition access :: "env \<Rightarrow> (region \<Rightarrow> string) \<Rightarrow> region \<Rightarrow> nat \<Rightarrow> nat \<Rightarrow> step" where
  "access env dev r pos n w =
     (if dev r \<in> set (devices env) \<and> pos + n \<le> region_size r then Inr (Some w) else Inl OutOfRange)"

text \<open>\<open>memcpy (buf + j * 4 + base, pattern, 4)\<close> for successive \<open>j\<close>, and for chunks of 64 bytes.\<close>

fun fill_words :: "nat \<Rightarrow> nat \<Rightarrow> nat \<Rightarrow> byte list \<Rightarrow> byte list \<Rightarrow> byte list res" where
  "fill_words 0 j base pat m = Inr m"
| "fill_words (Suc n) j base pat m =
     rbind (poke (int (j * 4 + base)) pat m) (fill_words n (j + 1) base pat)"

fun fill_chunks :: "nat \<Rightarrow> nat \<Rightarrow> (nat \<Rightarrow> byte list) \<Rightarrow> byte list \<Rightarrow> byte list res" where
  "fill_chunks 0 i pat m = Inr m"
| "fill_chunks (Suc n) i pat m =
     rbind (fill_words 16 0 (i * 64) (pat i) m) (fill_chunks n (i + 1) pat)"

definition fill_h2c :: "env \<Rightarrow> (region \<Rightarrow> string) \<Rightarrow> (byte list \<Rightarrow> byte list res) \<Rightarrow> step" where
  "fill_h2c env dev fill w = andthen (access env dev H2C_Msgbuff 0 1 w) (\<lambda>w.
     rbind (fill (h2c_buf w)) (\<lambda>m. Inr (Some (w\<lparr>h2c_buf := m\<rparr>))))"

definition deadbeef :: "byte list" where "deadbeef = [0xDE, 0xAD, 0xBE, 0xEF]"

text \<open>The 64 byte store to the NIC, and waiting for the byte at \<open>pos\<close> to become nonzero.\<close>

definition send :: "env \<Rightarrow> (region \<Rightarrow> string) \<Rightarrow> msghdr_send \<Rightarrow> step" where
  "send env dev h w = andthen (access env dev H2C_Metadata 0 64 w) (\<lambda>w.
     Inr (Some (w\<lparr>stores := stores w @ [header_bytes h]\<rparr>)))"

fun poll_loop :: "nat \<Rightarrow> (nat \<Rightarrow> byte) \<Rightarrow> nat \<Rightarrow> nat option" where
  "poll_loop 0 v k = None"
| "poll_loop (Suc n) v k = (if v k = 0 then poll_loop n v (k + 1) else Some k)"

definition await :: "env \<Rightarrow> (region \<Rightarrow> string) \<Rightarrow> nat \<Rightarrow> step" where
  "await env dev pos w = andthen (access env dev C2H_Msgbuff pos 1 w) (\<lambda>w.
     Inr (map_option (\<lambda>k. w\<lparr>polls := polls w + 1\<rparr>) (poll_loop (reads env) (nic env (polls w)) 0)))"

subsection \<open>Tracing\<close>

definition tt :: "env \<Rightarrow> string \<Rightarrow> step" where
  "tt env fmt w = rbind (trace_record 0 (clock env (now w)) fmt 0 0 0 0 (trace w)) (\<lambda>t.
     Inr (Some (w\<lparr>trace := t, now := now w + 1\<rparr>)))"

text \<open>A \<open>thread_buffer\<close> around a block: constructor, the block, destructor.\<close>

definition with_thread_buffer :: "env \<Rightarrow> step \<Rightarrow> step" where
  "with_thread_buffer env block w =
     rbind (thread_buffer_new 0 (clock env (now w)) ''main'' (trace w)) (\<lambda>(p, t).
       andthen (block (w\<lparr>trace := t, now := now w + 1\<rparr>)) (\<lambda>w.
         rbind (thread_buffer_delete 0 p (trace w)) (\<lambda>t. Inr (Some (w\<lparr>trace := t\<rparr>)))))"

definition print_file :: "env \<Rightarrow> string \<Rightarrow> step" where
  "print_file env name w =
     rbind (print_to_file (fopen env) 1 (trace w)) (\<lambda>(out, r, t).
       Inr (map_option (\<lambda>es. if r = 0 then w\<lparr>trace := t, files_out := files_out w @ [(name, es)]\<rparr>
                             else w\<lparr>trace := t\<rparr>) out))"

subsection \<open>The programs\<close>

text \<open>A request with its time stamps; the byte polled is cleared before or after it.\<close>

definition request :: "env \<Rightarrow> (region \<Rightarrow> string) \<Rightarrow> string \<Rightarrow> string \<Rightarrow> nat \<Rightarrow> msghdr_send \<Rightarrow> step" where
  "request env dev req resp pos h w =
     andthen (andthen (andthen (tt env req w) (send env dev h)) (await env dev pos)) (tt env resp)"

text \<open>\<open>perf_write\<close>: 200 sizes with 16 messages each, a trace file for each size.\<close>

definition perf_write_size :: "nat \<Rightarrow> u32" where
  "perf_write_size i = word_of_nat (1000 * (i + 1))"

definition perf_write_msg :: "env \<Rightarrow> nat \<Rightarrow> nat \<Rightarrow> step" where
  "perf_write_msg env i j w =
     (let pos = unat (perf_write_size i) - 1
      in andthen (access env one_device C2H_Msgbuff pos 1 w)
           (request env one_device ''write request'' ''write response'' pos (bench_header (perf_write_size i))))"

definition pad3 :: "nat \<Rightarrow> string" where
  "pad3 i = [char_of (48 + i div 100), char_of (48 + i div 10 mod 10), char_of (48 + i mod 10)]"

definition perf_write_name :: "nat \<Rightarrow> string" where
  "perf_write_name i = ''parse/perf_write_'' @ pad3 i @ ''.tt''"

definition perf_write_file :: "env \<Rightarrow> nat \<Rightarrow> step" where
  "perf_write_file env i =
     with_thread_buffer env (\<lambda>w. andthen (for_loop 16 0 (perf_write_msg env i) w) (print_file env (perf_write_name i)))"

definition perf_write :: "env \<Rightarrow> step" where
  "perf_write env w =
     andthen (fill_h2c env one_device (fill_chunks 15624 0 (\<lambda>i. replicate 4 0xFF)) w)
       (for_loop 200 0 (perf_write_file env))"

text \<open>\<open>perf_latency_client\<close> and \<open>perf_msg\<close>: a thousand messages of 64 bytes.\<close>

definition setup_64 :: "env \<Rightarrow> step" where
  "setup_64 env w =
     andthen (andthen (fill_h2c env own_device (fill_words 64 0 0 deadbeef) w)
       (access env own_device C2H_Msgbuff 0 512)) (access env own_device C2H_Msgbuff 0 1)"

definition ping_pong :: "env \<Rightarrow> string \<Rightarrow> string \<Rightarrow> string \<Rightarrow> step" where
  "ping_pong env req resp name w =
     andthen (setup_64 env w) (with_thread_buffer env (\<lambda>w.
       andthen (for_loop 1000 0 (\<lambda>i w. andthen (request env own_device req resp 0 (bench_header 64) w)
                                    (access env own_device C2H_Msgbuff 0 1)) w)
         (print_file env name)))"

definition perf_latency_client :: "env \<Rightarrow> step" where
  "perf_latency_client env = ping_pong env ''ping'' ''pong'' ''parse/ping_pong.tt''"

definition perf_msg :: "env \<Rightarrow> step" where
  "perf_msg env = ping_pong env ''write request'' ''write response'' ''parse/perf_msg.tt''"

text \<open>The first \<open>n\<close> rounds of the endless loop of \<open>perf_latency_server\<close>.\<close>

definition perf_latency_server :: "env \<Rightarrow> nat \<Rightarrow> step" where
  "perf_latency_server env n w =
     andthen (setup_64 env w) (for_loop n 0 (\<lambda>i w.
       andthen (andthen (await env own_device 0 w) (send env own_device (bench_header 64)))
         (access env own_device C2H_Msgbuff 0 1)))"

definition perf_read :: "env \<Rightarrow> step" where
  "perf_read env =
     with_thread_buffer env (\<lambda>w.
       andthen (for_loop 1000 0 (\<lambda>i w.
           andthen (andthen (tt env ''read request'' w) (access env own_device H2C_Metadata 0 64)) (tt env ''read response'')) w)
         (print_file env ''parse/perf_read.tt''))"

definition perf_bitrate_client :: "env \<Rightarrow> step" where
  "perf_bitrate_client env w =
     andthen (fill_h2c env own_device (fill_chunks 15624 0 (\<lambda>i. replicate 4 (word_of_nat (i + 1)))) w)
       (send env own_device (bench_header 16384))"

definition perf_bitrate_server :: "env \<Rightarrow> step" where
  "perf_bitrate_server env w =
     andthen (access env own_device C2H_Msgbuff 0 1000000 w) (with_thread_buffer env (\<lambda>w.
       andthen (andthen (andthen (andthen (andthen (andthen (access env own_device C2H_Msgbuff 0 1 w)
         (access env own_device C2H_Msgbuff (16384 - 128) 1)) (await env own_device 0)) (tt env ''first''))
         (await env own_device (16384 - 128))) (tt env ''last'')) (print_file env ''parse/perf_bitrate.tt'')))"

subsection \<open>A thread that records\<close>

text \<open>Outside and inside the life of the \<open>thread_buffer\<close> of the program; \<open>hist\<close> are the recorded events.\<close>

definition idle :: "world \<Rightarrow> (nat \<Rightarrow> event list) \<Rightarrow> bool" where
  "idle w hist \<longleftrightarrow> trace_inv (trace w) {#} \<and> traced (trace w) hist \<and> \<not> frozen (trace w)"

definition recording :: "world \<Rightarrow> (nat \<Rightarrow> event list) \<Rightarrow> nat \<Rightarrow> bool" where
  "recording w hist p \<longleftrightarrow> trace_inv (trace w) {#(0, p)#} \<and> traced (trace w) hist \<and> \<not> frozen (trace w)"

text \<open>The part of the state that recording leaves alone.\<close>

definition same_io :: "world \<Rightarrow> world \<Rightarrow> bool" where
  "same_io w w' \<longleftrightarrow> h2c_buf w' = h2c_buf w \<and> stores w' = stores w \<and> polls w' = polls w \<and> files_out w' = files_out w \<and>
     thread_buffers (trace w') = thread_buffers (trace w)"

abbreviation stamp :: "env \<Rightarrow> nat \<Rightarrow> string \<Rightarrow> event" where
  "stamp env k fmt \<equiv> new_event (clock env k) fmt 0 0 0 0"

lemma tt_ok:
  assumes "recording w hist p"
  shows "\<exists>w'. tt env fmt w = Inr (Some w') \<and> recording w' (hist(p := hist p @ [stamp env (now w) fmt])) p \<and>
     now w' = now w + 1 \<and> same_io w w'"
proof -
  have inv: "trace_inv (trace w) {#(0, p)#}" "traced (trace w) hist" "\<not> frozen (trace w)"
    using assms by (auto simp: recording_def)
  obtain b where b: "tb (trace w) 0 = Some p" "heap (trace w) p = Some b" using owned_heap [OF inv(1), of 0 p] by auto
  obtain t where t: "trace_record 0 (clock env (now w)) fmt 0 0 0 0 (trace w) = Inr t" "trace_inv t {#(0, p)#}"
    using trace_record_ok [OF inv(1), of 0 p "clock env (now w)" fmt 0 0 0 0] by auto
  moreover have "thread_buffers t = thread_buffers (trace w)" "\<not> frozen t"
    "traced t (hist(p := hist p @ [stamp env (now w) fmt]))"
    using trace_record_traced [OF inv(2) b, of "clock env (now w)" fmt 0 0 0 0] t(1) inv(3) by auto
  ultimately show ?thesis by (simp add: tt_def recording_def same_io_def)
qed

lemma recording_cong: "trace w' = trace w \<Longrightarrow> recording w' hist p = recording w hist p"
  by (simp add: recording_def)

lemma access_ok: "dev r \<in> set (devices env) \<Longrightarrow> pos + n \<le> region_size r \<Longrightarrow> access env dev r pos n w = Inr (Some w)"
  by (simp add: access_def)

lemma send_ok: "dev H2C_Metadata \<in> set (devices env) \<Longrightarrow>
    send env dev h w = Inr (Some (w\<lparr>stores := stores w @ [header_bytes h]\<rparr>))"
  by (simp add: send_def access_ok)

text \<open>The NIC answers a poll loop within the bound.\<close>

definition answers :: "env \<Rightarrow> nat \<Rightarrow> bool" where
  "answers env n \<longleftrightarrow> (\<exists>k < reads env. nic env n k \<noteq> 0)"

lemma poll_loop_ends: "k < n \<Longrightarrow> v (j + k) \<noteq> 0 \<Longrightarrow> \<exists>i. poll_loop n v j = Some i \<and> v i \<noteq> 0 \<and> j \<le> i \<and> i \<le> j + k"
proof (induction n arbitrary: j k)
  case (Suc n)
  show ?case
  proof (cases "v j = 0")
    case True
    then obtain k' where "k = Suc k'" using Suc.prems(2) by (cases k) auto
    then show ?thesis using Suc.IH [of k' "j + 1"] Suc.prems True by fastforce
  qed simp
qed simp

lemma await_ok:
  assumes "dev C2H_Msgbuff \<in> set (devices env)" "pos < 1000000" "answers env (polls w)"
  shows "await env dev pos w = Inr (Some (w\<lparr>polls := polls w + 1\<rparr>))"
proof -
  obtain i where "poll_loop (reads env) (nic env (polls w)) 0 = Some i"
    using assms(3) poll_loop_ends [of _ "reads env" "nic env (polls w)" 0] by (auto simp: answers_def)
  then show ?thesis using assms(1,2) by (simp add: await_def access_ok)
qed

lemma request_ok:
  assumes "recording w hist p" "dev H2C_Metadata \<in> set (devices env)" "dev C2H_Msgbuff \<in> set (devices env)"
    "pos < 1000000" "answers env (polls w)"
  shows "\<exists>w'. request env dev req resp pos h w = Inr (Some w') \<and>
     recording w' (hist(p := hist p @ [stamp env (now w) req, stamp env (now w + 1) resp])) p \<and>
     now w' = now w + 2 \<and> h2c_buf w' = h2c_buf w \<and> stores w' = stores w @ [header_bytes h] \<and>
     polls w' = polls w + 1 \<and> files_out w' = files_out w \<and>
     thread_buffers (trace w') = thread_buffers (trace w)"
proof -
  obtain w1 where w1: "tt env req w = Inr (Some w1)" "recording w1 (hist(p := hist p @ [stamp env (now w) req])) p"
    "now w1 = now w + 1" "same_io w w1"
    using tt_ok [OF assms(1), of env req] by blast
  let ?w2 = "w1\<lparr>stores := stores w1 @ [header_bytes h]\<rparr>"
  let ?w3 = "?w2\<lparr>polls := polls ?w2 + 1\<rparr>"
  have w3: "await env dev pos ?w2 = Inr (Some ?w3)"
    using assms w1(4) by (intro await_ok) (simp_all add: same_io_def)
  have r3: "recording ?w3 (hist(p := hist p @ [stamp env (now w) req])) p" using w1(2) by (simp add: recording_def)
  obtain w4 where w4: "tt env resp ?w3 = Inr (Some w4)"
    "recording w4 (hist(p := (hist p @ [stamp env (now w) req]) @ [stamp env (now ?w3) resp])) p"
    "now w4 = now ?w3 + 1" "same_io ?w3 w4"
    using tt_ok [OF r3, of env resp] by auto
  have "request env dev req resp pos h w = Inr (Some w4)"
    using w1(1) w3 w4(1) send_ok [of dev env h w1] assms(2) by (simp add: request_def)
  then show ?thesis using w4(2-4) w1(3,4) by (simp add: same_io_def)
qed

lemma thread_buffer_ok:
  assumes "idle w hist"
  shows "\<exists>p t. thread_buffer_new 0 (clock env (now w)) ''main'' (trace w) = Inr (p, t) \<and>
     p \<notin> set (thread_buffers (trace w)) \<and> thread_buffers t = thread_buffers (trace w) @ [p] \<and>
     recording (w\<lparr>trace := t, now := now w + 1\<rparr>) (hist(p := [stamp env (now w) ''Created new thread_buffer''])) p"
proof -
  have inv: "trace_inv (trace w) {#}" "traced (trace w) hist" "\<not> frozen (trace w)"
    using assms by (auto simp: idle_def)
  have tb: "tb (trace w) 0 = None" using trace_invD(5) [OF inv(1), of 0] by (cases "tb (trace w) 0") auto
  show ?thesis
    using thread_buffer_new_traced [OF inv(1,2) tb, of "clock env (now w)" "''main''"] inv(3) tb
      trace_invD(3) [OF inv(1), of "fresh (trace w)"]
    by (auto simp: recording_def new_history_def)
qed

lemma thread_buffer_end:
  assumes "recording w hist p"
  shows "\<exists>t. thread_buffer_delete 0 p (trace w) = Inr t \<and> idle (w\<lparr>trace := t\<rparr>) hist \<and>
     thread_buffers t = thread_buffers (trace w)"
  using thread_buffer_delete_traced [of "trace w" "{#(0, p)#}" hist 0 p] assms
  by (auto simp: recording_def idle_def)

text \<open>A printout while every earlier buffer is older than the current one.\<close>

lemma print_file_ok:
  assumes r: "recording w hist p" and tbs: "thread_buffers (trace w) = ps @ [p]"
    and old: "\<forall>q \<in> set ps. \<forall>e \<in> set (hist q). timestamp e < timestamp (hd (hist p))"
    and h: "hist p \<noteq> []" "length (hist p) < BUFFER_SIZE" "\<forall>e \<in> set (hist p). timestamp e \<noteq> - 1"
    and f: "fopen env"
  shows "\<exists>w'. print_file env name w = Inr (Some w') \<and> recording w' hist p \<and> now w' = now w \<and>
     h2c_buf w' = h2c_buf w \<and> stores w' = stores w \<and> polls w' = polls w \<and>
     files_out w' = files_out w @ [(name, map (Pair (length ps)) (hist p))] \<and>
     thread_buffers (trace w') = thread_buffers (trace w)"
proof -
  have inv: "trace_inv (trace w) {#(0, p)#}" "traced (trace w) hist" "\<not> frozen (trace w)"
    using r by (auto simp: recording_def)
  obtain bs where bs: "print_trace (trace w) = Inr (print_internal bs, (trace w)\<lparr>frozen := False\<rparr>)"
    "list_all2 ring bs (map hist (ps @ [p]))"
    using print_trace_ok [OF inv(1,2)] tbs by auto
  have "print_internal bs = Some (map (Pair (length (map hist ps))) (hist p))"
    using bs(2) old h by (intro print_last) auto
  then show ?thesis using bs(1) f inv by (simp add: print_file_def print_to_file_def recording_def)
qed

subsection \<open>A traced block of requests\<close>

text \<open>The clock increases over its first \<open>n\<close> readings, and the events of a block that starts at reading
  \<open>k\<close>: the note of the constructor and two for each request.\<close>

definition ticking :: "env \<Rightarrow> nat \<Rightarrow> bool" where
  "ticking env n \<longleftrightarrow> (\<forall>a b. a < b \<and> b \<le> n \<longrightarrow> clock env a < clock env b)"

definition request_events :: "env \<Rightarrow> string \<Rightarrow> string \<Rightarrow> nat \<Rightarrow> nat \<Rightarrow> event list" where
  "request_events env req resp k n =
     concat (map (\<lambda>j. [stamp env (k + 2 * j) req, stamp env (k + 2 * j + 1) resp]) [0..<n])"

definition block_events :: "env \<Rightarrow> string \<Rightarrow> string \<Rightarrow> nat \<Rightarrow> nat \<Rightarrow> event list" where
  "block_events env req resp k n =
     stamp env k ''Created new thread_buffer'' # request_events env req resp (k + 1) n"

lemma timestamp_stamp [simp]: "timestamp (stamp env k fmt) = clock env k"
  by (simp add: new_event_def)

lemma request_events_Suc: "request_events env req resp k (Suc n) =
    request_events env req resp k n @ [stamp env (k + 2 * n) req, stamp env (k + 2 * n + 1) resp]"
  by (simp add: request_events_def)

lemma length_request_events [simp]: "length (request_events env req resp k n) = 2 * n"
  by (induction n) (simp_all add: request_events_Suc request_events_def [of _ _ _ _ 0])

lemma request_events_times:
  "e \<in> set (request_events env req resp k n) \<Longrightarrow> \<exists>a. k \<le> a \<and> a < k + 2 * n \<and> timestamp e = clock env a"
proof (induction n)
  case (Suc n)
  then consider "e \<in> set (request_events env req resp k n)" | "e = stamp env (k + 2 * n) req"
    | "e = stamp env (k + 2 * n + 1) resp" by (auto simp: request_events_Suc)
  then show ?case
  proof cases
    case 1
    then obtain a where "k \<le> a" "a < k + 2 * n" "timestamp e = clock env a" using Suc.IH by blast
    then show ?thesis by (intro exI [of _ a]) simp
  qed (auto simp del: add_Suc_right intro: exI [of _ "k + 2 * n"] exI [of _ "k + 2 * n + 1"])
qed (simp add: request_events_def)

lemma block_events_times:
  "e \<in> set (block_events env req resp k n) \<Longrightarrow> \<exists>a. k \<le> a \<and> a < k + 2 * n + 1 \<and> timestamp e = clock env a"
proof (cases "e = stamp env k ''Created new thread_buffer''")
  case False
  assume "e \<in> set (block_events env req resp k n)"
  then obtain a where "k + 1 \<le> a" "a < k + 1 + 2 * n" "timestamp e = clock env a"
    using False request_events_times [of e env req resp "k + 1" n] by (auto simp: block_events_def)
  then show ?thesis by (intro exI [of _ a]) simp
qed auto

text \<open>What a request in the loop must do: the first argument is its number in the loop.\<close>

definition request_like ::
    "env \<Rightarrow> string \<Rightarrow> string \<Rightarrow> nat \<Rightarrow> byte list list \<Rightarrow> nat \<Rightarrow> (nat \<Rightarrow> step) \<Rightarrow> bool" where
  "request_like env req resp n sent d body \<longleftrightarrow> (\<forall>j w hist p. j < n \<and> recording w hist p \<and> (d = 0 \<or> answers env (polls w)) \<longrightarrow>
     (\<exists>w'. body j w = Inr (Some w') \<and>
       recording w' (hist(p := hist p @ [stamp env (now w) req, stamp env (now w + 1) resp])) p \<and>
       now w' = now w + 2 \<and> h2c_buf w' = h2c_buf w \<and> stores w' = stores w @ sent \<and>
       polls w' = polls w + d \<and> files_out w' = files_out w \<and> thread_buffers (trace w') = thread_buffers (trace w)))"

lemma block_loop:
  assumes body: "request_like env req resp n sent d body"
    and r: "recording w hist p" "hist p = [stamp env k created]" "now w = k + 1"
    and ans: "\<forall>j < n. answers env (polls w + d * j)"
  shows "\<exists>w'. for_loop n 0 body w = Inr (Some w') \<and>
     recording w' (hist(p := stamp env k created # request_events env req resp (k + 1) n)) p \<and>
     now w' = k + 2 * n + 1 \<and> h2c_buf w' = h2c_buf w \<and> stores w' = stores w @ concat (replicate n sent) \<and>
     polls w' = polls w + d * n \<and> files_out w' = files_out w \<and> thread_buffers (trace w') = thread_buffers (trace w)"
proof -
  let ?I = "\<lambda>j w'. recording w' (hist(p := stamp env k created # request_events env req resp (k + 1) j)) p \<and>
     now w' = k + 2 * j + 1 \<and> h2c_buf w' = h2c_buf w \<and> stores w' = stores w @ concat (replicate j sent) \<and>
     polls w' = polls w + d * j \<and> files_out w' = files_out w \<and> thread_buffers (trace w') = thread_buffers (trace w)"
  show ?thesis
  proof (rule for_loop_invariant [where I = ?I])
    show "?I 0 w" using r by (simp add: request_events_def fun_upd_idem)
  next
    fix j w1
    assume j: "j < n" and I: "?I j w1"
    let ?h = "hist(p := stamp env k created # request_events env req resp (k + 1) j)"
    obtain w2 where w2: "body j w1 = Inr (Some w2)"
      "recording w2 (?h(p := ?h p @ [stamp env (now w1) req, stamp env (now w1 + 1) resp])) p"
      "now w2 = now w1 + 2" "h2c_buf w2 = h2c_buf w1" "stores w2 = stores w1 @ sent"
      "polls w2 = polls w1 + d" "files_out w2 = files_out w1" "thread_buffers (trace w2) = thread_buffers (trace w1)"
      using body [unfolded request_like_def, rule_format, of j w1 ?h p] j I ans by auto
    have "concat (replicate (Suc j) sent) = concat (replicate j sent) @ sent"
      by (simp flip: replicate_append_same)
    moreover have "stamp env (now w1) req = stamp env (k + 1 + 2 * j) req" "stamp env (now w1 + 1) resp = stamp env (k + 1 + 2 * j + 1) resp"
      using I by (simp_all add: algebra_simps)
    ultimately show "\<exists>w'. body j w1 = Inr (Some w') \<and> ?I (Suc j) w'"
      using w2 I by (intro exI [of _ w2]) (simp add: request_events_Suc)
  qed
qed

lemma block_ok:
  assumes body: "request_like env req resp n sent d body"
    and w: "idle w hist" "thread_buffers (trace w) = ps"
    and old: "\<forall>q \<in> set ps. \<forall>e \<in> set (hist q). timestamp e < clock env (now w)"
    and env: "ticking env (now w + 2 * n + 1)" "\<forall>j < n. answers env (polls w + d * j)" "fopen env"
    and n: "2 * n + 1 < BUFFER_SIZE"
  shows "\<exists>w' p. with_thread_buffer env (\<lambda>w. andthen (for_loop n 0 body w) (print_file env name)) w = Inr (Some w') \<and>
     idle w' (hist(p := block_events env req resp (now w) n)) \<and> p \<notin> set ps \<and> thread_buffers (trace w') = ps @ [p] \<and>
     now w' = now w + 2 * n + 1 \<and> h2c_buf w' = h2c_buf w \<and> stores w' = stores w @ concat (replicate n sent) \<and>
     polls w' = polls w + d * n \<and>
     files_out w' = files_out w @ [(name, map (Pair (length ps)) (block_events env req resp (now w) n))]"
proof -
  let ?created = "''Created new thread_buffer''" and ?k = "now w"
  obtain p t where t: "thread_buffer_new 0 (clock env ?k) ''main'' (trace w) = Inr (p, t)" "p \<notin> set ps"
    "thread_buffers t = ps @ [p]"
    "recording (w\<lparr>trace := t, now := now w + 1\<rparr>) (hist(p := [stamp env ?k ?created])) p"
    using thread_buffer_ok [OF w(1), of env] w(2) by blast
  let ?h = "hist(p := block_events env req resp ?k n)"
  obtain w1 where w1: "for_loop n 0 body (w\<lparr>trace := t, now := now w + 1\<rparr>) = Inr (Some w1)"
    "recording w1 ?h p" "now w1 = ?k + 2 * n + 1" "h2c_buf w1 = h2c_buf w" "stores w1 = stores w @ concat (replicate n sent)"
    "polls w1 = polls w + d * n" "files_out w1 = files_out w" "thread_buffers (trace w1) = ps @ [p]"
    using block_loop [OF body t(4), of ?k ?created] t(3) env(2) by (auto simp: block_events_def)
  have hd: "timestamp (hd (?h p)) = clock env ?k" by (simp add: block_events_def)
  have times: "timestamp e < clock env (?k + 2 * n + 1)" if e: "e \<in> set (block_events env req resp ?k n)" for e
    using block_events_times [OF e] env(1) by (auto simp: ticking_def)
  obtain w2 where w2: "print_file env name w1 = Inr (Some w2)" "recording w2 ?h p" "now w2 = now w1"
    "h2c_buf w2 = h2c_buf w1" "stores w2 = stores w1" "polls w2 = polls w1"
    "files_out w2 = files_out w1 @ [(name, map (Pair (length ps)) (?h p))]"
    "thread_buffers (trace w2) = thread_buffers (trace w1)"
  proof -
    have "\<forall>q \<in> set ps. \<forall>e \<in> set (?h q). timestamp e < timestamp (hd (?h p))"
      using old t(2) unfolding hd by (auto split: if_splits)
    moreover have "\<forall>e \<in> set (?h p). timestamp e \<noteq> - 1"
    proof
      fix e assume "e \<in> set (?h p)"
      then have "timestamp e < clock env (?k + 2 * n + 1)" using times by simp
      then show "timestamp e \<noteq> - 1" using word_n1_ge [of "clock env (?k + 2 * n + 1)"] by (auto simp: leD)
    qed
    moreover have "?h p \<noteq> []" "length (?h p) < BUFFER_SIZE" using n by (simp_all add: block_events_def)
    ultimately show thesis using print_file_ok [OF w1(2,8) _ _ _ _ env(3), of name] that by blast
  qed
  obtain t' where t': "thread_buffer_delete 0 p (trace w2) = Inr t'" "idle (w2\<lparr>trace := t'\<rparr>) ?h"
    "thread_buffers t' = thread_buffers (trace w2)"
    using thread_buffer_end [OF w2(2)] by blast
  have "with_thread_buffer env (\<lambda>w. andthen (for_loop n 0 body w) (print_file env name)) w = Inr (Some (w2\<lparr>trace := t'\<rparr>))"
    using t(1) w1(1) w2(1) t'(1) by (simp add: with_thread_buffer_def)
  then show ?thesis using t' w1 w2 t(2)
    by (intro exI [of _ "w2\<lparr>trace := t'\<rparr>"] exI [of _ p]) simp
qed

subsection \<open>The pattern in the message buffer\<close>

lemma fill_words_ok:
  "length pat = 4 \<Longrightarrow> base + 4 * (j + n) \<le> length m \<Longrightarrow>
   fill_words n j base pat m = Inr (take (base + 4 * j) m @ concat (replicate n pat) @ drop (base + 4 * (j + n)) m)"
proof (induction n arbitrary: j m)
  case (Suc n)
  let ?p = "base + 4 * j" and ?q = "base + 4 * (Suc j + n)"
  let ?m1 = "take ?p m @ pat @ drop (?p + 4) m"
  have "nat (int (j * 4 + base)) = ?p" by simp
  then have "poke (int (j * 4 + base)) pat m = Inr ?m1" using Suc.prems by (simp add: poke_def)
  moreover have "fill_words n (Suc j) base pat ?m1 =
      Inr (take (base + 4 * Suc j) ?m1 @ concat (replicate n pat) @ drop ?q ?m1)"
    using Suc.prems by (intro Suc.IH) simp_all
  moreover have "take (base + 4 * Suc j) ?m1 = take ?p m @ pat" "drop ?q ?m1 = drop ?q m"
    using Suc.prems by (simp_all add: ac_simps)
  ultimately show ?case by simp
qed simp

lemma fill_chunks_ok:
  "\<forall>i. length (pat i) = 4 \<Longrightarrow> 64 * (i + n) \<le> length m \<Longrightarrow>
   fill_chunks n i pat m =
     Inr (take (64 * i) m @ concat (map (\<lambda>i. concat (replicate 16 (pat i))) [i..<i + n]) @ drop (64 * (i + n)) m)"
proof (induction n arbitrary: i m)
  case (Suc n)
  let ?c = "concat (replicate 16 (pat i))"
  let ?m1 = "take (64 * i) m @ ?c @ drop (64 * i + 64) m"
  have len: "length ?c = 64" using Suc.prems(1) by (simp add: length_concat sum_list_replicate)
  have "fill_words 16 0 (i * 64) (pat i) m = Inr ?m1"
    using Suc.prems by (subst fill_words_ok) (simp_all add: mult.commute)
  moreover have "fill_chunks n (Suc i) pat ?m1 = Inr (take (64 * Suc i) ?m1 @
      concat (map (\<lambda>i. concat (replicate 16 (pat i))) [Suc i..<Suc i + n]) @ drop (64 * (Suc i + n)) ?m1)"
    using Suc.prems len by (intro Suc.IH) simp_all
  moreover have "take (64 * Suc i) ?m1 = take (64 * i) m @ ?c" "drop (64 * (Suc i + n)) ?m1 = drop (64 * (i + Suc n)) m"
    using Suc.prems len by (simp_all add: ac_simps)
  moreover have "[i..<i + Suc n] = i # [Suc i..<Suc i + n]" by (simp add: upt_conv_Cons del: upt_Suc)
  ultimately show ?case by (simp only: fill_chunks.simps rbind.simps Suc_eq_plus1 [symmetric] list.map concat.simps append_assoc)
qed simp

lemma concat_replicates: "concat (replicate a (replicate b x)) = replicate (a * b) x"
  by (induction a) (simp_all add: replicate_add)

lemma concat_map_const: "concat (map (\<lambda>i. c) [0..<n]) = concat (replicate n c)"
  by (simp add: map_replicate_const)

lemma fill_h2c_ok:
  assumes "dev H2C_Msgbuff \<in> set (devices env)" "fill (h2c_buf w) = Inr m"
  shows "fill_h2c env dev fill w = Inr (Some (w\<lparr>h2c_buf := m\<rparr>))"
  using assms by (simp add: fill_h2c_def access_ok)

text \<open>The state in which a program starts, with \<open>m\<close> in its message buffer.\<close>

definition start :: "byte list \<Rightarrow> world" where
  "start m = \<lparr>h2c_buf = m, trace = trace_init, now = 0, stores = [], polls = 0, files_out = []\<rparr>"

lemma start_idle: "idle (start m) (\<lambda>_. [])" "thread_buffers (trace (start m)) = []"
  using trace_inv_init by (simp_all add: idle_def start_def traced_def trace_init_def)

lemma idle_cong: "trace w' = trace w \<Longrightarrow> idle w' hist = idle w hist"
  by (simp add: idle_def)

subsection \<open>perf_write\<close>

lemma perf_write_size_unat: "i < 200 \<Longrightarrow> unat (perf_write_size i) = 1000 * (i + 1)"
proof -
  assume "i < 200"
  then have "take_bit 32 (1000 * (i + 1)) = 1000 * (i + 1)" by (intro take_bit_nat_eq_self) simp
  then show ?thesis unfolding perf_write_size_def by (simp only: unsigned_of_nat len_bit0 len_num1) simp
qed

lemma perf_write_msg_like:
  assumes "''homanic'' \<in> set (devices env)" "i < 200"
  shows "request_like env ''write request'' ''write response'' 16 [header_bytes (bench_header (perf_write_size i))] 1 (perf_write_msg env i)"
  unfolding request_like_def
proof (intro allI impI)
  fix j :: nat and w hist p
  assume a: "j < 16 \<and> recording w hist p \<and> (1 = (0 :: nat) \<or> answers env (polls w))"
  let ?pos = "unat (perf_write_size i) - 1" and ?h = "bench_header (perf_write_size i)"
  have pos: "?pos < 1000000" using perf_write_size_unat [OF assms(2)] assms(2) by simp
  have "perf_write_msg env i j w = request env one_device ''write request'' ''write response'' ?pos ?h w"
    using assms(1) pos by (simp add: perf_write_msg_def Let_def access_ok one_device_def)
  then show "\<exists>w'. perf_write_msg env i j w = Inr (Some w') \<and>
       recording w' (hist(p := hist p @ [stamp env (now w) ''write request'', stamp env (now w + 1) ''write response''])) p \<and>
       now w' = now w + 2 \<and> h2c_buf w' = h2c_buf w \<and> stores w' = stores w @ [header_bytes ?h] \<and>
       polls w' = polls w + 1 \<and> files_out w' = files_out w \<and> thread_buffers (trace w') = thread_buffers (trace w)"
    using request_ok [of w hist p one_device env ?pos "''write request''" "''write response''" ?h] a assms(1) pos
    by (simp add: one_device_def)
qed

abbreviation perf_write_events :: "env \<Rightarrow> nat \<Rightarrow> event list" where
  "perf_write_events env i \<equiv> block_events env ''write request'' ''write response'' (33 * i) 16"

text \<open>After \<open>i\<close> of the sizes.\<close>

definition perf_write_at :: "env \<Rightarrow> world \<Rightarrow> nat \<Rightarrow> world \<Rightarrow> bool" where
  "perf_write_at env w0 i w \<longleftrightarrow> (\<exists>hist. idle w hist \<and> length (thread_buffers (trace w)) = i \<and>
     (\<forall>q \<in> set (thread_buffers (trace w)). \<forall>e \<in> set (hist q). timestamp e < clock env (33 * i))) \<and>
     now w = 33 * i \<and> h2c_buf w = h2c_buf w0 \<and>
     stores w = concat (map (\<lambda>k. replicate 16 (header_bytes (bench_header (perf_write_size k)))) [0..<i]) \<and>
     polls w = 16 * i \<and>
     files_out w = map (\<lambda>k. (perf_write_name k, map (Pair k) (perf_write_events env k))) [0..<i]"

lemma concat_replicate_single: "concat (replicate n [x]) = replicate n x"
  by (induction n) auto

lemma perf_write_file_step:
  assumes dev: "''homanic'' \<in> set (devices env)" and env: "ticking env 6600" "\<forall>k < 3200. answers env k" "fopen env"
    and i: "i < 200" and at: "perf_write_at env w0 i w"
  shows "\<exists>w'. perf_write_file env i w = Inr (Some w') \<and> perf_write_at env w0 (Suc i) w'"
proof -
  obtain hist where I: "idle w hist" "length (thread_buffers (trace w)) = i"
    "\<forall>q \<in> set (thread_buffers (trace w)). \<forall>e \<in> set (hist q). timestamp e < clock env (33 * i)"
    using at by (auto simp: perf_write_at_def)
  have J: "now w = 33 * i" "h2c_buf w = h2c_buf w0" "polls w = 16 * i"
    "stores w = concat (map (\<lambda>k. replicate 16 (header_bytes (bench_header (perf_write_size k)))) [0..<i])"
    "files_out w = map (\<lambda>k. (perf_write_name k, map (Pair k) (perf_write_events env k))) [0..<i]"
    using at by (auto simp: perf_write_at_def)
  have tick: "ticking env (now w + 2 * 16 + 1)" using env(1) i J(1) by (simp add: ticking_def)
  have ans: "\<forall>j < 16. answers env (polls w + 1 * j)" using env(2) i J(3) by simp
  let ?sent = "[header_bytes (bench_header (perf_write_size i))]"
  obtain w' p where w': "perf_write_file env i w = Inr (Some w')"
    "idle w' (hist(p := perf_write_events env i))" "p \<notin> set (thread_buffers (trace w))"
    "thread_buffers (trace w') = thread_buffers (trace w) @ [p]" "now w' = now w + 2 * 16 + 1" "h2c_buf w' = h2c_buf w"
    "stores w' = stores w @ concat (replicate 16 ?sent)" "polls w' = polls w + 1 * 16"
    "files_out w' = files_out w @ [(perf_write_name i, map (Pair i) (perf_write_events env i))]"
    using block_ok [OF perf_write_msg_like [OF dev i] I(1) refl _ tick ans env(3), of "perf_write_name i"] I(2,3)
    unfolding perf_write_file_def J(1) by (auto simp: BUFFER_SIZE_def BUFFER_SIZE_EXP_def)
  have new: "timestamp e < clock env (33 * Suc i)" if "e \<in> set (perf_write_events env i)" for e
    using block_events_times [OF that] env(1) i by (auto simp: ticking_def)
  have later: "clock env (33 * i) < clock env (33 * Suc i)" using env(1) i by (simp add: ticking_def)
  have "\<forall>q \<in> set (thread_buffers (trace w')). \<forall>e \<in> set ((hist(p := perf_write_events env i)) q). timestamp e < clock env (33 * Suc i)"
    using I(3) new later less_trans unfolding w'(4) by (fastforce split: if_splits)
  then have "perf_write_at env w0 (Suc i) w'"
    using w'(2) I(2) J w'(4-9) unfolding perf_write_at_def
    by (intro conjI exI [of _ "hist(p := perf_write_events env i)"]) (simp_all add: concat_replicate_single)
  then show ?thesis using w'(1) by blast
qed

subsection \<open>The other programs\<close>

definition own_devices :: "string list" where
  "own_devices = [''homa_nic_h2c_metadata'', ''homa_nic_c2h_metadata'', ''homa_nic_h2c_msgbuff'', ''homa_nic_c2h_msgbuff'']"

lemma own_device_in: "set own_devices \<subseteq> set ds \<Longrightarrow> own_device r \<in> set ds"
  by (cases r) (auto simp: own_devices_def)

lemma setup_64_ok:
  assumes "set own_devices \<subseteq> set (devices env)" "256 \<le> length (h2c_buf w)"
  shows "setup_64 env w = Inr (Some (w\<lparr>h2c_buf := concat (replicate 64 deadbeef) @ drop 256 (h2c_buf w)\<rparr>))"
proof -
  have "fill_words 64 0 0 deadbeef (h2c_buf w) = Inr (concat (replicate 64 deadbeef) @ drop 256 (h2c_buf w))"
    using assms(2) by (subst fill_words_ok) (simp_all add: deadbeef_def)
  then show ?thesis
    using own_device_in [OF assms(1)] by (simp add: setup_64_def fill_h2c_ok access_ok del: own_device.simps)
qed

lemma ping_pong_like:
  assumes "set own_devices \<subseteq> set (devices env)"
  shows "request_like env req resp 1000 [header_bytes (bench_header 64)] 1
    (\<lambda>i w. andthen (request env own_device req resp 0 (bench_header 64) w) (access env own_device C2H_Msgbuff 0 1))"
  unfolding request_like_def
proof (intro allI impI)
  fix j :: nat and w hist p
  assume a: "j < 1000 \<and> recording w hist p \<and> (1 = (0 :: nat) \<or> answers env (polls w))"
  note dev = own_device_in [OF assms]
  show "\<exists>w'. andthen (request env own_device req resp 0 (bench_header 64) w) (access env own_device C2H_Msgbuff 0 1) = Inr (Some w') \<and>
       recording w' (hist(p := hist p @ [stamp env (now w) req, stamp env (now w + 1) resp])) p \<and>
       now w' = now w + 2 \<and> h2c_buf w' = h2c_buf w \<and> stores w' = stores w @ [header_bytes (bench_header 64)] \<and>
       polls w' = polls w + 1 \<and> files_out w' = files_out w \<and> thread_buffers (trace w') = thread_buffers (trace w)"
    using request_ok [of w hist p own_device env 0 req resp "bench_header 64"] a dev by (auto simp: access_ok simp del: own_device.simps)
qed

lemma perf_read_like:
  assumes "set own_devices \<subseteq> set (devices env)"
  shows "request_like env ''read request'' ''read response'' 1000 [] 0
    (\<lambda>i w. andthen (andthen (tt env ''read request'' w) (access env own_device H2C_Metadata 0 64)) (tt env ''read response''))"
  unfolding request_like_def
proof (intro allI impI)
  fix j :: nat and w hist p
  assume a: "j < 1000 \<and> recording w hist p \<and> ((0 :: nat) = 0 \<or> answers env (polls w))"
  obtain w1 where w1: "tt env ''read request'' w = Inr (Some w1)"
    "recording w1 (hist(p := hist p @ [stamp env (now w) ''read request''])) p" "now w1 = now w + 1" "same_io w w1"
    using tt_ok a by blast
  then obtain w2 where "tt env ''read response'' w1 = Inr (Some w2)"
    "recording w2 (hist(p := (hist p @ [stamp env (now w) ''read request'']) @ [stamp env (now w1) ''read response''])) p"
    "now w2 = now w1 + 1" "same_io w1 w2"
    using tt_ok [OF w1(2), of env "''read response''"] by auto
  then show "\<exists>w'. andthen (andthen (tt env ''read request'' w) (access env own_device H2C_Metadata 0 64)) (tt env ''read response'') = Inr (Some w') \<and>
       recording w' (hist(p := hist p @ [stamp env (now w) ''read request'', stamp env (now w + 1) ''read response''])) p \<and>
       now w' = now w + 2 \<and> h2c_buf w' = h2c_buf w \<and> stores w' = stores w @ [] \<and>
       polls w' = polls w + 0 \<and> files_out w' = files_out w \<and> thread_buffers (trace w') = thread_buffers (trace w)"
    using w1 own_device_in [OF assms] by (simp add: access_ok same_io_def del: own_device.simps)
qed

text \<open>The receiver of the bit rate test: two polls and the two events after them.\<close>

lemma bitrate_server_ok:
  assumes "set own_devices \<subseteq> set (devices env)" "ticking env 3" "answers env 0 \<and> answers env 1" "fopen env"
  shows "\<exists>w. perf_bitrate_server env (start m) = Inr (Some w) \<and> stores w = [] \<and>
      files_out w = [(''parse/perf_bitrate.tt'', map (Pair 0)
        [stamp env 0 ''Created new thread_buffer'', stamp env 1 ''first'', stamp env 2 ''last''])]"
proof -
  let ?c = "stamp env 0 ''Created new thread_buffer''" and ?f = "stamp env 1 ''first''" and ?l = "stamp env 2 ''last''"
  note dev = own_device_in [OF assms(1)]
  have s: "idle (start m) (\<lambda>_. [])" "thread_buffers (trace (start m)) = []" by (rule start_idle)+
  obtain p t where t: "thread_buffer_new 0 (clock env 0) ''main'' (trace (start m)) = Inr (p, t)" "thread_buffers t = [p]"
    "recording ((start m)\<lparr>trace := t, now := 1\<rparr>) ((\<lambda>_. [])(p := [?c])) p"
    using thread_buffer_ok [OF s(1), of env] s(2) by (auto simp: start_def)
  let ?w1 = "(start m)\<lparr>trace := t, now := 1, polls := 1\<rparr>"
  have a1: "await env own_device 0 ((start m)\<lparr>trace := t, now := 1\<rparr>) = Inr (Some ?w1)"
    using assms(3) dev by (subst await_ok) (simp_all add: start_def del: own_device.simps)
  have r1: "recording ?w1 ((\<lambda>_. [])(p := [?c])) p" using t(3) by (simp add: recording_def)
  obtain w2 where w2: "tt env ''first'' ?w1 = Inr (Some w2)" "recording w2 ((\<lambda>_. [])(p := [?c, ?f])) p"
    "now w2 = 2" "same_io ?w1 w2"
    using tt_ok [OF r1, of env "''first''"] by (auto simp: start_def numeral_2_eq_2)
  let ?w3 = "w2\<lparr>polls := 2\<rparr>"
  have a2: "await env own_device (16384 - 128) w2 = Inr (Some ?w3)"
    using assms(3) dev w2(4) by (subst await_ok) (simp_all add: same_io_def start_def del: own_device.simps)
  have r3: "recording ?w3 ((\<lambda>_. [])(p := [?c, ?f])) p" using w2(2) by (simp add: recording_def)
  obtain w4 where w4: "tt env ''last'' ?w3 = Inr (Some w4)" "recording w4 ((\<lambda>_. [])(p := [?c, ?f, ?l])) p" "same_io ?w3 w4"
    using tt_ok [OF r3, of env "''last''"] w2(3) by auto
  have tbs: "thread_buffers (trace w4) = [] @ [p]"
    using w4(3) w2(4) t(2) by (simp add: same_io_def)
  have "timestamp e \<noteq> - 1" if "e \<in> {?c, ?f, ?l}" for e
  proof -
    have "timestamp e < clock env 3" using that assms(2) by (auto simp: ticking_def)
    then show ?thesis using word_n1_ge [of "clock env 3"] by (auto simp: leD)
  qed
  then obtain w5 where w5: "print_file env ''parse/perf_bitrate.tt'' w4 = Inr (Some w5)"
    "recording w5 ((\<lambda>_. [])(p := [?c, ?f, ?l])) p" "stores w5 = stores w4"
    "files_out w5 = files_out w4 @ [(''parse/perf_bitrate.tt'', map (Pair 0) [?c, ?f, ?l])]"
    using print_file_ok [OF w4(2) tbs _ _ _ _ assms(4), of "''parse/perf_bitrate.tt''"]
    by (auto simp: BUFFER_SIZE_def BUFFER_SIZE_EXP_def)
  obtain t' where t': "thread_buffer_delete 0 p (trace w5) = Inr t'" using thread_buffer_end [OF w5(2)] by blast
  have "perf_bitrate_server env (start m) = Inr (Some (w5\<lparr>trace := t'\<rparr>))"
    using dev t(1) a1 w2(1) a2 w4(1) w5(1) t'
    by (simp add: perf_bitrate_server_def with_thread_buffer_def access_ok start_def del: own_device.simps)
  then show ?thesis using w5(3,4) w4(3) w2(4) by (simp add: same_io_def start_def)
qed

subsection \<open>Properties\<close>

lemma perf_write_ends:
  assumes "''homanic'' \<in> set (devices env)" "ticking env 6600" "\<forall>k < 3200. answers env k" "fopen env"
    "length m = 1000000"
  shows "\<exists>w. perf_write env (start m) = Inr (Some w) \<and>
     perf_write_at env ((start m)\<lparr>h2c_buf := replicate 999936 0xFF @ drop 999936 m\<rparr>) 200 w"
proof -
  let ?m = "replicate 999936 0xFF @ drop 999936 m"
  let ?w0 = "(start m)\<lparr>h2c_buf := ?m\<rparr>"
  have "fill_chunks 15624 0 (\<lambda>i. replicate 4 0xFF) m = Inr ?m"
    using assms(5) by (subst fill_chunks_ok) (simp_all add: concat_map_const concat_replicates)
  then have fill: "fill_h2c env one_device (fill_chunks 15624 0 (\<lambda>i. replicate 4 0xFF)) (start m) = Inr (Some ?w0)"
    using assms(1) by (intro fill_h2c_ok) (simp_all add: one_device_def start_def)
  have "perf_write_at env ?w0 0 ?w0"
    using start_idle [of m] idle_cong [of ?w0 "start m"] by (auto simp: perf_write_at_def start_def)
  then obtain w where w: "for_loop 200 0 (perf_write_file env) ?w0 = Inr (Some w)" "perf_write_at env ?w0 200 w"
    using for_loop_invariant [where I = "perf_write_at env ?w0", of 200 "perf_write_file env"]
      perf_write_file_step [OF assms(1-4)] by blast
  then show ?thesis using fill by (simp add: perf_write_def)
qed

text \<open>C38: \<open>perf_write\<close> runs to its end when its device exists and the NIC answers: it fills the message
  buffer up to the last chunk, sends each of the 200 sizes 16 times, in order, each in a header that
  holds it, never polls outside the buffer, and each of its 200 trace files holds the events of its
  own size, all of them and nothing else. The buffers of all 200 traces are still allocated.\<close>

theorem perf_write_runs:
  assumes "''homanic'' \<in> set (devices env)" "ticking env 6600" "\<forall>k < 3200. answers env k" "fopen env"
    "length m = 1000000"
  shows "\<exists>w. perf_write env (start m) = Inr (Some w) \<and>
     h2c_buf w = replicate 999936 0xFF @ drop 999936 m \<and>
     stores w = concat (map (\<lambda>k. replicate 16 (header_bytes (bench_header (perf_write_size k)))) [0..<200]) \<and>
     (\<forall>k < 200. unat (drop_bit 12 (metadata (bench_header (perf_write_size k)))) = 1000 * (k + 1)) \<and>
     files_out w = map (\<lambda>k. (perf_write_name k, map (Pair k) (perf_write_events env k))) [0..<200] \<and>
     length (thread_buffers (trace w)) = 200"
proof -
  obtain w where w: "perf_write env (start m) = Inr (Some w)"
    "perf_write_at env ((start m)\<lparr>h2c_buf := replicate 999936 0xFF @ drop 999936 m\<rparr>) 200 w"
    using perf_write_ends [OF assms] by blast
  have "unat (drop_bit 12 (metadata (bench_header (perf_write_size k)))) = 1000 * (k + 1)" if "k < 200" for k
    using perf_write_size_unat [OF that] that metadata_parts(1) [of "perf_write_size k" 0] by (simp add: bench_header_def)
  then show ?thesis using w by (intro exI [of _ w]) (auto simp: perf_write_at_def)
qed

definition steady_env :: env where
  "steady_env = \<lparr>devices = driver_devices @ own_devices, clock = word_of_nat, nic = (\<lambda>n k. if k = 3 then 1 else 0),
     reads = 10, fopen = True\<rparr>"

lemma steady_env_ok: "ticking steady_env 10000" "answers steady_env k" "fopen steady_env"
  "set own_devices \<subseteq> set (devices steady_env)" "''homanic'' \<in> set (devices steady_env)"
proof -
  have "(word_of_nat a :: u64) < word_of_nat b" if "a < b" "b \<le> 10000" for a b
  proof -
    have "unat (word_of_nat a :: u64) = a" "unat (word_of_nat b :: u64) = b"
      using that by (simp_all add: unsigned_of_nat take_bit_nat_eq_self)
    then show ?thesis using that(1) by (simp only: word_less_nat_alt)
  qed
  then show "ticking steady_env 10000" by (simp add: ticking_def steady_env_def)
  show "answers steady_env k" unfolding answers_def by (intro exI [of _ 3]) (simp add: steady_env_def)
qed (auto simp: steady_env_def driver_devices_eq)

lemma ticking_less: "ticking env n \<Longrightarrow> k \<le> n \<Longrightarrow> ticking env k"
  by (auto simp: ticking_def)

theorem perf_write_runs_witness:
  "\<exists>w. perf_write steady_env (start (replicate 1000000 0)) = Inr (Some w) \<and> length (thread_buffers (trace w)) = 200"
proof -
  have "ticking steady_env 6600" by (rule ticking_less [OF steady_env_ok(1)]) simp
  moreover have "\<forall>k < 3200. answers steady_env k" using steady_env_ok(2) by blast
  ultimately show ?thesis
    using perf_write_runs [OF steady_env_ok(5) _ _ steady_env_ok(3) length_replicate, of 0] by blast
qed

text \<open>\<open>perf_latency_client\<close>, \<open>perf_msg\<close> and \<open>perf_read\<close> run to their ends when their devices exist and
  the NIC answers, and their trace file holds all 2001 events, two for each of the thousand rounds in
  the order of time: the ring buffer loses none. The first two send a thousand headers of 64 bytes.\<close>

theorem latency_traces:
  assumes "set own_devices \<subseteq> set (devices env)" "ticking env 2001" "\<forall>k < 1000. answers env k" "fopen env"
    "256 \<le> length m"
  shows "(\<exists>w. perf_latency_client env (start m) = Inr (Some w) \<and> stores w = replicate 1000 (header_bytes (bench_header 64)) \<and>
      files_out w = [(''parse/ping_pong.tt'', map (Pair 0) (block_events env ''ping'' ''pong'' 0 1000))]) \<and>
    (\<exists>w. perf_msg env (start m) = Inr (Some w) \<and> stores w = replicate 1000 (header_bytes (bench_header 64)) \<and>
      files_out w = [(''parse/perf_msg.tt'', map (Pair 0) (block_events env ''write request'' ''write response'' 0 1000))]) \<and>
    (\<exists>w. perf_read env (start m) = Inr (Some w) \<and> stores w = [] \<and>
      files_out w = [(''parse/perf_read.tt'', map (Pair 0) (block_events env ''read request'' ''read response'' 0 1000))])"
proof (intro conjI)
  let ?w0 = "(start m)\<lparr>h2c_buf := concat (replicate 64 deadbeef) @ drop 256 m\<rparr>"
  have s: "idle ?w0 (\<lambda>_. [])" "thread_buffers (trace ?w0) = []" "now ?w0 = 0" "polls ?w0 = 0" "stores ?w0 = []" "files_out ?w0 = []"
    using start_idle [of m] idle_cong [of ?w0 "start m"] by (simp_all add: start_def)
  have size: "2 * 1000 + 1 < BUFFER_SIZE" by (simp add: BUFFER_SIZE_def BUFFER_SIZE_EXP_def)
  have pp: "\<exists>w. ping_pong env req resp name (start m) = Inr (Some w) \<and> stores w = replicate 1000 (header_bytes (bench_header 64)) \<and>
      files_out w = [(name, map (Pair 0) (block_events env req resp 0 1000))]" for req resp name
  proof -
    have "setup_64 env (start m) = Inr (Some ?w0)" using setup_64_ok [OF assms(1), of "start m"] assms(5) by (simp add: start_def)
    moreover have "ticking env (now ?w0 + 2 * 1000 + 1)" using assms(2) s(3) by simp
    moreover have "\<forall>j < 1000. answers env (polls ?w0 + 1 * j)" using assms(3) s(4) by simp
    ultimately show ?thesis
      using block_ok [OF ping_pong_like [OF assms(1), of req resp] s(1,2) _ _ _ assms(4) size, of name] s(3-6)
      by (auto simp: ping_pong_def concat_replicate_single)
  qed
  show "\<exists>w. perf_latency_client env (start m) = Inr (Some w) \<and> stores w = replicate 1000 (header_bytes (bench_header 64)) \<and>
      files_out w = [(''parse/ping_pong.tt'', map (Pair 0) (block_events env ''ping'' ''pong'' 0 1000))]"
    unfolding perf_latency_client_def by (rule pp)
  show "\<exists>w. perf_msg env (start m) = Inr (Some w) \<and> stores w = replicate 1000 (header_bytes (bench_header 64)) \<and>
      files_out w = [(''parse/perf_msg.tt'', map (Pair 0) (block_events env ''write request'' ''write response'' 0 1000))]"
    unfolding perf_msg_def by (rule pp)
  have t: "ticking env (now (start m) + 2 * 1000 + 1)" using assms(2) by (simp add: start_def)
  have a: "\<forall>j < 1000. answers env (polls (start m) + 0 * j)" using assms(3) by (simp add: start_def)
  have "\<exists>w p. perf_read env (start m) = Inr (Some w) \<and> stores w = stores (start m) @ concat (replicate 1000 []) \<and>
      files_out w = files_out (start m) @ [(''parse/perf_read.tt'', map (Pair (length []))
        (block_events env ''read request'' ''read response'' (now (start m)) 1000))]"
    using block_ok [OF perf_read_like [OF assms(1)] start_idle [of m] _ t a assms(4) size, of "''parse/perf_read.tt''"]
    unfolding perf_read_def by auto
  then show "\<exists>w. perf_read env (start m) = Inr (Some w) \<and> stores w = [] \<and>
      files_out w = [(''parse/perf_read.tt'', map (Pair 0) (block_events env ''read request'' ''read response'' 0 1000))]"
    by (simp add: start_def)
qed

theorem latency_traces_witness:
  "\<exists>w. perf_msg steady_env (start (replicate 256 0)) = Inr (Some w) \<and> length (stores w) = 1000"
proof -
  have "ticking steady_env 2001" by (rule ticking_less [OF steady_env_ok(1)]) simp
  from latency_traces [OF steady_env_ok(4) this _ steady_env_ok(3), of "replicate 256 0"] steady_env_ok(2)
  show ?thesis by auto
qed

text \<open>The servers and the sender of the bit rate test run: \<open>perf_latency_server\<close> answers each message
  that arrives with one header of 64 bytes; \<open>perf_bitrate_client\<close> marks each chunk of 64 bytes of the
  buffer with its number and sends one header of 16384 bytes; the trace file of \<open>perf_bitrate_server\<close>
  holds the times of the first and of the last byte.\<close>

theorem servers_run:
  assumes "set own_devices \<subseteq> set (devices env)" "ticking env 3" "\<forall>k < n. answers env k" "2 \<le> n" "fopen env"
    "length m = 1000000"
  shows "(\<exists>w. perf_latency_server env n (start m) = Inr (Some w) \<and> stores w = replicate n (header_bytes (bench_header 64))) \<and>
    (\<exists>w. perf_bitrate_client env (start m) = Inr (Some w) \<and> stores w = [header_bytes (bench_header 16384)] \<and>
      h2c_buf w = concat (map (\<lambda>i. replicate 64 (word_of_nat (i + 1))) [0..<15624]) @ drop 999936 m) \<and>
    (\<exists>w. perf_bitrate_server env (start m) = Inr (Some w) \<and> stores w = [] \<and>
      files_out w = [(''parse/perf_bitrate.tt'', map (Pair 0)
        [stamp env 0 ''Created new thread_buffer'', stamp env 1 ''first'', stamp env 2 ''last''])])"
proof (intro conjI)
  note dev = own_device_in [OF assms(1)]
  show "\<exists>w. perf_latency_server env n (start m) = Inr (Some w) \<and> stores w = replicate n (header_bytes (bench_header 64))"
  proof -
    let ?body = "\<lambda>i w. andthen (andthen (await env own_device 0 w) (send env own_device (bench_header 64)))
         (access env own_device C2H_Msgbuff 0 1)"
    let ?w0 = "(start m)\<lparr>h2c_buf := concat (replicate 64 deadbeef) @ drop 256 m\<rparr>"
    let ?I = "\<lambda>i (w :: world). polls w = i \<and> stores w = replicate i (header_bytes (bench_header 64))"
    have "\<exists>w'. for_loop n 0 ?body ?w0 = Inr (Some w') \<and> ?I n w'"
    proof (rule for_loop_invariant [where I = ?I])
      show "?I 0 ?w0" by (simp add: start_def)
    next
      fix i w
      assume "i < n" "?I i w"
      then show "\<exists>w'. ?body i w = Inr (Some w') \<and> ?I (Suc i) w'"
        using assms(3) dev
        by (simp add: await_ok send_ok access_ok replicate_append_same del: own_device.simps)
    qed
    moreover have "setup_64 env (start m) = Inr (Some ?w0)"
      using setup_64_ok [OF assms(1), of "start m"] assms(6) by (simp add: start_def)
    ultimately show ?thesis by (auto simp: perf_latency_server_def)
  qed
  show "\<exists>w. perf_bitrate_client env (start m) = Inr (Some w) \<and> stores w = [header_bytes (bench_header 16384)] \<and>
      h2c_buf w = concat (map (\<lambda>i. replicate 64 (word_of_nat (i + 1))) [0..<15624]) @ drop 999936 m"
  proof -
    let ?m = "concat (map (\<lambda>i. replicate 64 (word_of_nat (i + 1))) [0..<15624]) @ drop 999936 m"
    have "fill_chunks 15624 0 (\<lambda>i. replicate 4 (word_of_nat (i + 1))) m = Inr ?m"
      using assms(6) by (subst fill_chunks_ok) (simp_all add: concat_replicates)
    then have "fill_h2c env own_device (fill_chunks 15624 0 (\<lambda>i. replicate 4 (word_of_nat (i + 1)))) (start m) =
        Inr (Some ((start m)\<lparr>h2c_buf := ?m\<rparr>))"
      using dev by (intro fill_h2c_ok) (simp_all add: start_def del: own_device.simps)
    then show ?thesis
      using dev by (simp add: perf_bitrate_client_def send_ok start_def del: own_device.simps)
  qed
  show "\<exists>w. perf_bitrate_server env (start m) = Inr (Some w) \<and> stores w = [] \<and>
      files_out w = [(''parse/perf_bitrate.tt'', map (Pair 0)
        [stamp env 0 ''Created new thread_buffer'', stamp env 1 ''first'', stamp env 2 ''last''])]"
    by (rule bitrate_server_ok [OF assms(1,2) _ assms(5)]) (use assms(3,4) in auto)
qed

theorem servers_run_witness:
  "\<exists>w. perf_bitrate_server steady_env (start (replicate 1000000 0)) = Inr (Some w) \<and> length (files_out w) = 1"
proof -
  have "ticking steady_env 3" by (rule ticking_less [OF steady_env_ok(1)]) simp
  moreover have "\<forall>k < 2. answers steady_env k" using steady_env_ok(2) by blast
  ultimately show ?thesis
    using servers_run [OF steady_env_ok(4) _ _ order.refl steady_env_ok(3) length_replicate, of 0] by auto
qed

text \<open>With the one device that the driver creates, every benchmark program except \<open>perf_write\<close> fails:
  it does not notice that \<open>mmap\<close> failed, and its first access is through an invalid pointer.\<close>

theorem devices_missing:
  assumes "set (devices env) = set driver_devices"
  shows "perf_latency_client env (start m) = Inl OutOfRange \<and> perf_msg env (start m) = Inl OutOfRange \<and>
     perf_read env (start m) = Inl OutOfRange \<and> perf_latency_server env n (start m) = Inl OutOfRange \<and>
     perf_bitrate_client env (start m) = Inl OutOfRange \<and> perf_bitrate_server env (start m) = Inl OutOfRange"
proof (intro conjI)
  have no: "access env own_device r pos k w = Inl OutOfRange" for r pos k w
    using assms by (cases r) (simp_all add: access_def driver_devices_eq)
  have fill: "fill_h2c env own_device f w = Inl OutOfRange" for f w by (simp add: fill_h2c_def no)
  then have setup64: "setup_64 env w = Inl OutOfRange" for w by (simp add: setup_64_def)
  show "perf_latency_client env (start m) = Inl OutOfRange" "perf_msg env (start m) = Inl OutOfRange"
    "perf_latency_server env n (start m) = Inl OutOfRange"
    by (simp_all add: perf_latency_client_def perf_msg_def ping_pong_def perf_latency_server_def setup64)
  show "perf_bitrate_client env (start m) = Inl OutOfRange" by (simp add: perf_bitrate_client_def fill)
  show "perf_bitrate_server env (start m) = Inl OutOfRange" by (simp add: perf_bitrate_server_def no)
  obtain p t where t: "thread_buffer_new 0 (clock env (now (start m))) ''main'' (trace (start m)) = Inr (p, t)"
    "recording ((start m)\<lparr>trace := t, now := now (start m) + 1\<rparr>)
      ((\<lambda>_. [])(p := [stamp env (now (start m)) ''Created new thread_buffer''])) p"
    using thread_buffer_ok [OF start_idle(1)] by blast
  let ?w = "(start m)\<lparr>trace := t, now := now (start m) + 1\<rparr>"
  obtain w1 where w1: "tt env ''read request'' ?w = Inr (Some w1)"
    using tt_ok [OF t(2), of env "''read request''"] by blast
  have "for_loop 1000 0 (\<lambda>i w. andthen (andthen (tt env ''read request'' w) (access env own_device H2C_Metadata 0 64))
      (tt env ''read response'')) ?w = Inl OutOfRange"
    using w1 by (intro for_loop_fails) (simp_all add: no)
  then show "perf_read env (start m) = Inl OutOfRange"
    using t(1) by (simp add: perf_read_def with_thread_buffer_def)
qed

theorem devices_missing_witness:
  "\<exists>env. perf_msg env (start []) = Inl OutOfRange \<and> perf_read env (start []) = Inl OutOfRange \<and>
     devices env = driver_devices"
  using devices_missing [of "steady_env\<lparr>devices := driver_devices\<rparr>" "[]" 0]
  by (intro exI [of _ "steady_env\<lparr>devices := driver_devices\<rparr>"]) simp

end
