(* ===== verification/Perf_Session.thy ===== *)
theory Perf_Session
  imports Perf
begin

section \<open>perf_write on the driver\<close>

text \<open>
  A run of \<open>perf_write\<close> from its \<open>open\<close> to the end of the process, with the driver underneath: \<open>open\<close>
  allocates the buffers and tells the NIC where they are, the four calls of \<open>mmap\<close> give the program the
  same buffers, and the kernel calls \<open>release\<close> when the process has ended. If \<open>open\<close> fails the program
  runs on and finds nothing behind its pointers.
\<close>

subsection \<open>A run\<close>

text \<open>The results of the three allocations of \<open>open\<close>, all of them successful.\<close>

type_synonym allocs = "(nat \<times> nat) \<times> (nat \<times> nat) \<times> (nat \<times> nat)"

definition allocs_ok :: "allocs \<Rightarrow> bool" where
  "allocs_ok = (\<lambda>((p, a), (q, b), (r, c)). p \<noteq> 0 \<and> q \<noteq> 0 \<and> r \<noteq> 0 \<and> a < 2 ^ 64 \<and> b < 2 ^ 64 \<and> c < 2 ^ 64)"

definition open_with :: "nat \<Rightarrow> allocs \<Rightarrow> driver \<Rightarrow> int \<times> driver" where
  "open_with f = (\<lambda>(a1, a2, a3). homanic_open f (Some a1) (Some a2) (Some a3))"

lemma open_with_succeeds:
  assumes "drv_reach d n" "n < MAX_PORTS"
  shows "\<exists>d'. open_with f a d = (0, d')"
  using open_succeeds [OF assms, of f "Some (fst a)" "Some (fst (snd a))" "Some (snd (snd a))"]
  by (simp add: open_with_def case_prod_beta)

text \<open>The calls of \<open>mmap\<close>, in the order of the program; the offsets are given in pages to the driver.\<close>

fun mmap_all :: "nat \<Rightarrow> u64 list \<Rightarrow> driver \<Rightarrow> (mapping list \<times> driver) res" where
  "mmap_all f [] d = Inr ([], d)"
| "mmap_all f (off # offs) d =
     rbind (homanic_mmap f off 0 d) (\<lambda>(r, m, d). rbind (mmap_all f offs d) (\<lambda>(ms, d). Inr (m # ms, d)))"

definition perf_write_maps :: "nat \<Rightarrow> driver \<Rightarrow> (mapping list \<times> driver) res" where
  "perf_write_maps f = mmap_all f [0, 1, 2, 3]"

text \<open>The outcome of the program, and the driver afterwards; a program that still polls keeps its file.\<close>

definition perf_write_run :: "nat \<Rightarrow> allocs \<Rightarrow> env \<Rightarrow> byte list \<Rightarrow> driver \<Rightarrow> (world option res \<times> driver) res" where
  "perf_write_run f a env m d =
     (let (r, d1) = open_with f a d
      in if r \<noteq> 0 then Inr (perf_write (env\<lparr>devices := []\<rparr>) (start m), d1)
         else rbind (perf_write_maps f d1) (\<lambda>(ms, d2).
           let out = perf_write (env\<lparr>devices := driver_devices\<rparr>) (start m)
           in if out = Inr None then Inr (out, d2)
              else rbind (homanic_close f d2) (\<lambda>d3. Inr (out, d3))))"

text \<open>\<open>n\<close> runs one after the other, the first of them with number \<open>i\<close>: did each succeed?\<close>

fun perf_write_times :: "nat \<Rightarrow> nat \<Rightarrow> nat \<Rightarrow> (nat \<Rightarrow> allocs) \<Rightarrow> env \<Rightarrow> byte list \<Rightarrow> driver \<Rightarrow> (bool list \<times> driver) res" where
  "perf_write_times 0 i f a env m d = Inr ([], d)"
| "perf_write_times (Suc n) i f a env m d =
     rbind (perf_write_run f (a i) env m d) (\<lambda>(out, d).
       rbind (perf_write_times n (i + 1) f a env m d) (\<lambda>(oks, d).
         Inr ((\<exists>w. out = Inr (Some w)) # oks, d)))"

subsection \<open>What the program gets\<close>

lemma open_with_ok:
  assumes "drv_reach d n" "files d f = None" "allocs_ok a" "open_with f a d = (0, d')"
  shows "drv_reach d' (Suc n) \<and> (\<exists>s. files d' = (files d)(f \<mapsto> s) \<and>
     (c2h_metadata_cpu_addr (sessions d' ! s), c2h_metadata_dma_handle (sessions d' ! s)) = fst a \<and>
     (h2c_msgbuff_cpu_addr (sessions d' ! s), h2c_msgbuff_dma_handle (sessions d' ! s)) = fst (snd a) \<and>
     (c2h_msgbuff_cpu_addr (sessions d' ! s), c2h_msgbuff_dma_handle (sessions d' ! s)) = snd (snd a))"
proof -
  obtain p x q y r z where a: "a = ((p, x), (q, y), (r, z))" by (cases a) auto
  have op: "homanic_open f (Some (p, x)) (Some (q, y)) (Some (r, z)) d = (0, d')" using assms(4) by (simp add: a open_with_def)
  have len: "length (sessions d) = MAX_PORTS" by (rule drv_invD(1) [OF drv_reach_inv [OF assms(1)]])
  obtain s where s: "s < MAX_PORTS" "files d' = (files d)(f \<mapsto> s)"
    "sessions d' = (sessions d)[s := opened_session (Some (p, x)) (Some (q, y)) (Some (r, z)) (sessions d ! s)]"
    using open_effect [OF op len] by blast
  have "drv_reach d' (Suc n)"
    using assms(3) by (intro drv_open [OF assms(1,2) _ _ _ op]) (simp_all add: a allocs_ok_def alloc_ok_def)
  then show ?thesis using s len
    by (intro conjI exI [of _ s]) (simp_all add: a opened_session_def alloc_addr_def alloc_handle_def)
qed

lemma map_buffer_live:
  "cpu \<noteq> 0 \<Longrightarrow> (cpu, h, n) \<in># live d \<Longrightarrow>
   map_buffer n cpu h 0 d = Inr (0, Buffer_Mapped (cpu, h, n), set_memory_uc cpu (n div PAGE_SIZE) d)"
  by (simp add: map_buffer_def dma_mmap_coherent_def set_memory_uc_def)

lemma set_memory_uc_simps [simp]:
  "sessions (set_memory_uc p k d) = sessions d" "files (set_memory_uc p k d) = files d"
  "live (set_memory_uc p k d) = live d" "mmio (set_memory_uc p k d) = mmio d" "BAR_0 (set_memory_uc p k d) = BAR_0 d"
  by (simp_all add: set_memory_uc_def)

lemma page_offsets: "to_int32 (uint (0 :: u64)) = 0" "to_int32 (uint (1 :: u64)) = 1" "to_int32 (uint (2 :: u64)) = 2"
  "to_int32 (uint (3 :: u64)) = 3"
  by (simp_all add: to_int32_def)

lemma mmap_all_reach:
  "drv_reach d n \<Longrightarrow> files d f = Some s \<Longrightarrow> mmap_all f offs d = Inr (ms, d') \<Longrightarrow>
   drv_reach d' n \<and> files d' = files d \<and> mmio d' = mmio d \<and> sessions d' = sessions d"
proof (induction offs arbitrary: d ms)
  case (Cons off offs)
  then obtain r m d1 ms1 where d1: "homanic_mmap f off 0 d = Inr (r, m, d1)" "mmap_all f offs d1 = Inr (ms1, d')"
    by auto
  have "drv_reach d1 n" using drv_mmap [OF Cons.prems(1) _ d1(1)] Cons.prems(2) by simp
  then show ?case using Cons.IH [of d1 ms1] d1 mmap_state [OF d1(1)] Cons.prems(2) by auto
qed simp

lemma perf_write_maps_ok:
  assumes "drv_reach d n" "files d f = Some s" "x = sessions d ! s"
    "c2h_metadata_cpu_addr x \<noteq> 0" "h2c_msgbuff_cpu_addr x \<noteq> 0" "c2h_msgbuff_cpu_addr x \<noteq> 0"
  shows "\<exists>d'. perf_write_maps f d = Inr ([Buffer_Mapped (c2h_metadata_cpu_addr x, c2h_metadata_dma_handle x, METADATA_BYTES),
       Registers_Mapped (unat (drop_bit 12 (BAR_0 d + 4096))) 4096,
       Buffer_Mapped (h2c_msgbuff_cpu_addr x, h2c_msgbuff_dma_handle x, MSGBUFF_BYTES),
       Buffer_Mapped (c2h_msgbuff_cpu_addr x, c2h_msgbuff_dma_handle x, MSGBUFF_BYTES)], d') \<and>
     drv_reach d' n \<and> files d' = files d \<and> mmio d' = mmio d"
proof -
  have "buffers x \<subseteq># live d" using owned_live [OF drv_reach_inv [OF assms(1)] assms(2)] assms(3) by simp
  then have live: "(c2h_metadata_cpu_addr x, c2h_metadata_dma_handle x, METADATA_BYTES) \<in># live d"
    "(h2c_msgbuff_cpu_addr x, h2c_msgbuff_dma_handle x, MSGBUFF_BYTES) \<in># live d"
    "(c2h_msgbuff_cpu_addr x, c2h_msgbuff_dma_handle x, MSGBUFF_BYTES) \<in># live d"
    using assms(4-6) by (auto simp: buffers_def dest: mset_subset_eqD)
  let ?d1 = "set_memory_uc (c2h_metadata_cpu_addr x) (METADATA_BYTES div PAGE_SIZE) d"
  let ?d2 = "set_memory_uc (h2c_msgbuff_cpu_addr x) (MSGBUFF_BYTES div PAGE_SIZE) ?d1"
  let ?d3 = "set_memory_uc (c2h_msgbuff_cpu_addr x) (MSGBUFF_BYTES div PAGE_SIZE) ?d2"
  have "homanic_mmap f 0 0 d = Inr (0, Buffer_Mapped (c2h_metadata_cpu_addr x, c2h_metadata_dma_handle x, METADATA_BYTES), ?d1)"
    using mmap_cases(1) [OF assms(2) page_offsets(1)] live(1) assms(3,4) by (simp add: map_buffer_live)
  moreover have "homanic_mmap f 1 0 ?d1 = Inr (0, Registers_Mapped (unat (drop_bit 12 (BAR_0 d + 4096))) 4096, ?d1)"
    using mmap_cases(4) [OF _ page_offsets(2), of ?d1 f s] assms(2) by simp
  moreover have "homanic_mmap f 2 0 ?d1 = Inr (0, Buffer_Mapped (h2c_msgbuff_cpu_addr x, h2c_msgbuff_dma_handle x, MSGBUFF_BYTES), ?d2)"
    using mmap_cases(2) [OF _ page_offsets(3), of ?d1 f s] live(2) assms(2,3,5) by (simp add: map_buffer_live)
  moreover have "homanic_mmap f 3 0 ?d2 = Inr (0, Buffer_Mapped (c2h_msgbuff_cpu_addr x, c2h_msgbuff_dma_handle x, MSGBUFF_BYTES), ?d3)"
    using mmap_cases(3) [OF _ page_offsets(4), of ?d2 f s] live(3) assms(2,3,6) by (simp add: map_buffer_live)
  ultimately have maps: "perf_write_maps f d = Inr ([Buffer_Mapped (c2h_metadata_cpu_addr x, c2h_metadata_dma_handle x, METADATA_BYTES),
       Registers_Mapped (unat (drop_bit 12 (BAR_0 d + 4096))) 4096,
       Buffer_Mapped (h2c_msgbuff_cpu_addr x, h2c_msgbuff_dma_handle x, MSGBUFF_BYTES),
       Buffer_Mapped (c2h_msgbuff_cpu_addr x, c2h_msgbuff_dma_handle x, MSGBUFF_BYTES)], ?d3)"
    by (simp add: perf_write_maps_def)
  then show ?thesis using mmap_all_reach [OF assms(1,2) maps [unfolded perf_write_maps_def]] by blast
qed

lemma perf_write_no_device: "perf_write (env\<lparr>devices := []\<rparr>) w = Inl OutOfRange"
  by (simp add: perf_write_def fill_h2c_def access_def)

lemma env_devices [simp]: "ticking (env\<lparr>devices := ds\<rparr>) n = ticking env n" "answers (env\<lparr>devices := ds\<rparr>) k = answers env k"
  by (simp_all add: ticking_def answers_def)

text \<open>One run, in a state with no open file.\<close>

lemma run_succeeds:
  assumes d: "drv_reach d n" "files d = (\<lambda>_. None)" "n < MAX_PORTS" and a: "allocs_ok a"
    and env: "ticking env 6600" "\<forall>k < 3200. answers env k" "fopen env" "length m = 1000000"
  shows "\<exists>w d'. perf_write_run f a env m d = Inr (Inr (Some w), d') \<and> drv_reach d' (Suc n) \<and> files d' = (\<lambda>_. None)"
proof -
  obtain d1 where d1: "open_with f a d = (0, d1)"
    using open_with_succeeds [OF d(1,3)] by blast
  obtain s where s: "drv_reach d1 (Suc n)" "files d1 = (files d)(f \<mapsto> s)"
    "(c2h_metadata_cpu_addr (sessions d1 ! s), c2h_metadata_dma_handle (sessions d1 ! s)) = fst a"
    "(h2c_msgbuff_cpu_addr (sessions d1 ! s), h2c_msgbuff_dma_handle (sessions d1 ! s)) = fst (snd a)"
    "(c2h_msgbuff_cpu_addr (sessions d1 ! s), c2h_msgbuff_dma_handle (sessions d1 ! s)) = snd (snd a)"
    using open_with_ok [OF d(1) _ a d1] d(2) by auto
  have addrs: "c2h_metadata_cpu_addr (sessions d1 ! s) \<noteq> 0" "h2c_msgbuff_cpu_addr (sessions d1 ! s) \<noteq> 0"
    "c2h_msgbuff_cpu_addr (sessions d1 ! s) \<noteq> 0"
    using a s(3-5) by (auto simp: allocs_ok_def split: prod.splits)
  have f1: "files d1 f = Some s" using s(2) by simp
  obtain ms d2 where d2: "perf_write_maps f d1 = Inr (ms, d2)" "drv_reach d2 (Suc n)" "files d2 = files d1"
    using perf_write_maps_ok [OF s(1) f1 refl addrs] by blast
  have f2: "files d2 f = Some s" using f1 d2(3) by simp
  obtain d3 where d3: "homanic_close f d2 = Inr d3" "files d3 = (files d2)(f := None)"
    using close_effect [OF f2 owned_live [OF drv_reach_inv [OF d2(2)] f2]] by auto
  have "drv_reach d3 (Suc n)" using drv_close [OF d2(2) _ d3(1)] f2 by simp
  moreover obtain w where "perf_write (env\<lparr>devices := driver_devices\<rparr>) (start m) = Inr (Some w)"
    using perf_write_ends [of "env\<lparr>devices := driver_devices\<rparr>" m] env by (auto simp: driver_devices_eq)
  moreover have "files d3 = (\<lambda>_. None)" using d3(2) d2(3) s(2) d(2) by auto
  ultimately show ?thesis using d1 d2(1) d3(1) by (simp add: perf_write_run_def)
qed

lemma run_fails:
  assumes "drv_reach d MAX_PORTS"
  shows "perf_write_run f a env m d = Inr (Inl OutOfRange, d)"
  using open_full [OF assms] by (cases a) (simp add: perf_write_run_def open_with_def perf_write_no_device)

subsection \<open>Properties\<close>

text \<open>What \<open>perf_write\<close> maps is what the NIC was told: its metadata and message buffers are the
  addresses the kernel allocated, the table of the NIC has their handles for port 1, and the page it
  stores headers to is the second page of the registers.\<close>

theorem program_shares_memory:
  assumes "drv_reach d n" "files d f = None" "allocs_ok a" "open_with f a d = (0, d1)"
  shows "\<exists>d2. perf_write_maps f d1 = Inr ([Buffer_Mapped (fst (fst a), snd (fst a), METADATA_BYTES),
       Registers_Mapped (unat (drop_bit 12 (BAR_0 d1 + 4096))) 4096,
       Buffer_Mapped (fst (fst (snd a)), snd (fst (snd a)), MSGBUFF_BYTES),
       Buffer_Mapped (fst (snd (snd a)), snd (snd (snd a)), MSGBUFF_BYTES)], d2) \<and>
     nic_table (nic_maps (mmio d2)) (1, C2H_METADATA_MAP) = Some (snd (fst a)) \<and>
     nic_table (nic_maps (mmio d2)) (1, H2C_MSGBUFF_MAP) = Some (snd (fst (snd a))) \<and>
     nic_table (nic_maps (mmio d2)) (1, C2H_MSGBUFF_MAP) = Some (snd (snd (snd a)))"
proof -
  obtain p x q y r z where a: "a = ((p, x), (q, y), (r, z))" by (cases a) auto
  have ok: "p \<noteq> 0" "q \<noteq> 0" "r \<noteq> 0" "x < 2 ^ 64" "y < 2 ^ 64" "z < 2 ^ 64" using assms(3) by (auto simp: a allocs_ok_def)
  obtain s where s: "drv_reach d1 (Suc n)" "files d1 = (files d)(f \<mapsto> s)"
    "c2h_metadata_cpu_addr (sessions d1 ! s) = p" "c2h_metadata_dma_handle (sessions d1 ! s) = x"
    "h2c_msgbuff_cpu_addr (sessions d1 ! s) = q" "h2c_msgbuff_dma_handle (sessions d1 ! s) = y"
    "c2h_msgbuff_cpu_addr (sessions d1 ! s) = r" "c2h_msgbuff_dma_handle (sessions d1 ! s) = z"
    using open_with_ok [OF assms] by (auto simp: a)
  have f1: "files d1 f = Some s" using s(2) by simp
  have op: "homanic_open f (Some (p, x)) (Some (q, y)) (Some (r, z)) d = (0, d1)" using assms(4) by (simp add: a open_with_def)
  have "nic_maps (mmio d1) = nic_maps (mmio d) @
       [\<lparr>phys_addr = x, map_port = 1, map_type = C2H_METADATA_MAP\<rparr>, \<lparr>phys_addr = y, map_port = 1, map_type = H2C_MSGBUFF_MAP\<rparr>,
        \<lparr>phys_addr = z, map_port = 1, map_type = C2H_MSGBUFF_MAP\<rparr>]"
    using open_maps [OF assms(1) op f1 refl] ok s(4,6,8) by simp
  then have table: "nic_table (nic_maps (mmio d1)) (1, C2H_METADATA_MAP) = Some x"
    "nic_table (nic_maps (mmio d1)) (1, H2C_MSGBUFF_MAP) = Some y" "nic_table (nic_maps (mmio d1)) (1, C2H_MSGBUFF_MAP) = Some z"
    using nic_table_last by (simp_all add: C2H_METADATA_MAP_def H2C_MSGBUFF_MAP_def C2H_MSGBUFF_MAP_def)
  obtain d2 where "perf_write_maps f d1 = Inr ([Buffer_Mapped (p, x, METADATA_BYTES),
       Registers_Mapped (unat (drop_bit 12 (BAR_0 d1 + 4096))) 4096, Buffer_Mapped (q, y, MSGBUFF_BYTES),
       Buffer_Mapped (r, z, MSGBUFF_BYTES)], d2)" "mmio d2 = mmio d1"
    using perf_write_maps_ok [OF s(1) f1 refl] ok s(3-8) by auto
  then show ?thesis using table by (simp add: a)
qed

definition demo_allocs :: allocs where
  "demo_allocs = ((0x10000, 0x1000), (0x20000, 0x2000), (0x30000, 0x3000))"

lemma demo_allocs_ok: "allocs_ok demo_allocs"
  by (simp add: demo_allocs_def allocs_ok_def)

theorem program_shares_memory_witness:
  "\<exists>d d1 ms d2. drv_reach d 0 \<and> open_with 5 demo_allocs d = (0, d1) \<and> perf_write_maps 5 d1 = Inr (ms, d2) \<and>
     nic_table (nic_maps (mmio d2)) (1, H2C_MSGBUFF_MAP) = Some 0x2000"
proof -
  obtain d where d: "drv_reach d 0" "files d = (\<lambda>_. None)" using files_none_init by blast
  obtain d1 where d1: "open_with 5 demo_allocs d = (0, d1)"
    using open_with_succeeds [OF d(1), of 5 demo_allocs] by (auto simp: MAX_PORTS_def)
  have "files d 5 = None" using d(2) by simp
  from program_shares_memory [OF d(1) this demo_allocs_ok d1] show ?thesis
    using d(1) d1 by (fastforce simp: demo_allocs_def)
qed



end
