(* ===== verification/Hw_Interface.thy ===== *)
theory Hw_Interface
  imports Hw_Address_Map Perf_Session
begin

section \<open>Driver, program and card together\<close>

text \<open>
  The stores of the driver and of a program to the registers as the card sees them: what the driver
  writes when a file is opened ends up in the table of \<open>AddressMap\<close>, and a header that a program
  stores makes the card write the header back into the metadata buffer of the session.

  Between the processor and \<open>Delegate\<close> lie PCI Express and the module \<open>axi2axis\<close>, neither of which is
  part of the repository. \<open>seen\<close> is what comes out of them for a list of stores; \<open>whole_blocks\<close> states
  what \<open>iomov64B\<close> relies on: its two stores of 32 bytes arrive as one block of 64 bytes, with the
  address in the register space as its user field.
\<close>

type_synonym stores = "(nat \<times> byte list) list"

definition whole_blocks :: "(stores \<Rightarrow> (byte list \<times> u32) list) \<Rightarrow> bool" where
  "whole_blocks seen \<longleftrightarrow> (\<forall>ws. (\<forall>w \<in> set ws. length (snd w) = 64) \<longrightarrow>
     seen (concat (map (\<lambda>(a, bs). iomov64B a bs) ws)) = map (\<lambda>(a, bs). (bs, word_of_nat a)) ws)"

subsection \<open>The stores of the driver\<close>

definition driver_block :: "nat \<times> byte list \<Rightarrow> bool" where
  "driver_block = (\<lambda>(a, bs). a = 0 \<and> (\<exists>p. bs = map_bytes p) \<or> a = 64 \<and> (\<exists>w r. bs = cfg_bytes w r))"

definition stores_of :: "stores \<Rightarrow> stores" where
  "stores_of ws = concat (map (\<lambda>(a, bs). iomov64B a bs) ws)"

lemma stores_of_append [simp]: "stores_of (xs @ ys) = stores_of xs @ stores_of ys"
  by (simp add: stores_of_def)

lemma stores_of_Cons: "stores_of ((a, bs) # ws) = iomov64B a bs @ stores_of ws"
  by (simp add: stores_of_def)

lemma open_stores:
  assumes "homanic_open f a1 a2 a3 d = (0, d')" "length (sessions d) = MAX_PORTS"
  shows "\<exists>ws. mmio d' = mmio d @ stores_of ws \<and> (\<forall>w \<in> set ws. driver_block w)"
proof -
  obtain x y z where "mmio d' = mmio d @ iomov64B 0 (map_bytes x) @ iomov64B 0 (map_bytes y) @ iomov64B 0 (map_bytes z)"
    using open_effect [OF assms] by blast
  then have "mmio d' = mmio d @ stores_of [(0, map_bytes x), (0, map_bytes y), (0, map_bytes z)]"
    by (simp add: stores_of_def)
  then show ?thesis by (intro exI [of _ "[(0, map_bytes x), (0, map_bytes y), (0, map_bytes z)]"]) (auto simp: driver_block_def)
qed

lemma reach_stores: "drv_reach d n \<Longrightarrow> \<exists>ws. mmio d = stores_of ws \<and> (\<forall>w \<in> set ws. driver_block w)"
proof (induction rule: drv_reach.induct)
  case (drv_init bar d)
  then have "mmio d = stores_of [(64, cfg_bytes 10 10)]"
    by (auto simp: homanic_init_def drv_static_def Let_def stores_of_def)
  then show ?case by (intro exI [of _ "[(64, cfg_bytes 10 10)]"]) (auto simp: driver_block_def)
next
  case (drv_open d n f a1 a2 a3 d')
  then obtain ws ws' where "mmio d = stores_of ws" "\<forall>w \<in> set ws. driver_block w"
    "mmio d' = mmio d @ stores_of ws'" "\<forall>w \<in> set ws'. driver_block w"
    using open_stores [OF drv_open(6) drv_invD(1) [OF drv_reach_inv [OF drv_open(1)]]] by blast
  then show ?case by (intro exI [of _ "ws @ ws'"]) auto
next
  case (drv_open_fails d n f a1 a2 a3 d')
  then show ?case by (auto simp: homanic_open_def split: option.splits)
next
  case (drv_mmap d n f off ret r mp d')
  then show ?case using mmap_state by auto
next
  case (drv_close d n f d')
  then obtain s where s: "files d f = Some s" by auto
  then show ?case using close_effect [OF s owned_live [OF drv_reach_inv [OF drv_close(1)] s]] drv_close by auto
qed

lemma block_length: "driver_block w \<Longrightarrow> length (snd w) = 64"
  by (auto simp: driver_block_def)

lemma user_parts: "drop_bit 12 (0 :: u32) = 0" "take_bit 12 (0 :: u32) = 0" "drop_bit 12 (64 :: u32) = 0"
  "take_bit 12 (64 :: u32) = 64" "drop_bit 12 (0x1000 :: u32) = 1" "take_bit 12 (0x1000 :: u32) = 0"
  by (simp_all add: drop_bit_eq_div take_bit_eq_mod)

lemma block_known: "driver_block (a, bs) \<Longrightarrow> known_block (bs, word_of_nat a)"
  by (auto simp: driver_block_def known_block_def user_parts)

subsection \<open>From the driver to the table\<close>

lemma as_dma_map_bytes:
  "as_dma_map (map_bytes p) =
     \<lparr>dm_type = word_of_nat (map_type p), dm_port = word_of_nat (map_port p), dm_pcie_addr = word_of_nat (phys_addr p)\<rparr>"
proof -
  have "(field 80 (map_bytes p) :: 8 word) = word_of_nat (map_type p)"
    using field_at [where 'w = 8 and lo = 80 and n = 1 and a = "le_bytes 8 (phys_addr p) @ le_bytes 2 (map_port p)"
      and v = "map_type p" and b = "replicate 53 0"] by (simp add: map_bytes_def)
  moreover have "(field 64 (map_bytes p) :: 16 word) = word_of_nat (map_port p)"
    using field_at [where 'w = 16 and lo = 64 and n = 2 and a = "le_bytes 8 (phys_addr p)"
      and v = "map_port p" and b = "le_bytes 1 (map_type p) @ replicate 53 0"] by (simp add: map_bytes_def)
  moreover have "(field 0 (map_bytes p) :: u64) = word_of_nat (phys_addr p)"
    using field_le_bytes [where 'w = 64 and n = 8 and v = "phys_addr p"
      and b = "le_bytes 2 (map_port p) @ le_bytes 1 (map_type p) @ replicate 53 0"] by (simp add: map_bytes_def)
  ultimately show ?thesis by (simp add: as_dma_map_def)
qed

definition maps_of :: "delegate_out list \<Rightarrow> dma_map list" where
  "maps_of outs = List.map_filter new_dma_map outs"

lemma maps_of_simps [simp]: "maps_of [] = []" "maps_of (xs @ ys) = maps_of xs @ maps_of ys"
  "maps_of (x # xs) = (case new_dma_map x of None \<Rightarrow> maps_of xs | Some m \<Rightarrow> m # maps_of xs)"
  by (simp_all add: maps_of_def List.map_filter_def split: option.splits)

lemma maps_of_map_block:
  "maps_of (visible (map (effect sid did) [(map_bytes p, 0)])) = [as_dma_map (map_bytes p)]"
  by (simp add: effect_def user_parts visible_def)

text \<open>The three maps of \<open>open\<close> fill the entries of port 1.\<close>

lemma last_maps:
  fixes x y z :: nat
  defines "m \<equiv> \<lambda>h t. as_dma_map (map_bytes \<lparr>phys_addr = h, map_port = 1, map_type = t\<rparr>)"
  shows "write_all (ms @ [m x C2H_METADATA_MAP, m y H2C_MSGBUFF_MAP, m z C2H_MSGBUFF_MAP]) t 201 = Some (word_of_nat x)"
    "write_all (ms @ [m x C2H_METADATA_MAP, m y H2C_MSGBUFF_MAP, m z C2H_MSGBUFF_MAP]) t 1 = Some (word_of_nat y)"
    "write_all (ms @ [m x C2H_METADATA_MAP, m y H2C_MSGBUFF_MAP, m z C2H_MSGBUFF_MAP]) t 101 = Some (word_of_nat z)"
proof -
  have "table_index 1 0 = 1" "table_index 1 1 = 101" "table_index 1 2 = 201"
    using table_index_small [of 1 0] table_index_small [of 1 1] table_index_small [of 1 2] by simp_all
  note i = this this(2) [unfolded One_nat_def]
  note defs = write_all_append m_def as_dma_map_bytes table_write_def Let_def i
    C2H_METADATA_MAP_def H2C_MSGBUFF_MAP_def C2H_MSGBUFF_MAP_def
  show "write_all (ms @ [m x C2H_METADATA_MAP, m y H2C_MSGBUFF_MAP, m z C2H_MSGBUFF_MAP]) t 201 = Some (word_of_nat x)"
    "write_all (ms @ [m x C2H_METADATA_MAP, m y H2C_MSGBUFF_MAP, m z C2H_MSGBUFF_MAP]) t 1 = Some (word_of_nat y)"
    "write_all (ms @ [m x C2H_METADATA_MAP, m y H2C_MSGBUFF_MAP, m z C2H_MSGBUFF_MAP]) t 101 = Some (word_of_nat z)"
    by (simp_all add: defs)
qed


subsection \<open>Properties\<close>

text \<open>The blocks that \<open>open\<close> adds to what the driver has written, and the table of \<open>AddressMap\<close> after them.\<close>

definition open_blocks :: "nat \<Rightarrow> nat \<Rightarrow> nat \<Rightarrow> stores" where
  "open_blocks x y z = [(0, map_bytes \<lparr>phys_addr = x, map_port = 1, map_type = C2H_METADATA_MAP\<rparr>),
     (0, map_bytes \<lparr>phys_addr = y, map_port = 1, map_type = H2C_MSGBUFF_MAP\<rparr>),
     (0, map_bytes \<lparr>phys_addr = z, map_port = 1, map_type = C2H_MSGBUFF_MAP\<rparr>)]"

lemma blocks_after_open:
  assumes "drv_reach d n" "files d f = None" "allocs_ok ((p, x), (q, y), (r, z))" "open_with f ((p, x), (q, y), (r, z)) d = (0, d1)"
  shows "\<exists>ws. mmio d1 = stores_of (ws @ open_blocks x y z) \<and> (\<forall>w \<in> set (ws @ open_blocks x y z). driver_block w)"
proof -
  let ?m = "\<lambda>h t. \<lparr>phys_addr = h, map_port = 1, map_type = t\<rparr>"
  obtain ws where ws: "mmio d = stores_of ws" "\<forall>w \<in> set ws. driver_block w" using reach_stores [OF assms(1)] by blast
  obtain s where s: "files d1 = (files d)(f \<mapsto> s)" "c2h_metadata_dma_handle (sessions d1 ! s) = x"
    "h2c_msgbuff_dma_handle (sessions d1 ! s) = y" "c2h_msgbuff_dma_handle (sessions d1 ! s) = z"
    using open_with_ok [OF assms] by auto
  have op: "homanic_open f (Some (p, x)) (Some (q, y)) (Some (r, z)) d = (0, d1)" using assms(4) by (simp add: open_with_def)
  obtain s' where "files d1 = (files d)(f \<mapsto> s')" and m1: "mmio d1 = mmio d @
       iomov64B 0 (map_bytes (?m (c2h_metadata_dma_handle (sessions d1 ! s')) C2H_METADATA_MAP)) @
       iomov64B 0 (map_bytes (?m (h2c_msgbuff_dma_handle (sessions d1 ! s')) H2C_MSGBUFF_MAP)) @
       iomov64B 0 (map_bytes (?m (c2h_msgbuff_dma_handle (sessions d1 ! s')) C2H_MSGBUFF_MAP))"
    using open_effect [OF op drv_invD(1) [OF drv_reach_inv [OF assms(1)]]] by blast
  then have "s' = s" using s(1) by (metis fun_upd_same option.inject)
  then have "mmio d1 = stores_of (ws @ open_blocks x y z)" using m1 s(2-4) ws(1) by (simp add: stores_of_def open_blocks_def)
  then show ?thesis using ws(2) by (intro exI [of _ ws]) (auto simp: driver_block_def open_blocks_def)
qed

lemma table_after_open:
  assumes seen: "seen = map (\<lambda>(a, bs). (bs, word_of_nat a)) (ws @ open_blocks x y z)"
    and db: "\<forall>w \<in> set (ws @ open_blocks x y z). driver_block w"
    and run: "delegate_run is delegate_reset = (outs, st)" "accepted_run is outs = seen" "waiting st = []"
      "\<forall>i \<in> set is. \<forall>b. func i = Some b \<longrightarrow> b \<in> set seen"
    and tab: "addr_map_run k js addr_map_reset = (reqs, m)"
      "concat (map (\<lambda>j. case dma_map_in j of None \<Rightarrow> [] | Some x \<Rightarrow> [x]) js) = maps_of (transferred_run is outs)"
  shows "pending_write m 201 = Some (word_of_nat x)" "pending_write m 1 = Some (word_of_nat y)"
    "pending_write m 101 = Some (word_of_nat z)" "send_id st = 0" "dbuff_id st = 0"
proof -
  let ?m = "\<lambda>h t. \<lparr>phys_addr = h, map_port = 1, map_type = t\<rparr>"
  have known: "\<forall>i \<in> set is. \<forall>b. func i = Some b \<longrightarrow> known_block b"
    using run(4) db unfolding seen by (fastforce dest: block_known)
  have empty: "waiting delegate_reset = []" "send_id delegate_reset = 0" "dbuff_id delegate_reset = 0"
    by (simp_all add: waiting_def delegate_reset_def)
  have tr: "transferred_run is outs = visible (map (effect 0 0) seen)"
    using run_known [OF run(1) known] run(2,3) empty by (simp add: visible_def)
  show "send_id st = 0" "dbuff_id st = 0" using run_ids [OF run(1)] empty by simp_all
  have "maps_of (transferred_run is outs) =
      maps_of (visible (map (effect 0 0) (map (\<lambda>(a, bs). (bs, word_of_nat a)) ws))) @
      [as_dma_map (map_bytes (?m x C2H_METADATA_MAP)), as_dma_map (map_bytes (?m y H2C_MSGBUFF_MAP)),
       as_dma_map (map_bytes (?m z C2H_MSGBUFF_MAP))]"
    unfolding tr seen by (simp add: effect_def user_parts visible_def open_blocks_def)
  then show "pending_write m 201 = Some (word_of_nat x)" "pending_write m 1 = Some (word_of_nat y)"
    "pending_write m 101 = Some (word_of_nat z)"
    using run_pending [OF tab(1)] last_maps unfolding tab(2) by simp_all
qed

lemma return_offset:
  assumes "header_typed h" "metadata h = pack_metadata sz retoff" "unat sz < 2 ^ 20" "unat retoff < 2 ^ 12"
  shows "(ucast (mh_ret (as_msghdr (header_bytes h))) :: u64) = ucast retoff"
proof -
  have "(ucast (metadata h) :: 12 word) = ucast (take_bit 12 (metadata h))" by (rule bit_word_eqI) (auto simp: bit_simps)
  then have "unat (mh_ret (as_msghdr (header_bytes h))) = unat retoff"
    using metadata_parts(2) [OF assms(3,4)] assms(2,4)
    by (simp add: as_msghdr_header [OF assms(1)] unsigned_ucast_eq take_bit_nat_eq_self)
  then show ?thesis by (simp only: word_unat_eq_iff unsigned_ucast_eq)
qed



text \<open>A run of the hardware that takes one block in each cycle, every receiver being ready.\<close>

definition ready_cycle :: "byte list \<times> u32 \<Rightarrow> delegate_in" where
  "ready_cycle b = \<lparr>func = Some b, rdy_sendmsg = True, rdy_fetchdata = True, rdy_dma_map = True, rdy_meta_dma = True\<rparr>"

lemma ready_run:
  assumes "\<forall>b \<in> set bs. known_block b" "dq st = None"
  shows "\<exists>outs st'. delegate_run (map ready_cycle bs) st = (outs, st') \<and> accepted_run (map ready_cycle bs) outs = bs \<and>
     waiting st' = []"
  using assms
proof (induction bs arbitrary: st)
  case (Cons b bs)
  obtain data user where b: "b = (data, user)" by (cases b)
  obtain out st1 where h: "handle (ready_cycle b) data user st = (True, out, st1)" "dq st1 = None"
    using Cons.prems by (auto simp: b known_block_def handle_def Let_def ready_cycle_def split: if_splits)
  have c: "delegate_cycle (ready_cycle b) st = (True, out, st1)"
    using Cons.prems(2) h(1) by (simp add: delegate_cycle_def ready_cycle_def b)
  obtain outs st' where r: "delegate_run (map ready_cycle bs) st1 = (outs, st')"
    "accepted_run (map ready_cycle bs) outs = bs" "waiting st' = []"
    using Cons.IH [of st1] Cons.prems(1) h(2) by auto
  then show ?case using c by (simp add: accepted_run_def accepted_def) (simp add: ready_cycle_def)
qed (simp add: accepted_run_def waiting_def)

definition map_cycle :: "dma_map \<Rightarrow> addr_map_in" where
  "map_cycle x = \<lparr>dma_map_in = Some x, mappable_in = (\<lambda>_. None), out_ready = (\<lambda>_. True)\<rparr>"

lemma map_cycles: "concat (map (\<lambda>j. case dma_map_in j of None \<Rightarrow> [] | Some x \<Rightarrow> [x]) (map map_cycle xs)) = xs"
  by (induction xs) (simp_all add: map_cycle_def)

text \<open>Joining the halves is one way to see the stores.\<close>

fun join_halves :: "stores \<Rightarrow> (byte list \<times> u32) list" where
  "join_halves ((a, x) # (b, y) # ws) = (x @ y, word_of_nat a) # join_halves ws"
| "join_halves _ = []"

lemma join_halves_whole: "whole_blocks join_halves"
proof -
  have "join_halves (concat (map (\<lambda>(a, bs). iomov64B a bs) ws)) = map (\<lambda>(a, bs). (bs, word_of_nat a)) ws"
    if "\<forall>w \<in> set ws. length (snd w) = 64" for ws
    using that by (induction ws) (auto simp: iomov64B_halves)
  then show ?thesis by (simp add: whole_blocks_def)
qed

lemma driver_known:
  assumes "drv_reach d n" "b \<in> set (join_halves (mmio d))"
  shows "known_block b"
proof -
  obtain ws where ws: "mmio d = stores_of ws" "\<forall>w \<in> set ws. driver_block w" using reach_stores [OF assms(1)] by blast
  have "join_halves (mmio d) = map (\<lambda>(a, bs). (bs, word_of_nat a)) ws"
    unfolding ws(1) stores_of_def
    by (rule join_halves_whole [unfolded whole_blocks_def, rule_format]) (use ws(2) block_length in blast)
  then show ?thesis using assms(2) ws(2) block_known by auto
qed


end
