(* ===== verification/Hw_Priority_Queue.thy ===== *)
theory Hw_Priority_Queue
  imports Prelude
begin

section \<open>Hardware: the priority queue\<close>

text \<open>
  Module \<open>PriorityQueue\<close> of \<open>hw/src/main/scala/PriorityQueue.scala\<close> with the entries
  \<open>PrefetcherEntry\<close> of \<open>Interfaces.scala\<close> (the only ones it can be built with: its output queue and the
  comparison of \<open>SchedulerEntry\<close> are fixed to them). A row of registers is kept in order of priority;
  a new entry is compared with all of them at once and inserted in one cycle, otherwise the first entry
  is sent and either counts down or leaves. The connections of a Chisel block are assignments of which
  the last one counts. The abstract queue is a list in order of priority, first come first served
  among equals, which sends an entry once more often than its number of cycles.
\<close>

subsection \<open>Entries\<close>

record pq_entry =
  pq_dbuff :: "5 word"
  pq_priority :: "10 word"
  pq_cycles :: "10 word"
  pq_active :: bool

definition pq_pop :: "pq_entry \<Rightarrow> pq_entry" where
  "pq_pop e = (if pq_cycles e < 1 then e\<lparr>pq_active := False\<rparr>
     else e\<lparr>pq_cycles := pq_cycles e - 1, pq_priority := pq_priority e - 1\<rparr>)"

definition pq_less :: "pq_entry \<Rightarrow> pq_entry \<Rightarrow> bool" where
  "pq_less this that \<longleftrightarrow> \<not> pq_active that \<or> pq_priority this < pq_priority that"

subsection \<open>The module\<close>

record priority_queue =
  regs :: "pq_entry list"
  out_queue :: "pq_entry option"

definition pq_null :: pq_entry where
  "pq_null = \<lparr>pq_dbuff = 0, pq_priority = 0, pq_cycles = 0, pq_active = False\<rparr>"

definition pq_reset :: "nat \<Rightarrow> priority_queue" where
  "pq_reset n = \<lparr>regs = replicate n pq_null, out_queue = None\<rparr>"

text \<open>\<open>PriorityEncoder\<close>: the position of the first bit that is set, the last one if there is none.\<close>

definition priority_encoder :: "bool list \<Rightarrow> nat" where
  "priority_encoder bits = (if True \<in> set bits then length (takeWhile Not bits) else length bits - 1)"

definition insert_regs :: "pq_entry \<Rightarrow> pq_entry list \<Rightarrow> pq_entry list" where
  "insert_regs e q =
     (let prio = map (pq_less e) q; index = priority_encoder prio
      in map (\<lambda>j. if Suc j < length q \<and> j = index then e\<lparr>pq_active := True\<rparr>
                  else if 0 < j \<and> prio ! (j - 1) then q ! (j - 1) else q ! j) [0..<length q])"

definition pop_regs :: "pq_entry list \<Rightarrow> pq_entry list" where
  "pop_regs q =
     (let pop = pq_pop (q ! 0)
      in if \<not> pq_active pop then map (\<lambda>j. if Suc j < length q then q ! (j + 1) else q ! j) [0..<length q]
         else q[0 := pop])"

text \<open>One cycle, with the entry at the input and the \<open>ready\<close> of the receiver. The output queue holds one
  entry and takes another one in the cycle in which it gives it away. The first result is what the
  receiver gets.\<close>

definition pq_cycle :: "pq_entry option \<Rightarrow> bool \<Rightarrow> priority_queue \<Rightarrow> pq_entry option \<times> priority_queue" where
  "pq_cycle enq deq_ready st =
     (let enq_ready = (out_queue st = None \<or> deq_ready);
          deq = (if deq_ready then out_queue st else None);
          kept = (if deq_ready then None else out_queue st)
      in case enq of
           Some e \<Rightarrow> (deq, \<lparr>regs = insert_regs e (regs st), out_queue = kept\<rparr>)
         | None \<Rightarrow>
             if pq_active (regs st ! 0) \<and> enq_ready
             then (deq, \<lparr>regs = pop_regs (regs st), out_queue = Some (regs st ! 0)\<rparr>)
             else (deq, \<lparr>regs = regs st, out_queue = kept\<rparr>))"

fun pq_run :: "(pq_entry option \<times> bool) list \<Rightarrow> priority_queue \<Rightarrow> pq_entry option list \<times> priority_queue" where
  "pq_run [] st = ([], st)"
| "pq_run ((enq, rdy) # is) st =
     (case pq_cycle enq rdy st of (out, st1) \<Rightarrow> (case pq_run is st1 of (outs, st2) \<Rightarrow> (out # outs, st2)))"

subsection \<open>The abstract queue\<close>

definition spec_insert :: "pq_entry \<Rightarrow> pq_entry list \<Rightarrow> pq_entry list" where
  "spec_insert e xs = takeWhile (\<lambda>x. pq_priority x \<le> pq_priority e) xs @
     e\<lparr>pq_active := True\<rparr> # dropWhile (\<lambda>x. pq_priority x \<le> pq_priority e) xs"

fun spec_pop :: "pq_entry list \<Rightarrow> pq_entry list" where
  "spec_pop [] = []"
| "spec_pop (x # xs) = (if pq_cycles x = 0 then xs else pq_pop x # xs)"

definition spec_cycle ::
    "pq_entry option \<Rightarrow> bool \<Rightarrow> pq_entry list \<times> pq_entry option \<Rightarrow> pq_entry option \<times> pq_entry list \<times> pq_entry option" where
  "spec_cycle enq rdy = (\<lambda>(xs, out).
     let deq = (if rdy then out else None); kept = (if rdy then None else out)
     in case enq of
          Some e \<Rightarrow> (deq, spec_insert e xs, kept)
        | None \<Rightarrow> if xs \<noteq> [] \<and> (out = None \<or> rdy) then (deq, spec_pop xs, Some (hd xs)) else (deq, xs, kept))"

fun spec_run ::
    "(pq_entry option \<times> bool) list \<Rightarrow> pq_entry list \<times> pq_entry option \<Rightarrow>
     pq_entry option list \<times> pq_entry list \<times> pq_entry option" where
  "spec_run [] s = ([], s)"
| "spec_run ((enq, rdy) # is) s =
     (case spec_cycle enq rdy s of (out, s1) \<Rightarrow> (case spec_run is s1 of (outs, s2) \<Rightarrow> (out # outs, s2)))"

subsection \<open>Inserting into sorted registers\<close>

text \<open>\<open>row_holds n q xs\<close>: the \<open>n\<close> registers hold the entries \<open>xs\<close>, in order, followed by inactive ones.\<close>

definition row_holds :: "nat \<Rightarrow> pq_entry list \<Rightarrow> pq_entry list \<Rightarrow> bool" where
  "row_holds n q xs \<longleftrightarrow> length q = n \<and> (\<exists>rest. q = xs @ rest \<and> (\<forall>b \<in> set rest. \<not> pq_active b)) \<and>
     (\<forall>x \<in> set xs. pq_active x \<and> pq_cycles x \<le> pq_priority x) \<and> sorted (map pq_priority xs)"

lemma dropped_larger:
  fixes f :: "'a \<Rightarrow> 'b :: linorder"
  assumes "sorted (map f xs)" "x \<in> set (dropWhile (\<lambda>y. f y \<le> c) xs)"
  shows "c < f x"
  using assms
proof (induction xs)
  case (Cons y ys)
  then show ?case by (cases "f y \<le> c") auto
qed simp

lemma map_constant: "\<forall>x \<in> set xs. f x = c \<Longrightarrow> map f xs = replicate (length xs) c"
  by (induction xs) auto

lemma split_mask:
  assumes "row_holds n q xs"
  shows "map (pq_less e) q = replicate (length (takeWhile (\<lambda>x. pq_priority x \<le> pq_priority e) xs)) False @
     replicate (n - length (takeWhile (\<lambda>x. pq_priority x \<le> pq_priority e) xs)) True"
proof -
  let ?P = "\<lambda>x. pq_priority x \<le> pq_priority e"
  obtain rest where q: "q = xs @ rest" "\<forall>b \<in> set rest. \<not> pq_active b" "length q = n"
    and xs: "\<forall>x \<in> set xs. pq_active x" "sorted (map pq_priority xs)" using assms by (auto simp: row_holds_def)
  have "\<not> ?P x" if "x \<in> set (dropWhile ?P xs)" for x
    using dropped_larger [OF xs(2) that] by (simp add: not_le)
  then have "\<forall>x \<in> set (dropWhile ?P xs). pq_less e x = True"
    by (auto simp: pq_less_def not_le)
  moreover have "\<forall>x \<in> set (takeWhile ?P xs). pq_less e x = False"
    using xs(1) by (auto simp: pq_less_def not_less dest: set_takeWhileD)
  moreover have "\<forall>x \<in> set rest. pq_less e x = True" using q(2) by (simp add: pq_less_def)
  ultimately have "map (pq_less e) (takeWhile ?P xs) = replicate (length (takeWhile ?P xs)) False"
    "map (pq_less e) (dropWhile ?P xs) = replicate (length (dropWhile ?P xs)) True"
    "map (pq_less e) rest = replicate (length rest) True"
    by (intro map_constant; simp)+
  moreover have "n - length (takeWhile ?P xs) = length (dropWhile ?P xs) + length rest"
  proof -
    have "length (takeWhile ?P xs) + length (dropWhile ?P xs) = length xs"
      by (metis length_append takeWhile_dropWhile_id)
    then show ?thesis using q(1,3) by auto
  qed
  moreover have "map (pq_less e) q = map (pq_less e) (takeWhile ?P xs) @ map (pq_less e) (dropWhile ?P xs) @ map (pq_less e) rest"
    unfolding q(1) by (metis append_assoc map_append takeWhile_dropWhile_id)
  ultimately show ?thesis by (simp add: replicate_add)
qed

lemma encode_split: "p < n \<Longrightarrow> priority_encoder (replicate p False @ replicate (n - p) True) = p"
proof -
  assume "p < n"
  then obtain k where k: "n - p = Suc k" by (cases "n - p") auto
  have "takeWhile Not (replicate p False @ True # replicate k True) = replicate p False" by (induction p) auto
  then show ?thesis by (simp add: priority_encoder_def k)
qed

lemma insert_split:
  assumes "map (pq_less e) q = replicate p False @ replicate (n - p) True" "p \<le> n" "length q = n"
  shows "insert_regs e q = (if p + 2 \<le> n then take p q @ e\<lparr>pq_active := True\<rparr> # butlast (drop p q) else q)"
proof -
  have mask: "map (pq_less e) q ! i \<longleftrightarrow> p \<le> i" if "i < n" for i
    unfolding assms(1) using that assms(2) by (auto simp: nth_append)
  show ?thesis
  proof (cases "p + 2 \<le> n")
    case True
    have index: "priority_encoder (map (pq_less e) q) = p" unfolding assms(1) using True by (intro encode_split) simp
    have "insert_regs e q ! j = (take p q @ e\<lparr>pq_active := True\<rparr> # butlast (drop p q)) ! j" if j: "j < n" for j
      using True j assms(3) mask [of "j - 1"]
      by (auto simp: insert_regs_def Let_def index nth_append nth_Cons' nth_butlast)
    then show ?thesis using True assms(3) by (intro nth_equalityI) (simp_all add: insert_regs_def Let_def)
  next
    case False
    have index: "Suc (priority_encoder (map (pq_less e) q)) \<ge> n"
    proof (cases "p < n")
      case True
      then show ?thesis unfolding assms(1) using encode_split [OF True] False by simp
    next
      case no: False
      then have "True \<notin> set (map (pq_less e) q)" unfolding assms(1) using assms(2) by simp
      then show ?thesis using assms(3) by (simp add: priority_encoder_def)
    qed
    have "insert_regs e q ! j = q ! j" if j: "j < n" for j
      using False j assms(3) mask [of "j - 1"] index by (auto simp: insert_regs_def Let_def)
    then show ?thesis using False assms(3) by (simp add: insert_regs_def Let_def list_eq_iff_nth_eq)
  qed
qed

lemma spec_insert_wf:
  assumes "\<forall>x \<in> set xs. pq_active x \<and> pq_cycles x \<le> pq_priority x" "sorted (map pq_priority xs)" "pq_cycles e \<le> pq_priority e"
  shows "\<forall>x \<in> set (spec_insert e xs). pq_active x \<and> pq_cycles x \<le> pq_priority x" "sorted (map pq_priority (spec_insert e xs))"
    "length (spec_insert e xs) = Suc (length xs)"
proof -
  let ?P = "\<lambda>x. pq_priority x \<le> pq_priority e"
  have s: "sorted (map pq_priority (takeWhile ?P xs) @ map pq_priority (dropWhile ?P xs))"
    using assms(2) by (metis map_append takeWhile_dropWhile_id)
  have d: "pq_priority e \<le> pq_priority x" if "x \<in> set (dropWhile ?P xs)" for x
    using dropped_larger [OF assms(2) that] by simp
  show "sorted (map pq_priority (spec_insert e xs))"
    using s d by (auto simp: spec_insert_def sorted_append dest: set_takeWhileD)
  show "\<forall>x \<in> set (spec_insert e xs). pq_active x \<and> pq_cycles x \<le> pq_priority x"
    using assms(1,3) by (auto simp: spec_insert_def dest: set_takeWhileD set_dropWhileD)
  have "length (takeWhile ?P xs) + length (dropWhile ?P xs) = length xs"
    by (metis length_append takeWhile_dropWhile_id)
  then show "length (spec_insert e xs) = Suc (length xs)" by (simp add: spec_insert_def)
qed


lemma insert_room:
  assumes w: "row_holds n q xs" and room: "length xs + 2 \<le> n" and e: "pq_cycles e \<le> pq_priority e"
  shows "row_holds n (insert_regs e q) (spec_insert e xs)"
proof -
  let ?P = "\<lambda>x. pq_priority x \<le> pq_priority e"
  let ?p = "length (takeWhile ?P xs)"
  obtain rest where q: "q = xs @ rest" "\<forall>b \<in> set rest. \<not> pq_active b" "length q = n"
    using w by (auto simp: row_holds_def)
  have p: "?p \<le> length xs" by (rule length_takeWhile_le)
  have td: "take ?p xs = takeWhile ?P xs" "drop ?p xs = dropWhile ?P xs"
    by (simp_all add: takeWhile_eq_take [symmetric] dropWhile_eq_drop)
  have ne: "rest \<noteq> []" using q(1,3) room by auto
  have "insert_regs e q = take ?p q @ e\<lparr>pq_active := True\<rparr> # butlast (drop ?p q)"
    using insert_split [OF split_mask [OF w]] p room q(3) by simp
  then have "insert_regs e q = spec_insert e xs @ butlast rest"
    using p td ne by (simp add: q(1) spec_insert_def butlast_append)
  moreover have "length (insert_regs e q) = n" by (simp add: insert_regs_def Let_def q(3))
  moreover have "\<forall>b \<in> set (butlast rest). \<not> pq_active b" using q(2) by (auto dest: in_set_butlastD)
  moreover have "\<forall>x \<in> set xs. pq_active x \<and> pq_cycles x \<le> pq_priority x" "sorted (map pq_priority xs)"
    using w by (simp_all add: row_holds_def)
  ultimately show ?thesis unfolding row_holds_def using spec_insert_wf(1,2) [of xs e] e by blast
qed

lemma pop_regs_shift:
  assumes "q \<noteq> []"
  shows "map (\<lambda>j. if Suc j < length q then q ! (j + 1) else q ! j) [0..<length q] = tl q @ [last q]"
proof (rule nth_equalityI)
  fix i assume "i < length (map (\<lambda>j. if Suc j < length q then q ! (j + 1) else q ! j) [0..<length q])"
  then have i: "i < length q" by simp
  show "map (\<lambda>j. if Suc j < length q then q ! (j + 1) else q ! j) [0..<length q] ! i = (tl q @ [last q]) ! i"
  proof (cases "Suc i < length q")
    case False
    then have "i = length q - 1" using i by simp
    then show ?thesis using i assms by (simp add: nth_append last_conv_nth)
  next
    case True
    then have "i < length q - 1" by simp
    then show ?thesis using True i by (simp add: nth_append nth_tl)
  qed
qed (use assms in simp)

lemma pop_room:
  assumes w: "row_holds n q xs" and ne: "xs \<noteq> []" and room: "length xs < n"
  shows "row_holds n (pop_regs q) (spec_pop xs)"
proof -
  obtain rest where q: "q = xs @ rest" "\<forall>b \<in> set rest. \<not> pq_active b" "length q = n"
    and xs: "\<forall>x \<in> set xs. pq_active x \<and> pq_cycles x \<le> pq_priority x" "sorted (map pq_priority xs)"
    using w by (auto simp: row_holds_def)
  obtain y ys where y: "xs = y # ys" using ne by (cases xs) auto
  have r: "rest \<noteq> []" using q(1,3) room by auto
  show ?thesis
  proof (cases "pq_cycles y = 0")
    case True
    then have "\<not> pq_active (pq_pop (q ! 0))" using y q(1) by (simp add: pq_pop_def)
    then have "pop_regs q = tl q @ [last q]"
      using pop_regs_shift [of q] y q(1) unfolding pop_regs_def Let_def by simp
    then have "pop_regs q = ys @ (rest @ [last rest])" using y q(1) r by simp
    moreover have "\<forall>b \<in> set (rest @ [last rest]). \<not> pq_active b" using q(2) r by auto
    ultimately show ?thesis using True xs y q(1,3) by (auto simp: row_holds_def)
  next
    case False
    then have c: "\<not> pq_cycles y < 1" using word_gt_0 [of "pq_cycles y"] by (simp add: not_less word_less_1)
    then have p: "pop_regs q = pq_pop y # ys @ rest" "pq_active (pq_pop y)" "pq_pop y = y\<lparr>pq_cycles := pq_cycles y - 1, pq_priority := pq_priority y - 1\<rparr>"
      using xs(1) y q(1) by (simp_all add: pop_regs_def pq_pop_def Let_def)
    have pr: "pq_priority y \<noteq> 0" using False xs(1) y by auto
    then have "pq_priority y - 1 \<le> pq_priority y" by (simp add: word_le_nat_alt unat_minus_one)
    moreover have "pq_cycles y - 1 \<le> pq_priority y - 1"
      using False pr xs(1) y by (simp add: word_le_nat_alt unat_minus_one diff_le_mono)
    ultimately show ?thesis using False p xs y q by (auto simp: row_holds_def)
  qed
qed

subsection \<open>The module refines the abstract queue\<close>

definition pq_rel :: "nat \<Rightarrow> priority_queue \<Rightarrow> pq_entry list \<times> pq_entry option \<Rightarrow> bool" where
  "pq_rel n st = (\<lambda>(xs, out). row_holds n (regs st) xs \<and> out_queue st = out \<and> length xs < n)"

text \<open>A client that enqueues only while two registers are free, and gives each entry at least as high a
  priority number as cycles.\<close>

fun admissible :: "nat \<Rightarrow> (pq_entry option \<times> bool) list \<Rightarrow> pq_entry list \<times> pq_entry option \<Rightarrow> bool" where
  "admissible n [] s \<longleftrightarrow> True"
| "admissible n ((enq, rdy) # is) s \<longleftrightarrow>
     (case enq of None \<Rightarrow> True | Some e \<Rightarrow> length (fst s) + 2 \<le> n \<and> pq_cycles e \<le> pq_priority e) \<and>
     admissible n is (snd (spec_cycle enq rdy s))"

lemma reset_rel: "0 < n \<Longrightarrow> pq_rel n (pq_reset n) ([], None)"
  by (simp add: pq_rel_def row_holds_def pq_reset_def pq_null_def)

lemma first_active: "row_holds n q xs \<Longrightarrow> 0 < n \<Longrightarrow> pq_active (q ! 0) \<longleftrightarrow> xs \<noteq> []" "row_holds n q xs \<Longrightarrow> xs \<noteq> [] \<Longrightarrow> q ! 0 = hd xs"
  by (cases xs; auto simp: row_holds_def nth_append)+

lemma spec_pop_length: "length (spec_pop xs) \<le> length xs"
  by (cases xs) auto

lemma cycle_refines:
  assumes rel: "pq_rel n st s" and adm: "case enq of None \<Rightarrow> True | Some e \<Rightarrow> length (fst s) + 2 \<le> n \<and> pq_cycles e \<le> pq_priority e"
  shows "fst (pq_cycle enq rdy st) = fst (spec_cycle enq rdy s) \<and> pq_rel n (snd (pq_cycle enq rdy st)) (snd (spec_cycle enq rdy s))"
proof -
  obtain xs out where s: "s = (xs, out)" by (cases s)
  have w: "row_holds n (regs st) xs" "out_queue st = out" "length xs < n" using rel by (auto simp: pq_rel_def s)
  then have n: "0 < n" by auto
  show ?thesis
  proof (cases enq)
    case (Some e)
    then have e: "length xs + 2 \<le> n" "pq_cycles e \<le> pq_priority e" using adm by (simp_all add: s)
    have "\<forall>x \<in> set xs. pq_active x \<and> pq_cycles x \<le> pq_priority x" "sorted (map pq_priority xs)"
      using w(1) by (simp_all add: row_holds_def)
    then have "length (spec_insert e xs) < n" using spec_insert_wf(3) [of xs e] e by simp
    moreover note insert_room [OF w(1) e]
    ultimately show ?thesis using Some w(2) by (simp add: pq_cycle_def spec_cycle_def Let_def s pq_rel_def)
  next
    case None
    show ?thesis
    proof (cases "xs \<noteq> [] \<and> (out = None \<or> rdy)")
      case True
      then have "pq_active (regs st ! 0)" "regs st ! 0 = hd xs" "row_holds n (pop_regs (regs st)) (spec_pop xs)"
        using first_active [OF w(1)] n pop_room [OF w(1) _ w(3)] by simp_all
      then show ?thesis using None True w spec_pop_length [of xs]
        by (simp add: pq_cycle_def spec_cycle_def Let_def s pq_rel_def)
    next
      case False
      then have "\<not> (pq_active (regs st ! 0) \<and> (out_queue st = None \<or> rdy))"
        using first_active(1) [OF w(1) n] w(2) by blast
      then have "pq_cycle None rdy st = (if rdy then out else None, \<lparr>regs = regs st, out_queue = if rdy then None else out\<rparr>)"
        unfolding pq_cycle_def Let_def option.case w(2) [symmetric] by (rule if_not_P)
      moreover have "spec_cycle None rdy s = (if rdy then out else None, xs, if rdy then None else out)"
        unfolding s spec_cycle_def Let_def prod.case option.case using False by (rule if_not_P)
      ultimately show ?thesis using None w by (simp add: pq_rel_def)
    qed
  qed
qed

lemma run_refines:
  "pq_rel n st s \<Longrightarrow> admissible n is s \<Longrightarrow>
   fst (pq_run is st) = fst (spec_run is s) \<and> pq_rel n (snd (pq_run is st)) (snd (spec_run is s))"
proof (induction n "is" s arbitrary: st rule: admissible.induct)
  case (2 n enq rdy "is" s)
  note c = cycle_refines [OF 2(2), of enq rdy]
  have "case enq of None \<Rightarrow> True | Some e \<Rightarrow> length (fst s) + 2 \<le> n \<and> pq_cycles e \<le> pq_priority e"
    "admissible n is (snd (spec_cycle enq rdy s))" using 2(3) by simp_all
  then show ?case using c 2(1) [of "snd (pq_cycle enq rdy st)"] by (simp add: case_prod_beta)
qed simp

subsection \<open>Draining\<close>

text \<open>What an entry puts on the output: itself and one more for each of its cycles.\<close>

definition burst :: "pq_entry \<Rightarrow> pq_entry list" where
  "burst x = map (\<lambda>i. (pq_pop ^^ i) x) [0..<Suc (unat (pq_cycles x))]"

lemma burst_rec:
  "burst x = (if pq_cycles x = 0 then [x] else x # burst (pq_pop x))"
proof (cases "pq_cycles x = 0")
  case False
  then have c: "\<not> pq_cycles x < 1" by (simp add: word_less_1)
  then have p: "pq_cycles (pq_pop x) = pq_cycles x - 1" by (simp add: pq_pop_def)
  then have u: "unat (pq_cycles x) = Suc (unat (pq_cycles (pq_pop x)))" using False by (simp add: unat_minus_one unat_eq_zero flip: unat_gt_0)
  have "map (\<lambda>i. (pq_pop ^^ i) x) [0..<Suc (Suc m)] = x # map (\<lambda>i. (pq_pop ^^ i) (pq_pop x)) [0..<Suc m]" for m
    by (subst upt_conv_Cons) (simp_all add: map_Suc_upt [symmetric] comp_def funpow_swap1 del: upt_Suc)
  then show ?thesis using False unfolding burst_def u by simp
qed (simp add: burst_def)

lemma drain_step:
  assumes "xs \<noteq> []"
  shows "concat (map burst xs) = hd xs # concat (map burst (spec_pop xs))"
proof (cases xs)
  case (Cons x ys)
  then show ?thesis using burst_rec [of x] by simp
qed (use assms in simp)

lemma spec_drain:
  "fst (spec_run (replicate m (None, True)) (xs, out)) =
   take m (out # map Some (concat (map burst xs)) @ replicate m None)"
proof (induction m arbitrary: xs out)
  case (Suc m)
  show ?case
  proof (cases "xs = []")
    case True
    then show ?thesis using Suc [of "[]" None] by (simp add: spec_cycle_def Let_def case_prod_beta)
  next
    case False
    then have c: "spec_cycle None True (xs, out) = (out, spec_pop xs, Some (hd xs))" by (simp add: spec_cycle_def)
    have "take m (ys @ replicate m z) = take m (ys @ z # replicate m z)" for ys and z :: "pq_entry option"
      by (simp add: take_append min_def flip: replicate_Suc)
    note t = this [of "Some (hd xs) # map Some (concat (map burst (spec_pop xs)))" None]
    show ?thesis using Suc [of "spec_pop xs" "Some (hd xs)"] t by (simp add: c case_prod_beta drain_step [OF False])
  qed
qed simp

lemma drain_admissible: "admissible n (replicate m (None, True)) s"
  by (induction m arbitrary: s) auto

lemma pq_run_append:
  "pq_run (is @ js) st = (fst (pq_run is st) @ fst (pq_run js (snd (pq_run is st))), snd (pq_run js (snd (pq_run is st))))"
  by (induction "is" arbitrary: st) (auto simp: case_prod_beta)

subsection \<open>Claims\<close>

text \<open>C36: as long as two registers are free at every insertion and no entry has more cycles than its
  priority number, the row of registers behaves as the abstract queue, cycle by cycle, whatever the
  receiver does. When the insertions have stopped and the receiver is ready, the waiting entries leave
  in ascending order of their priority number, each once more often than its cycles and all of its
  repetitions together, and then nothing more comes.\<close>

theorem priority_queue_refines:
  assumes "0 < n" "admissible n is ([], None)" "snd (spec_run is ([], None)) = (xs, out)"
  shows "fst (pq_run is (pq_reset n)) = fst (spec_run is ([], None)) \<and> sorted (map pq_priority xs) \<and>
    fst (pq_run (is @ replicate m (None, True)) (pq_reset n)) =
      fst (spec_run is ([], None)) @ take m (out # map Some (concat (map burst xs)) @ replicate m None)"
proof -
  note first = run_refines [OF reset_rel [OF assms(1)] assms(2)]
  then have rel: "pq_rel n (snd (pq_run is (pq_reset n))) (xs, out)" by (simp add: assms(3))
  then show ?thesis
    using first run_refines [OF rel drain_admissible] by (simp add: pq_run_append spec_drain pq_rel_def row_holds_def)
qed

text \<open>Three entries, inserted while the receiver waits, leave in the order 3, 1, 2: entry 1 was there before entry
  2, which has the same priority, and has one more cycle.\<close>

definition three_entries :: "(pq_entry option \<times> bool) list" where
  "three_entries = [(Some \<lparr>pq_dbuff = 1, pq_priority = 7, pq_cycles = 1, pq_active = False\<rparr>, False),
     (Some \<lparr>pq_dbuff = 2, pq_priority = 7, pq_cycles = 0, pq_active = False\<rparr>, False),
     (Some \<lparr>pq_dbuff = 3, pq_priority = 2, pq_cycles = 0, pq_active = False\<rparr>, False)]"

theorem priority_queue_refines_witness:
  "map (map_option pq_dbuff) (fst (pq_run (three_entries @ replicate 6 (None, True)) (pq_reset 8))) =
   [None, None, None] @ [None, Some 3, Some 1, Some 1, Some 2, None]"
proof -
  have p: "(0::nat) < 8" "admissible 8 three_entries ([], None)"
    by (simp_all add: three_entries_def spec_cycle_def spec_insert_def)
  obtain xs out where x: "snd (spec_run three_entries ([], None)) = (xs, out)" by fastforce
  then have xs: "map pq_dbuff (concat (map burst xs)) = [3, 1, 1, 2]" "out = None"
    by (auto simp: three_entries_def spec_cycle_def spec_insert_def burst_rec pq_pop_def)
  have c: "length (concat (map burst xs)) = 4" using arg_cong [OF xs(1), of length] by simp
  have "map (map_option pq_dbuff) (map Some (concat (map burst xs))) = map Some (map pq_dbuff (concat (map burst xs)))"
    by simp
  then have "map (map_option pq_dbuff) (map Some (concat (map burst xs))) = [Some 3, Some 1, Some 1, Some 2]"
    unfolding xs(1) by simp
  moreover have "take 6 (None # map Some (concat (map burst xs)) @ replicate 6 None) = None # map Some (concat (map burst xs)) @ [None]"
    by (simp add: c eval_nat_numeral)
  moreover have "fst (spec_run three_entries ([], None)) = [None, None, None]"
    by (simp add: three_entries_def spec_cycle_def case_prod_beta)
  ultimately show ?thesis
    using priority_queue_refines [OF p x, of 6] xs(2) by simp
qed

text \<open>A full queue: the last entry is pushed out by one that at least two others follow, and it is there twice
  when the last cycle of the first entry is sent.\<close>

lemma overflow_pushes_out:
  assumes "row_holds n (regs st) xs" "2 \<le> n" and full: "length xs = n" and l: "pq_priority e < pq_priority (xs ! (n - 2))"
  shows "regs (snd (pq_cycle (Some e) rdy st)) = butlast (spec_insert e xs)"
proof -
  let ?P = "\<lambda>x. pq_priority x \<le> pq_priority e"
  have r: "regs st = xs" "length (regs st) = n" using assms(1) full by (auto simp: row_holds_def)
  have "\<not> n - 2 < length (takeWhile ?P xs)"
  proof
    assume a: "n - 2 < length (takeWhile ?P xs)"
    then have "?P (takeWhile ?P xs ! (n - 2))" using nth_mem set_takeWhileD by fastforce
    then show False using l a by (simp add: takeWhile_nth not_le)
  qed
  then have le: "length (takeWhile ?P xs) + 2 \<le> n" using assms(2) by simp
  have "length (takeWhile ?P xs) + length (dropWhile ?P xs) = length xs" by (metis length_append takeWhile_dropWhile_id)
  then have "length (dropWhile ?P xs) \<noteq> 0" using le full by linarith
  then have ne: "dropWhile ?P xs \<noteq> []" unfolding length_0_conv .
  have td: "take (length (takeWhile ?P xs)) xs = takeWhile ?P xs" "drop (length (takeWhile ?P xs)) xs = dropWhile ?P xs"
    by (simp_all add: takeWhile_eq_take [symmetric] dropWhile_eq_drop)
  show ?thesis using insert_split [OF split_mask [OF assms(1)] _ r(2)] le ne
    by (simp add: pq_cycle_def Let_def r(1) td spec_insert_def butlast_append)
qed

lemma overflow_repeats:
  assumes "row_holds n (regs st) xs" "2 \<le> n" and full: "length xs = n" and c: "pq_cycles (hd xs) = 0"
  shows "regs (snd (pq_cycle None True st)) = tl xs @ [last xs]"
proof -
  have r: "regs st = xs" "xs \<noteq> []" using assms by (auto simp: row_holds_def)
  then have h: "xs ! 0 = hd xs" "pq_active (hd xs)" using assms(1) by (auto simp: row_holds_def hd_conv_nth)
  then have "regs (snd (pq_cycle None True st)) = pop_regs xs" by (simp add: pq_cycle_def Let_def r)
  also have "\<dots> = tl xs @ [last xs]"
    using pop_regs_shift [OF r(2)] c h(1) unfolding pop_regs_def Let_def by (simp add: pq_pop_def)
  finally show ?thesis .
qed

text \<open>the queue is always ready for an entry and cannot say that it is full: with one register still free,
  an entry that no waiting one has to make room for is taken and lost.\<close>

theorem priority_queue_loses:
  assumes "row_holds n (regs st) xs" "2 \<le> n" "n \<le> length xs + 1" "\<forall>x \<in> set xs. pq_priority x \<le> pq_priority e"
  shows "regs (snd (pq_cycle (Some e) rdy st)) = regs st \<and> length (spec_insert e xs) = length xs + 1"
proof -
  let ?P = "\<lambda>x. pq_priority x \<le> pq_priority e"
  have t: "takeWhile ?P xs = xs" "dropWhile ?P xs = []"
    using assms(4) by (simp_all add: takeWhile_eq_all_conv dropWhile_eq_Nil_conv)
  have q: "length (regs st) = n" "length xs \<le> n" using assms(1) by (auto simp: row_holds_def)
  have "insert_regs e (regs st) = regs st"
    using insert_split [OF split_mask [OF assms(1)] _ q(1)] assms(3) q(2) by (simp add: t)
  then show ?thesis by (simp add: pq_cycle_def Let_def spec_insert_def t)
qed

theorem priority_queue_loses_witness:
  "regs (snd (pq_cycle (Some \<lparr>pq_dbuff = 2, pq_priority = 9, pq_cycles = 0, pq_active = True\<rparr>) True
     \<lparr>regs = [\<lparr>pq_dbuff = 1, pq_priority = 7, pq_cycles = 0, pq_active = True\<rparr>, pq_null], out_queue = None\<rparr>)) =
   [\<lparr>pq_dbuff = 1, pq_priority = 7, pq_cycles = 0, pq_active = True\<rparr>, pq_null]"
proof -
  let ?x = "\<lparr>pq_dbuff = 1, pq_priority = 7, pq_cycles = 0, pq_active = True\<rparr>"
  let ?st = "\<lparr>regs = [?x, pq_null], out_queue = None\<rparr>"
  have "row_holds 2 (regs ?st) [?x]" by (simp add: row_holds_def pq_null_def)
  from priority_queue_loses [OF this, of "\<lparr>pq_dbuff = 2, pq_priority = 9, pq_cycles = 0, pq_active = True\<rparr>" True]
  show ?thesis by simp
qed

end
