(* ===== verification/Hw_Frame.thy ===== *)
theory Hw_Frame
  imports Hw_Delegate
begin

section \<open>Hardware: packets in frames of 64 bytes\<close>

text \<open>
  The bundle \<open>PacketFrameFactory\<close> of \<open>hw/src/main/scala/Interfaces.scala\<close>, which goes through the
  packet pipeline of the card: the headers of a packet, 64 bytes of its payload, the control block of its
  message, the queue entry that caused it, and the offset of one of the frames of 64 bytes in which it
  is transmitted. A bundle is laid out as the concatenation of its fields, the first one in the highest
  bits; the bits are a natural number here. A value of 512 bits that goes to or comes from a memory is the
  list of its bytes, the lowest first.
\<close>

subsection \<open>Fields of a bundle\<close>

text \<open>A field is its width and its value.\<close>

type_synonym fields = "(nat \<times> nat) list"

definition fld :: "'w :: len word \<Rightarrow> nat \<times> nat" where
  "fld x = (LENGTH('w), unat x)"

definition width :: "fields \<Rightarrow> nat" where
  "width fs = sum_list (map fst fs)"

primrec cat :: "fields \<Rightarrow> nat" where
  "cat [] = 0"
| "cat (f # fs) = snd f * 2 ^ width fs + cat fs"

definition bits_at :: "nat \<Rightarrow> nat \<Rightarrow> 'w :: len word" where
  "bits_at lo n = word_of_nat (n div 2 ^ lo)"

definition fits :: "fields \<Rightarrow> bool" where
  "fits fs \<longleftrightarrow> (\<forall>f \<in> set fs. snd f < 2 ^ fst f)"

lemma width_simps [simp]: "width [] = 0" "width (f # fs) = fst f + width fs" "width (a @ b) = width a + width b"
  by (simp_all add: width_def)

lemma fits_simps [simp]: "fits []" "fits (a @ b) \<longleftrightarrow> fits a \<and> fits b"
  by (auto simp: fits_def)

lemma fits_Cons: "fits (f # fs) \<longleftrightarrow> snd f < 2 ^ fst f \<and> fits fs"
  by (simp add: fits_def)

lemma fld_simps [simp]: "fst (fld (x :: 'w :: len word)) = LENGTH('w)" "snd (fld x) = unat x"
  "unat x < 2 ^ LENGTH('w)"
  by (simp_all add: fld_def)

lemma cat_append: "cat (a @ b) = cat a * 2 ^ width b + cat b"
  by (induction a) (simp_all add: algebra_simps power_add)

lemma cat_less: "fits fs \<Longrightarrow> cat fs < 2 ^ width fs"
proof (induction fs)
  case (Cons f fs)
  then have "Suc (snd f) \<le> 2 ^ fst f" by (simp add: fits_Cons)
  then have "Suc (snd f) * 2 ^ width fs \<le> 2 ^ fst f * 2 ^ width fs" by (rule mult_le_mono1)
  then show ?case using Cons by (simp add: fits_Cons power_add)
qed simp

lemma cat_div: "fits b \<Longrightarrow> cat (a @ b) div 2 ^ width b = cat a"
  using cat_less [of b] by (simp add: cat_append)

lemma slice_here:
  fixes x :: "'w :: len word"
  assumes "fits fs" "lo = width fs"
  shows "bits_at lo (cat (fld x # fs)) = x"
  using cat_less [OF assms(1)] by (simp add: bits_at_def assms(2))

lemma slice_skip:
  assumes "lo + LENGTH('w :: len) \<le> width fs"
  shows "(bits_at lo (k * 2 ^ width fs + cat fs) :: 'w word) = bits_at lo (cat fs)"
proof -
  obtain d where d: "width fs = lo + LENGTH('w) + d" using assms le_Suc_ex by blast
  have "(k * 2 ^ width fs + cat fs) div 2 ^ lo = k * 2 ^ d * 2 ^ LENGTH('w) + cat fs div 2 ^ lo"
    by (simp add: d power_add div_add1_eq mult.assoc mult.commute [of "2 ^ lo"] mult.left_commute [of _ "2 ^ lo"]
      flip: mult.assoc)
  then show ?thesis by (simp add: bits_at_def)
qed

lemma slice_peel:
  assumes "lo + LENGTH('w :: len) \<le> width fs"
  shows "(bits_at lo (cat (f # fs)) :: 'w word) = bits_at lo (cat fs)"
    "(bits_at lo (cat (pre @ fs)) :: 'w word) = bits_at lo (cat fs)"
  using slice_skip [OF assms] by (simp_all add: cat_append)

lemma fits_fld [simp]: "fits (fld x # fs) \<longleftrightarrow> fits fs"
  by (simp add: fits_Cons)

lemmas slices = slice_here slice_peel

declare cat.simps [simp del]

subsection \<open>Headers\<close>

record eth_header =
  mac_dest :: "48 word"
  mac_src :: "48 word"
  ethertype :: "16 word"

record ipv6_header =
  ip_version :: "4 word"
  ip_traffic :: "8 word"
  ip_flow :: "20 word"
  ip_payload_len :: "16 word"
  ip_next_header :: "8 word"
  ip_hop_limit :: "8 word"
  ip_saddr :: "128 word"
  ip_daddr :: "128 word"

record homa_common =
  hc_sport :: "16 word"
  hc_dport :: "16 word"
  hc_unused1 :: u32
  hc_unused2 :: u32
  hc_doff :: "8 word"
  hc_type :: "8 word"
  hc_unused3 :: "16 word"
  hc_checksum :: "16 word"
  hc_unused4 :: "16 word"
  hc_sender_id :: u64

record homa_ack =
  ack_id :: u64
  ack_sport :: "16 word"
  ack_dport :: "16 word"

record homa_segment =
  seg_offset :: u32
  seg_len :: u32
  seg_ack :: homa_ack

record homa_data =
  hd_msg_len :: u32
  hd_incoming :: u32
  hd_cutoff :: "16 word"
  hd_rexmit :: "8 word"
  hd_pad :: "8 word"
  hd_data :: homa_segment

record factory =
  pf_eth :: eth_header
  pf_ipv6 :: ipv6_header
  pf_common :: homa_common
  pf_data :: homa_data
  pf_payload :: "byte list"
  pf_cb :: msghdr_t
  pf_trigger :: queue_entry
  pf_frame_off :: u32

subsection \<open>Bundles as bits\<close>

definition eth_bits :: "eth_header \<Rightarrow> fields" where
  "eth_bits e = [fld (mac_dest e), fld (mac_src e), fld (ethertype e)]"

definition ipv6_bits :: "ipv6_header \<Rightarrow> fields" where
  "ipv6_bits i = [fld (ip_version i), fld (ip_traffic i), fld (ip_flow i), fld (ip_payload_len i), fld (ip_next_header i),
     fld (ip_hop_limit i), fld (ip_saddr i), fld (ip_daddr i)]"

definition common_bits :: "homa_common \<Rightarrow> fields" where
  "common_bits c = [fld (hc_sport c), fld (hc_dport c), fld (hc_unused1 c), fld (hc_unused2 c), fld (hc_doff c),
     fld (hc_type c), fld (hc_unused3 c), fld (hc_checksum c), fld (hc_unused4 c), fld (hc_sender_id c)]"

definition ack_bits :: "homa_ack \<Rightarrow> fields" where
  "ack_bits a = [fld (ack_id a), fld (ack_sport a), fld (ack_dport a)]"

definition segment_bits :: "homa_segment \<Rightarrow> fields" where
  "segment_bits d = [fld (seg_offset d), fld (seg_len d)] @ ack_bits (seg_ack d)"

definition data_bits :: "homa_data \<Rightarrow> fields" where
  "data_bits d = [fld (hd_msg_len d), fld (hd_incoming d), fld (hd_cutoff d), fld (hd_rexmit d), fld (hd_pad d)] @
     segment_bits (hd_data d)"

definition entry_bits :: "queue_entry \<Rightarrow> fields" where
  "entry_bits q = [fld (qe_priority q), fld (qe_granted q), fld (qe_dbuffered q), fld (qe_remaining q),
     fld (qe_dbuff_id q), fld (qe_rpc_id q)]"

definition bytes_bits :: "byte list \<Rightarrow> nat \<times> nat" where
  "bytes_bits bs = (512, of_bytes (take 64 bs))"

definition factory_bits :: "factory \<Rightarrow> fields" where
  "factory_bits p = eth_bits (pf_eth p) @ ipv6_bits (pf_ipv6 p) @ common_bits (pf_common p) @ data_bits (pf_data p) @
     [bytes_bits (pf_payload p), bytes_bits (msghdr_bytes (pf_cb p))] @ entry_bits (pf_trigger p) @ [fld (pf_frame_off p)]"

text \<open>\<open>asUInt\<close>, 2057 bits, and \<open>asTypeOf\<close>; the latter ignores bits above those of the bundle.\<close>

definition as_uint :: "factory \<Rightarrow> nat" where
  "as_uint p = cat (factory_bits p)"

definition as_eth :: "nat \<Rightarrow> eth_header" where
  "as_eth n = \<lparr>mac_dest = bits_at 64 n, mac_src = bits_at 16 n, ethertype = bits_at 0 n\<rparr>"

definition as_ipv6 :: "nat \<Rightarrow> ipv6_header" where
  "as_ipv6 n = \<lparr>ip_version = bits_at 316 n, ip_traffic = bits_at 308 n, ip_flow = bits_at 288 n, ip_payload_len = bits_at 272 n,
     ip_next_header = bits_at 264 n, ip_hop_limit = bits_at 256 n, ip_saddr = bits_at 128 n, ip_daddr = bits_at 0 n\<rparr>"

definition as_common :: "nat \<Rightarrow> homa_common" where
  "as_common n = \<lparr>hc_sport = bits_at 208 n, hc_dport = bits_at 192 n, hc_unused1 = bits_at 160 n, hc_unused2 = bits_at 128 n,
     hc_doff = bits_at 120 n, hc_type = bits_at 112 n, hc_unused3 = bits_at 96 n, hc_checksum = bits_at 80 n,
     hc_unused4 = bits_at 64 n, hc_sender_id = bits_at 0 n\<rparr>"

definition as_data :: "nat \<Rightarrow> homa_data" where
  "as_data n = \<lparr>hd_msg_len = bits_at 224 n, hd_incoming = bits_at 192 n, hd_cutoff = bits_at 176 n, hd_rexmit = bits_at 168 n,
     hd_pad = bits_at 160 n, hd_data = \<lparr>seg_offset = bits_at 128 n, seg_len = bits_at 96 n,
       seg_ack = \<lparr>ack_id = bits_at 32 n, ack_sport = bits_at 16 n, ack_dport = bits_at 0 n\<rparr>\<rparr>\<rparr>"

definition as_entry :: "nat \<Rightarrow> queue_entry" where
  "as_entry n = \<lparr>qe_priority = bits_at 86 n, qe_granted = bits_at 66 n, qe_dbuffered = bits_at 46 n, qe_remaining = bits_at 26 n,
     qe_dbuff_id = bits_at 16 n, qe_rpc_id = bits_at 0 n\<rparr>"

definition as_factory :: "nat \<Rightarrow> factory" where
  "as_factory n = \<lparr>pf_eth = as_eth (n div 2 ^ 1945), pf_ipv6 = as_ipv6 (n div 2 ^ 1625), pf_common = as_common (n div 2 ^ 1401),
     pf_data = as_data (n div 2 ^ 1145), pf_payload = le_bytes 64 (n div 2 ^ 633), pf_cb = as_msghdr (le_bytes 64 (n div 2 ^ 121)),
     pf_trigger = as_entry (n div 2 ^ 32), pf_frame_off = bits_at 0 n\<rparr>"

lemmas bits_defs = eth_bits_def ipv6_bits_def common_bits_def data_bits_def segment_bits_def ack_bits_def entry_bits_def

lemma bits_width [simp]: "width (eth_bits e) = 112" "width (ipv6_bits i) = 320" "width (common_bits c) = 224"
  "width (data_bits d) = 256" "width (entry_bits q) = 89"
  by (simp_all add: bits_defs)

lemma bits_fit [simp]: "fits (eth_bits e)" "fits (ipv6_bits i)" "fits (common_bits c)" "fits (data_bits d)" "fits (entry_bits q)"
  by (simp_all add: bits_defs)

lemma bytes_bits_simps [simp]: "fst (bytes_bits bs) = 512" "snd (bytes_bits bs) < 2 ^ 512"
proof -
  have "of_bytes (take 64 bs) < 256 ^ length (take 64 bs)" by (rule of_bytes_less)
  also have "(256 :: nat) ^ length (take 64 bs) \<le> 256 ^ 64" by (intro power_increasing) auto
  also have "(256 :: nat) ^ 64 = 2 ^ 512" by simp
  finally show "snd (bytes_bits bs) < 2 ^ 512" by (simp only: bytes_bits_def snd_conv)
qed (simp add: bytes_bits_def)

lemma fits_bytes [simp]: "fits (bytes_bits bs # fs) \<longleftrightarrow> fits fs"
  unfolding fits_Cons bytes_bits_simps(1) using bytes_bits_simps(2) by blast

text \<open>The headers are read back, whatever stands in front of them.\<close>

lemma as_eth_cat: "as_eth (cat (pre @ eth_bits e)) = e"
  by (simp add: as_eth_def eth_bits_def slices)

lemma as_ipv6_cat: "as_ipv6 (cat (pre @ ipv6_bits i)) = i"
  by (simp add: as_ipv6_def ipv6_bits_def slices)

lemma as_common_cat: "as_common (cat (pre @ common_bits c)) = c"
  by (simp add: as_common_def common_bits_def slices)

lemma as_data_cat: "as_data (cat (pre @ data_bits d)) = d"
  by (simp add: as_data_def data_bits_def segment_bits_def ack_bits_def slices)

lemma as_entry_cat: "as_entry (cat (pre @ entry_bits q)) = q"
  by (simp add: as_entry_def entry_bits_def slices)

subsection \<open>Frames\<close>

text \<open>\<open>NetworkCfg\<close> of \<open>Configuration.scala\<close>; the lengths of the headers are the widths of the bundles.\<close>

definition net_header_bytes :: nat where
  "net_header_bytes = (112 + 320 + 224 + 256) div 8"

definition net_payload_bytes :: nat where
  "net_payload_bytes = 1522 - net_header_bytes"

definition pf_seg_len :: "factory \<Rightarrow> u32" where
  "pf_seg_len p = seg_len (hd_data (pf_data p))"

definition packet_bytes :: "factory \<Rightarrow> u32" where
  "packet_bytes p = pf_seg_len p + word_of_nat net_header_bytes"

definition last_frame :: "factory \<Rightarrow> bool" where
  "last_frame p \<longleftrightarrow> word_of_nat net_header_bytes + pf_seg_len p \<le> pf_frame_off p + 64"

definition payload_offset :: "factory \<Rightarrow> u32" where
  "payload_offset p = (if pf_frame_off p \<le> 64 then 0 else pf_frame_off p - word_of_nat net_header_bytes)"

definition payload_bytes :: "factory \<Rightarrow> u32" where
  "payload_bytes p =
     (let bytes = (if pf_frame_off p = 0 then 0 else if pf_frame_off p = 64 then word_of_nat (128 - net_header_bytes) else 64)
      in if pf_seg_len p < payload_offset p + bytes then pf_seg_len p - payload_offset p else bytes)"

text \<open>\<open>keepBytes\<close>: which of the 64 bytes of a frame count.\<close>

definition keep_bytes :: "factory \<Rightarrow> bool list" where
  "keep_bytes p =
     (let end_off = word_of_nat net_header_bytes + pf_seg_len p
      in if end_off < pf_frame_off p + 64
         then map (\<lambda>i. unat (take_bit 6 (pf_frame_off p + 64 - end_off)) \<le> i) [0..<64]
         else replicate 64 True)"

definition wire_frame :: "factory \<Rightarrow> byte list" where
  "wire_frame p =
     (if pf_frame_off p = 0 then le_bytes 64 (as_uint p div 2 ^ 1545)
      else if pf_frame_off p = 64 then le_bytes 64 (as_uint p div 2 ^ 1033)
      else pf_payload p)"

lemma net_bytes [simp]: "net_header_bytes = 114" "net_payload_bytes = 1408"
  by (simp_all add: net_header_bytes_def net_payload_bytes_def)

lemma header_widths: "8 * net_header_bytes = width (eth_bits e @ ipv6_bits i @ common_bits c @ data_bits d)"
  by simp

text \<open>The frames of a packet whose segment has \<open>s\<close> bytes: their number, and where in the segment the
  payload of frame \<open>k\<close> begins and how long it is.\<close>

definition frame_count :: "nat \<Rightarrow> nat" where
  "frame_count s = (s + 113) div 64 + 1"

definition chunk_start :: "nat \<Rightarrow> nat" where
  "chunk_start k = (if k \<le> 1 then 0 else 64 * k - 114)"

definition chunk_length :: "nat \<Rightarrow> nat \<Rightarrow> nat" where
  "chunk_length s k = (if k = 0 then 0 else if k = 1 then min 14 s else min 64 (s - chunk_start k))"

definition frame_at :: "factory \<Rightarrow> nat \<Rightarrow> factory" where
  "frame_at p k = p\<lparr>pf_frame_off := word_of_nat (64 * k)\<rparr>"

lemma frame_simps [simp]: "pf_seg_len (frame_at p k) = pf_seg_len p" "pf_data (frame_at p k) = pf_data p"
  "pf_eth (frame_at p k) = pf_eth p" "pf_ipv6 (frame_at p k) = pf_ipv6 p" "pf_common (frame_at p k) = pf_common p"
  "pf_payload (frame_at p k) = pf_payload p" "pf_cb (frame_at p k) = pf_cb p" "pf_trigger (frame_at p k) = pf_trigger p"
  by (simp_all add: frame_at_def pf_seg_len_def)

lemma unat_u32: "n < 2 ^ 32 \<Longrightarrow> unat (word_of_nat n :: u32) = n"
  by (simp add: unsigned_of_nat take_bit_nat_eq_self)

lemma unat_u32_add: "unat a + n < 2 ^ 32 \<Longrightarrow> unat (a + word_of_nat n :: u32) = unat a + n"
  by (simp add: unat_word_ariths unsigned_of_nat take_bit_nat_eq_self)

lemma frame_off: "k < 2 ^ 26 \<Longrightarrow> unat (pf_frame_off (frame_at p k)) = 64 * k"
  by (simp add: frame_at_def unat_u32 del: of_nat_mult)

lemma frame_count_bound: "s < 2 ^ 20 \<Longrightarrow> frame_count s < 2 ^ 20" "1 < frame_count s"
  by (auto simp: frame_count_def)

text \<open>A segment of \<open>s\<close> bytes.\<close>

abbreviation segment_of :: "factory \<Rightarrow> nat \<Rightarrow> bool" where
  "segment_of p s \<equiv> unat (pf_seg_len p) = s \<and> s < 2 ^ 20"

lemma last_frame_iff:
  assumes "segment_of p s" "k < 2 ^ 20"
  shows "last_frame (frame_at p k) \<longleftrightarrow> frame_count s \<le> Suc k"
proof -
  have "unat (pf_frame_off (frame_at p k) + 64) = 64 * k + 64"
    using unat_u32_add [of "pf_frame_off (frame_at p k)" 64] frame_off [of k p] assms by simp
  moreover have "unat (word_of_nat 114 + pf_seg_len p) = 114 + s"
    using unat_u32_add [of "pf_seg_len p" 114] assms(1) by (simp add: add.commute)
  ultimately have "last_frame (frame_at p k) \<longleftrightarrow> 114 + s \<le> 64 * k + 64"
    by (simp add: last_frame_def word_le_nat_alt)
  also have "\<dots> \<longleftrightarrow> frame_count s \<le> Suc k" by (auto simp: frame_count_def)
  finally show ?thesis .
qed

lemma frame_small: "pf_frame_off (frame_at p 0) = 0" "pf_frame_off (frame_at p (Suc 0)) = 64"
  by (simp_all add: frame_at_def)

lemma frame_later:
  assumes "1 < k" "k < 2 ^ 20"
  shows "pf_frame_off (frame_at p k) \<noteq> 0" "pf_frame_off (frame_at p k) \<noteq> 64" "\<not> pf_frame_off (frame_at p k) \<le> 64"
  using frame_off [of k p] assms by (auto simp: word_le_nat_alt word_unat_eq_iff)

lemma payload_offset_frame:
  assumes "k < 2 ^ 20"
  shows "unat (payload_offset (frame_at p k)) = chunk_start k"
proof (cases "k \<le> 1")
  case True
  then show ?thesis using frame_off [of k p] assms by (auto simp: payload_offset_def chunk_start_def word_le_nat_alt)
next
  case False
  then have "114 \<le> 64 * k" by simp
  then show ?thesis using frame_off [of k p] assms False
    by (auto simp: payload_offset_def chunk_start_def word_le_nat_alt unat_sub)
qed

lemma chunk_start_bound: "k < frame_count s \<Longrightarrow> chunk_start k \<le> s"
  by (auto simp: frame_count_def chunk_start_def)

lemma payload_bytes_frame:
  assumes "segment_of p s" "k < frame_count s"
  shows "unat (payload_bytes (frame_at p k)) = chunk_length s k"
proof -
  have k: "k < 2 ^ 20" using assms frame_count_bound(1) [of s] by simp
  note start = payload_offset_frame [OF k, of p]
  consider "k = 0" | "k = 1" | "1 < k" by linarith
  then show ?thesis
  proof cases
    case 1
    then show ?thesis by (simp add: payload_bytes_def payload_offset_def frame_small chunk_length_def)
  next
    case 2
    then show ?thesis using assms(1)
      by (auto simp: payload_bytes_def payload_offset_def frame_small chunk_length_def word_less_nat_alt Let_def)
  next
    case 3
    have le: "chunk_start k \<le> s" by (rule chunk_start_bound) (rule assms(2))
    have "unat (payload_offset (frame_at p k) + word_of_nat 64) = chunk_start k + 64"
      using unat_u32_add [of "payload_offset (frame_at p k)" 64] start le assms(1) by simp
    moreover have "unat (pf_seg_len p - payload_offset (frame_at p k)) = s - chunk_start k"
      using start le assms(1) by (simp add: unat_sub word_le_nat_alt)
    ultimately show ?thesis using 3 frame_later [OF 3 k, of p] assms(1)
      by (auto simp: payload_bytes_def Let_def chunk_length_def word_less_nat_alt)
  qed
qed

text \<open>The chunks lie side by side and make up the segment.\<close>

lemma chunks_tile:
  assumes "Suc k < frame_count s"
  shows "chunk_start (Suc k) = chunk_start k + chunk_length s k"
  using assms by (auto simp: frame_count_def chunk_start_def chunk_length_def)

lemma last_chunk: "k + 1 = frame_count s \<Longrightarrow> chunk_start k + chunk_length s k = s"
  by (auto simp: frame_count_def chunk_start_def chunk_length_def)

text \<open>Of the last frame \<open>keepBytes\<close> marks as many bytes as it has, but the highest ones; the payload of a frame behind
  the second begins in the lowest.\<close>

lemma last_frame_keep:
  assumes "segment_of p s" "1 < k" "k + 1 = frame_count s"
  shows "keep_bytes (frame_at p k) = map (\<lambda>i. 64 - chunk_length s k \<le> i) [0..<64]"
    "wire_frame (frame_at p k) = pf_payload p"
proof -
  let ?off = "pf_frame_off (frame_at p k)" and ?l = "chunk_length s k"
  have k: "k < 2 ^ 20" using assms frame_count_bound(1) [of s] by simp
  show "wire_frame (frame_at p k) = pf_payload p" using frame_later [OF assms(2) k, of p] by (simp add: wire_frame_def)
  have start: "chunk_start k + ?l = s" "114 \<le> 64 * k" "chunk_start k = 64 * k - 114" "?l \<le> 64" "0 < ?l"
    using assms(2,3) last_chunk [OF assms(3)] by (auto simp: frame_count_def chunk_start_def chunk_length_def)
  have off: "unat (?off + 64) = 64 * k + 64"
    using unat_u32_add [of ?off 64] frame_off [of k p] k by simp
  have end_off: "unat (114 + pf_seg_len p) = 114 + s"
    using unat_u32_add [of "pf_seg_len p" 114] assms(1) by (simp add: add.commute)
  have "114 + s = 64 * k + ?l" using start by linarith
  then have less: "114 + pf_seg_len p < ?off + 64 \<longleftrightarrow> ?l < 64"
    using off end_off by (simp add: word_less_nat_alt)
  have d: "unat (?off + 64 - (114 + pf_seg_len p)) = 64 - ?l"
    using \<open>114 + s = 64 * k + ?l\<close> off end_off start(4) unat_sub [of "114 + pf_seg_len p" "?off + 64"]
    by (simp only: word_le_nat_alt)
  show "keep_bytes (frame_at p k) = map (\<lambda>i. 64 - ?l \<le> i) [0..<64]"
  proof (cases "?l < 64")
    case True
    then have "unat (take_bit 6 (?off + 64 - (114 + pf_seg_len p))) = 64 - ?l"
      using d start(5) by (simp add: unsigned_take_bit_eq take_bit_nat_eq_self)
    then show ?thesis using True less by (simp add: keep_bytes_def Let_def del: upt_rec_numeral)
  next
    case False
    then have "?l = 64" using start(4) by simp
    moreover have "map (\<lambda>i. True) [0..<64] = replicate 64 True" by (simp add: map_replicate_const del: upt_rec_numeral)
    ultimately show ?thesis using less by (simp add: keep_bytes_def Let_def del: upt_rec_numeral)
  qed
qed

end
