(* ===== verification/Hw_Stage.thy ===== *)
theory Hw_Stage
  imports Main
begin

section \<open>Hardware: pipeline stages that read a memory\<close>

text \<open>
  Three stages of \<open>hw/src/main/scala/PacketPipeline.scala\<close> (\<open>PPegressLookup\<close>, \<open>PPegressPayload\<close> and
  \<open>PPingressLookup\<close>) have the same shape: a packet is taken into a register, a request for it goes to
  a memory while the packet moves into a queue, and when the memory answers, the first packet of
  the queue and the answer go to a second register. \<open>stage_cycle\<close> is this shape, one clock cycle at a
  time, for any queue of the Chisel library: \<open>pipe\<close> says whether the first register takes a packet in
  the cycle in which it gives one away (the others always do), \<open>depth\<close> is the length of the queue. Its
  laws are proved once in the locale \<open>fetch_stage\<close>, of which each of the three stages is an interpretation.
\<close>

record ('a, 'b, 'c) stage =
  reg_0 :: "'a option"
  pending :: "'b list"
  reg_1 :: "'c option"

definition stage_reset :: "('a, 'b, 'c) stage" where
  "stage_reset = \<lparr>reg_0 = None, pending = [], reg_1 = None\<rparr>"

text \<open>The signals that a stage looks at and drives.\<close>

record ('a, 'r) stage_in =
  si_packet :: "'a option"
  si_desc_ready :: bool
  si_data :: "'r option"
  si_ready :: bool

record ('q, 'c) stage_out =
  so_ready :: bool
  so_desc :: "'q option"
  so_data_ready :: bool
  so_packet :: "'c option"

definition stage_cycle ::
    "bool \<Rightarrow> nat \<Rightarrow> ('a \<Rightarrow> 'q) \<Rightarrow> ('a \<Rightarrow> 'b) \<Rightarrow> ('b \<Rightarrow> 'r \<Rightarrow> 'c) \<Rightarrow>
     ('a, 'r) stage_in \<Rightarrow> ('a, 'b, 'c) stage \<Rightarrow> ('q, 'c) stage_out \<times> ('a, 'b, 'c) stage" where
  "stage_cycle pipe depth request keep combine i s =
     (let enq_1 = (reg_1 s = None \<or> si_ready i);
          deq_pending = (enq_1 \<and> si_data i \<noteq> None);
          fire_pending = (pending s \<noteq> [] \<and> deq_pending);
          enq_pending = (length (pending s) < depth \<or> deq_pending);
          deq_0 = (enq_pending \<and> si_desc_ready i);
          fire_0 = (reg_0 s \<noteq> None \<and> deq_0);
          enq_0 = (reg_0 s = None \<or> pipe \<and> deq_0)
      in (\<lparr>so_ready = enq_0,
           so_desc = (if fire_0 then map_option request (reg_0 s) else None),
           so_data_ready = fire_pending,
           so_packet = reg_1 s\<rparr>,
          \<lparr>reg_0 = (if enq_0 then (case si_packet i of None \<Rightarrow> if fire_0 then None else reg_0 s | Some p \<Rightarrow> Some p)
                    else if fire_0 then None else reg_0 s),
           pending = (if fire_pending then tl (pending s) else pending s) @ (if fire_0 then [keep (the (reg_0 s))] else []),
           reg_1 = (if fire_pending then Some (combine (hd (pending s)) (the (si_data i)))
                    else if si_ready i then None else reg_1 s)\<rparr>))"

text \<open>What passes the ports of a stage in a run, with the signals of each cycle.\<close>

record ('a, 'q, 'r, 'c) history =
  taken :: "'a list"
  requests :: "'q list"
  answers :: "'r list"
  given :: "'c list"

definition history_empty :: "('a, 'q, 'r, 'c) history" where
  "history_empty = \<lparr>taken = [], requests = [], answers = [], given = []\<rparr>"

definition opt_list :: "'a option \<Rightarrow> 'a list" where
  "opt_list x = (case x of None \<Rightarrow> [] | Some y \<Rightarrow> [y])"

lemma opt_list_simps [simp]: "opt_list None = []" "opt_list (Some y) = [y]" "(if b then opt_list x else []) = opt_list (if b then x else None)"
  by (simp_all add: opt_list_def)

definition record_cycle ::
    "('a, 'r) stage_in \<Rightarrow> ('q, 'c) stage_out \<Rightarrow> ('a, 'q, 'r, 'c) history \<Rightarrow> ('a, 'q, 'r, 'c) history" where
  "record_cycle i out h =
     \<lparr>taken = taken h @ (if so_ready out then opt_list (si_packet i) else []),
      requests = requests h @ opt_list (so_desc out),
      answers = answers h @ (if so_data_ready out then opt_list (si_data i) else []),
      given = given h @ (if si_ready i then opt_list (so_packet out) else [])\<rparr>"

fun stage_run ::
    "(('a, 'r) stage_in \<Rightarrow> ('a, 'b, 'c) stage \<Rightarrow> ('q, 'c) stage_out \<times> ('a, 'b, 'c) stage) \<Rightarrow>
     ('a, 'r) stage_in list \<Rightarrow> ('a, 'q, 'r, 'c) history \<times> ('a, 'b, 'c) stage \<Rightarrow> ('a, 'q, 'r, 'c) history \<times> ('a, 'b, 'c) stage" where
  "stage_run cycle [] hs = hs"
| "stage_run cycle (i # is) (h, s) =
     (case cycle i s of (out, s') \<Rightarrow> stage_run cycle is (record_cycle i out h, s'))"

locale fetch_stage =
  fixes cycle :: "('a, 'r) stage_in \<Rightarrow> ('a, 'b, 'c) stage \<Rightarrow> ('q, 'c) stage_out \<times> ('a, 'b, 'c) stage"
    and pipe :: bool and depth :: nat
    and request :: "'a \<Rightarrow> 'q" and keep :: "'a \<Rightarrow> 'b" and combine :: "'b \<Rightarrow> 'r \<Rightarrow> 'c"
  assumes cycle_stage: "cycle = stage_cycle pipe depth request keep combine"
    and depth_pos: "0 < depth"
begin

text \<open>Which packets are where: \<open>done\<close> have been requested, \<open>joined\<close> have met their answer.\<close>

definition in_order :: "('a, 'q, 'r, 'c) history \<Rightarrow> ('a, 'b, 'c) stage \<Rightarrow> bool" where
  "in_order h s \<longleftrightarrow> (\<exists>done joined.
     taken h = done @ opt_list (reg_0 s) \<and> requests h = map request done \<and>
     map keep done = joined @ pending s \<and> length joined = length (answers h) \<and>
     map2 combine joined (answers h) = given h @ opt_list (reg_1 s)) \<and> length (pending s) \<le> depth"

lemma in_order_reset: "in_order history_empty stage_reset"
  by (simp add: in_order_def history_empty_def stage_reset_def)

lemma in_order_cycle:
  assumes "in_order h s" "cycle i s = (out, s')"
  shows "in_order (record_cycle i out h) s'"
proof -
  obtain dn jn where h: "taken h = dn @ opt_list (reg_0 s)" "requests h = map request dn" "map keep dn = jn @ pending s"
    "length jn = length (answers h)" "map2 combine jn (answers h) = given h @ opt_list (reg_1 s)"
    and depth: "length (pending s) \<le> depth"
    using assms(1) unfolding in_order_def by blast
  define deq where "deq \<longleftrightarrow> (reg_1 s = None \<or> si_ready i) \<and> si_data i \<noteq> None"
  define fp where "fp \<longleftrightarrow> pending s \<noteq> [] \<and> deq"
  define f0 where "f0 \<longleftrightarrow> reg_0 s \<noteq> None \<and> (length (pending s) < depth \<or> deq) \<and> si_desc_ready i"
  have c: "so_desc out = (if f0 then map_option request (reg_0 s) else None)" "so_data_ready out = fp" "so_packet out = reg_1 s"
    "reg_0 s' = (if so_ready out \<and> si_packet i \<noteq> None then si_packet i else if f0 then None else reg_0 s)"
    "so_ready out \<Longrightarrow> f0 \<or> reg_0 s = None"
    "pending s' = (if fp then tl (pending s) else pending s) @ (if f0 then [keep (the (reg_0 s))] else [])"
    "reg_1 s' = (if fp then Some (combine (hd (pending s)) (the (si_data i))) else if si_ready i then None else reg_1 s)"
    using assms(2) unfolding cycle_stage stage_cycle_def Let_def deq_def fp_def f0_def by (auto split: option.splits)
  define dn' where "dn' = dn @ (if f0 then opt_list (reg_0 s) else [])"
  define jn' where "jn' = jn @ (if fp then [hd (pending s)] else [])"
  have "taken (record_cycle i out h) = dn' @ opt_list (reg_0 s')"
    using c(4,5) h(1) by (cases "so_ready out"; cases "si_packet i"; cases f0) (auto simp: record_cycle_def dn'_def)
  moreover have "requests (record_cycle i out h) = map request dn'"
    using c(1) h(2) by (cases "reg_0 s") (auto simp: record_cycle_def dn'_def)
  moreover have "map keep dn' = jn' @ pending s'"
    using c(6) h(3) by (cases "reg_0 s") (auto simp: dn'_def jn'_def fp_def f0_def)
  moreover have "length jn' = length (answers (record_cycle i out h))"
    using c(2) h(4) by (auto simp: record_cycle_def jn'_def fp_def deq_def)
  moreover have "map2 combine jn' (answers (record_cycle i out h)) = given (record_cycle i out h) @ opt_list (reg_1 s')"
    using c(2,3,7) h(4,5) by (cases fp; cases "si_ready i") (auto simp: record_cycle_def jn'_def fp_def deq_def)
  moreover have "length (pending s') \<le> depth"
    using c(6) depth depth_pos by (auto simp: fp_def f0_def)
  ultimately show ?thesis unfolding in_order_def by blast
qed

lemma in_order_run: "in_order h s \<Longrightarrow> stage_run cycle is (h, s) = (h', s') \<Longrightarrow> in_order h' s'"
proof (induction "is" arbitrary: h s)
  case (Cons i "is")
  obtain out s1 where c: "cycle i s = (out, s1)" by fastforce
  have "stage_run cycle is (record_cycle i out h, s1) = (h', s')" using Cons.prems(2) c by simp
  then show ?case by (rule Cons.IH [OF in_order_cycle [OF Cons.prems(1) c]])
qed simp

lemma in_orderD:
  assumes "in_order h s"
  shows "requests h = map request (take (length (requests h)) (taken h))"
    "given h = take (length (given h)) (map2 (\<lambda>p. combine (keep p)) (taken h) (answers h))"
    "length (given h) \<le> length (answers h)" "length (answers h) \<le> length (requests h)"
    "length (requests h) \<le> length (taken h)" "length (taken h) \<le> length (given h) + depth + 2"
proof -
  obtain dn jn where h: "taken h = dn @ opt_list (reg_0 s)" "requests h = map request dn" "map keep dn = jn @ pending s"
    "length jn = length (answers h)" "map2 combine jn (answers h) = given h @ opt_list (reg_1 s)"
    and depth: "length (pending s) \<le> depth"
    using assms unfolding in_order_def by blast
  show "requests h = map request (take (length (requests h)) (taken h))" using h by simp
  have jn: "jn = map keep (take (length (answers h)) dn)" using h(3,4) by (metis append_eq_conv_conj take_map)
  have len: "length dn = length (answers h) + length (pending s)" using arg_cong [OF h(3), of length] h(4) by simp
  have "map2 (\<lambda>p. combine (keep p)) (taken h) (answers h) = map2 combine jn (answers h)"
    using len unfolding jn h(1) by (intro nth_equalityI) (auto simp: nth_append)
  then show "given h = take (length (given h)) (map2 (\<lambda>p. combine (keep p)) (taken h) (answers h))" using h(5) by simp
  have out: "length (answers h) = length (given h) + length (opt_list (reg_1 s))"
    using arg_cong [OF h(5), of length] h(4) by simp
  have "length (opt_list (reg_1 s)) \<le> 1" "length (opt_list (reg_0 s)) \<le> 1" by (simp_all add: opt_list_def split: option.splits)
  then show "length (given h) \<le> length (answers h)" "length (answers h) \<le> length (requests h)"
    "length (requests h) \<le> length (taken h)" "length (taken h) \<le> length (given h) + depth + 2"
    using out len depth h(1,2) by simp_all
qed

text \<open>With a memory that answers the requests in order, a packet comes out with the answer to its own request.\<close>

lemma given_answered:
  assumes "in_order h s" "answers h = map mem (take (length (answers h)) (requests h))"
  shows "given h = map (\<lambda>p. combine (keep p) (mem (request p))) (take (length (given h)) (taken h))"
proof -
  note d = in_orderD [OF assms(1)]
  have "answers h = map mem (take (length (answers h)) (map request (take (length (requests h)) (taken h))))"
    using assms(2) d(1) by simp
  also have "\<dots> = map (\<lambda>p. mem (request p)) (take (length (answers h)) (taken h))"
    using d(4) by (simp add: take_map comp_def min_absorb1)
  finally have a: "answers h = map (\<lambda>p. mem (request p)) (take (length (answers h)) (taken h))" .
  have n: "answers h ! i = mem (request (taken h ! i))" if "i < length (answers h)" for i
    using arg_cong [OF a, of "\<lambda>xs. xs ! i"] that d(4,5) by simp
  show ?thesis
  proof (rule nth_equalityI)
    show "length (given h) = length (map (\<lambda>p. combine (keep p) (mem (request p))) (take (length (given h)) (taken h)))"
      using d(3-5) by simp
    fix i assume i: "i < length (given h)"
    then have "given h ! i = combine (keep (taken h ! i)) (answers h ! i)"
      using arg_cong [OF d(2), of "\<lambda>xs. xs ! i"] d(3-5) by simp
    then show "given h ! i = map (\<lambda>p. combine (keep p) (mem (request p))) (take (length (given h)) (taken h)) ! i"
      using i d(3-5) n [of i] by simp
  qed
qed

end

subsection \<open>Stages without a memory\<close>

text \<open>Stages with one input and one output, given by a function of the packet at the input and the \<open>ready\<close>
  of the receiver; the results are the stage's own \<open>ready\<close>, the packet at the output, and the new state. A
  run gives what was taken, what was given, and the last state.\<close>

fun port_run ::
    "('a option \<Rightarrow> bool \<Rightarrow> 's \<Rightarrow> bool \<times> 'b option \<times> 's) \<Rightarrow> ('a option \<times> bool) list \<Rightarrow> 's \<Rightarrow> 'a list \<times> 'b list \<times> 's" where
  "port_run cycle [] s = ([], [], s)"
| "port_run cycle ((packet, ready) # is) s =
     (case cycle packet ready s of (rdy, out, s1) \<Rightarrow>
        (case port_run cycle is s1 of (ins, outs, s2) \<Rightarrow>
           (opt_list (if rdy then packet else None) @ ins, opt_list (if ready then out else None) @ outs, s2)))"

text \<open>A stage that turns each packet into a list of packets: \<open>held\<close> is what it still has to give.\<close>

locale stream_stage =
  fixes cycle :: "'a option \<Rightarrow> bool \<Rightarrow> 's \<Rightarrow> bool \<times> 'b option \<times> 's"
    and produce :: "'a \<Rightarrow> 'b list" and held :: "'s \<Rightarrow> 'b list" and inv :: "'s \<Rightarrow> bool"
    and allowed :: "'a option \<Rightarrow> bool \<Rightarrow> bool"
  assumes step: "cycle packet ready s = (rdy, out, s1) \<Longrightarrow> inv s \<Longrightarrow> allowed packet ready \<Longrightarrow>
      inv s1 \<and> opt_list (if ready then out else None) @ held s1 =
        held s @ concat (map produce (opt_list (if rdy then packet else None)))"
begin

lemma run_conserves:
  "port_run cycle is s = (ins, outs, s') \<Longrightarrow> inv s \<Longrightarrow> \<forall>(packet, ready) \<in> set is. allowed packet ready \<Longrightarrow>
   inv s' \<and> outs @ held s' = held s @ concat (map produce ins)"
proof (induction "is" arbitrary: s ins outs)
  case (Cons i "is")
  obtain packet ready where i: "i = (packet, ready)" by (cases i)
  obtain rdy out s1 where c: "cycle packet ready s = (rdy, out, s1)" using prod_cases3 by blast
  obtain ins1 outs1 where r: "port_run cycle is s1 = (ins1, outs1, s')"
    "ins = opt_list (if rdy then packet else None) @ ins1" "outs = opt_list (if ready then out else None) @ outs1"
    using Cons.prems(1) i c by (auto split: prod.splits)
  note one = step [OF c Cons.prems(2)]
  then have "inv s1" "opt_list (if ready then out else None) @ held s1 =
      held s @ concat (map produce (opt_list (if rdy then packet else None)))"
    using Cons.prems(3) i by auto
  then show ?case using Cons.IH [OF r(1)] Cons.prems(3) r(2,3) by simp
qed simp

end

end
