(* ===== verification/Hw_Ram.thy ===== *)
theory Hw_Ram
  imports Hw_Delegate
begin

section \<open>Hardware: the memories of the card\<close>

text \<open>
  Modules \<open>SegmentedRamRead\<close> and \<open>SegmentedRamWrite\<close> of \<open>hw/src/main/scala/RamClient.scala\<close> and the
  memory behind them, \<open>dma_psdpram\<close> with the parameters of \<open>RtlWrappers.scala\<close>: two segments of 2048
  words of 64 bytes, of which a byte address uses one or two neighbouring words. They are shown to be
  one memory of 262144 bytes, whose addresses wrap around. Accesses are modelled one after the
  other; the registers that delay them are not. Bytes of a word of 512 bits are numbered from its
  lowest bits, and a shift by \<open>8 * k\<close> bits moves them by \<open>k\<close> places.
\<close>

subsection \<open>Accesses\<close>

record seg_ram =
  even_seg :: "11 word \<Rightarrow> nat \<Rightarrow> byte"
  odd_seg :: "11 word \<Rightarrow> nat \<Rightarrow> byte"

definition even_addr :: "18 word \<Rightarrow> 11 word" where
  "even_addr a = ucast (drop_bit 7 a) + of_bool (bit a 6)"

definition odd_addr :: "18 word \<Rightarrow> 11 word" where
  "odd_addr a = ucast (drop_bit 7 a)"

definition byte_offset :: "18 word \<Rightarrow> nat" where
  "byte_offset a = unat (take_bit 6 a)"

definition ram_read :: "seg_ram \<Rightarrow> 18 word \<Rightarrow> byte list" where
  "ram_read r a =
     (let resp = map (even_seg r (even_addr a)) [0..<64] @ map (odd_seg r (odd_addr a)) [0..<64];
          ordered = (if bit a 6 then drop 64 resp @ take 64 resp else resp)
      in take 64 (drop (byte_offset a) ordered))"

text \<open>A byte of a segment is written where its enable bit is set.\<close>

definition seg_write :: "11 word \<Rightarrow> bool list \<Rightarrow> byte list \<Rightarrow> (11 word \<Rightarrow> nat \<Rightarrow> byte) \<Rightarrow> 11 word \<Rightarrow> nat \<Rightarrow> byte" where
  "seg_write a be data seg = seg(a := (\<lambda>j. if j < 64 \<and> be ! j then data ! j else seg a j))"

definition byte_enable :: "ram_write_req \<Rightarrow> bool list" where
  "byte_enable w =
     (let ones = 128 - unat (128 - rw_len w)
      in map (\<lambda>i. byte_offset (rw_addr w) \<le> i \<and> i - byte_offset (rw_addr w) < ones) [0..<128])"

definition extended :: "ram_write_req \<Rightarrow> byte list" where
  "extended w = take 128 (replicate (byte_offset (rw_addr w)) 0 @ rw_data w @ replicate 64 0)"

definition ram_write :: "ram_write_req \<Rightarrow> seg_ram \<Rightarrow> seg_ram" where
  "ram_write w r =
     (let a = rw_addr w; ext = extended w; be = byte_enable w;
          cmd_data = (if bit a 6 then drop 64 ext @ take 64 ext else ext);
          cmd_be = (if bit a 6 then drop 64 be @ take 64 be else be)
      in \<lparr>even_seg = seg_write (even_addr a) (take 64 cmd_be) (take 64 cmd_data) (even_seg r),
          odd_seg = seg_write (odd_addr a) (drop 64 cmd_be) (drop 64 cmd_data) (odd_seg r)\<rparr>)"

definition ram_init :: seg_ram where
  "ram_init = \<lparr>even_seg = (\<lambda>_ _. 0), odd_seg = (\<lambda>_ _. 0)\<rparr>"

subsection \<open>The memory as bytes\<close>

definition ram_byte :: "seg_ram \<Rightarrow> 18 word \<Rightarrow> byte" where
  "ram_byte r b = (if bit b 6 then odd_seg r else even_seg r) (ucast (drop_bit 7 b)) (unat (take_bit 6 b))"

definition flat_read :: "(18 word \<Rightarrow> byte) \<Rightarrow> 18 word \<Rightarrow> nat \<Rightarrow> byte list" where
  "flat_read m a n = map (\<lambda>i. m (a + word_of_nat i)) [0..<n]"

definition flat_write :: "18 word \<Rightarrow> byte list \<Rightarrow> (18 word \<Rightarrow> byte) \<Rightarrow> 18 word \<Rightarrow> byte" where
  "flat_write a bs m = (\<lambda>b. if unat (b - a) < length bs then bs ! unat (b - a) else m b)"

text \<open>Blocks of 64 bytes; their number wraps around by itself.\<close>

definition block_byte :: "seg_ram \<Rightarrow> nat \<Rightarrow> nat \<Rightarrow> byte" where
  "block_byte r n = (if odd n then odd_seg r else even_seg r) (word_of_nat (n div 2))"

lemma addr_parts: "bit a 6 \<longleftrightarrow> odd (unat a div 64)" "ucast (drop_bit 7 a) = (word_of_nat (unat a div 64 div 2) :: 11 word)"
  "unat (take_bit 6 a) = unat a mod 64" for a :: "18 word"
proof -
  show "bit a 6 \<longleftrightarrow> odd (unat a div 64)"
    using bit_unsigned_iff [where 'a = nat, of a 6] bit_iff_odd [of "unat a" 6] by auto
  have "unat (drop_bit 7 a) = unat a div 64 div 2" 
    by (simp only: unat_drop_bit_eq) (simp add: drop_bit_eq_div flip: div_mult2_eq)
  then have "(word_of_nat (unat (drop_bit 7 a)) :: 11 word) = word_of_nat (unat a div 64 div 2)" by simp
  then show "ucast (drop_bit 7 a) = (word_of_nat (unat a div 64 div 2) :: 11 word)" by simp
  show "unat (take_bit 6 a) = unat a mod 64" by (simp only: unsigned_take_bit_eq) (simp add: take_bit_eq_mod)
qed

lemma ram_byte_block: "ram_byte r b = block_byte r (unat b div 64) (unat b mod 64)"
  by (simp add: ram_byte_def block_byte_def addr_parts)

lemma block_byte_wrap: "block_byte r (n mod 4096) = block_byte r n"
proof -
  have "n mod 4096 div 2 = n div 2 mod 2048" using div_mult2_eq [of n] mod_mult2_eq [of n 2 2048] by simp
  then have "(word_of_nat (n mod 4096 div 2) :: 11 word) = word_of_nat (n div 2)"
    by (simp add: word_unat_eq_iff unsigned_of_nat take_bit_eq_mod)
  moreover have "odd (n mod 4096) \<longleftrightarrow> odd n" by (simp add: dvd_mod_iff)
  ultimately show ?thesis by (simp add: block_byte_def)
qed

lemma unat_18: "unat (word_of_nat n :: 18 word) = n mod 262144"
  by (simp add: unsigned_of_nat take_bit_eq_mod)

lemma ram_byte_of_nat: "ram_byte r (word_of_nat n) = block_byte r (n div 64) (n mod 64)"
proof -
  have "n mod 262144 div 64 = n div 64 mod 4096" using mod_mult2_eq [of n 64 4096] by simp
  moreover have "n mod 262144 mod 64 = n mod 64" by (simp add: mod_mod_cancel)
  ultimately show ?thesis by (simp add: ram_byte_block unat_18 block_byte_wrap)
qed

lemma ram_byte_add: "ram_byte r (a + word_of_nat i) = block_byte r ((unat a + i) div 64) ((unat a + i) mod 64)"
  using ram_byte_of_nat [of r "unat a + i"] by simp

subsection \<open>Reading and writing\<close>

lemma ram_words: "(if bit a 6 then map (odd_seg r (odd_addr a)) [0..<64] @ map (even_seg r (even_addr a)) [0..<64]
     else map (even_seg r (even_addr a)) [0..<64] @ map (odd_seg r (odd_addr a)) [0..<64]) =
   map (block_byte r (unat a div 64)) [0..<64] @ map (block_byte r (Suc (unat a div 64))) [0..<64]"
  by (auto simp: even_addr_def odd_addr_def addr_parts block_byte_def add.commute elim!: oddE)

lemma window_nth:
  assumes "k < 64" "i < 64"
  shows "take 64 (drop k (map f [0..<64] @ map g [0..<64])) ! i = (if k + i < 64 then f (k + i) else g (k + i - 64))"
proof -
  let ?xs = "map f [0..<64] @ map g [0..<64]"
  have "take 64 (drop k ?xs) ! i = ?xs ! (k + i)" using assms by (simp del: upt_rec_numeral drop_append)
  then show ?thesis using assms by (simp add: nth_append del: upt_rec_numeral)
qed

lemma block_step:
  fixes x :: nat
  assumes "i < 64"
  shows "(x + i) div 64 = (if x mod 64 + i < 64 then x div 64 else Suc (x div 64))"
    "(x + i) mod 64 = (if x mod 64 + i < 64 then x mod 64 + i else x mod 64 + i - 64)"
proof -
  let ?k = "x mod 64"
  have x: "x + i = (?k + i) + 64 * (x div 64)" by simp
  have "(x + i) div 64 = x div 64 + (?k + i) div 64" "(x + i) mod 64 = (?k + i) mod 64"
    using div_mult_self2 [of 64 "?k + i" "x div 64"] mod_mult_self2 [of "?k + i" 64 "x div 64"]
    unfolding x [symmetric] by simp_all
  moreover have "(?k + i) div 64 = (if ?k + i < 64 then 0 else 1)" "(?k + i) mod 64 = (if ?k + i < 64 then ?k + i else ?k + i - 64)"
    using assms by (auto simp: le_div_geq le_mod_geq not_less)
  ultimately show "(x + i) div 64 = (if x mod 64 + i < 64 then x div 64 else Suc (x div 64))"
    "(x + i) mod 64 = (if x mod 64 + i < 64 then x mod 64 + i else x mod 64 + i - 64)" by simp_all
qed

lemma ram_read_flat: "ram_read r a = flat_read (ram_byte r) a 64"
proof (rule nth_equalityI)
  let ?n = "unat a div 64" and ?k = "unat a mod 64"
  have k: "byte_offset a = ?k" "?k < 64" by (simp_all add: byte_offset_def addr_parts)
  have w: "ram_read r a = take 64 (drop ?k (map (block_byte r ?n) [0..<64] @ map (block_byte r (Suc ?n)) [0..<64]))"
    unfolding ram_words [symmetric] by (simp add: ram_read_def Let_def k del: upt_rec_numeral)
  then show "length (ram_read r a) = length (flat_read (ram_byte r) a 64)" using k by (simp add: flat_read_def)
  fix i assume "i < length (ram_read r a)"
  then have i: "i < 64" using w k by (simp del: upt_rec_numeral)
  have "ram_read r a ! i = (if ?k + i < 64 then block_byte r ?n (?k + i) else block_byte r (Suc ?n) (?k + i - 64))"
    unfolding w using k(2) i by (rule window_nth)
  then show "ram_read r a ! i = flat_read (ram_byte r) a 64 ! i"
    using i by (simp add: flat_read_def ram_byte_add block_step [OF i] del: upt_rec_numeral)
qed

lemma seg_part:
  assumes "length xs = 128" "j < 64"
  shows "take 64 (if b then drop 64 xs @ take 64 xs else xs) ! j = xs ! (if b then 64 + j else j)"
    "drop 64 (if b then drop 64 xs @ take 64 xs else xs) ! j = xs ! (if b then j else 64 + j)"
  using assms by (auto simp: nth_append)

lemma seg_addr_eq:
  assumes "n < 4096"
  shows "(word_of_nat (n div 2) :: 11 word) = word_of_nat (e div 2) \<longleftrightarrow> n div 2 = e div 2 mod 2048"
  using assms by (simp add: word_unat_eq_iff unsigned_of_nat take_bit_eq_mod)

lemma half_eq: "odd n \<longleftrightarrow> odd e \<Longrightarrow> n < 4096 \<Longrightarrow> n div 2 = e div 2 mod 2048 \<longleftrightarrow> n = e mod 4096" for n e :: nat
proof -
  assume "odd n \<longleftrightarrow> odd e"
  then have "n mod 2 = e mod 2" by (simp add: parity_cases mod2_eq_if)
  moreover define q x r where "q = n div 2" "x = e div 2 mod 2048" "r = e mod 2"
  ultimately have "n = 2 * q + r" using mult_div_mod_eq [of 2 n] by metis
  moreover have "e mod 4096 = 2 * x + r" using mod_mult2_eq [of e 2 2048] by (simp add: q_x_r_def)
  ultimately show ?thesis unfolding q_x_r_def(1,2) [symmetric] by linarith
qed

text \<open>The even and the odd one of the two blocks at an address.\<close>

lemma seg_addrs:
  fixes a :: "18 word"
  defines "m \<equiv> unat a div 64"
  shows "even_addr a = word_of_nat ((if even m then m else Suc m) div 2)"
    "odd_addr a = word_of_nat ((if odd m then m else Suc m) div 2)"
  by (auto simp: even_addr_def odd_addr_def addr_parts m_def add.commute elim!: oddE)

lemma extended_nth:
  assumes "length (rw_data w) = 64" "i < 128"
  shows "length (extended w) = 128" "byte_offset (rw_addr w) \<le> i \<Longrightarrow> i < byte_offset (rw_addr w) + 64 \<Longrightarrow>
     extended w ! i = rw_data w ! (i - byte_offset (rw_addr w))"
  using assms by (auto simp: extended_def nth_append)

lemma byte_enable_nth:
  assumes "rw_len w \<le> 64" "i < 128"
  shows "length (byte_enable w) = 128"
    "byte_enable w ! i \<longleftrightarrow> byte_offset (rw_addr w) \<le> i \<and> i < byte_offset (rw_addr w) + unat (rw_len w)"
proof -
  have "unat (128 - rw_len w) = 128 - unat (rw_len w)" "unat (rw_len w) \<le> 64"
    using assms(1) by (simp_all add: unat_sub word_le_nat_alt)
  then show "length (byte_enable w) = 128"
    "byte_enable w ! i \<longleftrightarrow> byte_offset (rw_addr w) \<le> i \<and> i < byte_offset (rw_addr w) + unat (rw_len w)"
    using assms(2) by (auto simp: byte_enable_def)
qed

text \<open>What a write does to the two blocks at its address, and that it leaves the others alone.\<close>

lemma seg_select:
  assumes "length xs = 128" "j < 64"
  shows "(if p then drop 64 (if b then drop 64 xs @ take 64 xs else xs) else take 64 (if b then drop 64 xs @ take 64 xs else xs)) ! j =
     xs ! (if b \<longleftrightarrow> p then j else 64 + j)"
  using seg_part [OF assms, of b] by auto

lemma block_write:
  assumes len: "rw_len w \<le> 64" "length (rw_data w) = 64" and j: "j < 64" and n: "n < 4096"
  defines "m \<equiv> unat (rw_addr w) div 64" and "k \<equiv> unat (rw_addr w) mod 64" and "l \<equiv> unat (rw_len w)"
  shows "block_byte (ram_write w r) n j =
    (if n = m \<and> k \<le> j \<and> j < k + l then rw_data w ! (j - k)
     else if n = Suc m mod 4096 \<and> 64 + j < k + l then rw_data w ! (64 + j - k)
     else block_byte r n j)"
proof -
  let ?a = "rw_addr w"
  have k: "byte_offset ?a = k" "k < 64" by (simp_all add: byte_offset_def addr_parts k_def)
  have l: "l \<le> 64" using len(1) by (simp add: l_def word_le_nat_alt)
  have be: "byte_enable w ! i \<longleftrightarrow> k \<le> i \<and> i < k + l" and ext: "k \<le> i \<Longrightarrow> i < k + l \<Longrightarrow> extended w ! i = rw_data w ! (i - k)"
    if "i < 128" for i
    using that byte_enable_nth [OF len(1) that] extended_nth [OF len(2) that] k l by (simp_all add: l_def)
  have part: "length (byte_enable w) = 128" "length (extended w) = 128"
    using byte_enable_nth(1) [OF len(1), of 0] extended_nth(1) [OF len(2), of 0] by simp_all
  have m: "m < 4096" "bit ?a 6 \<longleftrightarrow> odd m"
  proof -
    have "unat ?a < 2 ^ LENGTH(18)" by (rule unsigned_less)
    then show "m < 4096" by (simp add: m_def)
  qed (simp add: addr_parts m_def)
  define e where "e = (if odd m \<longleftrightarrow> odd n then m else Suc m)"
  have e: "odd n \<longleftrightarrow> odd e" by (simp add: e_def)
  let ?i = "if e = m then j else 64 + j"
  have seg: "block_byte (ram_write w r) n = seg_write (word_of_nat (e div 2)) 
      (if odd n then drop 64 (if odd m then drop 64 (byte_enable w) @ take 64 (byte_enable w) else byte_enable w)
       else take 64 (if odd m then drop 64 (byte_enable w) @ take 64 (byte_enable w) else byte_enable w))
      (if odd n then drop 64 (if odd m then drop 64 (extended w) @ take 64 (extended w) else extended w)
       else take 64 (if odd m then drop 64 (extended w) @ take 64 (extended w) else extended w))
      (if odd n then odd_seg r else even_seg r) (word_of_nat (n div 2))"
    using e by (simp add: block_byte_def ram_write_def Let_def m(2) seg_addrs [of ?a, folded m_def] e_def)
  have i: "?i = (if odd m \<longleftrightarrow> odd n then j else 64 + j)" by (simp add: e_def)
  have same: "(word_of_nat (n div 2) :: 11 word) = word_of_nat (e div 2) \<longleftrightarrow> n = e mod 4096"
    using seg_addr_eq [OF n] half_eq [OF e n] by simp
  have "block_byte (ram_write w r) n j =
    (if n = e mod 4096 \<and> byte_enable w ! ?i then extended w ! ?i else block_byte r n j)"
  proof (cases "(word_of_nat (n div 2) :: 11 word) = word_of_nat (e div 2)")
    case True
    then show ?thesis unfolding same [symmetric] seg seg_write_def i using j
      by (simp add: seg_select part block_byte_def)
  next
    case False
    then show ?thesis unfolding same [symmetric] seg seg_write_def by (simp add: block_byte_def)
  qed
  note bytes = this
  have odd: "odd (Suc m mod 4096) \<longleftrightarrow> even m" by (simp add: dvd_mod_iff)
  show ?thesis
  proof (cases "odd m \<longleftrightarrow> odd n")
    case True
    then have "n \<noteq> Suc m mod 4096" "e = m" using odd by (auto simp: e_def)
    then show ?thesis using bytes be [of j] ext [of j] m(1) j by auto
  next
    case False
    then have "n \<noteq> m" "e = Suc m" by (auto simp: e_def)
    then show ?thesis using bytes be [of "64 + j"] ext [of "64 + j"] k(2) j by auto
  qed
qed

lemma distance:
  fixes m n j k l :: nat
  assumes "m < 4096" "n < 4096" "j < 64" "k < 64" "l \<le> 64"
  defines "d \<equiv> if 64 * m + k \<le> 64 * n + j then 64 * n + j - (64 * m + k) else 64 * n + j + 262144 - (64 * m + k)"
  shows "d < l \<longleftrightarrow> n = m \<and> k \<le> j \<and> j < k + l \<or> n = Suc m mod 4096 \<and> 64 + j < k + l"
    "n = m \<Longrightarrow> k \<le> j \<Longrightarrow> d = j - k"
    "n = Suc m mod 4096 \<Longrightarrow> 64 + j < k + l \<Longrightarrow> d = 64 + j - k"
proof -
  have wrap: "Suc m mod 4096 = (if m = 4095 then 0 else Suc m)" using assms(1) by simp
  show "d < l \<longleftrightarrow> n = m \<and> k \<le> j \<and> j < k + l \<or> n = Suc m mod 4096 \<and> 64 + j < k + l"
  proof (cases "n = m \<or> n = Suc m \<or> m = 4095 \<and> n = 0")
    case True
    then show ?thesis using assms(1-5) unfolding wrap d_def by auto
  next
    case False
    then show ?thesis using assms(1-5) unfolding wrap d_def by (simp split: if_splits) linarith
  qed
  show "d = j - k" if "n = m" "k \<le> j" using that unfolding d_def by simp
  show "d = 64 + j - k" if "n = Suc m mod 4096" "64 + j < k + l"
    using that assms(1-5) unfolding wrap d_def by (cases "m = 4095") auto
qed

lemma unat_minus_18: "unat (b - a) = (if unat a \<le> unat b then unat b - unat a else unat b + 262144 - unat a)" for a b :: "18 word"
  by (simp add: unat_sub_if')

text \<open>The refinement: reading and writing the segments is reading and writing a memory of bytes.\<close>

lemma ram_write_flat:
  assumes "rw_len w \<le> 64" "length (rw_data w) = 64"
  shows "ram_byte (ram_write w r) = flat_write (rw_addr w) (take (unat (rw_len w)) (rw_data w)) (ram_byte r)"
proof
  fix b :: "18 word"
  let ?m = "unat (rw_addr w) div 64" and ?k = "unat (rw_addr w) mod 64" and ?n = "unat b div 64" and ?j = "unat b mod 64"
  let ?l = "unat (rw_len w)"
  have bound: "?m < 4096" "?n < 4096"
    using unsigned_less [of "rw_addr w", where 'a = nat] unsigned_less [of b, where 'a = nat] by (simp_all add: div_less_iff_less_mult)
  have l: "?l \<le> 64" using assms(1) by (simp add: word_le_nat_alt)
  have "unat (b - rw_addr w) = (if 64 * ?m + ?k \<le> 64 * ?n + ?j then 64 * ?n + ?j - (64 * ?m + ?k)
      else 64 * ?n + ?j + 262144 - (64 * ?m + ?k))"
    by (simp add: unat_minus_18)
  note d = distance [OF bound, of ?j ?k ?l, folded this, OF _ _ l]
  show "ram_byte (ram_write w r) b = flat_write (rw_addr w) (take ?l (rw_data w)) (ram_byte r) b"
    using block_write [OF assms, of ?j ?n r] d l bound assms(2)
    by (auto simp: ram_byte_block flat_write_def)
qed

text \<open>Reading behind what was just written, and before.\<close>

lemma flat_read_write:
  assumes "n + length bs \<le> 2 ^ 18"
  shows "flat_read (flat_write a bs m) (a - word_of_nat n) (n + length bs) = flat_read m (a - word_of_nat n) n @ bs"
proof (rule nth_equalityI)
  fix i assume "i < length (flat_read (flat_write a bs m) (a - word_of_nat n) (n + length bs))"
  then have i: "i < n + length bs" by (simp add: flat_read_def)
  have d: "unat ((a - word_of_nat n + word_of_nat i) - a) = (if i < n then 2 ^ 18 + i - n else i - n)"
  proof (cases "i < n")
    case True
    then have "a - word_of_nat n + word_of_nat i - a = word_of_nat (2 ^ 18 + i - n)"
      using assms by (simp add: of_nat_diff)
    from arg_cong [OF this, of unat] show ?thesis using True assms by (simp add: unat_18 del: of_nat_add of_nat_diff)
  next
    case False
    then have "a - word_of_nat n + word_of_nat i - a = word_of_nat (i - n)" by (simp add: of_nat_diff)
    from arg_cong [OF this, of unat] show ?thesis using False assms i by (simp add: unat_18 del: of_nat_add of_nat_diff)
  qed
  show "flat_read (flat_write a bs m) (a - word_of_nat n) (n + length bs) ! i = (flat_read m (a - word_of_nat n) n @ bs) ! i"
    using i assms d by (auto simp: flat_read_def flat_write_def nth_append)
qed (simp add: flat_read_def)

lemma length_flat_read [simp]: "length (flat_read m a n) = n"
  by (simp add: flat_read_def)

subsection \<open>Properties\<close>

text \<open>C33: The two segments with the clients in front of them are one memory of 262144 bytes: a read at
  any address, aligned or not, gives the 64 bytes from there on, and a write of at most 64 bytes
  changes exactly the bytes it has, where addresses wrap around at the end of the memory.\<close>

theorem segmented_ram_flat:
  assumes "rw_len w \<le> 64" "length (rw_data w) = 64"
  shows "ram_byte (ram_write w r) = flat_write (rw_addr w) (take (unat (rw_len w)) (rw_data w)) (ram_byte r) \<and>
     ram_read r a = flat_read (ram_byte r) a 64"
  using ram_write_flat [OF assms] ram_read_flat by simp

text \<open>Fourteen bytes across the end of the memory.\<close>

definition demo_write :: ram_write_req where
  "demo_write = \<lparr>rw_addr = 0x3FFF8, rw_len = 14, rw_data = map word_of_nat [1..<65]\<rparr>"

theorem segmented_ram_flat_witness:
  "ram_byte (ram_write demo_write ram_init) 0x3FFFF = 8 \<and> ram_byte (ram_write demo_write ram_init) 0 = 9 \<and>
   ram_byte (ram_write demo_write ram_init) 6 = 0 \<and>
   ram_read (ram_write demo_write ram_init) 0 = flat_read (ram_byte (ram_write demo_write ram_init)) 0 64"
proof -
  have w: "rw_len demo_write \<le> 64" "length (rw_data demo_write) = 64" by (simp_all add: demo_write_def)
  have z: "ram_byte ram_init b = 0" for b by (simp add: ram_byte_def ram_init_def)
  show ?thesis using segmented_ram_flat [OF w, of ram_init]
      segmented_ram_flat [of "\<lparr>rw_addr = 0, rw_len = 0, rw_data = replicate 64 0\<rparr>" "ram_write demo_write ram_init" 0]
    by (simp add: flat_write_def z) (simp add: demo_write_def)
qed

end
