(* ===== verification/Hw_Egress.thy ===== *)
theory Hw_Egress
  imports Hw_Frame Hw_Stage Hw_Ram
begin

section \<open>Hardware: from a message to frames\<close>

text \<open>
  The five stages of \<open>PPegressStages\<close> in \<open>hw/src/main/scala/PacketPipeline.scala\<close>: the control block of
  the message is looked up, the headers are filled in, the packet is repeated for each of its frames,
  each frame gets its 64 bytes of payload from the cache, and is sent. Each stage is modelled one
  clock cycle at a time; what it does to the packets that pass its ports is a function on lists, and
  these functions are composed.
\<close>

record ram_read_req =
  rr_addr :: "18 word"
  rr_len :: "8 word"

subsection \<open>\<open>PPegressLookup\<close>\<close>

definition null_factory :: factory where
  "null_factory = as_factory 0"

definition lookup_request :: "queue_entry \<Rightarrow> ram_read_req" where
  "lookup_request q = \<lparr>rr_addr = word_of_nat (64 * unat (qe_rpc_id q)), rr_len = 64\<rparr>"

definition with_trigger :: "queue_entry \<Rightarrow> factory" where
  "with_trigger q = null_factory\<lparr>pf_trigger := q\<rparr>"

definition with_cb :: "factory \<Rightarrow> byte list \<Rightarrow> factory" where
  "with_cb p bs = p\<lparr>pf_cb := as_msghdr bs\<rparr>"

definition egress_lookup_cycle where
  "egress_lookup_cycle = stage_cycle False 8 lookup_request with_trigger with_cb"

interpretation elk: fetch_stage egress_lookup_cycle False 8 lookup_request with_trigger with_cb
  by unfold_locales (simp_all add: egress_lookup_cycle_def)

subsection \<open>\<open>PPegressCtor\<close>\<close>

definition construct :: "factory \<Rightarrow> factory" where
  "construct p =
     (let remaining = qe_remaining (pf_trigger p);
          len = (if word_of_nat net_payload_bytes < remaining then word_of_nat net_payload_bytes else ucast remaining);
          off = mh_buff_size (pf_cb p) - remaining
      in p\<lparr>pf_eth := \<lparr>mac_dest = 0xFFFFFFFFF, mac_src = 0xDEADBEEFD, ethertype = 0x86DD\<rparr>,
           pf_ipv6 := \<lparr>ip_version = 6, ip_traffic = 0, ip_flow = 0xFFFF, ip_payload_len = 0, ip_next_header = 0xFD,
             ip_hop_limit = 0, ip_saddr = mh_saddr (pf_cb p), ip_daddr = mh_daddr (pf_cb p)\<rparr>,
           pf_common := (pf_common p)\<lparr>hc_sport := mh_sport (pf_cb p), hc_dport := mh_dport (pf_cb p), hc_doff := 160,
             hc_type := 0x10, hc_checksum := 0, hc_sender_id := mh_id (pf_cb p)\<rparr>,
           pf_data := (pf_data p)\<lparr>hd_data := \<lparr>seg_offset = ucast off, seg_len = len,
             seg_ack = \<lparr>ack_id = 0, ack_sport = 0, ack_dport = 0\<rparr>\<rparr>\<rparr>\<rparr>)"

record two_regs =
  tr_0 :: "factory option"
  tr_1 :: "factory option"

definition ctor_cycle :: "factory option \<Rightarrow> bool \<Rightarrow> two_regs \<Rightarrow> bool \<times> factory option \<times> two_regs" where
  "ctor_cycle packet ready s =
     (let enq_1 = (tr_1 s = None \<or> ready);
          enq_0 = (tr_0 s = None \<or> enq_1)
      in (enq_0, tr_1 s,
          \<lparr>tr_0 = (if enq_0 then packet else tr_0 s),
           tr_1 = (if enq_1 then map_option construct (tr_0 s) else tr_1 s)\<rparr>))"

subsection \<open>\<open>PPegressDupe\<close>\<close>

text \<open>The counter goes up in every cycle, whether or not the second register takes the frame.\<close>

record dupe =
  du_0 :: "factory option"
  du_1 :: "factory option"
  du_off :: u32

definition dupe_reset :: dupe where
  "dupe_reset = \<lparr>du_0 = None, du_1 = None, du_off = 0\<rparr>"

definition dupe_cycle :: "factory option \<Rightarrow> bool \<Rightarrow> dupe \<Rightarrow> bool \<times> factory option \<times> dupe" where
  "dupe_cycle packet ready s =
     (let enq_1 = (du_1 s = None \<or> ready);
          deq_0 = (case du_0 s of None \<Rightarrow> False | Some p \<Rightarrow> enq_1 \<and> packet_bytes p - 64 \<le> du_off s);
          enq_0 = (du_0 s = None \<or> deq_0)
      in (enq_0, du_1 s,
          \<lparr>du_0 = (if enq_0 then packet else du_0 s),
           du_1 = (if enq_1 then map_option (\<lambda>p. p\<lparr>pf_frame_off := du_off s\<rparr>) (du_0 s) else du_1 s),
           du_off = (if enq_0 \<and> packet \<noteq> None then 0 else du_off s + 64)\<rparr>))"

subsection \<open>\<open>PPegressPayload\<close>\<close>

text \<open>\<open>CacheCfg\<close>: lines of 16384 bytes, one for each buffer.\<close>

definition payload_request :: "factory \<Rightarrow> ram_read_req" where
  "payload_request p =
     (let segment = ucast (mh_buff_size (pf_cb p) - qe_remaining (pf_trigger p))
      in \<lparr>rr_addr = word_of_nat (unat (qe_dbuff_id (pf_trigger p)) * 2 ^ 14 + unat (segment + payload_offset p) mod 16384),
          rr_len = ucast (payload_bytes p)\<rparr>)"

definition with_payload :: "factory \<Rightarrow> byte list \<Rightarrow> factory" where
  "with_payload p bs = p\<lparr>pf_payload := bs\<rparr>"

definition egress_payload_cycle where
  "egress_payload_cycle = stage_cycle True 8 payload_request (\<lambda>p. p) with_payload"

interpretation epl: fetch_stage egress_payload_cycle True 8 payload_request "\<lambda>p. p" with_payload
  by unfold_locales (simp_all add: egress_payload_cycle_def)

subsection \<open>\<open>PPegressXmit\<close>\<close>

text \<open>A transfer on the stream to the network: data, \<open>tkeep\<close> and \<open>tlast\<close>.\<close>

record beat =
  t_data :: "byte list"
  t_keep :: "bool list"
  t_last :: bool

definition transmit :: "factory \<Rightarrow> beat" where
  "transmit p = \<lparr>t_data = wire_frame p, t_keep = keep_bytes p, t_last = last_frame p\<rparr>"

definition xmit_cycle :: "factory option \<Rightarrow> bool \<Rightarrow> factory option \<Rightarrow> bool \<times> beat option \<times> factory option" where
  "xmit_cycle packet ready s =
     (let enq = (s = None \<or> ready) in (enq, map_option transmit s, if enq then packet else s))"

subsection \<open>Order of the packets\<close>

interpretation ctr: stream_stage ctor_cycle "\<lambda>p. [construct p]" "\<lambda>s. opt_list (tr_1 s) @ map construct (opt_list (tr_0 s))"
    "\<lambda>_. True" "\<lambda>_ _. True"
  by unfold_locales (auto simp: ctor_cycle_def Let_def opt_list_def split: option.splits if_splits)

interpretation xmt: stream_stage xmit_cycle "\<lambda>p. [transmit p]" "\<lambda>s. map transmit (opt_list s)" "\<lambda>_. True" "\<lambda>_ _. True"
  by unfold_locales (auto simp: xmit_cycle_def Let_def opt_list_def split: option.splits if_splits)

text \<open>The frames of a packet.\<close>

definition frames :: "factory \<Rightarrow> factory list" where
  "frames p = map (frame_at p) [0..<frame_count (unat (pf_seg_len p))]"

definition segment_ok :: "factory \<Rightarrow> bool" where
  "segment_ok p \<longleftrightarrow> unat (pf_seg_len p) < 2 ^ 20"

definition dupe_held :: "dupe \<Rightarrow> factory list" where
  "dupe_held s = opt_list (du_1 s) @
     (case du_0 s of None \<Rightarrow> [] | Some p \<Rightarrow> drop (unat (du_off s) div 64) (frames p))"

definition dupe_inv :: "dupe \<Rightarrow> bool" where
  "dupe_inv s \<longleftrightarrow> (case du_0 s of None \<Rightarrow> True
     | Some p \<Rightarrow> segment_ok p \<and> (\<exists>k. du_off s = word_of_nat (64 * k) \<and> k < frame_count (unat (pf_seg_len p))))"

definition dupe_allowed :: "factory option \<Rightarrow> bool \<Rightarrow> bool" where
  "dupe_allowed packet ready \<longleftrightarrow> ready \<and> (case packet of None \<Rightarrow> True | Some p \<Rightarrow> segment_ok p)"

lemma last_off:
  assumes "segment_ok p" "k < 2 ^ 20"
  shows "packet_bytes p - 64 \<le> word_of_nat (64 * k) \<longleftrightarrow> frame_count (unat (pf_seg_len p)) \<le> Suc k"
proof -
  let ?s = "unat (pf_seg_len p)"
  have "unat (packet_bytes p) = ?s + 114"
    using unat_u32_add [of "pf_seg_len p" 114] assms(1) by (simp add: packet_bytes_def segment_ok_def)
  then have "unat (packet_bytes p - 64) = ?s + 50" by (simp add: unat_sub word_le_nat_alt)
  then have "packet_bytes p - 64 \<le> word_of_nat (64 * k) \<longleftrightarrow> ?s + 50 \<le> 64 * k"
    using unat_u32 [of "64 * k"] assms(2) by (simp add: word_le_nat_alt del: of_nat_mult)
  then show ?thesis by (auto simp: frame_count_def)
qed

text \<open>What a cycle does while frame \<open>k\<close> of packet \<open>p\<close> is next.\<close>

definition sending :: "dupe \<Rightarrow> factory \<Rightarrow> nat \<Rightarrow> bool" where
  "sending s p k \<longleftrightarrow> du_0 s = Some p \<and> segment_ok p \<and> du_off s = word_of_nat (64 * k) \<and> k < frame_count (unat (pf_seg_len p))"

lemma sending_inv: "sending s p k \<Longrightarrow> dupe_inv s"
  by (auto simp: dupe_inv_def sending_def)

lemma sending_bound: "sending s p k \<Longrightarrow> k < 2 ^ 20"
  using frame_count_bound(1) [of "unat (pf_seg_len p)"] by (simp add: sending_def segment_ok_def)

lemma off_div: "k \<le> 2 ^ 20 \<Longrightarrow> unat (word_of_nat (64 * k) :: u32) div 64 = k"
  using unat_u32 [of "64 * k"] by (simp del: of_nat_mult)

lemma dupe_cycle_sending:
  assumes "sending s p k"
  shows "Suc k < frame_count (unat (pf_seg_len p)) \<Longrightarrow> dupe_cycle packet True s =
      (False, du_1 s, \<lparr>du_0 = Some p, du_1 = Some (frame_at p k), du_off = word_of_nat (64 * Suc k)\<rparr>)"
    "Suc k = frame_count (unat (pf_seg_len p)) \<Longrightarrow> dupe_cycle packet True s =
      (True, du_1 s, \<lparr>du_0 = packet, du_1 = Some (frame_at p k),
        du_off = (if packet \<noteq> None then 0 else word_of_nat (64 * Suc k))\<rparr>)"
    "du_1 s \<noteq> None \<Longrightarrow> dupe_cycle packet False s = (False, du_1 s, s\<lparr>du_off := word_of_nat (64 * Suc k)\<rparr>)"
proof -
  note d = sending_def dupe_cycle_def frame_at_def algebra_simps
  note last = last_off [OF _ sending_bound [OF assms], of p]
  show "dupe_cycle packet True s = (True, du_1 s, \<lparr>du_0 = packet, du_1 = Some (frame_at p k),
      du_off = (if packet \<noteq> None then 0 else word_of_nat (64 * Suc k))\<rparr>)"
    if "Suc k = frame_count (unat (pf_seg_len p))"
    using assms last that [symmetric] by (auto simp: d)
qed (use assms last_off [OF _ sending_bound [OF assms], of p] in
  \<open>auto simp: sending_def dupe_cycle_def frame_at_def algebra_simps\<close>)

lemma frames_drop:
  assumes "sending s p k"
  shows "drop k (frames p) = frame_at p k # drop (Suc k) (frames p)" "length (frames p) = frame_count (unat (pf_seg_len p))"
proof -
  show len: "length (frames p) = frame_count (unat (pf_seg_len p))" by (simp add: frames_def)
  show "drop k (frames p) = frame_at p k # drop (Suc k) (frames p)"
    using assms len by (simp add: sending_def Cons_nth_drop_Suc [symmetric]) (simp add: frames_def)
qed

lemma dupe_invE:
  assumes "dupe_inv s" "du_0 s = Some p"
  obtains k where "sending s p k" "dupe_held s = opt_list (du_1 s) @ drop k (frames p)"
proof -
  obtain k where k: "sending s p k" using assms by (auto simp: dupe_inv_def sending_def)
  have "unat (du_off s) div 64 = k" using k off_div [of k] sending_bound [OF k] by (simp add: sending_def del: of_nat_mult)
  then show ?thesis using that [OF k] assms(2) by (simp add: dupe_held_def)
qed

lemma dupe_inv_new: "dupe_allowed packet ready \<Longrightarrow> dupe_inv \<lparr>du_0 = packet, du_1 = out, du_off = if packet \<noteq> None then 0 else off\<rparr>"
  by (auto simp: dupe_inv_def dupe_allowed_def frame_count_def intro!: exI [of _ 0] split: option.splits)

interpretation dup: stream_stage dupe_cycle frames dupe_held dupe_inv dupe_allowed
proof unfold_locales
  fix packet ready s rdy out s1
  assume c: "dupe_cycle packet ready s = (rdy, out, s1)" and inv: "dupe_inv s" and ok: "dupe_allowed packet ready"
  have ready: "ready" using ok by (simp add: dupe_allowed_def)
  show "dupe_inv s1 \<and> opt_list (if ready then out else None) @ dupe_held s1 =
        dupe_held s @ concat (map frames (opt_list (if rdy then packet else None)))"
  proof (cases "du_0 s")
    case None
    have "s1 = \<lparr>du_0 = packet, du_1 = None, du_off = if packet \<noteq> None then 0 else du_off s + 64\<rparr>" "rdy" "out = du_1 s"
      using c None ready by (auto simp: dupe_cycle_def)
    then show ?thesis using None ready dupe_inv_new [OF ok] by (auto simp: dupe_held_def split: option.splits)
  next
    case (Some p)
    obtain k where k: "sending s p k" "dupe_held s = opt_list (du_1 s) @ drop k (frames p)"
      by (rule dupe_invE [OF inv Some])
    note fr = frames_drop [OF k(1)]
    show ?thesis
    proof (cases "Suc k = frame_count (unat (pf_seg_len p))")
      case True
      then show ?thesis using c ready dupe_cycle_sending(2) [OF k(1) True] dupe_inv_new [OF ok] k(2) fr
        by (auto simp: dupe_held_def split: option.splits)
    next
      case False
      then have more: "Suc k < frame_count (unat (pf_seg_len p))" using k(1) by (simp add: sending_def)
      then have s1: "s1 = \<lparr>du_0 = Some p, du_1 = Some (frame_at p k), du_off = word_of_nat (64 * Suc k)\<rparr>"
        and out: "\<not> rdy" "out = du_1 s" using c ready dupe_cycle_sending(1) [OF k(1) more] by simp_all
      have "dupe_held s1 = frame_at p k # drop (Suc k) (frames p)"
        using off_div [of "Suc k"] sending_bound [OF k(1)] by (simp add: s1 dupe_held_def del: of_nat_mult)
      moreover have "dupe_inv s1" using k(1) more unfolding s1 dupe_inv_def sending_def by (auto intro!: exI [of _ "Suc k"])
      ultimately show ?thesis using k(2) fr(1) ready out by simp
    qed
  qed
qed

lemma port_run_append:
  "port_run cycle (is @ is') s = (case port_run cycle is s of (ins, outs, s1) \<Rightarrow>
     (case port_run cycle is' s1 of (ins', outs', s2) \<Rightarrow> (ins @ ins', outs @ outs', s2)))"
  by (induction cycle "is" s rule: port_run.induct) (auto split: prod.splits)

text \<open>Without new packets, what is held comes out.\<close>

definition idle :: "nat \<Rightarrow> (factory option \<times> bool) list" where
  "idle n = replicate n (None, True)"

definition dupe_left :: "dupe \<Rightarrow> nat" where
  "dupe_left s = (case du_0 s of None \<Rightarrow> 0 | Some p \<Rightarrow> length (drop (unat (du_off s) div 64) (frames p)))"

lemma idle_step:
  assumes "dupe_inv s" "dupe_cycle None True s = (rdy, out, s1)"
  shows "dupe_inv s1 \<and> (if du_0 s = None then du_0 s1 = None \<and> du_1 s1 = None else dupe_left s1 < dupe_left s)"
proof (cases "du_0 s")
  case None
  then show ?thesis using assms(2) by (auto simp: dupe_cycle_def dupe_inv_def)
next
  case (Some p)
  have inv: "dupe_inv s1" using dup.step [OF assms(2,1)] by (simp add: dupe_allowed_def)
  obtain k where k: "sending s p k" "dupe_held s = opt_list (du_1 s) @ drop k (frames p)"
    by (rule dupe_invE [OF assms(1) Some])
  have left: "dupe_left s = length (frames p) - k"
    using k(1) off_div [of k] sending_bound [OF k(1)] by (simp add: dupe_left_def sending_def del: of_nat_mult)
  have len: "k < length (frames p)" "length (frames p) = frame_count (unat (pf_seg_len p))"
    using frames_drop(2) [OF k(1)] k(1) by (simp_all add: sending_def)
  have "dupe_left s1 < dupe_left s"
  proof (cases "Suc k = frame_count (unat (pf_seg_len p))")
    case True
    then have "du_0 s1 = None" using dupe_cycle_sending(2) [OF k(1) True, of None] assms(2) by auto
    then show ?thesis using len unfolding left by (simp add: dupe_left_def)
  next
    case False
    then have "s1 = \<lparr>du_0 = Some p, du_1 = Some (frame_at p k), du_off = word_of_nat (64 * Suc k)\<rparr>"
      using dupe_cycle_sending(1) [OF k(1), of None] len assms(2) by auto
    then have "dupe_left s1 = length (frames p) - Suc k"
      using off_div [of "Suc k"] sending_bound [OF k(1)] by (simp add: dupe_left_def del: of_nat_mult)
    then show ?thesis using len unfolding left by simp
  qed
  then show ?thesis using Some inv by simp
qed

lemma idle_run:
  "dupe_inv s \<Longrightarrow> (if du_0 s = None \<and> du_1 s = None then True else dupe_left s < n) \<Longrightarrow>
   port_run dupe_cycle (idle n) s = (ins, outs, s') \<Longrightarrow> du_0 s' = None \<and> du_1 s' = None"
proof (induction n arbitrary: s ins outs)
  case 0
  then show ?case by (simp add: idle_def split: if_splits)
next
  case (Suc n)
  obtain rdy out s1 where c: "dupe_cycle None True s = (rdy, out, s1)" using prod_cases3 by blast
  then obtain ins1 outs1 where r: "port_run dupe_cycle (idle n) s1 = (ins1, outs1, s')"
    using Suc.prems(3) by (auto simp: idle_def split: prod.splits)
  note st = idle_step [OF Suc.prems(1) c]
  then have "if du_0 s1 = None \<and> du_1 s1 = None then True else dupe_left s1 < n"
    using Suc.prems(2) by (auto split: if_splits)
  then show ?case using Suc.IH [OF _ _ r] st by blast
qed

lemma idle_allowed: "\<forall>(packet, ready) \<in> set (idle n). dupe_allowed packet ready"
  by (simp add: idle_def dupe_allowed_def)

lemma idle_gives:
  assumes "dupe_inv s" "length (dupe_held s) < n"
  shows "\<exists>s'. port_run dupe_cycle (idle n) s = ([], dupe_held s, s') \<and> du_0 s' = None \<and> du_1 s' = None"
proof -
  obtain ins outs s' where r: "port_run dupe_cycle (idle n) s = (ins, outs, s')" using prod_cases3 by blast
  have "dupe_left s \<le> length (dupe_held s)" by (auto simp: dupe_left_def dupe_held_def split: option.splits)
  then have e: "du_0 s' = None \<and> du_1 s' = None" using idle_run [OF assms(1) _ r] assms(2) by auto
  have "ins = []" using r
    by (induction n arbitrary: s ins outs) (auto simp: idle_def split: prod.splits)
  then show ?thesis using dup.run_conserves [OF r assms(1) idle_allowed] r e by (simp add: dupe_held_def)
qed

text \<open>The first \<open>j\<close> cycles of a packet.\<close>

lemma idle_Suc: "idle (Suc n) = idle n @ [(None, True)]"
  by (simp add: idle_def replicate_append_same)

lemma sending_prefix:
  assumes "segment_ok p" "j < length (frames p)"
  shows "port_run dupe_cycle (idle j) \<lparr>du_0 = Some p, du_1 = None, du_off = 0\<rparr> =
     ([], take (j - 1) (frames p), \<lparr>du_0 = Some p, du_1 = (if j = 0 then None else Some (frames p ! (j - 1))),
        du_off = word_of_nat (64 * j)\<rparr>)"
  using assms(2)
proof (induction j)
  case 0
  then show ?case by (simp add: idle_def)
next
  case (Suc j)
  let ?s = "\<lparr>du_0 = Some p, du_1 = (if j = 0 then None else Some (frames p ! (j - 1))), du_off = word_of_nat (64 * j)\<rparr>"
  have k: "sending ?s p j" using Suc.prems assms(1) by (simp add: sending_def frames_def)
  have "take (j - 1) (frames p) @ opt_list (du_1 ?s) = take j (frames p)"
    using Suc.prems by (cases j) (simp_all add: take_Suc_conv_app_nth)
  moreover have "frames p ! j = frame_at p j" using Suc.prems by (simp add: frames_def)
  ultimately show ?case
    using Suc dupe_cycle_sending(1) [OF k, of None]
    by (simp add: idle_Suc port_run_append frames_def del: of_nat_mult)
qed

text \<open>A packet with 15 bytes of payload has three frames.\<close>

definition small_packet :: "u32 \<Rightarrow> factory" where
  "small_packet len = null_factory\<lparr>pf_data := (pf_data null_factory)\<lparr>hd_data := (hd_data (pf_data null_factory))\<lparr>seg_len := len\<rparr>\<rparr>\<rparr>"

lemma small_packet_len [simp]: "pf_seg_len (small_packet len) = len"
  by (simp add: small_packet_def pf_seg_len_def)

lemma small_packet_frames: "frames (small_packet 15) = map (frame_at (small_packet 15)) [0, 1, 2]"
proof -
  have "[0..<3] = [0, 1, 2 :: nat]" by (simp add: upt_rec)
  then show ?thesis by (simp add: frames_def frame_count_def del: upt_rec_numeral)
qed

lemma small_packet_count: "length (frames (small_packet 15)) = 3"
  by (simp add: small_packet_frames)

subsection \<open>Properties\<close>

text \<open>C30: Whatever the memory, the receiver and the sender do with their signals, \<open>PPegressPayload\<close> loses no packet
  and mixes none up: it asks the memory for the payload of every packet in turn, and if the memory
  answers in order, the packets come out in order, each with the answer to its own request. At most
  ten of them are on their way.\<close>

theorem egress_payload_in_order:
  assumes "stage_run egress_payload_cycle is (history_empty, stage_reset) = (h, s)"
    "answers h = map mem (take (length (answers h)) (requests h))"
  shows "requests h = map payload_request (take (length (requests h)) (taken h)) \<and>
     given h = map (\<lambda>p. with_payload p (mem (payload_request p))) (take (length (given h)) (taken h)) \<and>
     length (requests h) \<le> length (taken h) \<and> length (taken h) \<le> length (given h) + 10"
proof -
  have o: "epl.in_order h s" by (rule epl.in_order_run [OF epl.in_order_reset assms(1)])
  show ?thesis using epl.given_answered [OF o assms(2)] epl.in_orderD(1,5,6) [OF o] by simp
qed

text \<open>Two packets, of which the second waits in the first register until the memory is ready.\<close>

definition payload_cycle_in :: "factory option \<Rightarrow> bool \<Rightarrow> byte list option \<Rightarrow> (factory, byte list) stage_in" where
  "payload_cycle_in packet desc data = \<lparr>si_packet = packet, si_desc_ready = desc, si_data = data, si_ready = True\<rparr>"

definition payload_demo :: "(factory, byte list) stage_in list" where
  "payload_demo = [payload_cycle_in (Some (small_packet 15)) True None, payload_cycle_in (Some (small_packet 16)) True None,
     payload_cycle_in None False (Some (replicate 64 1)), payload_cycle_in None True None,
     payload_cycle_in None True (Some (replicate 64 1)), payload_cycle_in None True None]"

theorem egress_payload_in_order_witness:
  "given (fst (stage_run egress_payload_cycle payload_demo (history_empty, stage_reset))) =
     [with_payload (small_packet 15) (replicate 64 1), with_payload (small_packet 16) (replicate 64 1)]"
proof -
  obtain h s where r: "stage_run egress_payload_cycle payload_demo (history_empty, stage_reset) = (h, s)" by fastforce
  then have h: "taken h = [small_packet 15, small_packet 16]" "length (given h) = 2"
    "answers h = [replicate 64 1, replicate 64 1]" "length (requests h) = 2"
    by (auto simp: payload_demo_def payload_cycle_in_def egress_payload_cycle_def stage_cycle_def history_empty_def stage_reset_def
      record_cycle_def opt_list_def Let_def)
  have "answers h = map (\<lambda>_. replicate 64 1) (take (length (answers h)) (requests h))"
    using h(3,4) by (intro nth_equalityI) (auto simp: nth_Cons split: nat.splits)
  then show ?thesis using egress_payload_in_order [OF r, of "\<lambda>_. replicate 64 1"] r h(1,2) by simp
qed

text \<open>C31: If its receiver is always ready, \<open>PPegressDupe\<close> turns every packet it takes into its frames, from the
  first to the last, in order and without gaps; and when no further packet comes, the frames it still
  holds come out in as many cycles and one more.\<close>

theorem dupe_frames:
  assumes "port_run dupe_cycle is dupe_reset = (ins, outs, s)"
    "\<forall>(packet, ready) \<in> set is. ready \<and> (\<forall>p. packet = Some p \<longrightarrow> unat (pf_seg_len p) < 2 ^ 20)"
  shows "\<exists>rest. outs @ rest = concat (map frames ins) \<and>
     (\<forall>n > length rest. \<exists>s'. port_run dupe_cycle (is @ idle n) dupe_reset = (ins, concat (map frames ins), s'))"
proof -
  have ok: "\<forall>(packet, ready) \<in> set is. dupe_allowed packet ready"
    using assms(2) by (auto simp: dupe_allowed_def segment_ok_def split: option.splits)
  have "dupe_inv dupe_reset" "dupe_held dupe_reset = []" by (simp_all add: dupe_inv_def dupe_held_def dupe_reset_def)
  then have c: "dupe_inv s" "outs @ dupe_held s = concat (map frames ins)" using dup.run_conserves [OF assms(1) _ ok] by simp_all
  show ?thesis
  proof (intro exI [of _ "dupe_held s"] conjI allI impI c(2))
    fix n assume "length (dupe_held s) < n"
    then show "\<exists>s'. port_run dupe_cycle (is @ idle n) dupe_reset = (ins, concat (map frames ins), s')"
      using idle_gives [OF c(1)] assms(1) c(2) by (fastforce simp: port_run_append)
  qed
qed

theorem dupe_frames_witness:
  "\<exists>s'. port_run dupe_cycle ([(Some (small_packet 15), True)] @ idle 5) dupe_reset =
     ([small_packet 15], frames (small_packet 15), s') \<and> length (frames (small_packet 15)) = 3"
proof -
  have r: "port_run dupe_cycle [(Some (small_packet 15), True)] dupe_reset =
      ([small_packet 15], [], \<lparr>du_0 = Some (small_packet 15), du_1 = None, du_off = 0\<rparr>)"
    by (simp add: dupe_cycle_def dupe_reset_def)
  obtain rest where "rest = frames (small_packet 15)" "\<forall>n > length rest. \<exists>s'. port_run dupe_cycle
      ([(Some (small_packet 15), True)] @ idle n) dupe_reset = ([small_packet 15], frames (small_packet 15), s')"
    using dupe_frames [OF r] by auto
  then show ?thesis using small_packet_count by simp
qed

text \<open>C32: If the receiver is not ready in one cycle while a frame is being sent, \<open>PPegressDupe\<close> drops a frame:
  the counter moves on although the frame did not. With a stall in the cycle in which frame \<open>j\<close> of a packet
  should follow, all frames but this one come out.\<close>

theorem dupe_stall:
  assumes "unat (pf_seg_len p) < 2 ^ 20" "0 < j" "Suc j < length (frames p)" "length (frames p) \<le> n"
  shows "fst (snd (port_run dupe_cycle ([(Some p, True)] @ idle j @ [(None, False)] @ idle n) dupe_reset)) =
     take j (frames p) @ drop (Suc j) (frames p)"
proof -
  have ok: "segment_ok p" using assms(1) by (simp add: segment_ok_def)
  let ?s = "\<lparr>du_0 = Some p, du_1 = Some (frames p ! (j - 1)), du_off = word_of_nat (64 * j)\<rparr>"
  let ?t = "?s\<lparr>du_off := word_of_nat (64 * Suc j)\<rparr>"
  have first: "port_run dupe_cycle [(Some p, True)] dupe_reset = ([p], [], \<lparr>du_0 = Some p, du_1 = None, du_off = 0\<rparr>)"
    by (simp add: dupe_cycle_def dupe_reset_def)
  have run: "port_run dupe_cycle (idle j) \<lparr>du_0 = Some p, du_1 = None, du_off = 0\<rparr> = ([], take (j - 1) (frames p), ?s)"
    using sending_prefix [OF ok, of j] assms(2,3) by simp
  have k: "sending ?s p j" "sending ?t p (Suc j)" using assms(3) ok by (simp_all add: sending_def frames_def)
  have stall: "port_run dupe_cycle [(None, False)] ?s = ([], [], ?t)"
    using dupe_cycle_sending(3) [OF k(1), of None] by simp
  have "dupe_held ?t = frames p ! (j - 1) # drop (Suc j) (frames p)"
    using off_div [of "Suc j"] sending_bound [OF k(1)] by (simp add: dupe_held_def del: of_nat_mult)
  moreover note sending_inv [OF k(2)]
  ultimately obtain s' where "port_run dupe_cycle (idle n) ?t = ([], frames p ! (j - 1) # drop (Suc j) (frames p), s')"
  proof -
    have "length (frames p ! (j - 1) # drop (Suc j) (frames p)) < n" using assms(2-4) by simp
    then show ?thesis using that idle_gives [of ?t n] \<open>dupe_inv ?t\<close> \<open>dupe_held ?t = _\<close> by metis
  qed
  note last = this
  have "take (j - 1) (frames p) @ frames p ! (j - 1) # drop (Suc j) (frames p) = take j (frames p) @ drop (Suc j) (frames p)"
    using assms(2,3) by (cases j) (simp_all add: take_Suc_conv_app_nth)
  then show ?thesis by (simp only: port_run_append first run stall last prod.case append_Nil fst_conv snd_conv)
qed

theorem dupe_stall_witness:
  "fst (snd (port_run dupe_cycle ([(Some (small_packet 15), True)] @ idle 1 @ [(None, False)] @ idle 3) dupe_reset)) =
     [frame_at (small_packet 15) 0, frame_at (small_packet 15) 2]"
  by (subst dupe_stall [of "small_packet 15" 1 3]) (simp_all add: small_packet_frames)

end
