(* ===== verification/Hw_Ingress.thy ===== *)
theory Hw_Ingress
  imports Hw_Egress
begin

section \<open>Hardware: from frames to the memory of the host\<close>

text \<open>
  The stages of \<open>PPingressStages\<close> in \<open>hw/src/main/scala/PacketPipeline.scala\<close>: the headers are put
  together again from the first two frames of a packet (\<open>PPingressDtor\<close>), a control block is looked up
  (\<open>PPingressMap\<close> passes packets through), and the payload is written to a memory on the card, from which
  requests for DMA bring it to the host (\<open>PPingressPayload\<close>). What the two outer stages do to the
  packets that pass is a function of their registers and of one packet, which the cycles apply to one
  packet after the other.
\<close>

subsection \<open>\<open>PPingressDtor\<close>\<close>

text \<open>The register \<open>buffer\<close> is the number that its 2057 bits make.\<close>

record dtor =
  dt_buffered :: u32
  dt_buffer :: nat

definition dtor_reset :: "nat \<Rightarrow> dtor" where
  "dtor_reset uninit = \<lparr>dt_buffered = 0, dt_buffer = uninit\<rparr>"

definition dtor_beat :: "beat \<Rightarrow> dtor \<Rightarrow> factory option \<times> dtor" where
  "dtor_beat b s =
     (let tdata = of_bytes (t_data b);
          off = dt_buffered s;
          first = tdata * 2 ^ 1545;
          second = (dt_buffer s div 2 ^ 1545) * 2 ^ 1545 + tdata * 2 ^ 1033;
          bits = (if off = 64 then as_factory second else (as_factory (dt_buffer s))\<lparr>pf_payload := t_data b\<rparr>)
      in (if off = 0 then None else Some (bits\<lparr>pf_frame_off := off\<rparr>),
          \<lparr>dt_buffered = (if t_last b then 0 else off + 64),
           dt_buffer = (if off = 0 then first else if off = 64 then second else dt_buffer s)\<rparr>))"

definition dtor_cycle :: "beat option \<Rightarrow> bool \<Rightarrow> dtor \<Rightarrow> bool \<times> factory option \<times> dtor" where
  "dtor_cycle ingress ready s =
     (ready,
      (case ingress of Some b \<Rightarrow> if ready then fst (dtor_beat b s) else None | None \<Rightarrow> None),
      (case ingress of Some b \<Rightarrow> if ready then snd (dtor_beat b s) else s | None \<Rightarrow> s))"

subsection \<open>\<open>PPingressLookup\<close>\<close>

definition control_request :: "factory \<Rightarrow> ram_read_req" where
  "control_request p = \<lparr>rr_addr = word_of_nat (64 * unat (mh_id (pf_cb p))), rr_len = 64\<rparr>"

definition ingress_lookup_cycle where
  "ingress_lookup_cycle = stage_cycle True 18 control_request (\<lambda>p. p) with_cb"

interpretation ilk: fetch_stage ingress_lookup_cycle True 18 control_request "\<lambda>p. p" with_cb
  by unfold_locales (simp_all add: ingress_lookup_cycle_def)

subsection \<open>\<open>PPingressPayload\<close>\<close>

record ipay =
  ram_head :: "18 word"
  buff_bytes :: "18 word"

definition ipay_reset :: ipay where
  "ipay_reset = \<lparr>ram_head = 0, buff_bytes = 0\<rparr>"

text \<open>The payload of the second frame is moved down to the lowest bytes.\<close>

definition payload_data :: "factory \<Rightarrow> byte list" where
  "payload_data p =
     (if pf_frame_off p = 64
      then (let d = (if payload_bytes p \<le> 64 then 64 - unat (payload_bytes p) else 64)
            in drop d (pf_payload p) @ replicate d 0)
      else pf_payload p)"

definition write_limit :: "dynamic_configuration \<Rightarrow> nat" where
  "write_limit cfg = 2 * 2 ^ unat (log_write_size cfg - 1)"

definition ipay_packet ::
    "dynamic_configuration \<Rightarrow> factory \<Rightarrow> ipay \<Rightarrow> (ram_write_req option \<times> dma_req option) \<times> ipay" where
  "ipay_packet cfg p s =
     (let n = ucast (payload_bytes p);
          curr = buff_bytes s + n;
          flush = (write_limit cfg \<le> unat curr \<or> last_frame p)
      in ((if pf_frame_off p \<noteq> 0
           then Some \<lparr>rw_addr = ram_head s, rw_len = ucast (payload_bytes p), rw_data = payload_data p\<rparr> else None,
           if flush
           then Some \<lparr>dr_pcie_addr = ucast (seg_offset (hd_data (pf_data p)) + payload_offset p - ucast (buff_bytes s)),
             dr_ram_sel = 0, dr_ram_addr = ram_head s - buff_bytes s, dr_len = ucast curr, dr_tag = 0,
             dr_port = hc_dport (pf_common p)\<rparr>
           else None),
          \<lparr>ram_head = (if flush \<and> 131072 < ram_head s then 0 else ram_head s + n),
           buff_bytes = (if flush then 0 else curr)\<rparr>))"

text \<open>In a cycle in which the DMA core is ready the packet in the register is dealt with; the result
  is what is then written and requested.\<close>

record ingress_payload =
  ip_reg :: "factory option"
  ip_state :: ipay

definition ipay_cycle ::
    "dynamic_configuration \<Rightarrow> factory option \<Rightarrow> bool \<Rightarrow> ingress_payload \<Rightarrow>
     bool \<times> (ram_write_req option \<times> dma_req option) option \<times> ingress_payload" where
  "ipay_cycle cfg packet dma_ready s =
     (let enq = (ip_reg s = None \<or> dma_ready);
          result = map_option (\<lambda>p. ipay_packet cfg p (ip_state s)) (ip_reg s)
      in (enq, map_option fst result,
          \<lparr>ip_reg = (if enq then packet else ip_reg s),
           ip_state = (case result of Some (_, s') \<Rightarrow> if dma_ready then s' else ip_state s | None \<Rightarrow> ip_state s)\<rparr>))"

subsection \<open>Packet by packet\<close>

fun dtor_stream :: "beat list \<Rightarrow> dtor \<Rightarrow> factory list \<times> dtor" where
  "dtor_stream [] s = ([], s)"
| "dtor_stream (b # bs) s =
     (case dtor_beat b s of (out, s1) \<Rightarrow> (case dtor_stream bs s1 of (outs, s2) \<Rightarrow> (opt_list out @ outs, s2)))"

fun ipay_stream ::
    "dynamic_configuration \<Rightarrow> factory list \<Rightarrow> ipay \<Rightarrow> (ram_write_req option \<times> dma_req option) list \<times> ipay" where
  "ipay_stream cfg [] s = ([], s)"
| "ipay_stream cfg (p # ps) s =
     (case ipay_packet cfg p s of (out, s1) \<Rightarrow> (case ipay_stream cfg ps s1 of (outs, s2) \<Rightarrow> (out # outs, s2)))"

text \<open>The run of a stage after its first cycle.\<close>

lemma port_run_Cons:
  assumes "port_run cycle (i # is) s = (ins, outs, s')"
  obtains packet ready rdy out s1 ins1 outs1 where "i = (packet, ready)" "cycle packet ready s = (rdy, out, s1)"
    "port_run cycle is s1 = (ins1, outs1, s')" "ins = opt_list (if rdy then packet else None) @ ins1"
    "outs = opt_list (if ready then out else None) @ outs1"
  using assms by (cases i) (auto split: prod.splits)

lemma dtor_cycles: "port_run dtor_cycle is s = (ins, outs, s') \<Longrightarrow> dtor_stream ins s = (outs, s')"
proof (induction "is" arbitrary: s ins outs)
  case (Cons i "is")
  obtain packet ready rdy out s1 ins1 outs1 where c: "dtor_cycle packet ready s = (rdy, out, s1)"
    "port_run dtor_cycle is s1 = (ins1, outs1, s')" "ins = opt_list (if rdy then packet else None) @ ins1"
    "outs = opt_list (if ready then out else None) @ outs1"
    using Cons.prems by (rule port_run_Cons)
  show ?case using c(1,3,4) Cons.IH [OF c(2)]
    by (auto simp: dtor_cycle_def opt_list_def split: option.splits if_splits prod.splits)
qed simp

lemma ipay_stream_append:
  "ipay_stream cfg (ps @ qs) s = (case ipay_stream cfg ps s of (outs, s1) \<Rightarrow>
     (case ipay_stream cfg qs s1 of (outs', s2) \<Rightarrow> (outs @ outs', s2)))"
  by (induction ps arbitrary: s) (auto split: prod.splits)

lemma ipay_cycles:
  "port_run (ipay_cycle cfg) is s = (ins, outs, s') \<Longrightarrow>
   \<exists>ps. opt_list (ip_reg s) @ ins = ps @ opt_list (ip_reg s') \<and> ipay_stream cfg ps (ip_state s) = (outs, ip_state s')"
proof (induction "is" arbitrary: s ins outs)
  case Nil
  then show ?case by (intro exI [of _ "[]"]) simp
next
  case (Cons i "is")
  obtain packet ready rdy out s1 ins1 outs1 where c: "ipay_cycle cfg packet ready s = (rdy, out, s1)"
    "port_run (ipay_cycle cfg) is s1 = (ins1, outs1, s')" "ins = opt_list (if rdy then packet else None) @ ins1"
    "outs = opt_list (if ready then out else None) @ outs1"
    using Cons.prems by (rule port_run_Cons)
  obtain ps where ps: "opt_list (ip_reg s1) @ ins1 = ps @ opt_list (ip_reg s')"
    "ipay_stream cfg ps (ip_state s1) = (outs1, ip_state s')"
    using Cons.IH [OF c(2)] by blast
  let ?now = "if ready then ip_reg s else None"
  have "opt_list (ip_reg s) @ ins = opt_list ?now @ opt_list (ip_reg s1) @ ins1"
    using c(1,3) by (auto simp: ipay_cycle_def Let_def split: if_splits)
  moreover have "ipay_stream cfg (opt_list ?now @ ps) (ip_state s) = (outs, ip_state s')"
    using c(1,4) ps(2) by (cases "ip_reg s") (auto simp: ipay_cycle_def Let_def split: if_splits prod.splits)
  ultimately show ?case using ps(1) by (intro exI [of _ "opt_list ?now @ ps"]) simp
qed

subsection \<open>The headers are put together again\<close>

definition header_bits :: "factory \<Rightarrow> fields" where
  "header_bits p = eth_bits (pf_eth p) @ ipv6_bits (pf_ipv6 p) @ common_bits (pf_common p) @ data_bits (pf_data p)"

lemma header_bits_simps [simp]: "width (header_bits p) = 912" "fits (header_bits p)"
  by (simp_all add: header_bits_def)

lemma shift_div:
  fixes u :: nat
  shows "a \<le> b \<Longrightarrow> u * 2 ^ a div 2 ^ b = u div 2 ^ (b - a)" "b \<le> a \<Longrightarrow> u * 2 ^ a div 2 ^ b = u * 2 ^ (a - b)"
proof -
  show "u * 2 ^ a div 2 ^ b = u div 2 ^ (b - a)" if "a \<le> b"
  proof -
    have "2 ^ b = 2 ^ (b - a) * (2 :: nat) ^ a" using that by (simp flip: power_add)
    then show ?thesis by simp
  qed
  show "u * 2 ^ a div 2 ^ b = u * 2 ^ (a - b)" if "b \<le> a"
  proof -
    have "2 ^ a = 2 ^ (a - b) * (2 :: nat) ^ b" using that by (simp flip: power_add)
    then show ?thesis by simp
  qed
qed

lemma bits_at_shifted: "lo + LENGTH('w :: len) \<le> a \<Longrightarrow> (bits_at lo (u * 2 ^ a) :: 'w word) = bits_at lo 0"
proof -
  assume a: "lo + LENGTH('w) \<le> a"
  then have "u * 2 ^ a div 2 ^ lo = u * 2 ^ (a - lo - LENGTH('w)) * 2 ^ LENGTH('w)"
    by (simp add: shift_div(2) mult.assoc flip: power_add)
  then show ?thesis by (simp add: bits_at_def)
qed

lemma high_part: "(c * 2 ^ (a + b) + v) div 2 ^ b = c * 2 ^ a + v div 2 ^ b" for c v :: nat
  by (simp add: power_add mult.assoc [symmetric])

text \<open>The highest bits of a packet.\<close>

lemma as_uint_high:
  assumes "length (pf_payload p) = 64"
  shows "as_uint p div 2 ^ 1033 = cat (header_bits p) * 2 ^ 112 + of_bytes (drop 50 (pf_payload p))"
proof -
  let ?low = "bytes_bits (msghdr_bytes (pf_cb p)) # entry_bits (pf_trigger p) @ [fld (pf_frame_off p)]"
  have bits: "factory_bits p = (header_bits p @ [bytes_bits (pf_payload p)]) @ ?low"
    by (simp add: factory_bits_def header_bits_def)
  have "fits ?low" "width ?low = 633" by simp_all
  then have "as_uint p div 2 ^ 633 = cat (header_bits p @ [bytes_bits (pf_payload p)])"
    unfolding as_uint_def bits using cat_div [of ?low] by metis
  also have "\<dots> = cat (header_bits p) * 2 ^ 512 + of_bytes (pf_payload p)"
    using assms by (simp add: cat_append bytes_bits_def cat.simps del: power_numeral)
  finally have w: "as_uint p div 2 ^ 633 = cat (header_bits p) * 2 ^ 512 + of_bytes (pf_payload p)" .
  have "as_uint p div 2 ^ 1033 = as_uint p div 2 ^ 633 div 2 ^ 400" by (simp flip: div_mult2_eq power_add)
  also have "\<dots> = cat (header_bits p) * 2 ^ 112 + of_bytes (pf_payload p) div 2 ^ 400"
    unfolding w using high_part [of _ 112 400] by simp
  also have "(2 :: nat) ^ 400 = 256 ^ 50" by simp
  finally show ?thesis by (simp only: of_bytes_drop)
qed

text \<open>What \<open>PPingressDtor\<close> makes of a packet: the headers of the packet, and no control block or trigger.\<close>

definition received :: "factory \<Rightarrow> byte list \<Rightarrow> nat \<Rightarrow> factory" where
  "received p bs k = null_factory\<lparr>pf_eth := pf_eth p, pf_ipv6 := pf_ipv6 p, pf_common := pf_common p, pf_data := pf_data p,
     pf_payload := bs, pf_frame_off := word_of_nat (64 * k)\<rparr>"

lemma as_entry_shifted: "89 \<le> a \<Longrightarrow> as_entry (u * 2 ^ a) = as_entry 0"
  by (simp add: as_entry_def bits_at_shifted)

lemma le_bytes_shifted: "le_bytes (a + b) (v * 256 ^ a) = replicate a 0 @ le_bytes b v"
proof (induction a)
  case (Suc a)
  have "(256 :: byte) = 0" by simp
  then have "word_of_nat (v * 256 ^ Suc a) = (0 :: byte)" by (simp only: power_Suc of_nat_mult of_nat_numeral) simp
  moreover have "v * 256 ^ Suc a div 256 = v * 256 ^ a" by simp
  ultimately show ?case using Suc by simp
qed simp

lemma le_bytes_low: "le_bytes n (u * 256 ^ n + v) = le_bytes n v"
  by (simp add: le_bytes_inj)

lemma as_factory_high:
  assumes "length (pf_payload p) = 64"
  shows "(as_factory ((as_uint p div 2 ^ 1033) * 2 ^ 1033))\<lparr>pf_frame_off := word_of_nat (64 * k)\<rparr> =
     received p (replicate 50 0 @ drop 50 (pf_payload p)) k"
proof -
  let ?h = "cat (header_bits p)" and ?d = "of_bytes (drop 50 (pf_payload p))"
  define u where "u = ?h * 2 ^ 112 + ?d"
  have u: "as_uint p div 2 ^ 1033 = u" using as_uint_high [OF assms] by (simp add: u_def)
  have "?d < 256 ^ length (drop 50 (pf_payload p))" by (rule of_bytes_less)
  then have d: "?d < 2 ^ 112" using assms by simp
  have h: "u div 2 ^ 112 = ?h" using d by (simp add: u_def)
  have div: "u * 2 ^ 1033 div 2 ^ (1145 + b) = ?h div 2 ^ b" for b
  proof -
    have "u * 2 ^ 1033 div 2 ^ (1145 + b) = u div 2 ^ (1145 + b - 1033)" by (rule shift_div(1)) simp
    also have "1145 + b - 1033 = 112 + b" by simp
    also have "u div 2 ^ (112 + b) = ?h div 2 ^ b" by (simp only: power_add div_mult2_eq h)
    finally show ?thesis .
  qed
  have parts: "?h div 2 ^ 256 = cat ((eth_bits (pf_eth p) @ ipv6_bits (pf_ipv6 p)) @ common_bits (pf_common p))"
    "?h div 2 ^ 480 = cat (eth_bits (pf_eth p) @ ipv6_bits (pf_ipv6 p))" "?h div 2 ^ 800 = cat ([] @ eth_bits (pf_eth p))"
    using cat_div [of "data_bits (pf_data p)" "eth_bits (pf_eth p) @ ipv6_bits (pf_ipv6 p) @ common_bits (pf_common p)"]
      cat_div [of "common_bits (pf_common p) @ data_bits (pf_data p)" "eth_bits (pf_eth p) @ ipv6_bits (pf_ipv6 p)"]
      cat_div [of "ipv6_bits (pf_ipv6 p) @ common_bits (pf_common p) @ data_bits (pf_data p)" "eth_bits (pf_eth p)"]
    by (simp_all add: header_bits_def)
  have "as_eth (u * 2 ^ 1033 div 2 ^ 1945) = pf_eth p" "as_ipv6 (u * 2 ^ 1033 div 2 ^ 1625) = pf_ipv6 p"
    "as_common (u * 2 ^ 1033 div 2 ^ 1401) = pf_common p" "as_data (u * 2 ^ 1033 div 2 ^ 1145) = pf_data p"
    using div [of 800] div [of 480] div [of 256] div [of 0] parts
      as_eth_cat [of "[]"] as_ipv6_cat
      as_common_cat [of "eth_bits (pf_eth p) @ ipv6_bits (pf_ipv6 p)"]
      as_data_cat [of "eth_bits (pf_eth p) @ ipv6_bits (pf_ipv6 p) @ common_bits (pf_common p)"]
    by (simp_all add: header_bits_def del: power_numeral)
  moreover have "le_bytes 64 (u * 2 ^ 1033 div 2 ^ 633) = replicate 50 0 @ drop 50 (pf_payload p)"
  proof -
    have "u * 2 ^ 1033 div 2 ^ 633 = u * 2 ^ (1033 - 633)" by (rule shift_div(2)) simp
    also have "(2 :: nat) ^ (1033 - 633) = 256 ^ 50" by simp
    finally have "le_bytes (50 + 14) (u * 2 ^ 1033 div 2 ^ 633) = replicate 50 0 @ le_bytes 14 u"
      by (simp only: le_bytes_shifted)
    then have "le_bytes 64 (u * 2 ^ 1033 div 2 ^ 633) = replicate 50 0 @ le_bytes 14 u" by simp
    also have "le_bytes 14 u = le_bytes 14 ?d"
      using le_bytes_low [of 14 ?h ?d] by (simp add: u_def)
    also have "\<dots> = drop 50 (pf_payload p)" using le_bytes_of_bytes [of "drop 50 (pf_payload p)"] assms by simp
    finally show ?thesis .
  qed
  moreover have "as_msghdr (le_bytes 64 (u * 2 ^ 1033 div 2 ^ 121)) = pf_cb null_factory"
  proof -
    have "u * 2 ^ 1033 div 2 ^ 121 = u * 2 ^ (1033 - 121)" by (rule shift_div(2)) simp
    also have "u * 2 ^ (1033 - 121) = u * 2 ^ 400 * 256 ^ 64 + 0" by simp
    finally have "le_bytes 64 (u * 2 ^ 1033 div 2 ^ 121) = le_bytes 64 0" by (simp only: le_bytes_low)
    then show ?thesis by (simp add: null_factory_def as_factory_def)
  qed
  moreover have "as_entry (u * 2 ^ 1033 div 2 ^ 32) = pf_trigger null_factory"
  proof -
    have e: "u * 2 ^ 1033 div 2 ^ 32 = u * 2 ^ (1033 - 32)" by (rule shift_div(2)) simp
    have "as_entry (u * 2 ^ (1033 - 32)) = as_entry 0" by (rule as_entry_shifted) simp
    then have "as_entry (u * 2 ^ 1033 div 2 ^ 32) = as_entry 0" by (simp only: e)
    then show ?thesis by (simp add: null_factory_def as_factory_def)
  qed
  ultimately show ?thesis unfolding u as_factory_def received_def null_factory_def by simp
qed

text \<open>The beats of a packet \<open>p\<close> with the payload \<open>data k\<close> in frame \<open>k\<close>, and what comes out for them.\<close>

definition beat_of :: "factory \<Rightarrow> (nat \<Rightarrow> byte list) \<Rightarrow> nat \<Rightarrow> beat" where
  "beat_of p data k = transmit (with_payload (frame_at p k) (data k))"

definition received_at :: "factory \<Rightarrow> (nat \<Rightarrow> byte list) \<Rightarrow> nat \<Rightarrow> factory" where
  "received_at p data k = received p (if k = 1 then replicate 50 0 @ drop 50 (data 1) else data k) k"

lemma with_payload_simps [simp]: "pf_seg_len (with_payload p bs) = pf_seg_len p" "pf_frame_off (with_payload p bs) = pf_frame_off p"
  "header_bits (with_payload p bs) = header_bits p" "header_bits (frame_at p k) = header_bits p"
  "pf_payload (with_payload p bs) = bs" "received (with_payload p bs) = received p" "received (frame_at p k) = received p"
  by (simp_all add: with_payload_def frame_at_def pf_seg_len_def header_bits_def received_def fun_eq_iff)

lemma beat_last: "segment_of p s \<Longrightarrow> k < 2 ^ 20 \<Longrightarrow> t_last (beat_of p data k) \<longleftrightarrow> frame_count s \<le> Suc k"
  using last_frame_iff [of p s k] by (simp add: beat_of_def transmit_def last_frame_def)

text \<open>After the first two frames the register holds the headers.\<close>

lemma header_top:
  assumes "length (pf_payload p) = 64"
  shows "as_uint p div 2 ^ 1545 = cat (header_bits p) div 2 ^ 400" "cat (header_bits p) div 2 ^ 400 < 256 ^ 64"
proof -
  have "of_bytes (drop 50 (pf_payload p)) < 256 ^ length (drop 50 (pf_payload p))" by (rule of_bytes_less)
  then have d: "of_bytes (drop 50 (pf_payload p)) < 2 ^ 112" using assms by simp
  have "as_uint p div 2 ^ 1545 = as_uint p div 2 ^ 1033 div 2 ^ 112 div 2 ^ 400" by (simp flip: div_mult2_eq power_add)
  also have "\<dots> = cat (header_bits p) div 2 ^ 400" unfolding as_uint_high [OF assms] using d by simp
  finally show "as_uint p div 2 ^ 1545 = cat (header_bits p) div 2 ^ 400" .
  have "cat (header_bits p) < 2 ^ 512 * 2 ^ 400" using cat_less [of "header_bits p"] by simp
  then have "cat (header_bits p) div 2 ^ 400 < 2 ^ 512" by (simp add: less_mult_imp_div_less)
  then show "cat (header_bits p) div 2 ^ 400 < 256 ^ 64" by simp
qed

lemma dtor_first:
  assumes "\<not> t_last (beat_of p data 0)" "length (data 0) = 64"
  shows "dtor_beat (beat_of p data 0) \<lparr>dt_buffered = 0, dt_buffer = b\<rparr> =
     (None, \<lparr>dt_buffered = 64, dt_buffer = cat (header_bits p) div 2 ^ 400 * 2 ^ 1545\<rparr>)"
proof -
  let ?q = "with_payload (frame_at p 0) (data 0)"
  have "length (pf_payload ?q) = 64" using assms(2) by simp
  note h = header_top [OF this]
  have "of_bytes (t_data (beat_of p data 0)) = cat (header_bits p) div 2 ^ 400"
    using h by (simp add: beat_of_def transmit_def wire_frame_def frame_small del: power_numeral)
  then show ?thesis using assms(1) by (simp add: dtor_beat_def del: power_numeral)
qed

lemma dtor_second:
  fixes p :: factory
  assumes "length (data 1) = 64"
  defines "u \<equiv> cat (header_bits p) * 2 ^ 112 + of_bytes (drop 50 (data 1))"
  shows "dtor_beat (beat_of p data 1) \<lparr>dt_buffered = 64, dt_buffer = cat (header_bits p) div 2 ^ 400 * 2 ^ 1545\<rparr> =
     (Some (received_at p data 1), \<lparr>dt_buffered = (if t_last (beat_of p data 1) then 0 else 128), dt_buffer = u * 2 ^ 1033\<rparr>)"
proof -
  let ?q = "with_payload (frame_at p 1) (data 1)"
  have len: "length (pf_payload ?q) = 64" using assms(1) by simp
  have u: "as_uint ?q div 2 ^ 1033 = u" using as_uint_high [OF len] by (simp add: u_def del: power_numeral)
  have top: "u div 2 ^ 512 = cat (header_bits p) div 2 ^ 400"
    using header_top(1) [OF len] unfolding u [symmetric] by (simp flip: div_mult2_eq power_add)
  have "of_bytes (t_data (beat_of p data 1)) = u mod 2 ^ 512"
    using u by (simp add: beat_of_def transmit_def wire_frame_def frame_small)
  moreover have "cat (header_bits p) div 2 ^ 400 * 2 ^ 1545 + (u mod 2 ^ 512) * 2 ^ 1033 = u * 2 ^ 1033"
  proof -
    have "u * 2 ^ 1033 = (u div 2 ^ 512 * 2 ^ 512 + u mod 2 ^ 512) * 2 ^ 1033" by (simp only: div_mult_mod_eq)
    then show ?thesis unfolding top by (simp add: algebra_simps flip: power_add)
  qed
  moreover have "(as_factory (u * 2 ^ 1033))\<lparr>pf_frame_off := 64\<rparr> = received_at p data 1"
    using as_factory_high [OF len, of 1] unfolding u by (simp add: received_at_def)
  ultimately show ?thesis by (simp add: dtor_beat_def del: power_numeral)
qed

lemma dtor_later:
  fixes p :: factory
  assumes "length (data 1) = 64" "1 < k" "k < 2 ^ 20"
  defines "u \<equiv> cat (header_bits p) * 2 ^ 112 + of_bytes (drop 50 (data 1))"
  shows "dtor_beat (beat_of p data k) \<lparr>dt_buffered = word_of_nat (64 * k), dt_buffer = u * 2 ^ 1033\<rparr> =
     (Some (received_at p data k), \<lparr>dt_buffered = (if t_last (beat_of p data k) then 0 else word_of_nat (64 * Suc k)), dt_buffer = u * 2 ^ 1033\<rparr>)"
proof -
  let ?q = "with_payload (frame_at p 1) (data 1)"
  have len: "length (pf_payload ?q) = 64" using assms(1) by simp
  have u: "as_uint ?q div 2 ^ 1033 = u" using as_uint_high [OF len] by (simp add: u_def del: power_numeral)
  have "pf_frame_off (frame_at p k) \<noteq> 0" "pf_frame_off (frame_at p k) \<noteq> 64" using frame_later [OF assms(2,3)] by blast+
  then have off: "word_of_nat (64 * k) \<noteq> (0 :: u32)" "word_of_nat (64 * k) \<noteq> (64 :: u32)" "t_data (beat_of p data k) = data k"
    by (simp_all add: frame_at_def beat_of_def transmit_def wire_frame_def with_payload_def del: of_nat_mult)
  have "(as_factory (u * 2 ^ 1033))\<lparr>pf_payload := data k, pf_frame_off := word_of_nat (64 * k)\<rparr> = received_at p data k"
  proof -
    let ?f = "as_factory (u * 2 ^ 1033)"
    have "?f\<lparr>pf_payload := data k, pf_frame_off := word_of_nat (64 * k)\<rparr> =
        ?f\<lparr>pf_frame_off := word_of_nat (64 * k)\<rparr>\<lparr>pf_payload := data k\<rparr>" by (cases ?f) simp
    also have "\<dots> = (received ?q (replicate 50 0 @ drop 50 (data 1)) k)\<lparr>pf_payload := data k\<rparr>"
      using as_factory_high [OF len, of k] unfolding u with_payload_simps(5) by (rule arg_cong)
    also have "\<dots> = received_at p data k" using assms(2) by (simp add: received_at_def received_def del: of_nat_mult)
    finally show ?thesis .
  qed
  then show ?thesis using off by (simp add: dtor_beat_def algebra_simps del: power_numeral of_nat_mult)
qed

lemma dtor_tail:
  assumes seg: "segment_of p s" and len: "length (data 1) = 64" and j: "2 \<le> j" "j \<le> frame_count s"
  defines "u \<equiv> cat (header_bits p) * 2 ^ 112 + of_bytes (drop 50 (data 1))"
  shows "dtor_stream (map (beat_of p data) [j..<frame_count s])
       \<lparr>dt_buffered = (if j = frame_count s then 0 else word_of_nat (64 * j)), dt_buffer = u * 2 ^ 1033\<rparr> =
     (map (received_at p data) [j..<frame_count s], \<lparr>dt_buffered = 0, dt_buffer = u * 2 ^ 1033\<rparr>)"
  using j(2,1)
proof (induction j rule: inc_induct)
  case (step j)
  have small: "j < 2 ^ 20" using step.hyps(2) frame_count_bound(1) [of s] seg by simp
  have last: "t_last (beat_of p data j) \<longleftrightarrow> Suc j = frame_count s"
    using beat_last [OF seg small, of data] step.hyps(2) by auto
  have one: "dtor_beat (beat_of p data j) \<lparr>dt_buffered = word_of_nat (64 * j), dt_buffer = u * 2 ^ 1033\<rparr> =
      (Some (received_at p data j), \<lparr>dt_buffered = (if Suc j = frame_count s then 0 else word_of_nat (64 * Suc j)), dt_buffer = u * 2 ^ 1033\<rparr>)"
    using dtor_later [where data = data and p = p, OF len _ small] step.prems last unfolding u_def by (simp del: of_nat_mult power_numeral)
  have "[j..<frame_count s] = j # [Suc j..<frame_count s]" using step.hyps(2) by (rule upt_conv_Cons)
  then show ?case using step.hyps(2) one step.IH step.prems by (simp del: of_nat_mult power_numeral)
qed simp

text \<open>The beats of a packet, and only they, make its headers and payloads again.\<close>

lemma dtor_packet:
  assumes seg: "segment_of p s" and len: "length (data 0) = 64" "length (data 1) = 64"
  shows "\<exists>s'. dtor_stream (map (beat_of p data) [0..<frame_count s]) \<lparr>dt_buffered = 0, dt_buffer = b\<rparr> =
     (map (received_at p data) [1..<frame_count s], s') \<and> dt_buffered s' = 0"
proof -
  let ?u = "cat (header_bits p) * 2 ^ 112 + of_bytes (drop 50 (data 1))"
  have n: "2 \<le> frame_count s" using frame_count_bound(2) [of s] by simp
  have upt: "[0..<frame_count s] = 0 # 1 # [2..<frame_count s]" "[1..<frame_count s] = 1 # [2..<frame_count s]"
    using n by (simp_all add: upt_conv_Cons numeral_2_eq_2)
  have last: "\<not> t_last (beat_of p data 0)" "t_last (beat_of p data (Suc 0)) \<longleftrightarrow> frame_count s = 2"
    using beat_last [OF seg, of 0] beat_last [OF seg, of 1] n by auto
  show ?thesis unfolding upt
    using dtor_first [where data = data, OF last(1) len(1)] dtor_second [where data = data and p = p, OF len(2)]
      dtor_tail [where data = data, OF seg len(2), of 2] n
    by (cases "frame_count s = 2") (simp_all add: last(2) del: power_numeral)
qed

subsection \<open>The payload goes to the host\<close>

text \<open>The bytes that a DMA request fetches from the memory: those written with it or before.\<close>

fun fetched :: "(ram_write_req option \<times> dma_req option) list \<Rightarrow> seg_ram \<Rightarrow> (dma_req \<times> byte list) list" where
  "fetched [] r = []"
| "fetched ((w, d) # xs) r =
     (let r1 = (case w of None \<Rightarrow> r | Some req \<Rightarrow> ram_write req r)
      in (case d of None \<Rightarrow> [] | Some q \<Rightarrow> [(q, flat_read (ram_byte r1) (dr_ram_addr q) (unat (dr_len q)))]) @ fetched xs r1)"

text \<open>Requests for one stretch of the memory of the host, all for one port.\<close>

fun consecutive :: "16 word \<Rightarrow> nat \<Rightarrow> (dma_req \<times> byte list) list \<Rightarrow> bool" where
  "consecutive port a [] \<longleftrightarrow> True"
| "consecutive port a ((q, bs) # xs) \<longleftrightarrow>
     dr_port q = port \<and> dr_pcie_addr q = word_of_nat a \<and> unat (dr_len q) = length bs \<and> consecutive port (a + length bs) xs"

text \<open>The bytes of chunk \<open>k\<close> that are written.\<close>

definition chunk :: "nat \<Rightarrow> nat \<Rightarrow> factory \<Rightarrow> byte list" where
  "chunk s k f = take (chunk_length s k) (payload_data f)"

lemma chunk_length_le: "chunk_length s k \<le> 64" "chunk_length s k \<le> s"
  by (auto simp: chunk_length_def)

lemma ipay_frame:
  assumes seg: "segment_of f s" "s \<le> 1408" and k: "0 < k" "k < frame_count s" and off: "frame_at f k = f"
    and bound: "unat (buff_bytes st) \<le> chunk_start k" "unat (seg_offset (hd_data (pf_data f))) < 2 ^ 20"
  defines "l \<equiv> chunk_length s k"
  shows "\<exists>flush. ipay_packet cfg f st =
     ((Some \<lparr>rw_addr = ram_head st, rw_len = word_of_nat l, rw_data = payload_data f\<rparr>,
       if flush then Some \<lparr>dr_pcie_addr = word_of_nat (unat (seg_offset (hd_data (pf_data f))) + chunk_start k - unat (buff_bytes st)),
           dr_ram_sel = 0, dr_ram_addr = ram_head st - buff_bytes st, dr_len = word_of_nat (unat (buff_bytes st) + l), dr_tag = 0,
           dr_port = hc_dport (pf_common f)\<rparr> else None),
      \<lparr>ram_head = (if flush \<and> 131072 < ram_head st then 0 else ram_head st + word_of_nat l),
       buff_bytes = (if flush then 0 else buff_bytes st + word_of_nat l)\<rparr>) \<and>
     (Suc k = frame_count s \<longrightarrow> flush)"
proof -
  let ?so = "seg_offset (hd_data (pf_data f))" and ?b = "buff_bytes st"
  have small: "k < 2 ^ 20" using k(2) frame_count_bound(1) [of s] seg by simp
  have "unat (payload_bytes (frame_at f k)) = l" unfolding l_def by (rule payload_bytes_frame [OF seg(1) k(2)])
  then have bytes: "payload_bytes f = word_of_nat l" unfolding off by auto
  have l: "l \<le> 64" by (simp add: l_def chunk_length_le)
  have start: "unat (payload_offset f) = chunk_start k" "chunk_start k \<le> 1408"
    using payload_offset_frame [OF small, of f] chunk_start_bound [OF k(2)] seg(2) off by simp_all
  have n: "ucast (word_of_nat l :: u32) = (word_of_nat l :: 18 word)" "ucast (word_of_nat l :: u32) = (word_of_nat l :: 8 word)"
    using l by (simp_all add: word_unat_eq_iff unsigned_ucast_eq unsigned_of_nat take_bit_nat_eq_self)
  have curr: "unat (?b + word_of_nat l) = unat ?b + l" using l bound(1) start(2)
    by (simp add: unat_word_ariths unsigned_of_nat take_bit_nat_eq_self)
  have len: "ucast (?b + word_of_nat l) = (word_of_nat (unat ?b + l) :: 16 word)" using curr by (metis of_nat_unat)
  have "unat (?so + payload_offset f) = unat ?so + chunk_start k"
    using bound(2) start by (simp add: unat_word_ariths)
  moreover have "unat (ucast ?b :: u32) = unat ?b" using bound(1) start(2) by (simp add: unsigned_ucast_eq take_bit_nat_eq_self)
  ultimately have "unat (?so + payload_offset f - ucast ?b) = unat ?so + chunk_start k - unat ?b"
    using bound(1) by (simp add: unat_sub word_le_nat_alt)
  then have pcie: "ucast (?so + payload_offset f - ucast ?b) = (word_of_nat (unat ?so + chunk_start k - unat ?b) :: u64)"
    by (metis of_nat_unat)
  have "unat (pf_frame_off f) = 64 * k" using frame_off [of k f] small off by simp
  then have "pf_frame_off f \<noteq> 0" using k(1) by auto
  moreover have "Suc k = frame_count s \<longrightarrow> last_frame f" using last_frame_iff [OF seg(1) small] off by simp
  ultimately show ?thesis
    by (intro exI [of _ "write_limit cfg \<le> unat (?b + word_of_nat l) \<or> last_frame f"])
      (simp add: ipay_packet_def Let_def bytes n len pcie)
qed

text \<open>One frame with the memory: what is requested now is what was staged and the new chunk.\<close>

lemma staged_write:
  assumes "l \<le> 64" "length d = 64" "unat b + l \<le> 2 ^ 18"
    and w: "w = \<lparr>rw_addr = h, rw_len = word_of_nat l, rw_data = d\<rparr>"
  shows "flat_read (ram_byte (ram_write w r)) (h - b) (unat b + l) = flat_read (ram_byte r) (h - b) (unat b) @ take l d"
proof -
  have l: "unat (word_of_nat l :: 8 word) = l" using assms(1) by (simp add: unsigned_of_nat take_bit_nat_eq_self)
  have "ram_byte (ram_write w r) = flat_write h (take l d) (ram_byte r)"
    using ram_write_flat [of w r] l assms by (simp add: word_le_nat_alt)
  then show ?thesis using flat_read_write [of "unat b" "take l d" h "ram_byte r"] assms(1-3) by simp
qed

definition chunk_end :: "nat \<Rightarrow> nat \<Rightarrow> nat" where
  "chunk_end s j = (if j = frame_count s then s else chunk_start j)"

lemma chunk_end_Suc: "0 < j \<Longrightarrow> j < frame_count s \<Longrightarrow> chunk_end s (Suc j) = chunk_start j + chunk_length s j"
  using chunks_tile [of j s] last_chunk [of j s] by (auto simp: chunk_end_def)

lemma ipay_frames:
  assumes f: "\<And>k. 0 < k \<Longrightarrow> k < frame_count s \<Longrightarrow> segment_of (f k) s \<and> frame_at (f k) k = f k \<and>
      length (payload_data (f k)) = 64 \<and> unat (seg_offset (hd_data (pf_data (f k)))) = a \<and> hc_dport (pf_common (f k)) = port"
    and s: "s \<le> 1408" "a < 2 ^ 20"
    and j: "j \<le> frame_count s" "0 < j"
    and st: "d + unat (buff_bytes st) = chunk_end s j" "j = frame_count s \<longrightarrow> buff_bytes st = 0"
      "flat_read (ram_byte r) (ram_head st - buff_bytes st) (unat (buff_bytes st)) = bs"
    and run: "ipay_stream cfg (map f [j..<frame_count s]) st = (outs, st')"
  shows "consecutive port (a + d) (fetched outs r) \<and>
     concat (map snd (fetched outs r)) = bs @ concat (map (\<lambda>k. chunk s k (f k)) [j..<frame_count s]) \<and> buff_bytes st' = 0"
  using j st run
proof (induction j arbitrary: st r d bs outs rule: inc_induct)
  case base
  then show ?case by (auto simp: flat_read_def)
next
  case (step j)
  note fj = f [OF step.prems(1) step.hyps(2)]
  have start: "chunk_start j \<le> s" by (rule chunk_start_bound [OF step.hyps(2)])
  have now: "d + unat (buff_bytes st) = chunk_start j" using step.prems(2) step.hyps(2) by (simp add: chunk_end_def)
  let ?l = "chunk_length s j" and ?b = "buff_bytes st" and ?h = "ram_head st"
  let ?w = "\<lparr>rw_addr = ?h, rw_len = word_of_nat ?l, rw_data = payload_data (f j)\<rparr>"
  let ?r1 = "ram_write ?w r"
  obtain flush where p: "ipay_packet cfg (f j) st =
     ((Some ?w, if flush then Some \<lparr>dr_pcie_addr = word_of_nat (a + chunk_start j - unat ?b),
           dr_ram_sel = 0, dr_ram_addr = ?h - ?b, dr_len = word_of_nat (unat ?b + ?l), dr_tag = 0,
           dr_port = hc_dport (pf_common (f j))\<rparr> else None),
      \<lparr>ram_head = (if flush \<and> 131072 < ?h then 0 else ?h + word_of_nat ?l),
       buff_bytes = (if flush then 0 else ?b + word_of_nat ?l)\<rparr>)" "Suc j = frame_count s \<longrightarrow> flush"
    using ipay_frame [of "f j" s j st cfg] fj step.hyps step.prems(1) s now by force
  define st1 where "st1 = snd (ipay_packet cfg (f j) st)"
  obtain outs1 where outs: "outs = fst (ipay_packet cfg (f j) st) # outs1"
    "ipay_stream cfg (map f [Suc j..<frame_count s]) st1 = (outs1, st')"
    using step.prems(5) step.hyps(2) by (auto simp: upt_conv_Cons st1_def split: prod.splits)
  have next': "chunk_end s (Suc j) = chunk_start j + ?l" by (rule chunk_end_Suc [OF step.prems(1) step.hyps(2)])
  have le: "unat ?b + ?l \<le> 1472" using now start s(1) chunk_length_le(1) [of s j] by simp
  have read: "flat_read (ram_byte ?r1) (?h - ?b) (unat ?b + ?l) = bs @ chunk s j (f j)"
    using staged_write [of ?l "payload_data (f j)" ?b ?w ?h r] fj le chunk_length_le(1) [of s j] step.prems(4)
    by (simp add: chunk_def)
  have len: "length (bs @ chunk s j (f j)) = unat ?b + ?l" using read by (metis length_flat_read)
  have cons: "map (\<lambda>k. chunk s k (f k)) [j..<frame_count s] = chunk s j (f j) # map (\<lambda>k. chunk s k (f k)) [Suc j..<frame_count s]"
    using step.hyps(2) by (simp add: upt_conv_Cons)
  show ?case
  proof (cases flush)
    case True
    have st1: "buff_bytes st1 = 0" using p(1) True by (simp add: st1_def)
    have pcie: "a + chunk_start j - unat ?b = a + d" using now by simp
    have "unat (word_of_nat (unat ?b + ?l) :: 16 word) = unat ?b + ?l"
      using le by (simp add: unsigned_of_nat take_bit_nat_eq_self del: of_nat_add)
    then have "fetched outs r = (\<lparr>dr_pcie_addr = word_of_nat (a + d), dr_ram_sel = 0, dr_ram_addr = ?h - ?b,
        dr_len = word_of_nat (unat ?b + ?l), dr_tag = 0, dr_port = hc_dport (pf_common (f j))\<rparr>, bs @ chunk s j (f j)) #
        fetched outs1 ?r1"
      using p(1) True read pcie by (simp add: outs(1) del: of_nat_add)
    moreover have "consecutive port (a + (d + (unat ?b + ?l))) (fetched outs1 ?r1) \<and>
      concat (map snd (fetched outs1 ?r1)) = [] @ concat (map (\<lambda>k. chunk s k (f k)) [Suc j..<frame_count s]) \<and> buff_bytes st' = 0"
      by (rule step.IH [OF _ _ _ _ outs(2)]) (use now next' st1 in \<open>simp_all add: flat_read_def\<close>)
    ultimately show ?thesis using len le fj unfolding cons
      by (simp add: unsigned_of_nat take_bit_nat_eq_self add.assoc del: of_nat_add)
  next
    case False
    then have st1: "st1 = \<lparr>ram_head = ?h + word_of_nat ?l, buff_bytes = ?b + word_of_nat ?l\<rparr>"
      using p(1) by (simp add: st1_def)
    have b1: "unat (?b + word_of_nat ?l) = unat ?b + ?l"
      using le by (simp add: unat_word_ariths unsigned_of_nat take_bit_nat_eq_self)
    have "fetched outs r = fetched outs1 ?r1" using p(1) False by (simp add: outs(1))
    moreover have "consecutive port (a + d) (fetched outs1 ?r1) \<and>
      concat (map snd (fetched outs1 ?r1)) = (bs @ chunk s j (f j)) @ concat (map (\<lambda>k. chunk s k (f k)) [Suc j..<frame_count s]) \<and>
      buff_bytes st' = 0"
      by (rule step.IH [OF _ _ _ _ outs(2)]) (use now next' p(2) False read in \<open>simp_all add: st1 b1\<close>)
    ultimately show ?thesis unfolding cons by simp
  qed
qed

subsection \<open>Properties\<close>

text \<open>C29: \<open>PPingressDtor\<close> undoes \<open>PPegressDupe\<close> and \<open>PPegressXmit\<close> for the headers: whatever its receiver does with
  its \<open>ready\<close> signal and whenever the beats arrive, from the frames of a packet, the first of which is only header, it makes
  packets with the same four headers and the offsets of the frames, and the payload of every frame behind the second; of the payload
  of the second frame it has the 14 bytes that \<open>wireFrame\<close> put behind the headers, the highest ones. Afterwards it
  waits for the first frame of another packet.\<close>

theorem headers_reassembled:
  assumes "port_run dtor_cycle is s = (ins, outs, s')" "dt_buffered s = 0" "unat (pf_seg_len p) < 2 ^ 20"
    "ins = map (\<lambda>k. transmit (with_payload (frame_at p k) (data k))) [0..<frame_count (unat (pf_seg_len p))]"
    "length (data 0) = 64" "length (data 1) = 64"
  shows "outs = map (\<lambda>k. null_factory\<lparr>pf_eth := pf_eth p, pf_ipv6 := pf_ipv6 p, pf_common := pf_common p, pf_data := pf_data p,
       pf_payload := (if k = 1 then replicate 50 0 @ drop 50 (data 1) else data k), pf_frame_off := word_of_nat (64 * k)\<rparr>)
     [1..<frame_count (unat (pf_seg_len p))] \<and> dt_buffered s' = 0"
proof -
  obtain b where s: "s = \<lparr>dt_buffered = 0, dt_buffer = b\<rparr>" using assms(2) by (cases s) simp
  have "dtor_stream (map (beat_of p data) [0..<frame_count (unat (pf_seg_len p))]) s = (outs, s')"
    using dtor_cycles [OF assms(1)] assms(4) by (simp add: beat_of_def [abs_def])
  then show ?thesis using dtor_packet [of p _ data b] assms(3,5,6) s by (auto simp: received_at_def received_def)
qed

text \<open>The three frames of a packet with 15 bytes, the last of which has to wait.\<close>

definition demo_beats :: "(beat option \<times> bool) list" where
  "demo_beats = (let b = (\<lambda>k. transmit (with_payload (frame_at (small_packet 15) k) (replicate 64 (word_of_nat k))))
     in [(Some (b 0), True), (Some (b 1), True), (Some (b 2), False), (Some (b 2), True)])"

theorem headers_reassembled_witness:
  "map pf_data (fst (snd (port_run dtor_cycle demo_beats (dtor_reset 0)))) = [pf_data (small_packet 15), pf_data (small_packet 15)] \<and>
   map pf_payload (fst (snd (port_run dtor_cycle demo_beats (dtor_reset 0)))) = [replicate 50 0 @ replicate 14 1, replicate 64 2] \<and>
   map pf_frame_off (fst (snd (port_run dtor_cycle demo_beats (dtor_reset 0)))) = [64, 128]"
proof -
  obtain ins outs s' where r: "port_run dtor_cycle demo_beats (dtor_reset 0) = (ins, outs, s')" using prod_cases3 by blast
  have z: "dt_buffered (dtor_reset 0) = 0" by (simp add: dtor_reset_def)
  have n: "frame_count 15 = 3" "[0..<3] = [0, 1, 2 :: nat]" "[1..<3] = [1, 2 :: nat]" by (simp_all add: frame_count_def upt_rec)
  then have "ins = map (\<lambda>k. transmit (with_payload (frame_at (small_packet 15) k) (replicate 64 (word_of_nat k)))) [0..<frame_count 15]"
    using r by (auto simp: demo_beats_def Let_def dtor_cycle_def split: prod.splits)
  then show ?thesis
    using headers_reassembled [OF r, of "small_packet 15" "\<lambda>k. replicate 64 (word_of_nat k)"] n z
    by (simp add: r)
qed

end
