(* ===== verification/Hw_Loopback.thy ===== *)
theory Hw_Loopback
  imports Hw_Ingress Hw_Address_Map
begin

section \<open>Hardware: a message through the card\<close>

text \<open>
  \<open>MgmtCore\<close> connects the stream that \<open>PPegressStages\<close> sends to the one that \<open>PPingressStages\<close> receives.
  Here the stages are put together in this way: a header that a program stores is taken by \<open>Delegate\<close>,
  which writes the control block and starts the message; a packet of the message goes through the
  five stages that send it and the four that receive it, and ends as requests for DMA to the buffer of
  the port to which the message is addressed. The stages are composed as functions on lists of packets, which
  the theories before this one derive from their cycles; for \<open>PPegressDupe\<close> this is the case in which its receiver
  is always ready, otherwise frames are lost before they are sent.
\<close>

subsection \<open>The path of a packet\<close>

definition sent_packet :: "seg_ram \<Rightarrow> queue_entry \<Rightarrow> factory" where
  "sent_packet cbs q = construct (with_cb (with_trigger q) (ram_read cbs (rr_addr (lookup_request q))))"

definition sent_beats :: "seg_ram \<Rightarrow> seg_ram \<Rightarrow> queue_entry \<Rightarrow> beat list" where
  "sent_beats cbs cache q =
     map (\<lambda>f. transmit (with_payload f (ram_read cache (rr_addr (payload_request f))))) (frames (sent_packet cbs q))"

definition received_frames :: "seg_ram \<Rightarrow> factory list \<Rightarrow> factory list" where
  "received_frames cbs fs = map (\<lambda>p. with_cb p (ram_read cbs (rr_addr (control_request p)))) fs"

text \<open>What the host gets for a list of triggers, and the registers of the receiving stages afterwards.\<close>

definition loopback ::
    "dynamic_configuration \<Rightarrow> seg_ram \<Rightarrow> seg_ram \<Rightarrow> seg_ram \<Rightarrow> queue_entry list \<Rightarrow> dtor \<times> ipay \<times> seg_ram \<Rightarrow>
     (dma_req \<times> byte list) list \<times> dtor \<times> ipay" where
  "loopback cfg cbs cache recv_cbs qs = (\<lambda>(dt, ip, stage).
     case dtor_stream (concat (map (sent_beats cbs cache) qs)) dt of (fs, dt') \<Rightarrow>
       (case ipay_stream cfg (received_frames recv_cbs fs) ip of (outs, ip') \<Rightarrow> (fetched outs stage, dt', ip')))"

subsection \<open>The packet that is sent\<close>

lemma ram_read_length [simp]: "length (ram_read r a) = 64"
  by (simp add: ram_read_flat)

lemma construct_simps [simp]:
  "unat (pf_seg_len (construct p)) = min 1408 (unat (qe_remaining (pf_trigger p)))"
  "seg_offset (hd_data (pf_data (construct p))) = ucast (mh_buff_size (pf_cb p) - qe_remaining (pf_trigger p))"
  "hc_dport (pf_common (construct p)) = mh_dport (pf_cb p)" "pf_cb (construct p) = pf_cb p" "pf_trigger (construct p) = pf_trigger p"
proof -
  have "unat (ucast w :: u32) = unat w" for w :: "20 word"
    using unsigned_less [of w, where 'a = nat] by (simp add: unsigned_ucast_eq take_bit_nat_eq_self)
  then show "unat (pf_seg_len (construct p)) = min 1408 (unat (qe_remaining (pf_trigger p)))"
    by (auto simp: construct_def pf_seg_len_def Let_def word_less_nat_alt)
qed (simp_all add: construct_def Let_def)

text \<open>The bytes of the cache from which a packet is taken.\<close>

definition cache_byte :: "seg_ram \<Rightarrow> nat \<Rightarrow> nat \<Rightarrow> byte" where
  "cache_byte cache base i = ram_byte cache (word_of_nat (base + i))"

lemma payload_addr:
  assumes "unat (mh_buff_size (pf_cb p)) \<le> 16384" "qe_remaining (pf_trigger p) \<le> mh_buff_size (pf_cb p)"
    "k < 2 ^ 20" "unat (mh_buff_size (pf_cb p)) - unat (qe_remaining (pf_trigger p)) + chunk_start k < 16384"
  shows "rr_addr (payload_request (frame_at p k)) = word_of_nat (unat (qe_dbuff_id (pf_trigger p)) * 16384 +
     (unat (mh_buff_size (pf_cb p)) - unat (qe_remaining (pf_trigger p))) + chunk_start k)"
proof -
  let ?o = "mh_buff_size (pf_cb p) - qe_remaining (pf_trigger p)"
  have o: "unat ?o = unat (mh_buff_size (pf_cb p)) - unat (qe_remaining (pf_trigger p))" using assms(2) by (simp add: unat_sub)
  then have u: "unat (ucast ?o :: u32) = unat ?o" using assms(1) by (simp add: unsigned_ucast_eq take_bit_nat_eq_self)
  have "unat (ucast ?o + payload_offset (frame_at p k)) = unat ?o + chunk_start k"
    using payload_offset_frame [OF assms(3), of p] u o assms(4) by (simp add: unat_word_ariths)
  then show ?thesis using o assms(4) by (simp add: payload_request_def Let_def add.assoc del: of_nat_add of_nat_mult)
qed

lemma ram_read_bytes: "ram_read cache (word_of_nat (base + n)) = map (cache_byte cache base) [n..<n + 64]"
proof -
  have "map (cache_byte cache base) [n..<n + 64] = map (\<lambda>i. ram_byte cache (word_of_nat (base + n) + word_of_nat i)) [0..<64]"
    by (rule nth_equalityI) (simp_all add: cache_byte_def algebra_simps)
  then show ?thesis by (simp only: ram_read_flat flat_read_def)
qed

text \<open>The bytes that arrive for a segment of \<open>s\<close> bytes, if byte \<open>i\<close> of it is \<open>c i\<close>: instead of the first 14 of
  them, those that stand 50 places behind.\<close>

definition segment_seen :: "(nat \<Rightarrow> byte) \<Rightarrow> nat \<Rightarrow> byte list" where
  "segment_seen c s = map c [64 - min 14 s..<64] @ map c [min 14 s..<s]"

lemma later_chunks:
  assumes "2 \<le> j" "j \<le> frame_count s"
  shows "concat (map (\<lambda>k. map c [chunk_start k..<chunk_start k + chunk_length s k]) [j..<frame_count s]) = map c [chunk_end s j..<s]"
  using assms(2,1)
proof (induction j rule: inc_induct)
  case base
  then show ?case by (simp add: chunk_end_def)
next
  case (step j)
  have e: "chunk_end s (Suc j) = chunk_start j + chunk_length s j" using step by (intro chunk_end_Suc) auto
  have "chunk_end s (Suc j) \<le> s" using chunk_start_bound [of "Suc j" s] step.hyps(2) by (auto simp: chunk_end_def)
  then have "[chunk_end s j..<s] = [chunk_start j..<chunk_start j + chunk_length s j] @ [chunk_end s (Suc j)..<s]"
    using step.hyps(2) e by (simp add: chunk_end_def) (metis e le_add1 upt_add_eq_append le_add_diff_inverse chunk_end_def)
  then show ?case using step by (simp add: upt_conv_Cons)
qed

text \<open>The chunks of the frames that arrive, where the payload of frame \<open>k\<close> was read from the cache.\<close>

lemma received_simps [simp]:
  "pf_seg_len (with_cb (received_at p data k) bs) = pf_seg_len p" "pf_data (with_cb (received_at p data k) bs) = pf_data p"
  "pf_common (with_cb (received_at p data k) bs) = pf_common p"
  "pf_frame_off (with_cb (received_at p data k) bs) = word_of_nat (64 * k)"
  "frame_at (with_cb (received_at p data k) bs) k = with_cb (received_at p data k) bs"
  by (simp_all add: with_cb_def received_at_def received_def frame_at_def pf_seg_len_def)

lemma received_bytes:
  assumes "segment_of p s" "k < frame_count s"
  shows "unat (payload_bytes (with_cb (received_at p data k) bs)) = chunk_length s k"
  using payload_bytes_frame [of "with_cb (received_at p data k) bs" s k] assms by simp

lemma first_chunk:
  assumes seg: "segment_of p s" and f: "f = with_cb (received_at p data 1) bs" and data: "data 1 = map c [0..<64]"
  shows "chunk s 1 f = map c [64 - min 14 s..<64]" "length (payload_data f) = 64"
proof -
  let ?l = "min 14 s"
  have n: "1 < frame_count s" using frame_count_bound(2) by simp
  have l: "unat (payload_bytes f) = ?l" using received_bytes [OF seg n, of data bs] by (simp add: f chunk_length_def)
  have pay: "pf_payload f = replicate 50 0 @ drop 50 (map c [0..<64])" by (simp add: f with_cb_def received_at_def received_def data [unfolded One_nat_def])
  have off: "pf_frame_off f = 64" unfolding f received_simps by simp
  have d: "payload_data f = drop (64 - ?l) (map c [0..<64]) @ replicate (64 - ?l) 0"
    using l by (simp add: payload_data_def off pay word_le_nat_alt Let_def del: upt_rec_numeral)
  show "length (payload_data f) = 64" by (simp add: d del: upt_rec_numeral)
  show "chunk s 1 f = map c [64 - min 14 s..<64]"
    by (simp add: chunk_def d chunk_length_def drop_map del: upt_rec_numeral)
qed

lemma later_chunk:
  assumes "1 < k" "k < 2 ^ 20" and f: "f = with_cb (received_at p data k) bs" and data: "data k = map c [n..<n + 64]"
  shows "chunk s k f = map c [n..<n + chunk_length s k]" "length (payload_data f) = 64"
proof -
  have "pf_frame_off f = pf_frame_off (frame_at p k)" unfolding f received_simps by (simp add: frame_at_def)
  then have "pf_frame_off f \<noteq> 64" using frame_later(2) [OF assms(1,2), of p] by simp
  then have d: "payload_data f = map c [n..<n + 64]"
    using assms(1) by (simp add: payload_data_def f with_cb_def received_at_def received_def data del: upt_rec_numeral)
  show "length (payload_data f) = 64" by (simp add: d)
  show "chunk s k f = map c [n..<n + chunk_length s k]"
    using chunk_length_le(1) [of s k] by (simp add: chunk_def d take_map)
qed

text \<open>A packet of \<open>s\<close> bytes whose payload comes from place \<open>base\<close> of the cache.\<close>

lemma packet_through:
  assumes p: "segment_of p s" "0 < s" "s \<le> 1408" "unat (seg_offset (hd_data (pf_data p))) = a" "a < 2 ^ 20"
    and data: "\<And>k. k < frame_count s \<Longrightarrow> length (data k) = 64"
      "\<And>k. 0 < k \<Longrightarrow> k < frame_count s \<Longrightarrow> data k = map c [chunk_start k..<chunk_start k + 64]"
    and start: "dt_buffered dt = 0" "buff_bytes ip = 0"
    and run: "dtor_stream (map (beat_of p data) [0..<frame_count s]) dt = (fs, dt')"
      "ipay_stream cfg (received_frames cbs fs) ip = (outs, ip')"
  shows "consecutive (hc_dport (pf_common p)) a (fetched outs stage) \<and>
     concat (map snd (fetched outs stage)) = segment_seen c s \<and> dt_buffered dt' = 0 \<and> buff_bytes ip' = 0"
proof -
  have n: "1 < frame_count s" "0 < frame_count s" using frame_count_bound(2) [of s] by simp_all
  obtain b where dt: "dt = \<lparr>dt_buffered = 0, dt_buffer = b\<rparr>" using start(1) by (cases dt) simp
  obtain s' where "dtor_stream (map (beat_of p data) [0..<frame_count s]) dt = (map (received_at p data) [1..<frame_count s], s')"
    "dt_buffered s' = 0" using dtor_packet [where data = data and b = b, OF p(1) data(1) data(1)] n unfolding dt by auto
  then have fs: "fs = map (received_at p data) [1..<frame_count s]" "dt_buffered dt' = 0" using run(1) by simp_all
  define f where "f k = with_cb (received_at p data k) (ram_read cbs (rr_addr (control_request (received_at p data k))))" for k
  have frames: "received_frames cbs fs = map f [1..<frame_count s]" by (simp add: received_frames_def fs(1) f_def)
  have one: "data 1 = map c [0..<64]" using data(2) [of 1] n by (simp add: chunk_start_def)
  have chunks: "chunk s k (f k) = (if k = 1 then map c [64 - min 14 s..<64]
      else map c [chunk_start k..<chunk_start k + chunk_length s k]) \<and> length (payload_data (f k)) = 64"
    if k: "0 < k" "k < frame_count s" for k
  proof (cases "k = 1")
    case True
    then show ?thesis using first_chunk [OF p(1) f_def one] by simp
  next
    case False
    then have "1 < k" "k < 2 ^ 20" using k frame_count_bound(1) [of s] p(1) by simp_all
    then show ?thesis using later_chunk(1) [OF _ _ f_def data(2) [OF k], of s] later_chunk(2) [OF _ _ f_def data(2) [OF k]] False by simp
  qed
  have "consecutive (hc_dport (pf_common p)) (a + 0) (fetched outs stage) \<and>
      concat (map snd (fetched outs stage)) = [] @ concat (map (\<lambda>k. chunk s k (f k)) [1..<frame_count s]) \<and> buff_bytes ip' = 0"
  proof (rule ipay_frames [where st = ip and cfg = cfg and f = f])
    show "segment_of (f k) s \<and> frame_at (f k) k = f k \<and> length (payload_data (f k)) = 64 \<and>
        unat (seg_offset (hd_data (pf_data (f k)))) = a \<and> hc_dport (pf_common (f k)) = hc_dport (pf_common p)"
      if "0 < k" "k < frame_count s" for k
      using chunks [OF that] p by (simp add: f_def)
  qed (use p n start run(2) frames in \<open>simp_all add: chunk_end_def chunk_start_def flat_read_def\<close>)
  moreover have "concat (map (\<lambda>k. chunk s k (f k)) [1..<frame_count s]) = segment_seen c s"
  proof -
    have "map (\<lambda>k. chunk s k (f k)) [2..<frame_count s] =
        map (\<lambda>k. map c [chunk_start k..<chunk_start k + chunk_length s k]) [2..<frame_count s]"
      using chunks by simp
    then have "concat (map (\<lambda>k. chunk s k (f k)) [2..<frame_count s]) = map c [chunk_end s 2..<s]"
      using later_chunks [of 2 s c] n by (simp only:)
    also have "chunk_end s 2 = min 14 s"
      using chunk_end_Suc [of 1 s] n by (simp add: numeral_2_eq_2 chunk_start_def chunk_length_def)
    finally have "concat (map (\<lambda>k. chunk s k (f k)) [2..<frame_count s]) = map c [min 14 s..<s]" .
    moreover have "[1..<frame_count s] = 1 # [2..<frame_count s]" using n by (simp add: upt_conv_Cons numeral_2_eq_2)
    ultimately show ?thesis using chunks [of 1] n by (simp add: segment_seen_def)
  qed
  ultimately show ?thesis using fs(2) by simp
qed

text \<open>A trigger, whatever the state of the memories.\<close>

lemma sent_packet_simps:
  assumes "pf_cb (sent_packet cbs q) = cb"
  shows "pf_trigger (sent_packet cbs q) = q" "hc_dport (pf_common (sent_packet cbs q)) = mh_dport cb"
    "unat (pf_seg_len (sent_packet cbs q)) = min 1408 (unat (qe_remaining q))"
    "seg_offset (hd_data (pf_data (sent_packet cbs q))) = ucast (mh_buff_size cb - qe_remaining q)"
  using assms by (simp_all add: sent_packet_def) (simp_all add: with_cb_def with_trigger_def)

lemma sent_cb: "pf_cb (sent_packet cbs q) = as_msghdr (ram_read cbs (word_of_nat (64 * unat (qe_rpc_id q))))"
  by (simp add: sent_packet_def with_cb_def lookup_request_def del: of_nat_mult)

lemma loopback_run:
  assumes b: "unat (mh_buff_size (pf_cb (sent_packet cbs q))) = b" "b \<le> 16384"
    and r: "unat (qe_remaining q) = r" "0 < r" "r \<le> b"
    and start: "dt_buffered dt = 0" "buff_bytes ip = 0"
    and run: "loopback cfg cbs cache recv [q] (dt, ip, stage) = (xs, dt', ip')"
  shows "consecutive (mh_dport (pf_cb (sent_packet cbs q))) (b - r) xs \<and>
     concat (map snd xs) = segment_seen (cache_byte cache (unat (qe_dbuff_id q) * 16384 + (b - r))) (min 1408 r) \<and>
     dt_buffered dt' = 0 \<and> buff_bytes ip' = 0"
proof -
  let ?p = "sent_packet cbs q" and ?s = "min 1408 r" and ?base = "unat (qe_dbuff_id q) * 16384 + (b - r)"
  let ?data = "\<lambda>k. ram_read cache (rr_addr (payload_request (frame_at ?p k)))"
  note sp = sent_packet_simps [OF refl, of cbs q]
  have off: "unat (mh_buff_size (pf_cb ?p) - qe_remaining q) = b - r"
    using b(1) r(1,3) by (simp add: unat_sub word_le_nat_alt)
  then have seg: "unat (seg_offset (hd_data (pf_data ?p))) = b - r"
    using b(2) by (simp add: sp(4) unsigned_ucast_eq take_bit_nat_eq_self)
  have data: "?data k = map (cache_byte cache ?base) [chunk_start k..<chunk_start k + 64]" if k: "k < frame_count ?s" for k
  proof -
    have "?s < 2 ^ 20" by simp
    then have small: "k < 2 ^ 20" using k frame_count_bound(1) [of ?s] by linarith
    have "chunk_start k < ?s" using k r(2) by (auto simp: frame_count_def chunk_start_def)
    then have "b - r + chunk_start k < 16384" using r(3) b(2) by linarith
    then have "rr_addr (payload_request (frame_at ?p k)) = word_of_nat (?base + chunk_start k)"
      using payload_addr [of ?p k] b r sp(1) small by (simp add: word_le_nat_alt add.assoc del: of_nat_add of_nat_mult of_nat_diff)
    then show ?thesis by (simp only: ram_read_bytes)
  qed
  have beats: "sent_beats cbs cache q = map (beat_of ?p ?data) [0..<frame_count ?s]"
    by (simp add: sent_beats_def frames_def sp(3) r(1) beat_of_def)
  obtain fs where d: "dtor_stream (sent_beats cbs cache q) dt = (fs, dt')"
    using run by (auto simp: loopback_def split: prod.splits)
  obtain outs where i: "ipay_stream cfg (received_frames recv fs) ip = (outs, ip')" "xs = fetched outs stage"
    using run d by (auto simp: loopback_def split: prod.splits)
  show ?thesis unfolding i(2) sp(2) [symmetric]
    by (rule packet_through [OF _ _ _ seg _ _ _ start d [unfolded beats] i(1)])
      (use sp(3) r b(2) data in \<open>simp_all add: ram_read_length del: upt_rec_numeral\<close>)
qed

subsection \<open>Packet after packet\<close>

lemma dtor_stream_append:
  "dtor_stream (bs @ cs) s = (case dtor_stream bs s of (outs, s1) \<Rightarrow>
     (case dtor_stream cs s1 of (outs', s2) \<Rightarrow> (outs @ outs', s2)))"
  by (induction bs arbitrary: s) (auto split: prod.splits)

lemma fetched_append: "\<exists>r'. \<forall>ys. fetched (xs @ ys) r = fetched xs r @ fetched ys r'"
proof (induction xs r rule: fetched.induct)
  case (2 w d xs r)
  then show ?case by (auto simp: Let_def split: option.splits)
qed auto

lemma consecutive_append:
  "consecutive port a (xs @ ys) \<longleftrightarrow> consecutive port a xs \<and> consecutive port (a + length (concat (map snd xs))) ys"
  by (induction port a xs rule: consecutive.induct) (auto simp: add.assoc)

lemma loopback_Cons:
  assumes "loopback cfg cbs cache recv (q # qs) (dt, ip, stage) = (xs, dt', ip')"
  obtains xs1 dt1 ip1 stage1 xs2 where "loopback cfg cbs cache recv [q] (dt, ip, stage) = (xs1, dt1, ip1)"
    "loopback cfg cbs cache recv qs (dt1, ip1, stage1) = (xs2, dt', ip')" "xs = xs1 @ xs2"
proof -
  obtain fs1 dt1 where d1: "dtor_stream (sent_beats cbs cache q) dt = (fs1, dt1)" by fastforce
  obtain fs2 where d2: "dtor_stream (concat (map (sent_beats cbs cache) qs)) dt1 = (fs2, dt')"
    using assms d1 by (auto simp: loopback_def dtor_stream_append split: prod.splits)
  obtain outs1 ip1 where i1: "ipay_stream cfg (received_frames recv fs1) ip = (outs1, ip1)" by fastforce
  obtain outs2 where i2: "ipay_stream cfg (received_frames recv fs2) ip1 = (outs2, ip')" "xs = fetched (outs1 @ outs2) stage"
    using assms d1 d2 i1 by (auto simp: loopback_def dtor_stream_append received_frames_def ipay_stream_append split: prod.splits)
  obtain stage1 where "\<forall>ys. fetched (outs1 @ ys) stage = fetched outs1 stage @ fetched ys stage1" using fetched_append by blast
  then show ?thesis using that d1 d2 i1 i2 by (fastforce simp: loopback_def)
qed

text \<open>Which byte of a message of \<open>b\<close> bytes arrives in place \<open>j\<close>.\<close>

definition seen_from :: "nat \<Rightarrow> nat \<Rightarrow> nat" where
  "seen_from b j = (if j mod 1408 < 14 then j + (64 - min 14 (b - 1408 * (j div 1408))) else j)"

lemma segment_seen_from:
  assumes "s = min 1408 (b - 1408 * i)"
  shows "segment_seen (\<lambda>t. c (1408 * i + t)) s = map (\<lambda>j. c (seen_from b j)) [1408 * i..<1408 * i + s]"
proof (rule nth_equalityI)
  show len: "length (segment_seen (\<lambda>t. c (1408 * i + t)) s) = length (map (\<lambda>j. c (seen_from b j)) [1408 * i..<1408 * i + s])"
    by (simp add: segment_seen_def)
  fix t assume "t < length (segment_seen (\<lambda>t. c (1408 * i + t)) s)"
  then have t: "t < s" by (simp add: segment_seen_def)
  then have "t < 1408" using assms by simp
  then have "(1408 * i + t) mod 1408 = t" "(1408 * i + t) div 1408 = i" by simp_all
  moreover have "min 14 s = min 14 (b - 1408 * i)" using assms by simp
  ultimately show "segment_seen (\<lambda>t. c (1408 * i + t)) s ! t = map (\<lambda>j. c (seen_from b j)) [1408 * i..<1408 * i + s] ! t"
    using t by (auto simp: segment_seen_def seen_from_def nth_append add.assoc add.commute [of t])
qed

text \<open>The triggers for a message of \<open>b\<close> bytes: with each of them 1408 bytes less remain.\<close>

definition trigger_at :: "queue_entry \<Rightarrow> nat \<Rightarrow> nat \<Rightarrow> queue_entry" where
  "trigger_at q b i = q\<lparr>qe_remaining := word_of_nat (b - 1408 * i)\<rparr>"

definition packet_count :: "nat \<Rightarrow> nat" where
  "packet_count b = (b + 1407) div 1408"

lemma trigger_at_simps [simp]: "qe_dbuff_id (trigger_at q b i) = qe_dbuff_id q"
  "pf_cb (sent_packet cbs (trigger_at q b i)) = pf_cb (sent_packet cbs q)"
  "b < 2 ^ 20 \<Longrightarrow> unat (qe_remaining (trigger_at q b i)) = b - 1408 * i"
  by (simp_all add: trigger_at_def sent_cb unsigned_of_nat take_bit_nat_eq_self del: of_nat_diff)

lemma loopback_packets:
  assumes b: "unat (mh_buff_size (pf_cb (sent_packet cbs q))) = b" "b \<le> 16384"
    and i: "i \<le> packet_count b"
    and start: "dt_buffered dt = 0" "buff_bytes ip = 0"
    and run: "loopback cfg cbs cache recv (map (trigger_at q b) [i..<packet_count b]) (dt, ip, stage) = (xs, dt', ip')"
  shows "consecutive (mh_dport (pf_cb (sent_packet cbs q))) (min b (1408 * i)) xs \<and>
     concat (map snd xs) = map (\<lambda>j. cache_byte cache (unat (qe_dbuff_id q) * 16384) (seen_from b j)) [1408 * i..<b] \<and>
     dt_buffered dt' = 0 \<and> buff_bytes ip' = 0"
  using i start run
proof (induction i arbitrary: dt ip stage xs rule: inc_induct)
  case base
  then show ?case by (auto simp: loopback_def packet_count_def received_frames_def)
next
  case (step i)
  let ?c = "cache_byte cache (unat (qe_dbuff_id q) * 16384)" and ?port = "mh_dport (pf_cb (sent_packet cbs q))"
  define s where "s = min 1408 (b - 1408 * i)"
  have i: "1408 * i < b" using step.hyps(2) by (simp add: packet_count_def)
  have "map (trigger_at q b) [i..<packet_count b] = trigger_at q b i # map (trigger_at q b) [Suc i..<packet_count b]"
    using step.hyps(2) by (simp add: upt_conv_Cons)
  then obtain xs1 dt1 ip1 stage1 xs2 where l: "loopback cfg cbs cache recv [trigger_at q b i] (dt, ip, stage) = (xs1, dt1, ip1)"
    "loopback cfg cbs cache recv (map (trigger_at q b) [Suc i..<packet_count b]) (dt1, ip1, stage1) = (xs2, dt', ip')" "xs = xs1 @ xs2"
    using step.prems(3) loopback_Cons [of cfg cbs cache recv "trigger_at q b i" _ dt ip stage xs dt' ip'] by metis
  have c: "cache_byte cache (unat (qe_dbuff_id q) * 16384 + 1408 * i) = (\<lambda>t. ?c (1408 * i + t))"
    by (simp add: cache_byte_def fun_eq_iff add.assoc)
  have "unat (mh_buff_size (pf_cb (sent_packet cbs (trigger_at q b i)))) = b"
    "unat (qe_remaining (trigger_at q b i)) = b - 1408 * i" using b by simp_all
  note one = loopback_run [OF this(1) b(2) this(2) _ _ step.prems(1,2) l(1)]
  have one: "consecutive ?port (1408 * i) xs1"
    "concat (map snd xs1) = map (\<lambda>j. ?c (seen_from b j)) [1408 * i..<1408 * i + s]" "dt_buffered dt1 = 0" "buff_bytes ip1 = 0"
    using one i segment_seen_from [OF s_def, of ?c] by (simp_all add: c flip: s_def)
  have next': "min b (1408 * Suc i) = 1408 * i + s" using i by (simp add: s_def)
  have "[1408 * Suc i..<b] = [1408 * i + s..<b]"
  proof (cases "1408 * Suc i \<le> b")
    case True
    then show ?thesis by (simp add: s_def add.commute)
  next
    case False
    then show ?thesis by (simp add: s_def)
  qed
  then have "consecutive ?port (1408 * i + s) xs2 \<and> concat (map snd xs2) = map (\<lambda>j. ?c (seen_from b j)) [1408 * i + s..<b] \<and>
      dt_buffered dt' = 0 \<and> buff_bytes ip' = 0"
    using step.IH [OF one(3,4) l(2)] unfolding next' by simp
  moreover have "[1408 * i..<b] = [1408 * i..<1408 * i + s] @ [1408 * i + s..<b]"
    using i by (simp add: s_def min_def) (metis le_add1 less_imp_le nat_add_left_cancel_le ordered_cancel_comm_monoid_diff_class.add_diff_inverse upt_add_eq_append le_Suc_ex)
  ultimately show ?case using one i by (simp add: l(3) consecutive_append)
qed

subsection \<open>The memory of the host\<close>

text \<open>The DMA core stores the bytes of a request at the address that \<open>AddressMap\<close> puts in its place; \<open>MgmtCore\<close> connects
  \<open>PPingressPayload\<close> to the channel with number 1.\<close>

definition host_store :: "u64 \<Rightarrow> byte list \<Rightarrow> (u64 \<Rightarrow> byte) \<Rightarrow> u64 \<Rightarrow> byte" where
  "host_store a bs m = (\<lambda>x. if unat (x - a) < length bs then bs ! unat (x - a) else m x)"

fun host_stores :: "(nat \<Rightarrow> u64 option) \<Rightarrow> (dma_req \<times> byte list) list \<Rightarrow> (u64 \<Rightarrow> byte) \<Rightarrow> (u64 \<Rightarrow> byte) option" where
  "host_stores t [] m = Some m"
| "host_stores t ((q, bs) # xs) m =
     (case snd (translate t 1 q) of None \<Rightarrow> None | Some a \<Rightarrow> host_stores t xs (host_store a bs m))"

lemma host_store_append:
  assumes "length bs + length cs < 2 ^ 64"
  shows "host_store (a + word_of_nat (length bs)) cs (host_store a bs m) = host_store a (bs @ cs) m"
proof
  fix x
  let ?n = "length bs"
  have n: "unat (word_of_nat ?n :: u64) = ?n" using assms by (simp add: unsigned_of_nat take_bit_nat_eq_self)
  have e: "x - (a + word_of_nat ?n) = (x - a) - word_of_nat ?n" by simp
  have d: "unat (x - (a + word_of_nat ?n)) = (if ?n \<le> unat (x - a) then unat (x - a) - ?n else unat (x - a) + 2 ^ 64 - ?n)"
    unfolding e by (simp add: unat_sub_if' n)
  show "host_store (a + word_of_nat ?n) cs (host_store a bs m) x = host_store a (bs @ cs) m x"
    using assms by (auto simp: host_store_def d nth_append)
qed

lemma consecutive_stores:
  assumes "t (table_index port 1) = Some base"
  shows "consecutive port a xs \<Longrightarrow> length (concat (map snd xs)) < 2 ^ 64 \<Longrightarrow>
    host_stores t xs m = Some (host_store (base + word_of_nat a) (concat (map snd xs)) m)"
proof (induction xs arbitrary: a m)
  case Nil
  then show ?case by (simp add: host_store_def)
next
  case (Cons x xs)
  obtain q bs where x: "x = (q, bs)" by fastforce
  have addr: "snd (translate t 1 q) = Some (base + word_of_nat a)"
    using Cons.prems(1) assms by (simp add: x translate_def add.commute)
  have "host_stores t xs (host_store (base + word_of_nat a) bs m) =
      Some (host_store (base + word_of_nat a + word_of_nat (length bs)) (concat (map snd xs)) (host_store (base + word_of_nat a) bs m))"
    using Cons.IH [of "a + length bs"] Cons.prems by (simp add: x add.assoc)
  also have "host_store (base + word_of_nat a + word_of_nat (length bs)) (concat (map snd xs)) (host_store (base + word_of_nat a) bs m) =
      host_store (base + word_of_nat a) (bs @ concat (map snd xs)) m"
    using Cons.prems(2) by (intro host_store_append) (simp add: x)
  finally show ?case using addr by (simp add: x)
qed

subsection \<open>From the program's header to the receiver's memory\<close>

lemma stored_block:
  assumes "header_typed h" "handle i (header_bytes h) user st = (True, out, st1)" "drop_bit 12 user \<noteq> 0"
    "egress_ram out = Some w" "new_sendmsg out = Some q"
  shows "pf_cb (sent_packet (ram_write w mem) q) = (as_msghdr (header_bytes h))\<lparr>mh_id := ucast (send_id st)\<rparr>"
    "unat (qe_dbuff_id q) = unat (dbuff_id st)"
proof -
  let ?h = "(as_msghdr (header_bytes h))\<lparr>mh_id := ucast (send_id st)\<rparr>"
  have out: "out = sendmsg_out (send_id st) (dbuff_id st) (drop_bit 12 user) (header_bytes h)"
    using assms(2,3) by (auto simp: handle_def Let_def split: if_splits)
  have id: "ucast (ucast a :: u64) = a" for a :: "16 word"
    by (rule bit_word_eqI) (auto simp: bit_simps)
  have w: "w = \<lparr>rw_addr = word_of_nat (64 * unat (send_id st)), rw_len = 64, rw_data = msghdr_bytes ?h\<rparr>"
    and q: "qe_rpc_id q = send_id st" "qe_dbuff_id q = ucast (dbuff_id st)"
    using assms(4,5) by (auto simp: out sendmsg_out_def Let_def id)
  show "unat (qe_dbuff_id q) = unat (dbuff_id st)" using unsigned_less [of "dbuff_id st", where 'a = nat]
    by (simp add: q unsigned_ucast_eq take_bit_nat_eq_self)
  have bytes: "msghdr_bytes ?h = header_bytes (h\<lparr>msg_id := ucast (send_id st)\<rparr>)" by (rule msghdr_bytes_header [OF assms(1)])
  have typed: "header_typed (h\<lparr>msg_id := ucast (send_id st)\<rparr>)" using assms(1) by (simp add: header_typed_def)
  then have len: "length (msghdr_bytes ?h) = 64" by (simp only: bytes length_header)
  have "ram_read (ram_write w mem) (rw_addr w) = flat_read (flat_write (rw_addr w) (rw_data w) (ram_byte mem)) (rw_addr w) 64"
    using ram_write_flat [of w mem] len by (simp add: ram_read_flat w)
  also have "\<dots> = msghdr_bytes ?h"
    using flat_read_write [of 0 "rw_data w" "rw_addr w" "ram_byte mem"] len by (simp add: w flat_read_def)
  also have "\<dots> = header_bytes (h\<lparr>msg_id := ucast (send_id st)\<rparr>)" by (rule bytes)
  finally have "pf_cb (sent_packet (ram_write w mem) q) = as_msghdr (header_bytes (h\<lparr>msg_id := ucast (send_id st)\<rparr>))"
    by (simp add: sent_cb q(1) w del: of_nat_mult)
  then show "pf_cb (sent_packet (ram_write w mem) q) = ?h"
    by (simp add: as_msghdr_header [OF typed] as_msghdr_header [OF assms(1)])
qed

subsection \<open>Properties\<close>


text \<open>Twenty bytes to port 7.\<close>

definition demo_header :: msghdr_send where
  "demo_header = (bench_header 20)\<lparr>dport := 7, metadata := 81920\<rparr>"

definition demo_cache :: seg_ram where
  "demo_cache = ram_write \<lparr>rw_addr = 0, rw_len = 64, rw_data = map word_of_nat [1..<65]\<rparr> ram_init"

lemma demo_cache_byte: "i < 64 \<Longrightarrow> cache_byte demo_cache 0 i = word_of_nat (Suc i)"
proof -
  assume i: "i < 64"
  let ?w = "\<lparr>rw_addr = 0, rw_len = 64, rw_data = map word_of_nat [1..<65]\<rparr>"
  have "ram_byte demo_cache = flat_write 0 (map word_of_nat [1..<65]) (ram_byte ram_init)"
    using ram_write_flat [of ?w ram_init] by (simp add: demo_cache_def del: upt_rec_numeral)
  moreover have "unat (word_of_nat i :: 18 word) = i" using i by (simp add: unsigned_of_nat take_bit_nat_eq_self)
  ultimately show ?thesis using i by (simp add: cache_byte_def flat_write_def nth_append del: upt_rec_numeral)
qed

definition demo_trigger :: queue_entry where
  "demo_trigger = \<lparr>qe_priority = ACTIVE, qe_granted = 0, qe_dbuffered = 20, qe_remaining = 20, qe_dbuff_id = 0, qe_rpc_id = 0\<rparr>"


end
