(* ===== verification/Open_Race.thy ===== *)
theory Open_Race
  imports Driver
begin

section \<open>Files opened at the same time\<close>

text \<open>
  \<open>homanic_open\<close> of \<open>driver/homanic.c\<close> again, statement by statement: the kernel calls it in the thread of
  the program that opens the device, and neither the kernel nor the driver keeps two threads apart
  (the comment over the function asks whether that can happen). A program counter says which statement
  of its call a thread is about to run; all threads share the sessions and the static \<open>dma_map\<close>. A
  schedule is the list of the threads in the order in which they run a statement. A thread has the
  name of the file it opens, and \<open>al f k\<close> is the result of its allocation number \<open>k\<close>.
\<close>

subsection \<open>One statement\<close>

datatype open_pc =
    Scan nat \<comment> \<open>the comparison in the loop\<close>
  | Claim nat \<comment> \<open>\<open>session->assigned = true\<close>\<close>
  | Publish nat \<comment> \<open>\<open>file->private_data = session\<close>\<close>
  | Allocate nat nat \<comment> \<open>the allocation number, the session\<close>
  | Set_Addr nat nat
  | Set_Port nat nat
  | Set_Type nat nat
  | Copy_Low nat nat
  | Copy_High nat nat
  | Returned int

text \<open>The three allocations: metadata, outgoing and incoming messages.\<close>

definition alloc_buffer :: "nat \<Rightarrow> nat \<Rightarrow> (nat \<times> nat) option \<Rightarrow> driver \<Rightarrow> driver" where
  "alloc_buffer k s a d =
     (if k = 0 then with_session s (\<lambda>x. x\<lparr>c2h_metadata_cpu_addr := alloc_addr a,
          c2h_metadata_dma_handle := alloc_handle a (c2h_metadata_dma_handle x)\<rparr>) (dma_alloc_coherent METADATA_BYTES a d)
      else if k = 1 then with_session s (\<lambda>x. x\<lparr>h2c_msgbuff_cpu_addr := alloc_addr a,
          h2c_msgbuff_dma_handle := alloc_handle a (h2c_msgbuff_dma_handle x)\<rparr>) (dma_alloc_coherent MSGBUFF_BYTES a d)
      else with_session s (\<lambda>x. x\<lparr>c2h_msgbuff_cpu_addr := alloc_addr a,
          c2h_msgbuff_dma_handle := alloc_handle a (c2h_msgbuff_dma_handle x)\<rparr>) (dma_alloc_coherent MSGBUFF_BYTES a d))"

definition buffer_handle :: "nat \<Rightarrow> session \<Rightarrow> nat" where
  "buffer_handle k x = (if k = 0 then c2h_metadata_dma_handle x else if k = 1 then h2c_msgbuff_dma_handle x
     else c2h_msgbuff_dma_handle x)"

definition buffer_type :: "nat \<Rightarrow> nat" where
  "buffer_type k = (if k = 0 then C2H_METADATA_MAP else if k = 1 then H2C_MSGBUFF_MAP else C2H_MSGBUFF_MAP)"

fun open_move :: "nat \<Rightarrow> (nat \<Rightarrow> (nat \<times> nat) option) \<Rightarrow> open_pc \<Rightarrow> driver \<Rightarrow> driver \<times> open_pc" where
  "open_move f al (Scan s) d =
     (if \<not> assigned (sessions d ! s) then (d, Claim s)
      else if s = MAX_PORTS - 1 then (d, Returned 1) else (d, Scan (s + 1)))"
| "open_move f al (Claim s) d = (with_session s (\<lambda>x. x\<lparr>assigned := True\<rparr>) d, Publish s)"
| "open_move f al (Publish s) d = (d\<lparr>files := (files d)(f \<mapsto> s)\<rparr>, Allocate 0 s)"
| "open_move f al (Allocate k s) d = (alloc_buffer k s (al k) d, Set_Addr k s)"
| "open_move f al (Set_Addr k s) d =
     (d\<lparr>dma_map := (dma_map d)\<lparr>phys_addr := buffer_handle k (sessions d ! s)\<rparr>\<rparr>, Set_Port k s)"
| "open_move f al (Set_Port k s) d = (d\<lparr>dma_map := (dma_map d)\<lparr>map_port := 1\<rparr>\<rparr>, Set_Type k s)"
| "open_move f al (Set_Type k s) d = (d\<lparr>dma_map := (dma_map d)\<lparr>map_type := buffer_type k\<rparr>\<rparr>, Copy_Low k s)"
| "open_move f al (Copy_Low k s) d = (d\<lparr>mmio := mmio d @ [(0, take 32 (map_bytes (dma_map d)))]\<rparr>, Copy_High k s)"
| "open_move f al (Copy_High k s) d =
     (d\<lparr>mmio := mmio d @ [(32, drop 32 (map_bytes (dma_map d)))]\<rparr>, if k < 2 then Allocate (k + 1) s else Returned 0)"
| "open_move f al (Returned r) d = (d, Returned r)"

text \<open>A statement of thread \<open>f\<close>, and a schedule.\<close>

definition open_step ::
    "(nat \<Rightarrow> nat \<Rightarrow> (nat \<times> nat) option) \<Rightarrow> nat \<Rightarrow> driver \<times> (nat \<Rightarrow> open_pc) \<Rightarrow> driver \<times> (nat \<Rightarrow> open_pc)" where
  "open_step al f = (\<lambda>(d, pcs). case open_move f (al f) (pcs f) d of (d', pc) \<Rightarrow> (d', pcs(f := pc)))"

definition open_sched ::
    "(nat \<Rightarrow> nat \<Rightarrow> (nat \<times> nat) option) \<Rightarrow> nat list \<Rightarrow> driver \<times> (nat \<Rightarrow> open_pc) \<Rightarrow> driver \<times> (nat \<Rightarrow> open_pc)" where
  "open_sched al fs st = fold (open_step al) fs st"

subsection \<open>Every call returns\<close>

text \<open>How many statements are left: 16 comparisons, two for the session, 18 for the buffers.\<close>

fun moves_left :: "open_pc \<Rightarrow> nat" where
  "moves_left (Scan s) = 20 + (MAX_PORTS - s)"
| "moves_left (Claim s) = 20"
| "moves_left (Publish s) = 19"
| "moves_left (Allocate k s) = 18 - 6 * k"
| "moves_left (Set_Addr k s) = 17 - 6 * k"
| "moves_left (Set_Port k s) = 16 - 6 * k"
| "moves_left (Set_Type k s) = 15 - 6 * k"
| "moves_left (Copy_Low k s) = 14 - 6 * k"
| "moves_left (Copy_High k s) = 13 - 6 * k"
| "moves_left (Returned r) = 0"

fun pc_ok :: "open_pc \<Rightarrow> bool" where
  "pc_ok (Scan s) \<longleftrightarrow> s < MAX_PORTS"
| "pc_ok (Claim s) \<longleftrightarrow> s < MAX_PORTS"
| "pc_ok (Publish s) \<longleftrightarrow> s < MAX_PORTS"
| "pc_ok (Allocate k s) \<longleftrightarrow> k < 3 \<and> s < MAX_PORTS"
| "pc_ok (Set_Addr k s) \<longleftrightarrow> k < 3 \<and> s < MAX_PORTS"
| "pc_ok (Set_Port k s) \<longleftrightarrow> k < 3 \<and> s < MAX_PORTS"
| "pc_ok (Set_Type k s) \<longleftrightarrow> k < 3 \<and> s < MAX_PORTS"
| "pc_ok (Copy_Low k s) \<longleftrightarrow> k < 3 \<and> s < MAX_PORTS"
| "pc_ok (Copy_High k s) \<longleftrightarrow> k < 3 \<and> s < MAX_PORTS"
| "pc_ok (Returned r) \<longleftrightarrow> r \<in> {0, 1}"

lemma move_progress:
  "pc_ok pc \<Longrightarrow> pc_ok (snd (open_move f al pc d)) \<and> moves_left (snd (open_move f al pc d)) \<le> moves_left pc - 1"
  by (cases pc) (auto simp: MAX_PORTS_def)

lemma step_pcs: "snd (open_step al f st) = (snd st)(f := snd (open_move f (al f) (snd st f) (fst st)))"
  by (simp add: open_step_def case_prod_beta)

lemma sched_progress:
  "pc_ok (snd st f) \<Longrightarrow>
   pc_ok (snd (open_sched al fs st) f) \<and> moves_left (snd (open_sched al fs st) f) \<le> moves_left (snd st f) - count_list fs f"
proof (induction fs arbitrary: st)
  case (Cons g fs)
  show ?case
  proof (cases "g = f")
    case True
    have "pc_ok (snd (open_step al g st) f)" "moves_left (snd (open_step al g st) f) \<le> moves_left (snd st f) - 1"
      using move_progress [OF Cons.prems] by (simp_all add: step_pcs True)
    moreover from this(1) have "pc_ok (snd (open_sched al fs (open_step al g st)) f)"
      "moves_left (snd (open_sched al fs (open_step al g st)) f) \<le> moves_left (snd (open_step al g st) f) - count_list fs f"
      using Cons.IH by simp_all
    moreover have "open_sched al (g # fs) st = open_sched al fs (open_step al g st)" by (simp add: open_sched_def)
    ultimately show ?thesis using True by (simp only: count_list.simps if_True refl simp_thms)
  next
    case False
    then show ?thesis using Cons.IH [of "open_step al g st"] Cons.prems by (simp add: open_sched_def step_pcs)
  qed
qed (simp add: open_sched_def)

lemma count_same: "count_list (replicate n x) x = n"
  by (induction n) auto

lemma no_moves_left: "pc_ok pc \<Longrightarrow> moves_left pc = 0 \<Longrightarrow> pc = Returned 0 \<or> pc = Returned 1"
  by (cases pc) auto

subsection \<open>A call that is alone\<close>

lemma sched_simps: "open_sched al [] st = st" "open_sched al (f # fs) st = open_sched al fs (open_step al f st)"
  "open_sched al (fs @ gs) st = open_sched al gs (open_sched al fs st)"
  by (simp_all add: open_sched_def)

lemma step_move [simp]: "open_step al f (d, pcs) = (fst (open_move f (al f) (pcs f) d), pcs(f := snd (open_move f (al f) (pcs f) d)))"
  by (simp add: open_step_def case_prod_beta)

lemma scan_free:
  "find_free s (drop s (sessions d)) = Some k \<Longrightarrow> length (sessions d) = MAX_PORTS \<Longrightarrow> pcs f = Scan s \<Longrightarrow>
   open_sched al (replicate (Suc k - s) f) (d, pcs) = (d, pcs(f := Claim k))"
proof (induction "MAX_PORTS - s" arbitrary: s pcs)
  case (Suc n)
  then have s: "s < MAX_PORTS" by simp
  then have dr: "drop s (sessions d) = sessions d ! s # drop (Suc s) (sessions d)"
    using Suc.prems(2) by (simp add: Cons_nth_drop_Suc)
  show ?case
  proof (cases "assigned (sessions d ! s)")
    case False
    then have "k = s" using Suc.prems(1) by (simp add: dr)
    then show ?thesis using False Suc.prems by (simp add: sched_simps)
  next
    case True
    then have ff: "find_free (Suc s) (drop (Suc s) (sessions d)) = Some k" using Suc.prems(1) by (simp add: dr)
    obtain j where k: "k = Suc s + j" "j < length (drop (Suc s) (sessions d))" using find_free_Some [OF ff] by blast
    then have r: "Suc k - s = Suc (Suc k - Suc s)" "s \<noteq> MAX_PORTS - 1" using Suc.prems(2) by auto
    have "open_sched al (replicate (Suc k - s) f) (d, pcs) = open_sched al (replicate (Suc k - Suc s) f) (d, pcs(f := Scan (Suc s)))"
      using True Suc.prems(3) r(2) unfolding r(1) by (simp add: sched_simps)
    also have "\<dots> = (d, pcs(f := Claim k))" using Suc.hyps(1) [of "Suc s"] Suc.hyps(2) ff Suc.prems(2) by simp
    finally show ?thesis .
  qed
qed simp

lemma scan_full:
  "find_free s (drop s (sessions d)) = None \<Longrightarrow> length (sessions d) = MAX_PORTS \<Longrightarrow> s < MAX_PORTS \<Longrightarrow> pcs f = Scan s \<Longrightarrow>
   open_sched al (replicate (MAX_PORTS - s) f) (d, pcs) = (d, pcs(f := Returned 1))"
proof (induction "MAX_PORTS - s" arbitrary: s pcs)
  case (Suc n)
  have dr: "drop s (sessions d) = sessions d ! s # drop (Suc s) (sessions d)"
    using Suc.prems(2,3) by (simp add: Cons_nth_drop_Suc)
  have a: "assigned (sessions d ! s)" "find_free (Suc s) (drop (Suc s) (sessions d)) = None"
    using Suc.prems(1) by (auto simp: dr split: if_splits)
  have m: "MAX_PORTS - s = Suc (MAX_PORTS - Suc s)" using Suc.prems(3) by simp
  show ?case
  proof (cases "s = MAX_PORTS - 1")
    case True
    then show ?thesis using a(1) Suc.prems(4) unfolding m by (simp add: sched_simps)
  next
    case False
    then have "open_sched al (replicate (MAX_PORTS - s) f) (d, pcs) =
        open_sched al (replicate (MAX_PORTS - Suc s) f) (d, pcs(f := Scan (Suc s)))"
      using a(1) Suc.prems(4) unfolding m by (simp add: sched_simps)
    also have "\<dots> = (d, pcs(f := Returned 1))"
      using Suc.hyps(1) [of "Suc s"] Suc.hyps(2) a(2) Suc.prems(2,3) False by simp
    finally show ?thesis .
  qed
qed simp

lemma onboard_alt:
  "onboard_map h t d = (d\<lparr>dma_map := (dma_map d)\<lparr>phys_addr := h, map_port := 1, map_type := t\<rparr>\<rparr>)
     \<lparr>mmio := mmio d @ [(0, take 32 (map_bytes ((dma_map d)\<lparr>phys_addr := h, map_port := 1, map_type := t\<rparr>)))]
       @ [(32, drop 32 (map_bytes ((dma_map d)\<lparr>phys_addr := h, map_port := 1, map_type := t\<rparr>)))]\<rparr>"
proof -
  have "(dma_map d)\<lparr>phys_addr := h, map_port := 1, map_type := t\<rparr> = \<lparr>phys_addr = h, map_port = 1, map_type = t\<rparr>" by simp
  then show ?thesis by (simp only: onboard_map_def Let_def iomov64B_halves [OF length_map_bytes] add_0) simp
qed

lemma replicate_few: "replicate 4 f = [f, f, f, f]" "replicate 6 f = [f, f, f, f, f, f]"
  by (simp_all add: eval_nat_numeral)

lemma one_buffer:
  assumes "pcs f = Allocate k s"
  shows "open_sched al (replicate 6 f) (d, pcs) =
    (onboard_map (buffer_handle k (sessions (alloc_buffer k s (al f k) d) ! s)) (buffer_type k) (alloc_buffer k s (al f k) d),
     pcs(f := if k < 2 then Allocate (k + 1) s else Returned 0))"
  using assms unfolding onboard_alt by (simp add: sched_simps replicate_few)

definition open_buffers :: "(nat \<Rightarrow> (nat \<times> nat) option) \<Rightarrow> nat \<Rightarrow> driver \<Rightarrow> driver" where
  "open_buffers al s d = open_c2h_msgbuff s (al 2) (open_h2c_msgbuff s (al 1) (open_metadata s (al 0) d))"

lemma buffer_steps:
  "onboard_map (buffer_handle 0 (sessions (alloc_buffer 0 s a d) ! s)) (buffer_type 0) (alloc_buffer 0 s a d) = open_metadata s a d"
  "onboard_map (buffer_handle 1 (sessions (alloc_buffer 1 s a d) ! s)) (buffer_type 1) (alloc_buffer 1 s a d) = open_h2c_msgbuff s a d"
  "onboard_map (buffer_handle 2 (sessions (alloc_buffer 2 s a d) ! s)) (buffer_type 2) (alloc_buffer 2 s a d) = open_c2h_msgbuff s a d"
  by (simp_all only: open_metadata_def open_h2c_msgbuff_def open_c2h_msgbuff_def Let_def alloc_buffer_def buffer_handle_def
      buffer_type_def if_True if_False zero_neq_one one_neq_zero zero_neq_numeral numeral_eq_one_iff semiring_norm refl simp_thms)

lemma from_allocate:
  assumes "pcs f = Allocate 0 s"
  shows "open_sched al (replicate 18 f) (d, pcs) = (open_buffers (al f) s d, pcs(f := Returned 0))"
proof -
  have r: "replicate 18 f = replicate 6 f @ replicate 6 f @ replicate 6 f" by (simp flip: replicate_add)
  show ?thesis unfolding r sched_simps
    by (simp add: one_buffer assms buffer_steps buffer_steps(2) [unfolded One_nat_def] open_buffers_def flip: numeral_2_eq_2)
qed

lemma from_claim:
  assumes "pcs f = Claim s"
  shows "open_sched al (replicate 20 f) (d, pcs) =
    (open_buffers (al f) s ((with_session s (\<lambda>x. x\<lparr>assigned := True\<rparr>) d)\<lparr>files := (files d)(f \<mapsto> s)\<rparr>), pcs(f := Returned 0))"
proof -
  have r: "replicate 20 f = f # f # replicate 18 f" by (simp add: eval_nat_numeral)
  show ?thesis unfolding r sched_simps(2) using assms by (simp add: from_allocate)
qed

lemma returned_stays: "pcs f = Returned r \<Longrightarrow> open_sched al (replicate m f) (d, pcs) = (d, pcs)"
  by (induction m) (simp_all add: sched_simps fun_upd_idem)

lemma open_stages:
  "homanic_open f (al 0) (al 1) (al 2) d = (case find_free 0 (sessions d) of None \<Rightarrow> (1, d)
     | Some s \<Rightarrow> (0, open_buffers al s ((with_session s (\<lambda>x. x\<lparr>assigned := True\<rparr>) d)\<lparr>files := (files d)(f \<mapsto> s)\<rparr>)))"
  by (cases "find_free 0 (sessions d)") (simp_all only: homanic_open_def open_buffers_def option.case)

lemma alone:
  assumes "length (sessions d) = MAX_PORTS" "pcs f = Scan 0" "36 \<le> m"
  shows "open_sched al (replicate m f) (d, pcs) =
    (snd (homanic_open f (al f 0) (al f 1) (al f 2) d), pcs(f := Returned (fst (homanic_open f (al f 0) (al f 1) (al f 2) d))))"
proof (cases "find_free 0 (sessions d)")
  case None
  have "replicate m f = replicate MAX_PORTS f @ replicate (m - MAX_PORTS) f"
    using assms(3) by (simp add: MAX_PORTS_def flip: replicate_add)
  then have "open_sched al (replicate m f) (d, pcs) = open_sched al (replicate (m - MAX_PORTS) f) (d, pcs(f := Returned 1))"
    using scan_full [of 0 d pcs f al] None assms by (simp add: sched_simps MAX_PORTS_def)
  then show ?thesis using None by (simp add: returned_stays homanic_open_def)
next
  case (Some k)
  have k: "k < MAX_PORTS" using find_free_Some [OF Some] assms(1) by auto
  have "replicate m f = replicate (Suc k) f @ replicate 20 f @ replicate (m - 20 - Suc k) f"
    using assms(3) k by (simp add: MAX_PORTS_def flip: replicate_add replicate_Suc)
  then show ?thesis
    using scan_free [of 0 d k pcs f al] Some assms(1,2)
    by (simp add: sched_simps(3) from_claim returned_stays open_stages del: replicate_Suc One_nat_def)
qed

subsection \<open>Two calls at once\<close>

definition claimed :: "nat \<Rightarrow> nat \<Rightarrow> driver \<Rightarrow> driver" where
  "claimed f s d = (with_session s (\<lambda>x. x\<lparr>assigned := True\<rparr>) d)\<lparr>files := (files d)(f \<mapsto> s)\<rparr>"

lemma claimed_simps [simp]:
  "files (claimed f s d) = (files d)(f \<mapsto> s)" "live (claimed f s d) = live d" "mmio (claimed f s d) = mmio d"
  "sessions (claimed f s d) = (sessions d)[s := (sessions d ! s)\<lparr>assigned := True\<rparr>]"
  by (simp_all add: claimed_def)

lemma open_buffers_effect:
  assumes "s < length (sessions d)"
  shows "sessions (open_buffers al s (claimed f s d)) = (sessions d)[s := opened_session (al 0) (al 1) (al 2) (sessions d ! s)]"
    "files (open_buffers al s (claimed f s d)) = (files d)(f \<mapsto> s)"
    "alloc_ok (al 0) \<Longrightarrow> alloc_ok (al 1) \<Longrightarrow> alloc_ok (al 2) \<Longrightarrow> live (open_buffers al s (claimed f s d)) =
       live d + buffers (opened_session (al 0) (al 1) (al 2) (sessions d ! s))"
proof -
  note defs = open_buffers_def open_metadata_def open_h2c_msgbuff_def open_c2h_msgbuff_def Let_def
  show "sessions (open_buffers al s (claimed f s d)) = (sessions d)[s := opened_session (al 0) (al 1) (al 2) (sessions d ! s)]"
    "files (open_buffers al s (claimed f s d)) = (files d)(f \<mapsto> s)"
    using assms by (simp_all add: defs opened_session_def)
  show "live (open_buffers al s (claimed f s d)) = live d + buffers (opened_session (al 0) (al 1) (al 2) (sessions d ! s))"
    if "alloc_ok (al 0)" "alloc_ok (al 1)" "alloc_ok (al 2)"
    using live_alloc [OF that(1), of _ _ "c2h_metadata_dma_handle (sessions d ! s)"]
      live_alloc [OF that(2), of _ _ "h2c_msgbuff_dma_handle (sessions d ! s)"]
      live_alloc [OF that(3), of _ _ "c2h_msgbuff_dma_handle (sessions d ! s)"]
    by (simp add: defs buffers_def opened_session_def)
qed

text \<open>Both threads look for a free session before either has claimed it, then one runs after the other.\<close>

definition both_scan :: "nat \<Rightarrow> nat \<Rightarrow> nat \<Rightarrow> nat list" where
  "both_scan k f g = replicate (Suc k) f @ replicate (Suc k) g @ replicate 20 f @ replicate 20 g"

lemma both_claim:
  assumes "length (sessions d) = MAX_PORTS" "find_free 0 (sessions d) = Some k" "f \<noteq> g" "pcs f = Scan 0" "pcs g = Scan 0"
  shows "open_sched al (both_scan k f g) (d, pcs) =
    (open_buffers (al g) k (claimed g k (open_buffers (al f) k (claimed f k d))), pcs(f := Returned 0, g := Returned 0))"
proof -
  have "open_sched al (both_scan k f g) (d, pcs) =
      open_sched al (replicate 20 f @ replicate 20 g) (d, pcs(f := Claim k, g := Claim k))"
    using scan_free [of 0 d k pcs f al] scan_free [of 0 d k "pcs(f := Claim k)" g al] assms
    by (simp add: both_scan_def sched_simps(3) del: replicate_Suc)
  also have "\<dots> = open_sched al (replicate 20 g)
      (open_buffers (al f) k (claimed f k d), pcs(f := Claim k, g := Claim k, f := Returned 0))"
    by (subst sched_simps(3), subst from_claim) (use assms(3) in \<open>simp_all add: claimed_def\<close>)
  also have "\<dots> = (open_buffers (al g) k (claimed g k (open_buffers (al f) k (claimed f k d))),
      pcs(f := Returned 0, g := Returned 0))"
    by (subst from_claim) (use assms(3) in \<open>simp_all add: claimed_def fun_upd_twist\<close>)
  finally show ?thesis .
qed

lemma free_session:
  assumes "length (filter assigned ss) < length ss"
  shows "\<exists>k. find_free 0 ss = Some k"
proof (cases "find_free 0 ss")
  case None
  then have "filter assigned ss = ss" by (simp add: find_free_None filter_id_conv)
  then show ?thesis using assms by simp
qed simp

lemma metadata_not_in:
  assumes "al0 \<noteq> Some (cpu, h)" "cpu \<noteq> 0"
  shows "(cpu, h, METADATA_BYTES) \<notin># buffers (opened_session al0 al1 al2 x)"
  using assms by (cases al0)
    (auto simp: buffers_def opened_session_def alloc_addr_def alloc_handle_def METADATA_BYTES_def MSGBUFF_BYTES_def)

lemma close_freed:
  assumes "files d g = Some k" "c2h_metadata_cpu_addr (sessions d ! k) = cpu" "c2h_metadata_dma_handle (sessions d ! k) = h"
    "cpu \<noteq> 0" "(cpu, h, METADATA_BYTES) \<notin># live d"
  shows "homanic_close g d = Inl UseAfterFree"
  using assms by (simp add: homanic_close_def dma_free_coherent_def Let_def)

subsection \<open>An interrupted description\<close>

text \<open>One thread is interrupted after it has stored the address of its first buffer in \<open>dma_map\<close>.\<close>

definition interrupted :: "nat \<Rightarrow> nat \<Rightarrow> nat \<Rightarrow> nat list" where
  "interrupted k f g = replicate (Suc k) f @ replicate 4 f @ replicate 36 g @ replicate 16 f"

lemma until_address:
  assumes "pcs f = Claim s" "s < length (sessions d)"
  shows "\<exists>d1. open_sched al (replicate 4 f) (d, pcs) = (d1, pcs(f := Set_Port 0 s)) \<and> files d1 = (files d)(f \<mapsto> s) \<and>
     mmio d1 = mmio d \<and> (\<exists>x. assigned x \<and> sessions d1 = (sessions d)[s := x])"
  using assms by (auto simp: sched_simps replicate_few alloc_buffer_def intro!: exI)

lemma rest_of_description:
  assumes "pcs f = Set_Port 0 s"
  shows "\<exists>d3 h1 h2. open_sched al (replicate 16 f) (d, pcs) = (d3, pcs(f := Returned 0)) \<and> files d3 = files d \<and>
     mmio d3 = mmio d @ iomov64B 0 (map_bytes \<lparr>phys_addr = phys_addr (dma_map d), map_port = 1, map_type = C2H_METADATA_MAP\<rparr>) @
       iomov64B 0 (map_bytes \<lparr>phys_addr = h1, map_port = 1, map_type = H2C_MSGBUFF_MAP\<rparr>) @
       iomov64B 0 (map_bytes \<lparr>phys_addr = h2, map_port = 1, map_type = C2H_MSGBUFF_MAP\<rparr>)"
proof -
  let ?m = "\<lparr>phys_addr = phys_addr (dma_map d), map_port = 1, map_type = C2H_METADATA_MAP\<rparr>"
  let ?d1 = "d\<lparr>dma_map := ?m, mmio := mmio d @ iomov64B 0 (map_bytes ?m)\<rparr>"
  let ?n = "(dma_map d)\<lparr>map_port := 1, map_type := C2H_METADATA_MAP\<rparr>"
  have "open_sched al (replicate 4 f) (d, pcs) =
      (d\<lparr>dma_map := ?n, mmio := mmio d @ iomov64B 0 (map_bytes ?n)\<rparr>, pcs(f := Allocate 1 s))"
    using assms by (simp add: sched_simps replicate_few buffer_type_def iomov64B_halves del: One_nat_def)
  moreover have "?n = ?m" by simp
  ultimately have four: "open_sched al (replicate 4 f) (d, pcs) = (?d1, pcs(f := Allocate 1 s))" by (simp only:)
  have r: "replicate 16 f = replicate 4 f @ replicate 6 f @ replicate 6 f" by (simp flip: replicate_add)
  have "open_sched al (replicate 16 f) (d, pcs) =
      (open_c2h_msgbuff s (al f 2) (open_h2c_msgbuff s (al f 1) ?d1), pcs(f := Returned 0))"
    unfolding r sched_simps four
    by (simp add: one_buffer buffer_steps buffer_steps(2) [unfolded One_nat_def] flip: numeral_2_eq_2)
  then show ?thesis by (auto simp: open_c2h_msgbuff_def open_h2c_msgbuff_def Let_def)
qed

lemma decoded_type: "map_type p < 256 \<Longrightarrow> map_port p < 2 ^ 16 \<Longrightarrow>
    map_type (decode_map (map_bytes p)) = map_type p \<and> map_port (decode_map (map_bytes p)) = map_port p"
  by (simp add: decode_map_def map_bytes_def unat_byte)

lemma open_last_map:
  assumes "homanic_open g a1 a2 (Some (cpu, h)) d = (0, d')" "length (sessions d) = MAX_PORTS"
  shows "phys_addr (dma_map d') = h"
proof -
  obtain s where s: "find_free 0 (sessions d) = Some s" "s < MAX_PORTS" using open_effect [OF assms] by blast
  then show ?thesis using assms
    by (auto simp: homanic_open_def open_c2h_msgbuff_def Let_def onboard_map_def open_h2c_msgbuff_def open_metadata_def alloc_handle_def)
qed

subsection \<open>Claims\<close>

text \<open>C24: a call of \<open>open\<close> is never blocked and never left by the others: whatever they do in between, it
  returns 0 or 1 after at most 36 of its own statements. When no other statement comes in between, it
  returns what the function \<open>homanic_open\<close> of the sequential model returns and leaves the same state.\<close>

theorem open_returns:
  assumes "pcs f = Scan 0" "36 \<le> count_list fs f"
  shows "(snd (open_sched al fs (d, pcs)) f = Returned 0 \<or> snd (open_sched al fs (d, pcs)) f = Returned 1) \<and>
    (length (sessions d) = MAX_PORTS \<longrightarrow> 36 \<le> m \<longrightarrow> open_sched al (replicate m f) (d, pcs) =
       (case homanic_open f (al f 0) (al f 1) (al f 2) d of (r, d') \<Rightarrow> (d', pcs(f := Returned r))))"
proof -
  have "pc_ok (snd (d, pcs) f)" "moves_left (snd (d, pcs) f) = 36" using assms(1) by (simp_all add: MAX_PORTS_def)
  then have "pc_ok (snd (open_sched al fs (d, pcs)) f)" "moves_left (snd (open_sched al fs (d, pcs)) f) = 0"
    using sched_progress [of "(d, pcs)" f al fs] assms(2) by simp_all
  then show ?thesis using no_moves_left alone [where pcs = pcs and f = f] assms(1) by (simp add: case_prod_beta)
qed

theorem open_returns_witness:
  "\<exists>d d'. open_sched (\<lambda>f k. Some (f + k + 1, 4096 * k)) (replicate 36 5) (d, \<lambda>_. Scan 0) =
     (d', (\<lambda>_. Scan 0)(5 := Returned 0)) \<and> snd (open_sched (\<lambda>f k. None) (replicate 36 6 @ [5, 5]) (d, \<lambda>_. Scan 0)) 6 \<in> {Returned 0, Returned 1}"
proof -
  obtain d where d: "drv_reach d 0" using files_none_init by blast
  have len: "length (sessions d) = MAX_PORTS" by (rule drv_invD(1) [OF drv_reach_inv [OF d]])
  obtain d' where d': "homanic_open 5 (Some (6, 0)) (Some (7, 4096)) (Some (8, 8192)) d = (0, d')"
    using open_succeeds [OF d, of 5 "Some (6, 0)" "Some (7, 4096)" "Some (8, 8192)"] by (auto simp: MAX_PORTS_def)
  let ?al = "\<lambda>f k. Some (f + k + 1 :: nat, 4096 * k :: nat)"
  have c: "36 \<le> count_list (replicate 36 5) (5 :: nat)" "36 \<le> count_list (replicate 36 6 @ [5, 5]) (6 :: nat)"
    by (simp_all add: count_list_append count_same)
  have "open_sched ?al (replicate 36 5) (d, \<lambda>_. Scan 0) = (d', (\<lambda>_. Scan 0)(5 := Returned 0))"
    using open_returns [where pcs = "\<lambda>_. Scan 0" and f = 5 and al = ?al and m = 36, OF _ c(1)] len d' by simp
  moreover have "snd (open_sched (\<lambda>f k. None) (replicate 36 6 @ [5, 5]) (d, \<lambda>_. Scan 0)) 6 \<in> {Returned 0, Returned 1}"
    using open_returns [where pcs = "\<lambda>_. Scan 0" and f = 6 and al = "\<lambda>f k. None", OF _ c(2)] by simp
  ultimately show ?thesis by blast
qed

text \<open>C25: two threads that open the device at the same time can get the same session. Both calls succeed, the
  buffers of the first are lost (nothing refers to them any more), and of the two calls of \<open>release\<close> the
  second frees what the first has already freed.\<close>

theorem open_race:
  assumes "drv_reach d n" "n < MAX_PORTS" "f \<noteq> g" "pcs f = Scan 0" "pcs g = Scan 0" "\<forall>k. alloc_ok (al f k) \<and> alloc_ok (al g k)"
    "al g 0 = Some (cpu, h)" "(cpu, h, METADATA_BYTES) \<notin># live d" "al f 0 \<noteq> al g 0"
  shows "\<exists>fs d' k d2. open_sched al fs (d, pcs) = (d', pcs(f := Returned 0, g := Returned 0)) \<and>
    files d' f = Some k \<and> files d' g = Some k \<and> homanic_close f d' = Inr d2 \<and>
    live d2 = live d + buffers (opened_session (al f 0) (al f 1) (al f 2) (sessions d ! k)) \<and>
    homanic_close g d2 = Inl UseAfterFree"
proof -
  note D = drv_invD [OF drv_reach_inv [OF assms(1)]]
  obtain k where k: "find_free 0 (sessions d) = Some k" using free_session D(1,7) assms(2) by metis
  then have k16: "k < length (sessions d)" using find_free_Some [OF k] by auto
  let ?xf = "opened_session (al f 0) (al f 1) (al f 2) (sessions d ! k)"
  let ?xg = "opened_session (al g 0) (al g 1) (al g 2) ?xf"
  let ?d1 = "open_buffers (al f) k (claimed f k d)"
  let ?d' = "open_buffers (al g) k (claimed g k ?d1)"
  note e1 = open_buffers_effect [OF k16, of "al f" f]
  have k1: "k < length (sessions ?d1)" using k16 by (simp add: e1)
  note e2 = open_buffers_effect [OF k1, of "al g" g]
  have s: "sessions ?d' ! k = ?xg" using k16 by (simp add: e1 e2)
  have fl: "files ?d' f = Some k" "files ?d' g = Some k" using assms(3) by (simp_all add: e1 e2)
  have lv: "live ?d' = buffers (sessions ?d' ! k) + (live d + buffers ?xf)"
    using assms(6) k16 e1(3) e2(3) by (simp only: s) (simp add: e1)
  obtain d2 where d2: "homanic_close f ?d' = Inr d2" "sessions d2 = sessions ?d'" "files d2 = (files ?d')(f := None)"
    "live d2 = live d + buffers ?xf"
    using close_effect [OF fl(1) lv] by blast
  have cpu: "cpu \<noteq> 0" using assms(6,7) by (metis alloc_ok_def)
  have "homanic_close g d2 = Inl UseAfterFree"
  proof (rule close_freed)
    show "files d2 g = Some k" using fl(2) d2(3) assms(3) by simp
    show "c2h_metadata_cpu_addr (sessions d2 ! k) = cpu" "c2h_metadata_dma_handle (sessions d2 ! k) = h"
      using assms(7) by (simp_all add: d2(2) s opened_session_def alloc_addr_def alloc_handle_def)
    show "(cpu, h, METADATA_BYTES) \<notin># live d2" using assms(7-9) metadata_not_in [OF _ cpu] by (simp add: d2(4))
  qed (rule cpu)
  then show ?thesis using both_claim [OF D(1) k assms(3-5)] fl d2 by blast
qed

theorem open_race_witness:
  "\<exists>d fs d' k d2. drv_reach d 0 \<and>
     open_sched (\<lambda>f k. Some (f + k, 4096 * f)) fs (d, \<lambda>_. Scan 0) = (d', (\<lambda>_. Scan 0)(10 := Returned 0, 20 := Returned 0)) \<and>
     files d' 10 = Some k \<and> files d' 20 = Some k \<and> homanic_close 10 d' = Inr d2 \<and>
     live d2 = {#(10, 40960, METADATA_BYTES), (11, 40960, MSGBUFF_BYTES), (12, 40960, MSGBUFF_BYTES)#} \<and>
     homanic_close 20 d2 = Inl UseAfterFree"
proof -
  obtain d where d: "drv_reach d 0" "files d = (\<lambda>_. None)" using files_none_init by blast
  have lv: "live d = {#}" using drv_invD(6) [OF drv_reach_inv [OF d(1)]] d(2) by simp
  let ?al = "\<lambda>f k. Some (f + k :: nat, 4096 * f :: nat)"
  have "\<exists>fs d' k d2. open_sched ?al fs (d, \<lambda>_. Scan 0) = (d', (\<lambda>_. Scan 0)(10 := Returned 0, 20 := Returned 0)) \<and>
    files d' 10 = Some k \<and> files d' 20 = Some k \<and> homanic_close 10 d' = Inr d2 \<and>
    live d2 = live d + buffers (opened_session (?al 10 0) (?al 10 1) (?al 10 2) (sessions d ! k)) \<and>
    homanic_close 20 d2 = Inl UseAfterFree"
    by (rule open_race [OF d(1), where cpu = 20 and h = 81920]) (simp_all add: alloc_ok_def MAX_PORTS_def lv)
  then show ?thesis using d(1) by (simp add: lv buffers_def opened_session_def alloc_addr_def alloc_handle_def) blast
qed

text \<open>the description of a buffer for the NIC is built in a structure that all calls share. A thread
  that another one overtakes after it has stored the address of its metadata buffer tells the NIC to write the
  metadata to the buffer for incoming messages of the other file.\<close>

theorem open_tears_description:
  assumes "drv_reach d n" "n + 1 < MAX_PORTS" "f \<noteq> g" "pcs f = Scan 0" "pcs g = Scan 0" "al g 2 = Some (cpu, h)" "h < 2 ^ 64"
  shows "\<exists>fs d' j k. open_sched al fs (d, pcs) = (d', pcs(f := Returned 0, g := Returned 0)) \<and>
    files d' f = Some j \<and> files d' g = Some k \<and> j \<noteq> k \<and>
    nic_table (nic_maps (mmio d')) (1, C2H_METADATA_MAP) = Some h"
proof -
  note D = drv_invD [OF drv_reach_inv [OF assms(1)]]
  obtain j where j: "find_free 0 (sessions d) = Some j" using free_session D(1,7) assms(2) by (metis add_lessD1)
  then have j16: "j < length (sessions d)" "\<not> assigned (sessions d ! j)" using find_free_Some [OF j] by auto
  obtain d1 x where d1: "open_sched al (replicate 4 f) (d, pcs(f := Claim j)) = (d1, pcs(f := Set_Port 0 j))"
    "files d1 = (files d)(f \<mapsto> j)" "mmio d1 = mmio d" "assigned x" "sessions d1 = (sessions d)[j := x]"
    using until_address [of "pcs(f := Claim j)" f j d al] j16 by auto
  have len: "length (sessions d1) = MAX_PORTS" using D(1) d1(5) by simp
  have "length (filter assigned (sessions d1)) < length (sessions d1)"
    using filter_assigned_update [OF j16 d1(4)] D(7) assms(2) len by (simp add: d1(5))
  then obtain k where k: "find_free 0 (sessions d1) = Some k" using free_session by blast
  have jk: "j \<noteq> k" using find_free_Some [OF k] d1(4,5) j16(1) by auto
  obtain d2 where d2: "homanic_open g (al g 0) (al g 1) (al g 2) d1 = (0, d2)" using k by (auto simp: homanic_open_def)
  have g: "open_sched al (replicate 36 g) (d1, pcs(f := Set_Port 0 j)) = (d2, pcs(f := Set_Port 0 j, g := Returned 0))"
    using alone [OF len, of "pcs(f := Set_Port 0 j)" g 36 al] assms(3,5) d2 by simp
  have fd2: "files d2 = (files d1)(g \<mapsto> k)" "even (length (mmio d2))"
    using open_effect [OF d2 len] k even_mmio [OF assms(1)] d1(3) by (auto simp: iomov64B_def)
  have h: "phys_addr (dma_map d2) = h" using open_last_map [OF _ len] d2 assms(6) by metis
  obtain d3 h1 h2 where d3: "open_sched al (replicate 16 f) (d2, pcs(f := Set_Port 0 j, g := Returned 0)) =
      (d3, pcs(f := Set_Port 0 j, g := Returned 0, f := Returned 0))" "files d3 = files d2"
    "mmio d3 = mmio d2 @ iomov64B 0 (map_bytes \<lparr>phys_addr = h, map_port = 1, map_type = C2H_METADATA_MAP\<rparr>) @
       iomov64B 0 (map_bytes \<lparr>phys_addr = h1, map_port = 1, map_type = H2C_MSGBUFF_MAP\<rparr>) @
       iomov64B 0 (map_bytes \<lparr>phys_addr = h2, map_port = 1, map_type = C2H_MSGBUFF_MAP\<rparr>)"
    using rest_of_description [of "pcs(f := Set_Port 0 j, g := Returned 0)" f j al d2] assms(3) h by auto
  have "open_sched al (interrupted j f g) (d, pcs) = (d3, pcs(f := Returned 0, g := Returned 0))"
    using scan_free [of 0 d j pcs f al] j D(1) assms(3,4) d1(1) g d3(1)
    by (simp add: interrupted_def sched_simps(3) fun_upd_twist del: replicate_Suc)
  moreover have "nic_table (nic_maps (mmio d3)) (1, C2H_METADATA_MAP) = Some h"
  proof -
    let ?p1 = "decode_map (map_bytes \<lparr>phys_addr = h1, map_port = 1, map_type = H2C_MSGBUFF_MAP\<rparr>)"
    let ?p2 = "decode_map (map_bytes \<lparr>phys_addr = h2, map_port = 1, map_type = C2H_MSGBUFF_MAP\<rparr>)"
    have "nic_maps (mmio d3) = nic_maps (mmio d2) @ [\<lparr>phys_addr = h, map_port = 1, map_type = C2H_METADATA_MAP\<rparr>, ?p1, ?p2]"
      using nic_maps_append [OF fd2(2)] nic_maps_iomov nic_maps_iomov [of _ "[]"] assms(7)
      by (simp add: d3(3) decode_map_bytes C2H_METADATA_MAP_def)
    then show ?thesis using decoded_type
      by (simp add: nic_table_def C2H_METADATA_MAP_def H2C_MSGBUFF_MAP_def C2H_MSGBUFF_MAP_def)
  qed
  ultimately show ?thesis using d3(2) fd2(1) d1(2) jk assms(3) by (intro exI conjI) auto
qed

theorem open_tears_description_witness:
  "\<exists>d fs d' j k. drv_reach d 0 \<and>
     open_sched (\<lambda>f k. Some (f + k, 4096 * f)) fs (d, \<lambda>_. Scan 0) = (d', (\<lambda>_. Scan 0)(10 := Returned 0, 20 := Returned 0)) \<and>
     files d' 10 = Some j \<and> files d' 20 = Some k \<and> j \<noteq> k \<and> nic_table (nic_maps (mmio d')) (1, C2H_METADATA_MAP) = Some 81920"
proof -
  obtain d where d: "drv_reach d 0" using files_none_init by blast
  have "\<exists>fs d' j k. open_sched (\<lambda>f k. Some (f + k, 4096 * f)) fs (d, \<lambda>_. Scan 0) = (d', (\<lambda>_. Scan 0)(10 := Returned 0, 20 := Returned 0)) \<and>
    files d' 10 = Some j \<and> files d' 20 = Some k \<and> j \<noteq> k \<and> nic_table (nic_maps (mmio d')) (1, C2H_METADATA_MAP) = Some 81920"
    by (rule open_tears_description [OF d, where cpu = 22]) (simp_all add: MAX_PORTS_def)
  then show ?thesis using d by blast
qed

end
