(* ===== verification/Firmware.thy ===== *)
theory Firmware
  imports Bytes
begin

section \<open>The firmware of the soft core\<close>

text \<open>
  What is not commented out in \<open>firmware/homa.c\<close>: \<open>main\<close>, to which the reset vector of \<open>reset.s\<close> jumps
  and which makes four accesses to fixed addresses. The bus is a parameter: what a load from an address
  returns after a list of accesses. The functions for the messages are commented out.
\<close>

datatype bus_access = Load nat u32 | Store nat u32

definition MM_LOOP :: nat where "MM_LOOP = 0x10000"

definition firmware_main :: "(bus_access list \<Rightarrow> nat \<Rightarrow> u32) \<Rightarrow> bus_access list" where
  "firmware_main bus =
     (let as = [Store MM_LOOP 0xdeadbeef]; v = bus as MM_LOOP
      in as @ [Load MM_LOOP v, Store 0x100 v, Store 0x108 0xdeadbeef])"

text \<open>A bus on which every address is memory.\<close>

fun memory_bus :: "bus_access list \<Rightarrow> nat \<Rightarrow> u32" where
  "memory_bus [] p = 0"
| "memory_bus (Load q v # as) p = memory_bus as p"
| "memory_bus (Store q v # as) p = (if q = p \<and> (\<forall>x. Store p x \<notin> set as) then v else memory_bus as p)"

text \<open>The stored word is read back if the address of the loop is memory, and copied; whatever it is, the last
  store is made.\<close>

lemma firmware_marks:
  "memory_bus (firmware_main memory_bus) 0x100 = 0xdeadbeef" "memory_bus (firmware_main bus) 0x108 = 0xdeadbeef"
  by (simp_all add: firmware_main_def MM_LOOP_def Let_def)

lemma firmware_copies: "memory_bus (firmware_main bus) 0x100 = bus [Store MM_LOOP 0xdeadbeef] MM_LOOP"
  by (simp add: firmware_main_def MM_LOOP_def Let_def)

end
