(* ===== verification/Test_Utils.thy ===== *)
theory Test_Utils
  imports Bytes C_Library
begin

section \<open>Test utilities: seeded buffers\<close>

text \<open>
  \<open>seed_buffer\<close>, \<open>check_buffer\<close> and \<open>check_message\<close> of \<open>app/lib/test_utils.cc\<close>. A buffer is a
  position in a memory of bytes; the integers in it are read and written four bytes at a time, and
  an access outside the memory is the error \<open>OutOfRange\<close>. What the functions print is the second
  component of their result: index, expected and actual value of the first wrong integer.
\<close>

subsection \<open>Integers in memory\<close>

definition load_int :: "int \<Rightarrow> byte list \<Rightarrow> int res" where
  "load_int pos m = rbind (load 4 pos m) (\<lambda>v. Inr (to_int32 (int v)))"

definition store_int :: "int \<Rightarrow> int \<Rightarrow> byte list \<Rightarrow> byte list res" where
  "store_int pos i m = store 4 pos (nat (i mod 2 ^ 32)) m"

lemma load_store_int:
  assumes "store_int pos i m = Inr m'" "int32_range i"
  shows "load_int pos m' = Inr i"
proof -
  have "to_int32 (i mod 2 ^ 32) = to_int32 i"
    by (simp only: to_int32_def signed_take_bit_eq_iff_take_bit_eq take_bit_eq_mod) simp
  moreover have "nat (i mod 2 ^ 32) mod 256 ^ 4 = nat (i mod 2 ^ 32)"
  proof (rule mod_less)
    have "i mod 2 ^ 32 < 2 ^ 32" by (rule pos_mod_bound) simp
    then show "nat (i mod 2 ^ 32) < 256 ^ 4" by simp
  qed
  ultimately show ?thesis
    using load_store_same [of 4 pos _ m m'] assms to_int32_id
    by (simp add: load_int_def store_int_def)
qed

lemma load_int_other:
  "store_int pos i m = Inr m' \<Longrightarrow> q + 4 \<le> pos \<or> pos + 4 \<le> q \<Longrightarrow> load_int q m' = load_int q m"
  using load_store_other [of 4 pos _ m m' q 4] by (simp add: store_int_def load_int_def)

text \<open>The number of integers that cover a length of type \<open>size_t\<close>, as an \<open>int\<close>.\<close>

definition num_ints :: "nat \<Rightarrow> int" where
  "num_ints len = to_int32 (int ((len + 3) mod 2 ^ 64 div 4))"

lemma num_ints_eq:
  assumes "int len \<le> 4 * int_max"
  shows "num_ints len = (int len + 3) div 4"
proof -
  have "int ((len + 3) div 4) = (int len + 3) div 4" by (simp add: zdiv_int)
  moreover have "(len + 3) mod 2 ^ 64 = len + 3" using assms by (simp add: int_max_def)
  moreover have "int32_range ((int len + 3) div 4)" using assms by (auto simp: int32_range_def int_min_def int_max_def)
  ultimately show ?thesis by (simp add: num_ints_def to_int32_id)
qed

subsection \<open>seed_buffer\<close>

function seed_loop :: "int \<Rightarrow> int \<Rightarrow> int \<Rightarrow> int \<Rightarrow> byte list \<Rightarrow> byte list res" where
  "seed_loop num seed base i m =
     (if i < num then rbind (int_val (seed + i)) (\<lambda>v.
        rbind (store_int (base + 4 * i) v m) (\<lambda>m'. seed_loop num seed base (i + 1) m'))
      else Inr m)"
  by auto
termination by (relation "measure (\<lambda>(num, seed, base, i, m). nat (num - i))") auto

definition seed_buffer :: "int \<Rightarrow> nat \<Rightarrow> int \<Rightarrow> byte list \<Rightarrow> byte list res" where
  "seed_buffer base len seed m = seed_loop (num_ints len) seed base 0 m"

subsection \<open>check_buffer\<close>

type_synonym bad_value = "(int \<times> int \<times> int) option"

function check_loop :: "int \<Rightarrow> int \<Rightarrow> int \<Rightarrow> int \<Rightarrow> byte list \<Rightarrow> bad_value res" where
  "check_loop num seed base i m =
     (if i < num then rbind (load_int (base + 4 * i) m) (\<lambda>x.
        rbind (int_val (seed + i)) (\<lambda>v.
          if x \<noteq> v then Inr (Some (i, v, x)) else check_loop num seed base (i + 1) m))
      else Inr None)"
  by auto
termination by (relation "measure (\<lambda>(num, seed, base, i, m). nat (num - i))") auto

definition check_buffer :: "int \<Rightarrow> nat \<Rightarrow> byte list \<Rightarrow> (int \<times> bad_value) res" where
  "check_buffer base len m =
     rbind (load_int base m) (\<lambda>seed.
     rbind (check_loop (num_ints len) seed base 0 m) (\<lambda>bad. Inr (seed, bad)))"

declare seed_loop.simps [simp del] check_loop.simps [simp del]

subsection \<open>check_message\<close>

definition HOMA_BPAGE_SHIFT :: nat where "HOMA_BPAGE_SHIFT = 16"
definition HOMA_BPAGE_SIZE :: nat where "HOMA_BPAGE_SIZE = 2 ^ HOMA_BPAGE_SHIFT"
definition HOMA_MAX_MESSAGE_LENGTH :: nat where "HOMA_MAX_MESSAGE_LENGTH = 1000000"

definition HOMA_MAX_BPAGES :: nat where
  "HOMA_MAX_BPAGES = (HOMA_MAX_MESSAGE_LENGTH + HOMA_BPAGE_SIZE - 1) div 2 ^ HOMA_BPAGE_SHIFT"

text \<open>The fields of \<open>homa_recvmsg_args\<close> that describe the buffers of a message; the array has
  \<open>HOMA_MAX_BPAGES\<close> elements.\<close>

record recv_buffers =
  num_bpages :: nat
  bpage_offsets :: "nat list"

definition bpage_offset :: "recv_buffers \<Rightarrow> nat \<Rightarrow> nat res" where
  "bpage_offset control i =
     (if i < HOMA_MAX_BPAGES then vec_at (bpage_offsets control) (int i) else Inl OutOfRange)"

text \<open>The inner loop over the integers of a page: the count so far, or the first wrong value.\<close>

function page_loop :: "int \<Rightarrow> int \<Rightarrow> int \<Rightarrow> int \<Rightarrow> int \<Rightarrow> byte list \<Rightarrow> (int \<times> bad_value) res" where
  "page_loop num seed base j n m =
     (if j < num then rbind (load_int (base + 4 * j) m) (\<lambda>x.
        rbind (int_val (seed + n)) (\<lambda>v.
          if x \<noteq> v then Inr (n, Some (n, v, x))
          else rbind (int_val (n + 1)) (\<lambda>c. page_loop num seed base (j + 1) c m)))
      else Inr (n, None))"
  by auto
termination by (relation "measure (\<lambda>(num, seed, base, j, n, m). nat (num - j))") auto

declare page_loop.simps [simp del]

text \<open>\<open>k\<close> counts the pages still to come; \<open>len\<close> and \<open>skip\<close> change as in the code, where the
  arithmetic of \<open>size_t\<close> wraps around.\<close>

fun message_loop :: "nat \<Rightarrow> nat \<Rightarrow> recv_buffers \<Rightarrow> int \<Rightarrow> nat \<Rightarrow> int \<Rightarrow> int \<Rightarrow> int \<Rightarrow> byte list \<Rightarrow> bad_value res" where
  "message_loop 0 i control region len skip seed n m = Inr None"
| "message_loop (Suc k) i control region len skip seed n m =
     rbind (bpage_offset control i) (\<lambda>off.
     let buf_length = to_u64 (int (if len > HOMA_BPAGE_SIZE then HOMA_BPAGE_SIZE else len) - skip)
     in rbind (page_loop (num_ints buf_length) seed (region + int off + skip) 0 n m) (\<lambda>(c, bad).
          case bad of
            Some b \<Rightarrow> Inr (Some b)
          | None \<Rightarrow> message_loop k (i + 1) control region
                      (to_u64 (int len - int HOMA_BPAGE_SIZE)) 0 seed c m))"

definition check_message :: "recv_buffers \<Rightarrow> int \<Rightarrow> nat \<Rightarrow> int \<Rightarrow> byte list \<Rightarrow> (int \<times> bad_value) res" where
  "check_message control region len skip m =
     rbind (bpage_offset control 0) (\<lambda>off.
     rbind (load_int (region + int off + skip) m) (\<lambda>seed.
     rbind (message_loop (num_bpages control) 0 control region len skip seed 0 m) (\<lambda>bad.
       Inr (seed, bad))))"

subsection \<open>Buffers as lists of integers\<close>

text \<open>The integers of a run of bytes, and the comparison with the seeded sequence, which goes on
  with \<open>g\<close> when all of them are right.\<close>

definition int_of_bytes :: "byte list \<Rightarrow> int" where
  "int_of_bytes bs = to_int32 (int (of_bytes (take 4 bs)))"

definition words :: "byte list \<Rightarrow> int list" where
  "words bs = map (\<lambda>j. int_of_bytes (drop (4 * j) bs)) [0..<length bs div 4]"

fun check_ints :: "int list \<Rightarrow> int \<Rightarrow> int \<Rightarrow> (int \<Rightarrow> bad_value res) \<Rightarrow> bad_value res" where
  "check_ints [] seed n g = g n"
| "check_ints (x # xs) seed n g =
     rbind (int_val (seed + n)) (\<lambda>v. if x \<noteq> v then Inr (Some (n, v, x)) else check_ints xs seed (n + 1) g)"

lemma rbind_cong: "m = m' \<Longrightarrow> (\<And>x. m' = Inr x \<Longrightarrow> f x = f' x) \<Longrightarrow> rbind m f = rbind m' f'"
  by (cases m') auto

lemma check_ints_append:
  "check_ints (xs @ ys) seed n g = check_ints xs seed n (\<lambda>c. check_ints ys seed c g)"
  by (induction xs arbitrary: n) (auto intro!: rbind_cong)

lemma load_int_ok:
  "0 \<le> pos \<Longrightarrow> nat pos + 4 \<le> length m \<Longrightarrow> load_int pos m = Inr (int_of_bytes (drop (nat pos) m))"
  by (simp add: load_int_def load_def peek_def int_of_bytes_def)

lemma length_words [simp]: "length (words bs) = length bs div 4"
  by (simp add: words_def)

lemma words_nth: "j < length bs div 4 \<Longrightarrow> words bs ! j = int_of_bytes (drop (4 * j) bs)"
  by (simp add: words_def)

lemma int_of_bytes_append: "4 \<le> length xs \<Longrightarrow> int_of_bytes (xs @ ys) = int_of_bytes xs"
  by (simp add: int_of_bytes_def)

lemma int_of_bytes_take: "4 \<le> n \<Longrightarrow> int_of_bytes (take n xs) = int_of_bytes xs"
  by (simp add: int_of_bytes_def min_def)

lemma words_append:
  assumes "4 dvd length xs"
  shows "words (xs @ ys) = words xs @ words ys"
proof -
  obtain k where k: "length xs = 4 * k" using assms by (auto elim: dvdE)
  show ?thesis
  proof (rule nth_equalityI)
    fix j assume j: "j < length (words (xs @ ys))"
    show "words (xs @ ys) ! j = (words xs @ words ys) ! j"
    proof (cases "j < k")
      case True
      then show ?thesis using j k by (simp add: words_nth nth_append int_of_bytes_append)
    next
      case False
      then have "words (xs @ ys) ! j = int_of_bytes (drop (4 * (j - k)) ys)"
        using j k by (simp add: words_nth right_diff_distrib')
      moreover have "j - k < length ys div 4" using j k False by simp
      ultimately show ?thesis using k False by (simp add: words_nth nth_append)
    qed
  qed (simp add: k)
qed

text \<open>The bytes from a position on, as many as \<open>num\<close> integers take.\<close>

definition span :: "int \<Rightarrow> int \<Rightarrow> byte list \<Rightarrow> byte list" where
  "span base num m = take (4 * nat num) (drop (nat base) m)"

lemma words_span:
  assumes "0 \<le> base" "nat base + 4 * nat num \<le> length m" "0 < num"
  shows "words (span base num m) = int_of_bytes (drop (nat base) m) # words (span (base + 4) (num - 1) m)"
proof -
  have "span base num m = take 4 (drop (nat base) m) @ span (base + 4) (num - 1) m"
  proof -
    have n: "4 * nat num = 4 + 4 * nat (num - 1)" "nat (base + 4) = nat base + 4" using assms by auto
    show ?thesis unfolding span_def n take_add by (simp add: add.commute)
  qed
  moreover have "words (take 4 (drop (nat base) m)) = [int_of_bytes (drop (nat base) m)]"
    using assms by (simp add: words_def int_of_bytes_take)
  ultimately show ?thesis using assms by (simp add: words_append)
qed

lemma check_loop_ints:
  "0 \<le> base \<Longrightarrow> 0 \<le> i \<Longrightarrow> i \<le> num \<Longrightarrow> nat base + 4 * nat num \<le> length m \<Longrightarrow>
   check_loop num seed base i m = check_ints (words (span (base + 4 * i) (num - i) m)) seed i (\<lambda>_. Inr None)"
proof (induction num seed base i m rule: check_loop.induct)
  case (1 num seed base i m)
  show ?case
  proof (cases "i < num")
    case True
    have fit: "nat (base + 4 * i) + 4 * nat (num - i) \<le> length m" using 1(2-5) by auto
    then have "load_int (base + 4 * i) m = Inr (int_of_bytes (drop (nat (base + 4 * i)) m))"
      using True 1(2,3) by (intro load_int_ok) auto
    moreover have "words (span (base + 4 * i) (num - i) m) =
        int_of_bytes (drop (nat (base + 4 * i)) m) # words (span (base + 4 * (i + 1)) (num - (i + 1)) m)"
      using words_span [OF _ fit] True 1(2,3) by (simp add: algebra_simps)
    ultimately show ?thesis using True 1
      by (subst check_loop.simps) (auto intro!: rbind_cong)
  next
    case False
    then show ?thesis using 1(4) by (subst check_loop.simps) (simp add: span_def words_def)
  qed
qed

lemma page_loop_ints:
  "0 \<le> base \<Longrightarrow> 0 \<le> j \<Longrightarrow> j \<le> num \<Longrightarrow> nat base + 4 * nat num \<le> length m \<Longrightarrow>
   0 \<le> n \<Longrightarrow> n + (num - j) \<le> int_max \<Longrightarrow>
   rbind (page_loop num seed base j n m) (\<lambda>(c, bad). case bad of Some b \<Rightarrow> Inr (Some b) | None \<Rightarrow> g c) =
   check_ints (words (span (base + 4 * j) (num - j) m)) seed n g"
proof (induction num seed base j n m rule: page_loop.induct)
  case (1 num seed base j n m)
  show ?case
  proof (cases "j < num")
    case True
    have fit: "nat (base + 4 * j) + 4 * nat (num - j) \<le> length m" using 1(2-5) by auto
    then have "load_int (base + 4 * j) m = Inr (int_of_bytes (drop (nat (base + 4 * j)) m))"
      using True 1(2,3) by (intro load_int_ok) auto
    moreover have "words (span (base + 4 * j) (num - j) m) =
        int_of_bytes (drop (nat (base + 4 * j)) m) # words (span (base + 4 * (j + 1)) (num - (j + 1)) m)"
      using words_span [OF _ fit] True 1(2,3) by (simp add: algebra_simps)
    moreover have "int_val (n + 1) = Inr (n + 1)" using 1(6,7) True by (intro int_val_ok) (auto simp: int_min_def)
    ultimately show ?thesis using True 1
      by (subst page_loop.simps) (auto simp: rbind_assoc intro!: rbind_cong)
  next
    case False
    then show ?thesis using 1(4) by (subst page_loop.simps) (simp add: span_def words_def)
  qed
qed

subsection \<open>What seed_buffer writes\<close>

lemma int_val_Inr: "int_val i = Inr j \<longleftrightarrow> int32_range i \<and> j = i"
  by (auto simp: int_val_def)

lemma seed_loop_ok:
  "0 \<le> base \<Longrightarrow> 0 \<le> i \<Longrightarrow> i \<le> num \<Longrightarrow> nat base + 4 * nat num \<le> length m \<Longrightarrow>
   int_min \<le> seed \<Longrightarrow> seed + num - 1 \<le> int_max \<Longrightarrow>
   \<exists>m'. seed_loop num seed base i m = Inr m' \<and> length m' = length m \<and>
     take (nat (base + 4 * i)) m' = take (nat (base + 4 * i)) m \<and>
     drop (nat (base + 4 * num)) m' = drop (nat (base + 4 * num)) m \<and>
     words (span (base + 4 * i) (num - i) m') = map (\<lambda>j. seed + j) [i..num - 1]"
proof (induction num seed base i m rule: seed_loop.induct)
  case (1 num seed base i m)
  show ?case
  proof (cases "i < num")
    case True
    let ?p = "base + 4 * i"
    have p: "nat ?p + 4 \<le> length m" "0 \<le> ?p" using 1(2-5) True by auto
    have v: "int_val (seed + i) = Inr (seed + i)" using 1(3,6,7) True by (intro int_val_ok) auto
    have "store_int ?p (seed + i) m \<noteq> Inl e" for e using p by (simp add: store_int_def store_def poke_def)
    then obtain m1 where m1: "store_int ?p (seed + i) m = Inr m1" by (cases "store_int ?p (seed + i) m") auto
    then have m1': "store 4 ?p (nat ((seed + i) mod 2 ^ 32)) m = Inr m1" by (simp add: store_int_def)
    note same = poke_take_drop [OF m1' [unfolded store_def]]
    have len: "length m1 = length m" using length_store [OF m1'] .
    have "\<exists>m'. seed_loop num seed base (i + 1) m1 = Inr m' \<and> length m' = length m1 \<and>
       take (nat (base + 4 * (i + 1))) m' = take (nat (base + 4 * (i + 1))) m1 \<and>
       drop (nat (base + 4 * num)) m' = drop (nat (base + 4 * num)) m1 \<and>
       words (span (base + 4 * (i + 1)) (num - (i + 1)) m') = map (\<lambda>j. seed + j) [i + 1..num - 1]"
      using True v m1 1(2-7) len by (intro 1(1)) (auto simp: int_val_Inr)
    then obtain m' where m': "seed_loop num seed base (i + 1) m1 = Inr m'" "length m' = length m1"
      "take (nat (base + 4 * (i + 1))) m' = take (nat (base + 4 * (i + 1))) m1"
      "drop (nat (base + 4 * num)) m' = drop (nat (base + 4 * num)) m1"
      "words (span (base + 4 * (i + 1)) (num - (i + 1)) m') = map (\<lambda>j. seed + j) [i + 1..num - 1]"
      by blast
    have next_p: "nat (base + 4 * (i + 1)) = nat ?p + 4" using p(2) by simp
    have "take 4 (drop (nat ?p) m') = take 4 (drop (nat ?p) m1)"
      using m'(3) unfolding next_p by (metis add.commute take_drop)
    then have "int_of_bytes (drop (nat ?p) m') = int_of_bytes (drop (nat ?p) m1)" by (simp add: int_of_bytes_def)
    also have "\<dots> = seed + i"
      using load_store_int [OF m1] load_int_ok [of ?p m1] p len v by (simp add: int_val_Inr)
    finally have "words (span ?p (num - i) m') = (seed + i) # map (\<lambda>j. seed + j) [i + 1..num - 1]"
      using words_span [of ?p "num - i" m'] m'(2,5) len p 1(2-5) True by (simp add: algebra_simps)
    moreover have "[i..num - 1] = i # [i + 1..num - 1]" using True by (simp add: upto_rec1)
    moreover have "take (nat ?p) m' = take (nat ?p) m"
    proof -
      have "take (nat ?p) m' = take (nat ?p) m1"
        using arg_cong [OF m'(3), of "take (nat ?p)"] unfolding next_p by simp
      then show ?thesis using same(1) [of "nat ?p"] by simp
    qed
    moreover have "drop (nat (base + 4 * num)) m' = drop (nat (base + 4 * num)) m"
      using m'(4) same(2) [of "nat (base + 4 * num)"] True 1(2,3) by simp
    moreover have "seed_loop num seed base i m = Inr m'" using True v m1 m'(1) by (subst seed_loop.simps) simp
    ultimately show ?thesis using m'(2) len by (intro exI [of _ m']) simp
  next
    case False
    then show ?thesis using 1(4) by (subst seed_loop.simps) (simp add: span_def words_def)
  qed
qed

lemma check_ints_seeded:
  "int_min \<le> seed \<Longrightarrow> 0 \<le> i \<Longrightarrow> i \<le> num \<Longrightarrow> seed + num - 1 \<le> int_max \<Longrightarrow>
   check_ints (map (\<lambda>j. seed + j) [i..num - 1]) seed i g = g num"
proof (induction "nat (num - i)" arbitrary: i)
  case 0
  then show ?case by simp
next
  case (Suc n)
  then have "check_ints (map (\<lambda>j. seed + j) [i + 1..num - 1]) seed (i + 1) g = g num"
    by (intro Suc.hyps(1)) auto
  moreover have "int_val (seed + i) = Inr (seed + i)" using Suc.prems Suc.hyps(2) by (intro int_val_ok) auto
  ultimately show ?case using Suc.hyps(2) by (simp add: upto_rec1)
qed

text \<open>The first integer that differs from the seeded sequence.\<close>

lemma check_ints_first_bad:
  assumes "\<forall>j < length xs. int32_range (seed + n + int j)"
  shows "check_ints xs seed n (\<lambda>_. Inr None) = Inr (
     case find (\<lambda>j. xs ! j \<noteq> seed + n + int j) [0..<length xs] of
       None \<Rightarrow> None | Some j \<Rightarrow> Some (n + int j, seed + n + int j, xs ! j))"
  using assms
proof (induction xs arbitrary: n)
  case (Cons x xs)
  have "int_val (seed + n) = Inr (seed + n)" using Cons.prems by (auto simp: int_val_def)
  moreover have "check_ints xs seed (n + 1) (\<lambda>_. Inr None) = Inr (
     case find (\<lambda>j. xs ! j \<noteq> seed + (n + 1) + int j) [0..<length xs] of
       None \<Rightarrow> None | Some j \<Rightarrow> Some (n + 1 + int j, seed + (n + 1) + int j, xs ! j))"
  proof (rule Cons.IH, intro allI impI)
    fix j assume "j < length xs"
    then show "int32_range (seed + (n + 1) + int j)" using Cons.prems [rule_format, of "Suc j"] by (simp add: algebra_simps)
  qed
  moreover have "[0..<length (x # xs)] = 0 # map Suc [0..<length xs]" by (simp add: upt_conv_Cons map_Suc_upt del: upt_Suc)
  moreover have "find P (map Suc js) = map_option Suc (find (P \<circ> Suc) js)" for P js by (induction js) auto
  ultimately show ?case by (auto simp: comp_def algebra_simps split: option.splits)
qed simp

subsection \<open>A message in pages\<close>

lemma check_ints_cong:
  "g (n + int (length xs)) = g' (n + int (length xs)) \<Longrightarrow> check_ints xs seed n g = check_ints xs seed n g'"
  by (induction xs arbitrary: n) (auto intro!: rbind_cong simp: algebra_simps)

text \<open>The bytes of a message of length \<open>len\<close> from its page \<open>i\<close> on, and that its pages lie in the memory.\<close>

fun message_bytes :: "nat \<Rightarrow> nat \<Rightarrow> recv_buffers \<Rightarrow> int \<Rightarrow> nat \<Rightarrow> byte list \<Rightarrow> byte list" where
  "message_bytes 0 i control region len m = []"
| "message_bytes (Suc k) i control region len m =
     take (min HOMA_BPAGE_SIZE len) (drop (nat (region + int (bpage_offsets control ! i))) m) @
     message_bytes k (i + 1) control region (len - HOMA_BPAGE_SIZE) m"

fun pages_fit :: "nat \<Rightarrow> nat \<Rightarrow> recv_buffers \<Rightarrow> int \<Rightarrow> nat \<Rightarrow> byte list \<Rightarrow> bool" where
  "pages_fit 0 i control region len m \<longleftrightarrow> len = 0"
| "pages_fit (Suc k) i control region len m \<longleftrightarrow>
     0 < len \<and> i < HOMA_MAX_BPAGES \<and> i < length (bpage_offsets control) \<and>
     0 \<le> region + int (bpage_offsets control ! i) \<and>
     nat (region + int (bpage_offsets control ! i)) + min HOMA_BPAGE_SIZE len \<le> length m \<and>
     pages_fit k (i + 1) control region (len - HOMA_BPAGE_SIZE) m"

lemma bpage_size: "HOMA_BPAGE_SIZE = 65536"
  by (simp add: HOMA_BPAGE_SIZE_def HOMA_BPAGE_SHIFT_def)

lemma max_bpages: "HOMA_MAX_BPAGES = 16"
  by (simp add: HOMA_MAX_BPAGES_def HOMA_MAX_MESSAGE_LENGTH_def bpage_size HOMA_BPAGE_SHIFT_def)

lemma length_message_bytes: "pages_fit k i control region len m \<Longrightarrow> length (message_bytes k i control region len m) = len"
  by (induction k arbitrary: i len) (auto simp: bpage_size)

lemma message_step:
  assumes fit: "pages_fit (Suc k) i control region len m"
    and dvd: "4 dvd len" "4 dvd skip" and skip: "skip < min HOMA_BPAGE_SIZE len"
    and n: "0 \<le> n" "n + int (len div 4) \<le> int_max" "len < 2 ^ 63"
  shows "message_loop (Suc k) i control region len (int skip) seed n m =
    check_ints (words (drop skip (take (min HOMA_BPAGE_SIZE len)
        (drop (nat (region + int (bpage_offsets control ! i))) m)))) seed n
      (\<lambda>c. message_loop k (i + 1) control region (len - HOMA_BPAGE_SIZE) 0 seed c m)"
proof -
  let ?off = "region + int (bpage_offsets control ! i)" and ?b = "min HOMA_BPAGE_SIZE len - skip"
  have off: "bpage_offset control i = Inr (bpage_offsets control ! i)"
    using fit by (simp add: bpage_offset_def vec_at_def)
  have pos: "0 \<le> ?off" "nat ?off + min HOMA_BPAGE_SIZE len \<le> length m" using fit by auto
  have b: "?b \<le> 65536" "4 dvd ?b" "skip + ?b = min HOMA_BPAGE_SIZE len"
    using dvd skip by (auto simp: bpage_size min_def intro: dvd_diff_nat)
  obtain c where c: "?b = 4 * c" using b(2) by (elim dvdE)
  have buf: "to_u64 (int (if len > HOMA_BPAGE_SIZE then HOMA_BPAGE_SIZE else len) - int skip) = ?b"
    using skip by (subst to_u64_id) (auto simp: bpage_size min_def)
  have num: "num_ints ?b = int c" using b(1) c by (subst num_ints_eq) (auto simp: int_max_def)
  have "4 * c \<le> len" using c by linarith
  then have len: "int c \<le> int (len div 4)" by simp
  have "rbind (page_loop (int c) seed (?off + int skip) 0 n m)
       (\<lambda>(c, bad). case bad of Some b \<Rightarrow> Inr (Some b) | None \<Rightarrow> g c) =
     check_ints (words (span (?off + int skip + 4 * 0) (int c - 0) m)) seed n g" for g
    using pos b c n len by (intro page_loop_ints) auto
  moreover have "span (?off + int skip + 4 * 0) (int c - 0) m =
      drop skip (take (min HOMA_BPAGE_SIZE len) (drop (nat ?off) m))"
    using pos(1) b(3) c by (simp add: span_def drop_take nat_add_distrib add.commute)
  moreover have "message_loop k (i + 1) control region (to_u64 (int len - int HOMA_BPAGE_SIZE)) 0 seed c' m =
      message_loop k (i + 1) control region (len - HOMA_BPAGE_SIZE) 0 seed c' m" for c'
  proof (cases k)
    case (Suc k')
    then have "HOMA_BPAGE_SIZE < len" using fit by (auto simp: bpage_size)
    then have "to_u64 (int len - int HOMA_BPAGE_SIZE) = len - HOMA_BPAGE_SIZE"
      using n(3) by (subst to_u64_id) auto
    then show ?thesis by simp
  qed simp
  ultimately show ?thesis by (simp add: off buf num Let_def)
qed

lemma message_loop_ints:
  "pages_fit k i control region len m \<Longrightarrow> 4 dvd len \<Longrightarrow> 0 \<le> n \<Longrightarrow> n + int (len div 4) \<le> int_max \<Longrightarrow>
   len < 2 ^ 63 \<Longrightarrow>
   message_loop k i control region len 0 seed n m =
     check_ints (words (message_bytes k i control region len m)) seed n (\<lambda>_. Inr None)"
proof (induction k arbitrary: i len n)
  case 0
  then show ?case by (simp add: words_def)
next
  case (Suc k)
  let ?page = "take (min HOMA_BPAGE_SIZE len) (drop (nat (region + int (bpage_offsets control ! i))) m)"
  have page: "length ?page = min HOMA_BPAGE_SIZE len" "4 dvd min HOMA_BPAGE_SIZE len"
    using Suc.prems(1,2) by (auto simp: min_def bpage_size)
  have "message_loop (Suc k) i control region len 0 seed n m = check_ints (words ?page) seed n
      (\<lambda>c. message_loop k (i + 1) control region (len - HOMA_BPAGE_SIZE) 0 seed c m)"
    using message_step [of k i control region len m 0 n seed] Suc.prems by (simp add: bpage_size)
  also have "\<dots> = check_ints (words ?page) seed n (\<lambda>c.
      check_ints (words (message_bytes k (i + 1) control region (len - HOMA_BPAGE_SIZE) m)) seed c (\<lambda>_. Inr None))"
  proof (rule check_ints_cong, rule Suc.IH)
    show "4 dvd len - HOMA_BPAGE_SIZE" using Suc.prems(2) by (simp add: bpage_size dvd_diff_nat)
    have "min HOMA_BPAGE_SIZE len div 4 + (len - HOMA_BPAGE_SIZE) div 4 \<le> len div 4"
      by (auto simp: min_def bpage_size)
    then show "n + int (length (words ?page)) + int ((len - HOMA_BPAGE_SIZE) div 4) \<le> int_max"
      using Suc.prems(4) page(1) by simp
  qed (use Suc.prems in auto)
  also have "\<dots> = check_ints (words (message_bytes (Suc k) i control region len m)) seed n (\<lambda>_. Inr None)"
    using page by (simp add: words_append check_ints_append)
  finally show ?case .
qed

lemma seed_loop_snoc:
  "i \<le> num \<Longrightarrow> seed_loop (num + 1) seed base i m = rbind (seed_loop num seed base i m)
     (\<lambda>m'. rbind (int_val (seed + num)) (\<lambda>v. store_int (base + 4 * num) v m'))"
proof (induction num seed base i m rule: seed_loop.induct)
  case (1 num seed base i m)
  show ?case
  proof (cases "i < num")
    case True
    then show ?thesis using 1
      by (subst (1 2) seed_loop.simps) (auto simp: rbind_assoc intro!: rbind_cong)
  next
    case False
    then have "i = num" using 1(2) by simp
    moreover have "seed_loop (num + 1) seed base (num + 1) = Inr" for seed base
      by (rule ext) (simp add: seed_loop.simps)
    ultimately show ?thesis by (simp add: seed_loop.simps [of "num + 1" _ _ num] seed_loop.simps [of num])
  qed
qed

subsection \<open>Properties\<close>

text \<open>\<open>seed_buffer\<close> fills the integers that cover the length and touches no other byte, and
  \<open>check_buffer\<close> then returns the seed and reports no wrong value.\<close>

theorem seed_then_check:
  assumes "0 < len" "int len \<le> 4 * int_max" "0 \<le> base" "nat base + 4 * ((len + 3) div 4) \<le> length m"
    "int_min \<le> seed" "seed + int ((len + 3) div 4) - 1 \<le> int_max"
  shows "\<exists>m'. seed_buffer base len seed m = Inr m' \<and> length m' = length m \<and>
     take (nat base) m' = take (nat base) m \<and>
     drop (nat base + 4 * ((len + 3) div 4)) m' = drop (nat base + 4 * ((len + 3) div 4)) m \<and>
     check_buffer base len m' = Inr (seed, None)"
proof -
  let ?n = "(len + 3) div 4"
  have num: "num_ints len = int ?n" using num_ints_eq [OF assms(2)] by (simp add: zdiv_int)
  have pos: "0 < int ?n" using assms(1) by simp
  obtain m' where m': "seed_loop (int ?n) seed base 0 m = Inr m'" "length m' = length m"
    "take (nat base) m' = take (nat base) m" "drop (nat (base + 4 * int ?n)) m' = drop (nat (base + 4 * int ?n)) m"
    "words (span base (int ?n) m') = map (\<lambda>j. seed + j) [0..int ?n - 1]"
    using seed_loop_ok [of base 0 "int ?n" m seed] assms by auto
  have "words (span base (int ?n) m') = int_of_bytes (drop (nat base) m') # words (span (base + 4) (int ?n - 1) m')"
    using words_span [of base "int ?n" m'] assms m'(2) pos by simp
  then have first: "int_of_bytes (drop (nat base) m') = seed" using m'(5) pos by (simp add: upto_rec1)
  have "load_int base m' = Inr seed"
    using load_int_ok [of base m'] assms m'(2) pos first by simp
  moreover have "check_loop (int ?n) seed base 0 m' = Inr None"
    using check_loop_ints [of base 0 "int ?n" m' seed] check_ints_seeded [of seed 0 "int ?n"] assms m'(2,5) by simp
  moreover have "nat (base + 4 * int ?n) = nat base + 4 * ?n" using assms(3) by simp
  ultimately show ?thesis using m' num by (auto simp: seed_buffer_def check_buffer_def)
qed

theorem seed_then_check_witness:
  "\<exists>m'. seed_buffer 1 6 41 (replicate 10 7) = Inr m' \<and> take (nat 1) m' = take (nat 1) (replicate 10 7) \<and>
     check_buffer 1 6 m' = Inr (41, None)"
  using seed_then_check [of 6 1 "replicate 10 7" 41] by (auto simp: int_max_def int_min_def)

text \<open>\<open>check_buffer\<close> reports exactly the first integer that does not continue the sequence the
  first integer starts, with its index, the expected and the actual value, and nothing else.\<close>

theorem check_buffer_exact:
  assumes "0 < len" "int len \<le> 4 * int_max" "0 \<le> base" "nat base + 4 * ((len + 3) div 4) \<le> length m"
    "xs = words (take (4 * ((len + 3) div 4)) (drop (nat base) m))" "int32_range (xs ! 0)" "xs ! 0 + int (length xs) \<le> int_max"
  shows "check_buffer base len m = Inr (xs ! 0,
     case find (\<lambda>j. xs ! j \<noteq> xs ! 0 + int j) [0..<length xs] of
       None \<Rightarrow> None | Some j \<Rightarrow> Some (int j, xs ! 0 + int j, xs ! j))"
proof -
  let ?n = "(len + 3) div 4"
  have num: "num_ints len = int ?n" using num_ints_eq [OF assms(2)] by (simp add: zdiv_int)
  have pos: "0 < int ?n" using assms(1) by simp
  have xs: "xs = words (span base (int ?n) m)" using assms(5) by (simp add: span_def)
  then have "xs ! 0 = int_of_bytes (drop (nat base) m)" using words_span [of base "int ?n" m] assms pos by simp
  then have "load_int base m = Inr (xs ! 0)" using load_int_ok [of base m] assms pos by simp
  moreover have "check_loop (int ?n) (xs ! 0) base 0 m = check_ints xs (xs ! 0) 0 (\<lambda>_. Inr None)"
    using check_loop_ints [of base 0 "int ?n" m] assms xs by simp
  moreover have "\<forall>j < length xs. int32_range (xs ! 0 + 0 + int j)"
    using assms(6,7) by (auto simp: int32_range_def)
  ultimately show ?thesis using check_ints_first_bad [of xs "xs ! 0" 0] num
    by (simp add: check_buffer_def split: option.splits)
qed

theorem check_buffer_exact_witness:
  "check_buffer 0 12 [5, 0, 0, 0, 6, 0, 0, 0, 9, 1, 0, 0] = Inr (5, Some (2, 7, 265))"
  using check_buffer_exact [of 12 0 "[5, 0, 0, 0, 6, 0, 0, 0, 9, 1, 0, 0]", OF _ _ _ _ refl]
  by (simp add: words_def int_of_bytes_def to_int32_def int32_range_def int_max_def int_min_def upt_rec
      signed_take_bit_int_eq_self)

text \<open>The first page and the rest of a message.\<close>

lemma pages_fit_bound: "pages_fit k i control region len m \<Longrightarrow> len \<le> (HOMA_MAX_BPAGES - i) * HOMA_BPAGE_SIZE"
proof (induction k arbitrary: i len)
  case (Suc k)
  then have "len - HOMA_BPAGE_SIZE \<le> (HOMA_MAX_BPAGES - (i + 1)) * HOMA_BPAGE_SIZE" "i < HOMA_MAX_BPAGES" by auto
  then have "len \<le> Suc (HOMA_MAX_BPAGES - (i + 1)) * HOMA_BPAGE_SIZE" by simp
  moreover have "Suc (HOMA_MAX_BPAGES - (i + 1)) = HOMA_MAX_BPAGES - i" using \<open>i < HOMA_MAX_BPAGES\<close> by simp
  ultimately show ?case by metis
qed simp

lemma message_small: "pages_fit k i control region len m \<Longrightarrow> len \<le> 1048576"
proof -
  assume "pages_fit k i control region len m"
  then have "len \<le> (HOMA_MAX_BPAGES - i) * HOMA_BPAGE_SIZE" by (rule pages_fit_bound)
  also have "\<dots> \<le> HOMA_MAX_BPAGES * HOMA_BPAGE_SIZE" by (intro mult_le_mono1) simp
  finally show ?thesis by (simp add: max_bpages bpage_size)
qed

lemma room_for_int:
  fixes skip n :: nat
  assumes "4 dvd n" "4 dvd skip" "skip < n"
  shows "skip + 4 \<le> n"
proof -
  obtain a b where "n = 4 * a" "skip = 4 * b" using assms(1,2) by (elim dvdE)
  then show ?thesis using assms(3) by simp
qed

lemma seed_in_page:
  assumes "0 \<le> base" "nat base + n \<le> length m" "skip + 4 \<le> n"
  shows "load_int (base + int skip) m = load_int (int skip) (take n (drop (nat base) m) @ rest)"
proof -
  let ?page = "take n (drop (nat base) m)"
  have page: "skip + 4 \<le> length ?page" using assms(2,3) by simp
  have "nat (base + int skip) = nat base + skip" using assms(1) by simp
  then have "load_int (base + int skip) m = Inr (int_of_bytes (drop (nat base + skip) m))"
    using assms by (subst load_int_ok) auto
  also have "int_of_bytes (drop (nat base + skip) m) = int_of_bytes (drop skip ?page)"
  proof -
    have "4 \<le> n - skip" using assms(3) by linarith
    then show ?thesis unfolding drop_take drop_drop by (simp only: int_of_bytes_take add.commute)
  qed
  also have "\<dots> = int_of_bytes (drop skip (?page @ rest))"
  proof -
    have "4 \<le> length (drop skip ?page)" using page unfolding length_drop by linarith
    then show ?thesis using page by (subst int_of_bytes_append [symmetric, of _ rest]) simp_all
  qed
  also have "Inr (int_of_bytes (drop skip (?page @ rest))) = load_int (int skip) (?page @ rest)"
  proof -
    have "nat (int skip) + 4 \<le> length (?page @ rest)" using page unfolding length_append by linarith
    then show ?thesis by (subst load_int_ok) simp_all
  qed
  finally show ?thesis .
qed

lemma check_loop_rest:
  assumes "4 dvd length data" "4 dvd skip" "skip \<le> length data" "length data \<le> 1048576"
  shows "check_loop (num_ints (length data - skip)) seed (int skip) 0 data =
    check_ints (words (drop skip data)) seed 0 (\<lambda>_. Inr None)"
proof -
  obtain d where d: "length data - skip = 4 * d" using assms(1,2) by (meson dvd_diff_nat dvdE)
  then have num: "num_ints (length data - skip) = int d" using assms(4) by (subst num_ints_eq) (auto simp: int_max_def)
  have "drop skip data = span (int skip) (int d) data" using d by (simp add: span_def)
  moreover have "skip + 4 * d \<le> length data" using d assms(3) by simp
  ultimately show ?thesis using num by (subst check_loop_ints) simp_all
qed

lemma message_loop_assembled:
  assumes fit: "pages_fit (Suc k) 0 control region len m"
    and dvd: "4 dvd len" "4 dvd skip" and skip: "skip < min HOMA_BPAGE_SIZE len"
  shows "message_loop (Suc k) 0 control region len (int skip) seed 0 m =
    check_loop (num_ints (len - skip)) seed (int skip) 0 (message_bytes (Suc k) 0 control region len m)"
proof -
  let ?off = "nat (region + int (bpage_offsets control ! 0))"
  let ?page = "take (min HOMA_BPAGE_SIZE len) (drop ?off m)"
  let ?rest = "message_bytes k 1 control region (len - HOMA_BPAGE_SIZE) m"
  have len: "len \<le> 1048576" using message_small [OF fit] .
  have l: "length ?page = min HOMA_BPAGE_SIZE len" and fit1: "pages_fit k 1 control region (len - HOMA_BPAGE_SIZE) m"
    using fit by auto
  have d: "4 dvd length ?page" using l dvd(1) by (auto simp: min_def bpage_size)
  have data: "length (?page @ ?rest) = len" using length_message_bytes [OF fit] by simp
  have "message_loop (Suc k) 0 control region len (int skip) seed 0 m = check_ints (words (drop skip ?page)) seed 0
      (\<lambda>c. message_loop k 1 control region (len - HOMA_BPAGE_SIZE) 0 seed c m)"
    using message_step [of k 0 control region len m skip 0 seed] fit dvd skip len by (simp add: int_max_def)
  also have "\<dots> = check_ints (words (drop skip ?page)) seed 0 (\<lambda>c. check_ints (words ?rest) seed c (\<lambda>_. Inr None))"
  proof (rule check_ints_cong, rule message_loop_ints [OF fit1])
    show "4 dvd len - HOMA_BPAGE_SIZE" using dvd(1) by (simp add: bpage_size dvd_diff_nat)
    show "0 + int (length (words (drop skip ?page))) + int ((len - HOMA_BPAGE_SIZE) div 4) \<le> int_max"
      using len by (simp add: int_max_def bpage_size)
  qed (use len in auto)
  also have "\<dots> = check_ints (words (drop skip (?page @ ?rest))) seed 0 (\<lambda>_. Inr None)"
  proof -
    have "4 dvd length (drop skip ?page)" using d dvd(2) by (simp add: dvd_diff_nat del: length_take)
    moreover have "drop skip (?page @ ?rest) = drop skip ?page @ ?rest" using l skip by simp
    ultimately show ?thesis by (simp only: words_append check_ints_append)
  qed
  also have "\<dots> = check_loop (num_ints (len - skip)) seed (int skip) 0 (message_bytes (Suc k) 0 control region len m)"
  proof -
    have "4 dvd length (?page @ ?rest)" "skip \<le> length (?page @ ?rest)" "length (?page @ ?rest) \<le> 1048576"
      unfolding data using dvd(1) skip len by simp_all
    from check_loop_rest [OF this(1) dvd(2) this(2,3)] show ?thesis unfolding data message_bytes.simps add_0 by (rule sym)
  qed
  finally show ?thesis .
qed

text \<open>C20: \<open>check_message\<close> on a message scattered over the pages of the receive region says what
  \<open>check_buffer\<close> says of the same bytes put together: the pages need not be in order nor next to each
  other, the last one may be partly filled, and the skipped bytes at the beginning do not count.\<close>

theorem check_message_assembled:
  assumes fit: "pages_fit (num_bpages control) 0 control region len m"
    and dvd: "4 dvd len" "4 dvd skip" and skip: "skip < min HOMA_BPAGE_SIZE len"
  shows "check_message control region len (int skip) m =
     check_buffer (int skip) (len - skip) (message_bytes (num_bpages control) 0 control region len m)"
proof -
  obtain k where k: "num_bpages control = Suc k" using fit skip by (cases "num_bpages control") auto
  have fit0: "0 \<le> region + int (bpage_offsets control ! 0)"
    "nat (region + int (bpage_offsets control ! 0)) + min HOMA_BPAGE_SIZE len \<le> length m"
    "bpage_offset control 0 = Inr (bpage_offsets control ! 0)"
    using fit k by (auto simp: bpage_offset_def vec_at_def)
  have "4 dvd min HOMA_BPAGE_SIZE len" using dvd(1) by (auto simp: min_def bpage_size)
  then have room: "skip + 4 \<le> min HOMA_BPAGE_SIZE len" using dvd(2) skip by (rule room_for_int)
  have seed: "load_int (region + int (bpage_offsets control ! 0) + int skip) m =
      load_int (int skip) (message_bytes (Suc k) 0 control region len m)"
    using seed_in_page [OF fit0(1,2) room, of "message_bytes k 1 control region (len - HOMA_BPAGE_SIZE) m"] by simp
  show ?thesis
    unfolding check_message_def check_buffer_def k fit0(3) message_loop_assembled [OF fit [unfolded k] dvd skip]
    by (simp only: rbind.simps seed)
qed

theorem check_message_assembled_witness:
  "check_message \<lparr>num_bpages = 1, bpage_offsets = [3]\<rparr> 2 12 (int 4)
       ([9, 9, 9, 9, 9] @ [1, 2, 3, 4] @ [5, 0, 0, 0] @ [7, 0, 0, 0]) = Inr (5, Some (1, 6, 7))"
  using check_message_assembled [of "\<lparr>num_bpages = 1, bpage_offsets = [3]\<rparr>" 2 12
      "[9, 9, 9, 9, 9] @ [1, 2, 3, 4] @ [5, 0, 0, 0] @ [7, 0, 0, 0]" 4]
  by (simp add: max_bpages bpage_size check_buffer_def load_int_def load_def peek_def num_ints_eq int_max_def
      check_loop.simps to_int32_def int_val_def int32_range_def int_min_def signed_take_bit_int_eq_self)

text \<open>\<open>seed_buffer\<close> writes past the end of a buffer whose length is not a multiple of four: the last
  integer does not fit.\<close>

theorem seed_buffer_overrun:
  assumes "\<not> 4 dvd length m" "int (length m) \<le> 4 * int_max" "int_min \<le> seed"
    "seed + int (length m div 4) \<le> int_max"
  shows "seed_buffer 0 (length m) seed m = Inl OutOfRange"
proof -
  let ?n = "length m div 4"
  have n: "(length m + 3) div 4 = ?n + 1" using assms(1) by (auto simp: dvd_eq_mod_eq_0) presburger
  then have num: "num_ints (length m) = int ?n + 1" using num_ints_eq [OF assms(2)] by linarith
  have "nat 0 + 4 * nat (int ?n) \<le> length m" by simp
  then obtain m' where m': "seed_loop (int ?n) seed 0 0 m = Inr m'" "length m' = length m"
    using seed_loop_ok [of 0 0 "int ?n" m seed] assms(3,4) by auto
  have "int_val (seed + int ?n) = Inr (seed + int ?n)" using assms(3,4) by (intro int_val_ok) auto
  moreover have "store_int (0 + 4 * int ?n) (seed + int ?n) m' = Inl OutOfRange"
  proof -
    have "length m < 4 * ?n + 4" by simp
    then show ?thesis using m'(2) by (simp add: store_int_def store_def poke_def)
  qed
  ultimately show ?thesis using seed_loop_snoc [of 0 "int ?n" seed 0 m] m'(1) num by (simp add: seed_buffer_def)
qed

theorem seed_buffer_overrun_witness: "seed_buffer 0 6 1 (replicate 6 0) = Inl OutOfRange"
  using seed_buffer_overrun [of "replicate 6 0" 1] by (simp add: int_max_def int_min_def)

end
