(* ===== verification/Test_Text.thy ===== *)
theory Test_Text
  imports C_Library
begin

section \<open>Test utilities: strings\<close>

text \<open>
  \<open>split\<close> and \<open>get_int\<close> of \<open>app/lib/test_utils.cc\<close>. A C string is the list of its
  characters without the terminating zero; a pointer behind the zero is the error \<open>OutOfRange\<close>.
\<close>

abbreviation NUL :: char where "NUL \<equiv> CHR 0x00"

subsection \<open>split\<close>

text \<open>\<open>while (*s == sep) s++\<close>, which steps over the terminating zero if \<open>sep\<close> is zero.\<close>

fun skip_sep :: "char \<Rightarrow> string \<Rightarrow> string res" where
  "skip_sep sep [] = (if sep = NUL then Inl OutOfRange else Inr [])"
| "skip_sep sep (c # s) = (if c = sep then skip_sep sep s else Inr (c # s))"

text \<open>\<open>strchr\<close>: the position of a character; that of the terminating zero is the length.\<close>

definition strchr :: "string \<Rightarrow> char \<Rightarrow> nat option" where
  "strchr s c = (if c \<in> set s then Some (length (takeWhile (\<lambda>d. d \<noteq> c) s))
     else if c = NUL then Some (length s) else None)"

lemma skip_sep_Inr:
  "skip_sep sep s = Inr t \<Longrightarrow> t = dropWhile (\<lambda>c. c = sep) s \<and> (t = [] \<longrightarrow> sep \<noteq> NUL)"
  by (induction s) (auto split: if_splits)

lemma skip_sep_ok: "sep \<noteq> NUL \<Longrightarrow> skip_sep sep s = Inr (dropWhile (\<lambda>c. c = sep) s)"
  by (induction s) auto

lemma split_decreases:
  assumes "skip_sep sep s = Inr t" "t \<noteq> []" "strchr t sep = Some n"
  shows "length (drop n t) < length s"
proof -
  have t: "t = dropWhile (\<lambda>c. c = sep) s" using skip_sep_Inr [OF assms(1)] by simp
  then have "hd t \<noteq> sep" using assms(2) hd_dropWhile [of "\<lambda>c. c = sep" s] by simp
  then have "0 < n" using assms(2,3) by (cases t) (auto simp: strchr_def split: if_splits)
  moreover have "length t \<le> length s" unfolding t by (rule length_dropWhile_le)
  ultimately show ?thesis using assms(2) by (cases t) auto
qed

function split :: "string \<Rightarrow> char \<Rightarrow> string list \<Rightarrow> string list res" where
  "split s sep dest =
     (case skip_sep sep s of
        Inl e \<Rightarrow> Inl e
      | Inr t \<Rightarrow>
          if t = [] then Inr dest
          else case strchr t sep of
                 None \<Rightarrow> Inr (dest @ [t])
               | Some n \<Rightarrow> split (drop n t) sep (dest @ [take n t]))"
  by auto
termination
  by (relation "measure (\<lambda>(s, sep, dest). length s)") (auto dest: split_decreases)

declare split.simps [simp del]

text \<open>What it should compute: the fields between separators, the empty ones left out.\<close>

fun fields :: "char \<Rightarrow> string \<Rightarrow> string list" where
  "fields sep [] = [[]]"
| "fields sep (c # s) =
     (if c = sep then [] # fields sep s
      else case fields sep s of [] \<Rightarrow> [[c]] | f # fs \<Rightarrow> (c # f) # fs)"

lemma fields_nonempty: "fields sep s \<noteq> []"
  by (induction s) (auto split: list.splits)

lemma fields_takeWhile:
  "fields sep s = takeWhile (\<lambda>c. c \<noteq> sep) s #
     (case dropWhile (\<lambda>c. c \<noteq> sep) s of [] \<Rightarrow> [] | _ # s' \<Rightarrow> fields sep s')"
  by (induction s) (auto split: list.splits)

lemma fields_dropWhile:
  "filter (\<lambda>f. f \<noteq> []) (fields sep (dropWhile (\<lambda>c. c = sep) s)) = filter (\<lambda>f. f \<noteq> []) (fields sep s)"
  by (induction s) auto

lemma dropWhile_sep: "sep \<in> set t \<Longrightarrow> \<exists>s'. dropWhile (\<lambda>c. c \<noteq> sep) t = sep # s'"
  by (induction t) auto

lemma split_fields:
  "sep \<noteq> NUL \<Longrightarrow> split s sep dest = Inr (dest @ filter (\<lambda>f. f \<noteq> []) (fields sep s))"
proof (induction s sep dest rule: split.induct)
  case (1 s sep dest)
  let ?t = "dropWhile (\<lambda>c. c = sep) s"
  note skip = skip_sep_ok [OF 1(2), of s]
  show ?case
  proof (cases "?t = []")
    case True
    then have "filter (\<lambda>f. f \<noteq> []) (fields sep s) = []" using fields_dropWhile [of sep s] unfolding True by simp
    then show ?thesis using skip True by (subst split.simps) simp
  next
    case False
    then have hd: "hd ?t \<noteq> sep" using hd_dropWhile [of "\<lambda>c. c = sep" s] by simp
    have tw: "takeWhile (\<lambda>c. c \<noteq> sep) ?t \<noteq> []" using False hd by (cases ?t) auto
    show ?thesis
    proof (cases "strchr ?t sep")
      case None
      then have "sep \<notin> set ?t" by (auto simp: strchr_def split: if_splits)
      then have "takeWhile (\<lambda>c. c \<noteq> sep) ?t = ?t" "dropWhile (\<lambda>c. c \<noteq> sep) ?t = []"
        by (auto simp: takeWhile_eq_all_conv dropWhile_eq_Nil_conv)
      then have "filter (\<lambda>f. f \<noteq> []) (fields sep ?t) = [?t]" using False by (subst fields_takeWhile) (simp only: list.case filter.simps if_True not_False_eq_True simp_thms)
      moreover have "split s sep dest = Inr (dest @ [?t])"
        using skip False None by (subst split.simps) (simp only: sum.case if_False option.case)
      ultimately show ?thesis using fields_dropWhile [of sep s] by (simp only:)
    next
      case (Some n)
      then have n: "n = length (takeWhile (\<lambda>c. c \<noteq> sep) ?t)" "sep \<in> set ?t"
        using 1(2) by (auto simp: strchr_def split: if_splits)
      have drop: "drop n ?t = dropWhile (\<lambda>c. c \<noteq> sep) ?t" and take: "take n ?t = takeWhile (\<lambda>c. c \<noteq> sep) ?t"
        unfolding n(1) by (rule dropWhile_eq_drop [symmetric], rule takeWhile_eq_take [symmetric])
      obtain s' where s': "dropWhile (\<lambda>c. c \<noteq> sep) ?t = sep # s'"
        using dropWhile_sep [OF n(2)] by blast
      have "split (drop n ?t) sep (dest @ [take n ?t]) =
          Inr ((dest @ [take n ?t]) @ filter (\<lambda>f. f \<noteq> []) (fields sep (drop n ?t)))"
        using skip False Some 1(2) by (intro 1(1)) auto
      moreover have "filter (\<lambda>f. f \<noteq> []) (fields sep ?t) = take n ?t # filter (\<lambda>f. f \<noteq> []) (fields sep (drop n ?t))"
        using tw s' by (subst fields_takeWhile) (simp add: drop take)
      moreover have "split s sep dest = split (drop n ?t) sep (dest @ [take n ?t])"
        using skip False Some by (subst split.simps) (simp only: sum.case if_False option.case)
      ultimately show ?thesis using fields_dropWhile [of sep s] by (simp only: append_assoc append_Cons append_Nil)
    qed
  qed
qed

lemma fields_join:
  assumes "\<forall>t \<in> set ts. t \<noteq> [] \<and> sep \<notin> set t"
  shows "filter (\<lambda>f. f \<noteq> []) (fields sep (concat (map (\<lambda>t. t @ [sep]) ts))) = ts"
  using assms
proof (induction ts)
  case (Cons t ts)
  have "takeWhile (\<lambda>c. c \<noteq> sep) (t @ [sep] @ r) = t" "dropWhile (\<lambda>c. c \<noteq> sep) (t @ [sep] @ r) = sep # r" for r
    using Cons.prems by (auto simp: takeWhile_append dropWhile_append)
  then show ?case using Cons by (subst fields_takeWhile) simp
qed simp

subsection \<open>get_int\<close>

text \<open>A \<open>long\<close> assigned to an \<open>int\<close>; \<open>exit (1)\<close> if \<open>strtol\<close> consumes nothing.\<close>

definition get_int :: "string \<Rightarrow> int res" where
  "get_int s = (case strtol10 s of (v, rest) \<Rightarrow> if rest = s then Inl Aborted else Inr (to_int32 v))"

subsection \<open>Properties\<close>



end
