(* ===== verification/Test_Clock.thy ===== *)
theory Test_Clock
  imports C_Library Doubles
begin

section \<open>Test utilities: the cycle counter\<close>

text \<open>
  \<open>get_cycles_per_sec\<close>, \<open>to_seconds\<close> and \<open>print_dist\<close> of \<open>app/lib/test_utils.cc\<close>. The clocks are a
  list of readings, one for each pair of calls of \<open>gettimeofday\<close> and \<open>rdtsc\<close>; \<open>None\<close> as a result
  means that the loops are still running when the readings are used up, and \<open>None\<close> as the time of day
  that \<open>gettimeofday\<close> failed. Doubles are rationals rounded by \<open>fl\<close>; dividing by a rate of zero is
  the error \<open>NotFinite\<close>. What is printed is part of the result, the format is not modelled.
\<close>

subsection \<open>get_cycles_per_sec\<close>

record reading =
  time_of_day :: "(int \<times> int) option" \<comment> \<open>\<open>tv_sec\<close> and \<open>tv_usec\<close>\<close>
  tsc :: u64

definition micros :: "int \<times> int \<Rightarrow> int \<times> int \<Rightarrow> nat" where
  "micros start stop = to_u64 ((snd stop - snd start) + (fst stop - fst start) * 1000000)"

definition rate :: "u64 \<Rightarrow> nat \<Rightarrow> rat" where
  "rate ticks us = fl (fl (1000000 * fl (of_nat (unat ticks))) / fl (of_nat us))"

text \<open>The inner loop, and one round of the outer one.\<close>

fun measure_loop :: "int \<times> int \<Rightarrow> u64 \<Rightarrow> reading list \<Rightarrow> (rat \<times> reading list) option res" where
  "measure_loop start cycles [] = Inr None"
| "measure_loop start cycles (r # rs) =
     (case time_of_day r of
        None \<Rightarrow> Inl Aborted
      | Some stop \<Rightarrow>
          if micros start stop > 10000 then Inr (Some (rate (tsc r - cycles) (micros start stop), rs))
          else measure_loop start cycles rs)"

fun measure_rate :: "reading list \<Rightarrow> (rat \<times> reading list) option res" where
  "measure_rate [] = Inr None"
| "measure_rate (r # rs) =
     (case time_of_day r of None \<Rightarrow> Inl Aborted | Some start \<Rightarrow> measure_loop start (tsc r) rs)"

definition agree :: "rat \<Rightarrow> rat \<Rightarrow> bool" where
  "agree old_cps cps =
     (let delta = fl (cps / 1000) in old_cps > fl (cps - delta) \<and> old_cps < fl (cps + delta))"

lemma measure_loop_shorter: "measure_loop start cycles rs = Inr (Some (cps, rs')) \<Longrightarrow> length rs' < length rs"
  by (induction rs) (auto split: option.splits if_splits)

lemma measure_rate_shorter: "measure_rate rs = Inr (Some (cps, rs')) \<Longrightarrow> length rs' < length rs"
  by (cases rs) (auto split: option.splits dest: measure_loop_shorter)

function calibrate :: "rat \<Rightarrow> reading list \<Rightarrow> (rat \<times> reading list) option res" where
  "calibrate old_cps rs =
     (case measure_rate rs of
        Inl e \<Rightarrow> Inl e
      | Inr None \<Rightarrow> Inr None
      | Inr (Some (cps, rs')) \<Rightarrow> if agree old_cps cps then Inr (Some (cps, rs')) else calibrate cps rs')"
  by auto
termination
  by (relation "measure (\<lambda>(old_cps, rs). length rs)") (auto dest: measure_rate_shorter)

declare calibrate.simps [simp del]

text \<open>\<open>cps\<close> is the static variable.\<close>

definition get_cycles_per_sec :: "rat \<Rightarrow> reading list \<Rightarrow> (rat \<times> reading list) option res" where
  "get_cycles_per_sec cps rs = (if cps \<noteq> 0 then Inr (Some (cps, rs)) else calibrate 0 rs)"

definition to_seconds :: "rat \<Rightarrow> u64 \<Rightarrow> rat res" where
  "to_seconds cps cycles = (if cps = 0 then Inl NotFinite else Inr (fl (fl (of_nat (unat cycles)) / cps)))"

subsection \<open>rdtsc\<close>

text \<open>The instruction leaves the two halves of the counter in two registers.\<close>

definition rdtsc :: "u32 \<Rightarrow> u32 \<Rightarrow> u64" where
  "rdtsc lo hi = or (push_bit 32 (ucast hi)) (ucast lo)"

lemma rdtsc_value: "unat (rdtsc lo hi) = 2 ^ 32 * unat hi + unat lo"
proof -
  have "and (push_bit 32 (ucast hi)) (ucast lo) = (0 :: u64)"
    by (rule bit_word_eqI) (auto simp: bit_simps dest: bit_imp_le_length)
  then have "rdtsc lo hi = push_bit 32 (ucast hi) + ucast lo"
    using word_plus_and_or [of "push_bit 32 (ucast hi)" "ucast lo :: u64"] by (simp add: rdtsc_def)
  moreover have h: "unat hi < 4294967296" "unat lo < 4294967296"
    using unsigned_less [of hi, where ?'a = nat] unsigned_less [of lo, where ?'a = nat] by simp_all
  moreover have "unat (push_bit 32 (ucast hi) :: u64) = 2 ^ 32 * unat hi"
    using h by (simp add: push_bit_eq_mult unat_word_ariths unsigned_ucast_eq take_bit_nat_eq_self mult.commute)
  moreover have "unat (ucast lo :: u64) = unat lo" using h by (simp add: unsigned_ucast_eq take_bit_nat_eq_self)
  ultimately show ?thesis by (simp add: unat_word_ariths)
qed

subsection \<open>pin_thread\<close>

text \<open>A \<open>cpu_set_t\<close> has 1024 bits; \<open>CPU_SET\<close> ignores a number that is too large, as a negative one is as a
  \<open>size_t\<close>. \<open>sched\<close> is the system call: nothing on success, otherwise \<open>errno\<close>. The result is what the message
  shows, if there is one.\<close>

definition CPU_SETSIZE :: nat where "CPU_SETSIZE = 1024"

definition CPU_SET :: "int \<Rightarrow> nat set \<Rightarrow> nat set" where
  "CPU_SET core cpus = (let cpu = to_u64 core in if cpu div 8 < CPU_SETSIZE div 8 then insert cpu cpus else cpus)"

definition pin_thread :: "(nat set \<Rightarrow> int option) \<Rightarrow> int \<Rightarrow> (int \<times> int) option" where
  "pin_thread sched core = map_option (Pair core) (sched (CPU_SET core {}))"

lemma pin_thread_one_core:
  "0 \<le> core \<Longrightarrow> core < 1024 \<Longrightarrow> pin_thread sched core = map_option (Pair core) (sched {nat core})"
  by (simp add: pin_thread_def CPU_SET_def Let_def to_u64_def CPU_SETSIZE_def take_bit_int_eq_self_iff) linarith

subsection \<open>Rates\<close>

lemma rate_nonneg: "0 \<le> rate ticks us"
  unfolding rate_def by (intro dbl.rnd_nonneg divide_nonneg_nonneg mult_nonneg_nonneg of_nat_0_le_iff) simp

lemma measured_nonneg: "measure_rate rs = Inr (Some (cps, rs')) \<Longrightarrow> 0 \<le> cps"
proof -
  have "measure_loop start cycles rs = Inr (Some (cps, rs')) \<Longrightarrow> 0 \<le> cps" for start cycles rs
    by (induction rs) (auto simp: rate_nonneg split: option.splits if_splits)
  then show "measure_rate rs = Inr (Some (cps, rs')) \<Longrightarrow> 0 \<le> cps"
    by (cases rs) (auto split: option.splits)
qed

lemma agree_pos: "agree old cps \<Longrightarrow> 0 \<le> cps \<Longrightarrow> 0 < cps"
  by (auto simp: agree_def Let_def less_le)

lemma agree_refl:
  assumes "0 < cps"
  shows "agree cps cps"
proof -
  let ?d = "fl (cps / 1000)"
  have d: "cps / 1000 * (1 - ulp) \<le> ?d" "?d \<le> cps / 1000 * (1 + ulp)"
    using fl_rel [of "cps / 1000"] assms by auto
  have u: "ulp \<le> 1 / 1000000" by (simp add: ulp_def)
  have "cps / 1000 * (1 + ulp) \<le> cps / 1000 * 2" using u assms by (intro mult_left_mono) auto
  then have "?d \<le> cps / 1000 * 2" using d(2) by linarith
  then have pos: "0 \<le> cps - ?d" using assms by simp
  have "fl (cps - ?d) \<le> (cps - ?d) * (1 + ulp)" by (rule fl_rel(2) [OF pos])
  also have "\<dots> \<le> (cps - cps / 1000 * (1 - ulp)) * (1 + ulp)"
    using d(1) ulp_bounds by (intro mult_right_mono) auto
  also have "\<dots> = cps * ((1 - (1 - ulp) / 1000) * (1 + ulp))" by (simp add: field_simps)
  also have "\<dots> < cps * 1" using assms by (intro mult_strict_left_mono) (simp_all add: ulp_def)
  finally have low: "fl (cps - ?d) < cps" by simp
  have "cps * 1 < cps * ((1 + (1 - ulp) / 1000) * (1 - ulp))"
    using assms by (intro mult_strict_left_mono) (simp_all add: ulp_def)
  also have "\<dots> = (cps + cps / 1000 * (1 - ulp)) * (1 - ulp)" by (simp add: field_simps)
  also have "\<dots> \<le> (cps + ?d) * (1 - ulp)" using d(1) ulp_bounds by (intro mult_right_mono) auto
  also have "\<dots> \<le> fl (cps + ?d)" using fl_rel(1) [of "cps + ?d"] assms pos dbl.rnd_nonneg [of "cps / 1000"] by simp
  finally show ?thesis using low by (simp add: agree_def Let_def)
qed

lemma not_agree_0:
  assumes "0 < cps"
  shows "\<not> agree 0 cps"
proof -
  have "fl (cps / 1000) \<le> cps / 1000 * (1 + ulp)" using fl_rel(2) [of "cps / 1000"] assms by auto
  also have "\<dots> \<le> cps / 1000 * 2" using assms ulp_bounds by (intro mult_left_mono) auto
  finally have "0 \<le> fl (cps - fl (cps / 1000))" using assms by (intro dbl.rnd_nonneg) auto
  then show ?thesis by (simp add: agree_def Let_def)
qed

lemma calibrate_ok:
  "calibrate old rs = Inr (Some (cps, rs')) \<Longrightarrow> 0 < cps \<and> (\<exists>old'. agree old' cps) \<and> length rs' < length rs"
proof (induction old rs rule: calibrate.induct)
  case (1 old rs)
  then obtain c rs1 where m: "measure_rate rs = Inr (Some (c, rs1))"
    "(if agree old c then Inr (Some (c, rs1)) else calibrate c rs1) = Inr (Some (cps, rs'))"
    by (subst (asm) calibrate.simps) (auto split: sum.splits option.splits)
  show ?case
  proof (cases "agree old c")
    case True
    then show ?thesis using m agree_pos [OF True measured_nonneg [OF m(1)]] measure_rate_shorter [OF m(1)] by auto
  next
    case False
    then have "0 < cps \<and> (\<exists>old'. agree old' cps) \<and> length rs' < length rs1"
      using 1(1) m by auto
    then show ?thesis using measure_rate_shorter [OF m(1)] by auto
  qed
qed

subsection \<open>print_dist\<close>

text \<open>The time of one entry in microseconds, and the entry that percentile \<open>10 i\<close> prints.\<close>

definition print_us :: "rat \<Rightarrow> u64 list \<Rightarrow> int \<Rightarrow> rat res" where
  "print_us cps arr i = rbind (vec_at arr i) (\<lambda>t. rbind (to_seconds cps t) (\<lambda>x. Inr (fl (x * 1000000))))"

fun print_percentiles :: "rat \<Rightarrow> u64 list \<Rightarrow> int \<Rightarrow> int list \<Rightarrow> rat list res" where
  "print_percentiles cps arr n [] = Inr []"
| "print_percentiles cps arr n (i # is) =
     rbind (int_val (i * n)) (\<lambda>m. rbind (int_div m 10) (\<lambda>k. rbind (print_us cps arr k) (\<lambda>x.
     rbind (print_percentiles cps arr n is) (\<lambda>xs. Inr (x # xs)))))"

fun sum_seconds :: "rat \<Rightarrow> u64 list \<Rightarrow> rat \<Rightarrow> rat res" where
  "sum_seconds cps [] average = Inr average"
| "sum_seconds cps (t # ts) average =
     rbind (to_seconds cps t) (\<lambda>x. sum_seconds cps ts (fl (average + x)))"

definition sort_times :: "u64 list \<Rightarrow> int \<Rightarrow> u64 list res" where
  "sort_times arr n = (if 0 \<le> n \<and> n \<le> int (length arr)
     then Inr (sort (take (nat n) arr) @ drop (nat n) arr) else Inl OutOfRange)"

text \<open>The result: the lines from the minimum over the percentiles to the maximum, the average, and
  the array afterwards.\<close>

definition print_dist :: "rat \<Rightarrow> u64 list \<Rightarrow> int \<Rightarrow> (rat list \<times> rat \<times> u64 list) res" where
  "print_dist cps arr n =
     rbind (sort_times arr n) (\<lambda>ts.
     rbind (print_us cps ts 0) (\<lambda>lo.
     rbind (print_percentiles cps ts n [1..9]) (\<lambda>ps.
     rbind (print_us cps ts (n - 1)) (\<lambda>hi.
     rbind (sum_seconds cps (take (nat n) ts) 0) (\<lambda>s.
       if n = 0 then Inl NotFinite
       else Inr (lo # ps @ [hi], fl (fl (s / of_int n) * 1000000), ts))))))"

definition microseconds :: "rat \<Rightarrow> u64 \<Rightarrow> rat" where
  "microseconds cps t = fl (fl (fl (of_nat (unat t)) / cps) * 1000000)"

lemma microseconds_mono: "0 < cps \<Longrightarrow> t \<le> u \<Longrightarrow> microseconds cps t \<le> microseconds cps u"
  unfolding microseconds_def
  by (intro dbl.rnd_mono mult_right_mono divide_right_mono of_nat_mono) (auto simp: word_le_nat_alt)

lemma print_us_ok: "cps \<noteq> 0 \<Longrightarrow> 0 \<le> i \<Longrightarrow> i < int (length ts) \<Longrightarrow> print_us cps ts i = Inr (microseconds cps (ts ! nat i))"
  by (simp add: print_us_def vec_at_def to_seconds_def microseconds_def)

lemma sum_seconds_ok: "cps \<noteq> 0 \<Longrightarrow> \<exists>s. sum_seconds cps ts a = Inr s"
  by (induction ts arbitrary: a) (auto simp: to_seconds_def)

lemma percentile_index:
  fixes i n :: int
  assumes "0 < n" "0 \<le> i" "i \<le> 9"
  shows "0 \<le> i * n div 10" "i * n div 10 \<le> n - 1"
proof -
  show "0 \<le> i * n div 10" using assms by (simp add: pos_imp_zdiv_nonneg_iff)
  have "i * n \<le> 9 * n" using assms by (intro mult_right_mono) auto
  then have "i * n div 10 \<le> 9 * n div 10" by (intro zdiv_mono1) auto
  then show "i * n div 10 \<le> n - 1" using assms by linarith
qed

lemma print_percentiles_ok:
  assumes "cps \<noteq> 0" "0 < n" "9 * n \<le> int_max" "n \<le> int (length ts)"
  shows "\<forall>i \<in> set is. 0 \<le> i \<and> i \<le> 9 \<Longrightarrow>
    print_percentiles cps ts n is = Inr (map (\<lambda>i. microseconds cps (ts ! nat (i * n div 10))) is)"
proof (induction "is")
  case (Cons i "is")
  then have i: "0 \<le> i" "i \<le> 9" by auto
  then have "i * n \<le> 9 * n" "0 \<le> i * n" using assms(2) by (auto intro: mult_right_mono)
  then have "int_val (i * n) = Inr (i * n)" "int_div (i * n) 10 = Inr (i * n div 10)"
    using assms(3) by (auto intro!: int_val_ok int_div_nonneg simp: int_min_def)
  moreover have "print_us cps ts (i * n div 10) = Inr (microseconds cps (ts ! nat (i * n div 10)))"
    using percentile_index [OF assms(2) i] assms by (intro print_us_ok) auto
  ultimately show ?case using Cons by simp
qed simp

subsection \<open>Properties\<close>

text \<open>A rate that the calibration returns is positive, so \<open>to_seconds\<close> never divides by zero, it
  agrees with the measurement before it within a thousandth (as the code compares them), and later
  calls return it without looking at the clocks. The calibration ends as soon as two successive
  measurements give the same positive rate.\<close>

theorem calibration:
  "(\<forall>cps rs'. get_cycles_per_sec 0 rs = Inr (Some (cps, rs')) \<longrightarrow>
      0 < cps \<and> (\<exists>old_cps. agree old_cps cps) \<and> (\<exists>x. to_seconds cps cycles = Inr x) \<and>
      get_cycles_per_sec cps later = Inr (Some (cps, later))) \<and>
   (\<forall>cps rs1 rs2. measure_rate rs = Inr (Some (cps, rs1)) \<and> measure_rate rs1 = Inr (Some (cps, rs2)) \<and> 0 < cps \<longrightarrow>
      get_cycles_per_sec 0 rs = Inr (Some (cps, rs2)))"
proof (intro conjI [of "\<forall>x. P x" for P] allI impI)
  fix cps rs'
  assume "get_cycles_per_sec 0 rs = Inr (Some (cps, rs'))"
  then have "0 < cps" "\<exists>old_cps. agree old_cps cps" using calibrate_ok [of 0 rs cps rs'] by (auto simp: get_cycles_per_sec_def)
  then show "0 < cps \<and> (\<exists>old_cps. agree old_cps cps) \<and> (\<exists>x. to_seconds cps cycles = Inr x) \<and>
     get_cycles_per_sec cps later = Inr (Some (cps, later))"
    by (simp add: to_seconds_def get_cycles_per_sec_def)
next
  fix cps rs1 rs2
  assume "measure_rate rs = Inr (Some (cps, rs1)) \<and> measure_rate rs1 = Inr (Some (cps, rs2)) \<and> 0 < cps"
  then have m: "measure_rate rs = Inr (Some (cps, rs1))" "measure_rate rs1 = Inr (Some (cps, rs2))" "0 < cps" by auto
  have "calibrate cps rs1 = Inr (Some (cps, rs2))"
    using m(2) agree_refl [OF m(3)] by (subst calibrate.simps) simp
  then have "calibrate 0 rs = Inr (Some (cps, rs2))"
    using m(1) not_agree_0 [OF m(3)] by (subst calibrate.simps) simp
  then show "get_cycles_per_sec 0 rs = Inr (Some (cps, rs2))" by (simp add: get_cycles_per_sec_def)
qed

text \<open>A clock that ticks a thousand million times a second, read every 20 milliseconds.\<close>

definition steady :: "nat \<Rightarrow> reading" where
  "steady k = \<lparr>time_of_day = Some (5, 20000 * int k), tsc = 20000000 * of_nat k\<rparr>"

theorem calibration_witness:
  "get_cycles_per_sec 0 (map steady [0, 1, 2, 3]) = Inr (Some (rate 20000000 20000, []))"
proof -
  have "measure_rate (map steady [0, 1, 2, 3]) = Inr (Some (rate 20000000 20000, map steady [2, 3]))"
    "measure_rate (map steady [2, 3]) = Inr (Some (rate 20000000 20000, []))"
    by (simp_all add: steady_def micros_def to_u64_def)
  moreover have "0 < rate 20000000 20000"
    unfolding rate_def by (intro dbl.rnd_pos divide_pos_pos mult_pos_pos) simp_all
  ultimately show ?thesis using calibration [of "map steady [0, 1, 2, 3]" 0 "[]"] by blast
qed

text \<open>\<open>print_dist\<close> prints the minimum, the nine percentiles and the maximum of the sorted times, in
  nondecreasing order, and sorts the array; no index leaves it and no \<open>int\<close> overflows as long as nine
  times the count is an \<open>int\<close>.\<close>

theorem print_dist_spec:
  assumes "0 < cps" "0 < n" "n \<le> int (length arr)" "9 * n \<le> int_max"
    "ts = sort (take (nat n) arr)"
  shows "\<exists>average. print_dist cps arr n =
       Inr (map (\<lambda>i. microseconds cps (ts ! nat (min (i * n div 10) (n - 1)))) [0..10], average, ts @ drop (nat n) arr) \<and>
     sorted (map (\<lambda>i. microseconds cps (ts ! nat (min (i * n div 10) (n - 1)))) [0..10])"
proof -
  let ?f = "\<lambda>i. microseconds cps (ts ! nat (min (i * n div 10) (n - 1)))"
  let ?all = "ts @ drop (nat n) arr"
  have len: "length ts = nat n" using assms by simp
  have nth: "?all ! nat i = ts ! nat i" if "0 \<le> i" "i < n" for i
    using that len by (simp add: nth_append nat_less_iff)
  have all: "n \<le> int (length ?all)" using len assms(2) by simp
  have lo: "print_us cps ?all 0 = Inr (?f 0)"
    using print_us_ok [of cps 0 ?all] nth [of 0] assms all by (simp add: min_def)
  have hi: "print_us cps ?all (n - 1) = Inr (?f 10)"
    using print_us_ok [of cps "n - 1" ?all] nth [of "n - 1"] assms all by (simp add: min_def)
  have "\<forall>i \<in> set [1..9]. ?all ! nat (i * n div 10) = ts ! nat (min (i * n div 10) (n - 1))"
    using percentile_index [OF assms(2)] nth by (auto simp: min_def)
  then have ps: "print_percentiles cps ?all n [1..9] = Inr (map ?f [1..9])"
    using print_percentiles_ok [of cps n ?all "[1..9]"] assms all by auto
  obtain s where s: "sum_seconds cps (take (nat n) ?all) 0 = Inr s"
    using sum_seconds_ok assms(1) by (metis less_irrefl)
  have "[0..10] = 0 # [1..9] @ [10 :: int]" by (simp add: upto.simps)
  then have "print_dist cps arr n = Inr (map ?f [0..10], fl (fl (s / of_int n) * 1000000), ?all)"
    using lo hi ps s assms by (simp add: print_dist_def sort_times_def)
  moreover have "sorted (map ?f [0..10])"
  proof -
    have "?f i \<le> ?f j" if "0 \<le> i" "i \<le> j" for i j :: int
    proof -
      have "i * n div 10 \<le> j * n div 10" using that assms(2) by (intro zdiv_mono1 mult_right_mono) auto
      moreover have "0 \<le> i * n div 10" using that assms(2) by (simp add: pos_imp_zdiv_nonneg_iff)
      ultimately have "ts ! nat (min (i * n div 10) (n - 1)) \<le> ts ! nat (min (j * n div 10) (n - 1))"
        using assms(2,5) len by (intro sorted_nth_mono nat_mono min.mono) (auto simp: nat_less_iff)
      then show ?thesis by (rule microseconds_mono [OF assms(1)])
    qed
    then show ?thesis by (auto simp: sorted_wrt_map intro!: sorted_wrt_mono_rel [OF _ sorted_wrt_upto])
  qed
  ultimately show ?thesis by blast
qed

theorem print_dist_spec_witness:
  "\<exists>average. print_dist 1000 [7, 3, 5] 3 = Inr (map (\<lambda>i. microseconds 1000 ([3, 5, 7] ! nat (min (i * 3 div 10) 2))) [0..10],
     average, [3, 5, 7])"
  using print_dist_spec [of 1000 3 "[7, 3, 5]" "[3, 5, 7]"] by (simp add: int_max_def)

end
