(* ===== verification/Print_Address.thy ===== *)
theory Print_Address
  imports Test_Text Bytes
begin

section \<open>Test utilities: printing addresses\<close>

text \<open>
  \<open>print_address\<close> of \<open>app/lib/test_utils.cc\<close>, with its static ring of 16 buffers of 64 bytes. A
  buffer is the string in it. The library function \<open>inet_ntop\<close> is the parameter \<open>ntop\<close>: from the
  address, the size it is given and the string at its destination it gives the string there
  afterwards. It is documented to fail when the text does not fit the size; \<open>ntop_fits\<close> states that
  together with the behaviour of the usual libraries, which then leave the destination alone.
\<close>

datatype sockaddr =
    In4 "byte list" "16 word"
  | In6 "byte list" "16 word"
  | Family nat

type_synonym inet_ntop = "byte list \<Rightarrow> nat \<Rightarrow> string \<Rightarrow> string"

definition BUF_SIZE :: nat where "BUF_SIZE = 64"
definition NUM_BUFFERS :: nat where "NUM_BUFFERS = 2 ^ 4"

record address_buffers =
  addr_buffers :: "string list"
  next_buffer :: int

definition address_init :: address_buffers where
  "address_init = \<lparr>addr_buffers = replicate NUM_BUFFERS [], next_buffer = 0\<rparr>"

definition ntohs :: "16 word \<Rightarrow> nat" where
  "ntohs w = 256 * (unat w mod 256) + unat w div 256"

definition snprintf :: "nat \<Rightarrow> string \<Rightarrow> string" where
  "snprintf n s = take (n - 1) s"

text \<open>\<open>strncat\<close> on a buffer of \<open>BUF_SIZE\<close> bytes: the bound is on what is appended.\<close>

definition strncat :: "string \<Rightarrow> string \<Rightarrow> nat \<Rightarrow> string res" where
  "strncat dst src n =
     (if length dst + length (take n src) < BUF_SIZE then Inr (dst @ take n src) else Inl OutOfRange)"

definition ip_text :: "byte list \<Rightarrow> string" where
  "ip_text ip = decimal (unat (ip ! 0)) @ ''.'' @ decimal (unat (ip ! 1)) @ ''.'' @
     decimal (unat (ip ! 2)) @ ''.'' @ decimal (unat (ip ! 3))"

definition port_text :: "16 word \<Rightarrow> string" where
  "port_text p = snprintf BUF_SIZE ('']:'' @ decimal (ntohs p))"

definition print_address :: "inet_ntop \<Rightarrow> sockaddr \<Rightarrow> address_buffers \<Rightarrow> (nat \<times> address_buffers) res" where
  "print_address ntop addr st =
     (let i = nat (next_buffer st mod int NUM_BUFFERS);
          st' = st\<lparr>next_buffer := to_int32 (next_buffer st + 1)\<rparr>;
          put = (\<lambda>s. st'\<lparr>addr_buffers := (addr_buffers st')[i := s]\<rparr>)
      in case addr of
           In4 ip p \<Rightarrow> Inr (i, put (snprintf BUF_SIZE (ip_text ip @ '':'' @ decimal (ntohs p))))
         | In6 ip p \<Rightarrow>
             let port = port_text p;
                 rest = ntop ip 16 (tl (addr_buffers st ! i))
             in rbind (strncat (CHR ''['' # rest) port BUF_SIZE) (\<lambda>s. Inr (i, put s))
         | Family f \<Rightarrow> Inr (i, put (snprintf BUF_SIZE (''Unknown family '' @ decimal f))))"

fun print_addresses :: "inet_ntop \<Rightarrow> sockaddr list \<Rightarrow> address_buffers \<Rightarrow> (nat list \<times> address_buffers) res" where
  "print_addresses ntop [] st = Inr ([], st)"
| "print_addresses ntop (a # as) st =
     rbind (print_address ntop a st) (\<lambda>(i, st').
     rbind (print_addresses ntop as st') (\<lambda>(is, st''). Inr (i # is, st'')))"

subsection \<open>Lengths\<close>

lemma decimal_length: "n < 10 ^ k \<Longrightarrow> 0 < k \<Longrightarrow> length (decimal n) \<le> k"
proof (induction n arbitrary: k rule: decimal.induct)
  case (1 n)
  show ?case
  proof (cases "n < 10")
    case True
    then show ?thesis using 1(3) by (subst decimal.simps) simp
  next
    case False
    then have "k \<noteq> 1" using 1(2) by auto
    then obtain l where l: "k = Suc l" "0 < l" using 1(3) by (cases k) auto
    then have "n div 10 < 10 ^ l" using 1(2) by (simp add: less_mult_imp_div_less mult.commute)
    then have "length (decimal (n div 10)) \<le> l" using 1(1) False l(2) by simp
    then show ?thesis using False l(1) by (subst decimal.simps) simp
  qed
qed

lemma byte_text: "length (decimal (unat (b :: byte))) \<le> 3"
  using unat_byte_less [of b] by (intro decimal_length) (simp_all add: less_trans [of _ 256])

lemma ntohs_less: "ntohs p < 2 ^ 16"
proof -
  have "unat p < 2 ^ LENGTH(16)" by (rule unsigned_less)
  then have "unat p div 256 < 256" by simp
  moreover have "unat p mod 256 < 256" by simp
  ultimately show ?thesis unfolding ntohs_def by simp
qed

lemma port_digits: "length (decimal (ntohs p)) \<le> 5" "decimal (ntohs p) \<noteq> []"
  using ntohs_less [of p] decimal_digits [of "ntohs p"] by (auto intro!: decimal_length)

lemma port_text_eq: "port_text p = '']:'' @ decimal (ntohs p)"
  using port_digits(1) [of p] by (simp add: port_text_def snprintf_def BUF_SIZE_def)

subsection \<open>What a call leaves in its buffer\<close>

definition ntop_fits :: "(byte list \<Rightarrow> string) \<Rightarrow> inet_ntop \<Rightarrow> bool" where
  "ntop_fits txt ntop \<longleftrightarrow> (\<forall>ip n old. ntop ip n old = (if length (txt ip) < n then txt ip else old))"

text \<open>The text meant for an address, and the addresses for which it is what comes out: families are 16
  bits, and the text of an IPv6 address must be shorter than the 16 bytes \<open>inet_ntop\<close> is told.\<close>

fun address_text :: "(byte list \<Rightarrow> string) \<Rightarrow> sockaddr \<Rightarrow> string" where
  "address_text txt (In4 ip p) = ip_text ip @ '':'' @ decimal (ntohs p)"
| "address_text txt (In6 ip p) = ''['' @ txt ip @ '']:'' @ decimal (ntohs p)"
| "address_text txt (Family f) = ''Unknown family '' @ decimal f"

fun printable :: "(byte list \<Rightarrow> string) \<Rightarrow> sockaddr \<Rightarrow> bool" where
  "printable txt (In4 ip p) \<longleftrightarrow> True"
| "printable txt (In6 ip p) \<longleftrightarrow> length (txt ip) < 16"
| "printable txt (Family f) \<longleftrightarrow> f < 2 ^ 16"

lemma print_address_ok:
  assumes ntop: "ntop_fits txt ntop" and a: "printable txt a"
  shows "print_address ntop a st = Inr (nat (next_buffer st mod int NUM_BUFFERS),
     \<lparr>addr_buffers = (addr_buffers st)[nat (next_buffer st mod int NUM_BUFFERS) := address_text txt a],
      next_buffer = to_int32 (next_buffer st + 1)\<rparr>)"
proof (cases a)
  case (In4 ip p)
  then show ?thesis
    using byte_text [of "ip ! 0"] byte_text [of "ip ! 1"] byte_text [of "ip ! 2"] byte_text [of "ip ! 3"]
      port_digits(1) [of p]
    by (simp add: print_address_def Let_def snprintf_def BUF_SIZE_def ip_text_def)
next
  case (In6 ip p)
  then show ?thesis
    using ntop a port_digits(1) [of p]
    by (simp add: print_address_def Let_def strncat_def BUF_SIZE_def port_text_eq ntop_fits_def)
next
  case (Family f)
  have "length (decimal f) \<le> 5" using a Family by (intro decimal_length) auto
  then show ?thesis using Family by (simp add: print_address_def Let_def snprintf_def BUF_SIZE_def)
qed

lemma next_slot: "nat (to_int32 (n + 1) mod int NUM_BUFFERS) = (nat (n mod int NUM_BUFFERS) + 1) mod NUM_BUFFERS"
proof -
  have "to_int32 (n + 1) mod 2 ^ 32 = (n + 1) mod 2 ^ 32"
    using signed_take_bit_eq_iff_take_bit_eq [of 31 "to_int32 (n + 1)" "n + 1"]
    by (simp add: to_int32_def take_bit_eq_mod)
  then have "to_int32 (n + 1) mod 2 ^ 32 mod 16 = (n + 1) mod 2 ^ 32 mod 16" by simp
  then have "to_int32 (n + 1) mod 16 = (n + 1) mod 16" by (simp add: mod_mod_cancel)
  also have "\<dots> = (n mod 16 + 1) mod 16" by (simp add: mod_add_left_eq)
  finally show ?thesis by (simp add: NUM_BUFFERS_def nat_mod_distrib nat_add_distrib)
qed

lemma print_addresses_ok:
  assumes "ntop_fits txt ntop"
  shows "\<forall>a \<in> set as. printable txt a \<Longrightarrow> length (addr_buffers st) = NUM_BUFFERS \<Longrightarrow>
     j = nat (next_buffer st mod int NUM_BUFFERS) \<Longrightarrow>
     \<exists>st'. print_addresses ntop as st = Inr (map (\<lambda>k. (j + k) mod NUM_BUFFERS) [0..<length as], st') \<and>
       length (addr_buffers st') = NUM_BUFFERS \<and>
       (\<forall>k < length as. length as \<le> k + NUM_BUFFERS \<longrightarrow>
          addr_buffers st' ! ((j + k) mod NUM_BUFFERS) = address_text txt (as ! k)) \<and>
       (\<forall>k < NUM_BUFFERS. length as + k < NUM_BUFFERS \<longrightarrow>
          addr_buffers st' ! ((j + length as + k) mod NUM_BUFFERS) = addr_buffers st ! ((j + length as + k) mod NUM_BUFFERS))"
proof (induction as arbitrary: st j)
  case (Cons a as)
  let ?N = NUM_BUFFERS
  let ?st = "\<lparr>addr_buffers = (addr_buffers st)[j := address_text txt a], next_buffer = to_int32 (next_buffer st + 1)\<rparr>"
  have j: "j < ?N" using Cons.prems(3) by (simp add: NUM_BUFFERS_def nat_less_iff)
  have step: "print_address ntop a st = Inr (j, ?st)"
    using print_address_ok [OF assms, of a st] Cons.prems by simp
  have "(j + 1) mod ?N = nat (next_buffer ?st mod int ?N)" using next_slot Cons.prems(3) by simp
  then obtain st' where st':
    "print_addresses ntop as ?st = Inr (map (\<lambda>k. ((j + 1) mod ?N + k) mod ?N) [0..<length as], st')"
    "length (addr_buffers st') = ?N"
    "\<And>k. k < length as \<Longrightarrow> length as \<le> k + ?N \<Longrightarrow>
       addr_buffers st' ! (((j + 1) mod ?N + k) mod ?N) = address_text txt (as ! k)"
    "\<And>k. k < ?N \<Longrightarrow> length as + k < ?N \<Longrightarrow> addr_buffers st' ! (((j + 1) mod ?N + length as + k) mod ?N) =
       addr_buffers ?st ! (((j + 1) mod ?N + length as + k) mod ?N)"
    using Cons.IH [of ?st "(j + 1) mod ?N"] Cons.prems(1,2) by auto
  have shift: "((j + 1) mod ?N + k) mod ?N = (j + Suc k) mod ?N" for k by (simp add: mod_add_left_eq)
  have run: "print_addresses ntop (a # as) st = Inr (map (\<lambda>k. (j + k) mod ?N) [0..<length (a # as)], st')"
    using step st'(1) j
    by (simp add: mod_add_left_eq upt_conv_Cons map_Suc_upt [symmetric] comp_def del: upt_Suc)
  have kept: "addr_buffers st' ! ((j + k) mod ?N) = address_text txt ((a # as) ! k)"
    if k: "k < length (a # as)" "length (a # as) \<le> k + ?N" for k
  proof (cases k)
    case 0
    then have "length as < ?N" using k by simp
    then have "addr_buffers st' ! (((j + 1) mod ?N + length as + (?N - Suc (length as))) mod ?N) =
        addr_buffers ?st ! (((j + 1) mod ?N + length as + (?N - Suc (length as))) mod ?N)"
      by (intro st'(4)) (auto simp: NUM_BUFFERS_def)
    moreover have "((j + 1) mod ?N + length as + (?N - Suc (length as))) mod ?N = j"
      using shift [of "length as + (?N - Suc (length as))"] \<open>length as < ?N\<close> j by (simp add: add.assoc)
    ultimately show ?thesis using 0 j Cons.prems(2) by simp
  next
    case (Suc k')
    then show ?thesis using st'(3) [of k'] k shift by simp
  qed
  have other: "addr_buffers st' ! ((j + length (a # as) + k) mod ?N) = addr_buffers st ! ((j + length (a # as) + k) mod ?N)"
    if k: "length (a # as) + k < ?N" for k
  proof -
    have e: "((j + 1) mod ?N + length as + k) mod ?N = (j + length (a # as) + k) mod ?N"
      using shift [of "length as + k"] by (simp add: add.assoc)
    have "(j + length (a # as) + k) mod ?N \<noteq> j"
    proof
      assume "(j + length (a # as) + k) mod ?N = j"
      then have "(j + (length (a # as) + k)) mod ?N = j mod ?N" using j by (simp add: add.assoc)
      then have "?N dvd length (a # as) + k" by (metis add_diff_cancel_left' dvd_eq_mod_eq_0 mod_eq_dvd_iff_nat le_add1)
      then show False using k by (auto dest: dvd_imp_le)
    qed
    then show ?thesis using st'(4) [of k] k unfolding e by simp
  qed
  show ?case using run st'(2) kept other by (intro exI [of _ st']) blast
qed simp

subsection \<open>Addresses that do not fit\<close>

text \<open>\<open>turns i n\<close>: how often slot \<open>i\<close> was used by the first \<open>n\<close> calls.\<close>

definition turns :: "nat \<Rightarrow> nat \<Rightarrow> nat" where
  "turns i n = (n + 15 - i) div 16"

lemma turns_Suc: "i < 16 \<Longrightarrow> turns i (Suc n) = turns i n + (if n mod 16 = i then 1 else 0)"
proof -
  assume i: "i < 16"
  define q r where "q = n div 16" and "r = n mod 16"
  then have n: "n = 16 * q + r" "r < 16" by simp_all
  have "Suc n + 15 - i = 16 * q + (r + 16 - i)" "n + 15 - i = 16 * q + (r + 15 - i)" using i n by simp_all
  then have t: "turns i (Suc n) = q + (r + 16 - i) div 16" "turns i n = q + (r + 15 - i) div 16"
    unfolding turns_def by simp_all
  consider "r < i" | "r = i" | "i < r" by linarith
  then have "(r + 16 - i) div 16 = (r + 15 - i) div 16 + (if r = i then 1 else 0)"
  proof cases
    case 3
    then have "(r + 16 - i) div 16 = 1" "(r + 15 - i) div 16 = 1" using n(2) by (auto intro!: div_nat_eqI)
    then show ?thesis using 3 by simp
  qed (use i in simp_all)
  then show ?thesis using t by (simp add: r_def)
qed

text \<open>After \<open>n\<close> calls that did not fail, each buffer has grown with each turn.\<close>

definition grown :: "nat \<Rightarrow> nat \<Rightarrow> address_buffers \<Rightarrow> bool" where
  "grown l n st \<longleftrightarrow> next_buffer st = int n \<and> length (addr_buffers st) = 16 \<and>
     (\<forall>i < 16. length (addr_buffers st ! i) = (if turns i n = 0 then 0 else 1 + l * turns i n) \<and>
        length (addr_buffers st ! i) < 64)"

lemma grown_init: "grown l 0 address_init"
  by (auto simp: grown_def address_init_def NUM_BUFFERS_def turns_def)

lemma print_address_grows:
  assumes ntop: "ntop_fits txt ntop" and big: "16 \<le> length (txt ip)"
    and g: "grown (length (port_text p)) n st" and n: "n < 1000"
    and ok: "print_address ntop (In6 ip p) st = Inr (i, st')"
  shows "grown (length (port_text p)) (Suc n) st'"
proof -
  let ?l = "length (port_text p)" and ?i = "n mod 16"
  let ?s = "(CHR ''['' # tl (addr_buffers st ! ?i)) @ port_text p"
  have l: "?l \<le> 64" using port_digits(1) [of p] by (simp add: port_text_eq)
  have idx: "nat (next_buffer st mod int NUM_BUFFERS) = ?i"
    using g by (simp add: grown_def NUM_BUFFERS_def nat_mod_distrib)
  have "st' = \<lparr>addr_buffers = (addr_buffers st)[?i := ?s], next_buffer = to_int32 (next_buffer st + 1)\<rparr> \<and> length ?s < 64"
    using ok ntop big l
    by (auto simp: print_address_def Let_def idx strncat_def BUF_SIZE_def ntop_fits_def split: if_splits)
  moreover have "to_int32 (next_buffer st + 1) = int (Suc n)"
    using g n by (subst to_int32_id) (auto simp: grown_def int32_range_def int_min_def int_max_def)
  moreover have "length ?s = 1 + ?l * turns ?i (Suc n)"
    using g by (auto simp: grown_def turns_Suc split: if_splits)
  ultimately show ?thesis
    using g by (auto simp: grown_def turns_Suc nth_list_update)
qed

lemma print_addresses_grow:
  assumes "ntop_fits txt ntop" "16 \<le> length (txt ip)"
  shows "grown (length (port_text p)) n st \<Longrightarrow> n + k \<le> 1000 \<Longrightarrow>
     print_addresses ntop (replicate k (In6 ip p)) st = Inr (is, st') \<Longrightarrow> grown (length (port_text p)) (n + k) st'"
proof (induction k arbitrary: n st "is")
  case (Suc k)
  then obtain i st1 is1 where st1: "print_address ntop (In6 ip p) st = Inr (i, st1)"
    "print_addresses ntop (replicate k (In6 ip p)) st1 = Inr (is1, st')"
    by auto
  have "grown (length (port_text p)) (Suc n) st1"
    using print_address_grows [OF assms Suc.prems(1) _ st1(1)] Suc.prems(2) by simp
  from Suc.IH [OF this _ st1(2)] show ?case using Suc.prems(2) by simp
qed simp

lemma print_address_error: "print_address ntop a st = Inl e \<Longrightarrow> e = OutOfRange"
  by (auto simp: print_address_def Let_def strncat_def split: sockaddr.splits if_splits)

lemma print_addresses_error: "print_addresses ntop as st = Inl e \<Longrightarrow> e = OutOfRange"
proof (induction "as" arbitrary: st)
  case (Cons a as)
  show ?case
  proof (cases "print_address ntop a st")
    case (Inl e')
    then show ?thesis using Cons.prems print_address_error by auto
  next
    case (Inr r)
    then show ?thesis using Cons by (cases r; cases "print_addresses ntop as (snd r)") auto
  qed
qed simp

subsection \<open>Properties\<close>

text \<open>The strings of the last 16 calls of \<open>print_address\<close> are all intact at any time, in 16 different
  buffers, and complete: for IPv4 addresses, for addresses of another family, and for IPv6 addresses
  whose text fits the size that \<open>inet_ntop\<close> is given. The counter may wrap around.\<close>

theorem addresses_kept:
  assumes "ntop_fits txt ntop" "\<forall>a \<in> set as. printable txt a" "length (addr_buffers st) = NUM_BUFFERS"
  shows "\<exists>is st'. print_addresses ntop as st = Inr (is, st') \<and> length is = length as \<and>
     (\<forall>k < length as. length as \<le> k + NUM_BUFFERS \<longrightarrow> addr_buffers st' ! (is ! k) = address_text txt (as ! k) \<and>
        (\<forall>k' < k. length as \<le> k' + NUM_BUFFERS \<longrightarrow> is ! k' \<noteq> is ! k))"
proof -
  let ?j = "nat (next_buffer st mod int NUM_BUFFERS)"
  let ?is = "map (\<lambda>k. (?j + k) mod NUM_BUFFERS) [0..<length as]"
  obtain st' where st': "print_addresses ntop as st = Inr (?is, st')"
    "\<forall>k < length as. length as \<le> k + NUM_BUFFERS \<longrightarrow> addr_buffers st' ! ((?j + k) mod NUM_BUFFERS) = address_text txt (as ! k)"
    using print_addresses_ok [OF assms refl] by blast
  have "?is ! k' \<noteq> ?is ! k" if "k < length as" "k' < k" "length as \<le> k' + NUM_BUFFERS" for k k'
  proof
    assume "?is ! k' = ?is ! k"
    then have "(?j + k) mod NUM_BUFFERS = (?j + k') mod NUM_BUFFERS" using that by simp
    then have "NUM_BUFFERS dvd k - k'" using that mod_eq_dvd_iff_nat [of "?j + k'" "?j + k" NUM_BUFFERS] by simp
    then show False using that by (auto dest: dvd_imp_le)
  qed
  then show ?thesis using st' by (intro exI [of _ ?is] exI [of _ st']) simp
qed

definition colons :: "byte list \<Rightarrow> string" where
  "colons ip = ''::1''"

theorem addresses_kept_witness:
  "\<exists>is st'. print_addresses (\<lambda>ip n old. if 3 < n then ''::1'' else old)
       [In4 [10, 0, 0, 7] 20480, In6 (replicate 16 0) 20480] address_init = Inr (is, st') \<and>
     addr_buffers st' ! (is ! 0) = ''10.0.0.7:80'' \<and> addr_buffers st' ! (is ! 1) = ''[::1]:80''"
proof -
  let ?ntop = "\<lambda>ip n old. if 3 < n then ''::1'' else old"
  let ?as = "[In4 [10, 0, 0, 7] 20480, In6 (replicate 16 0) 20480]"
  have ntop: "ntop_fits colons ?ntop" by (simp add: ntop_fits_def colons_def)
  have "\<forall>a \<in> set ?as. printable colons a" "length (addr_buffers address_init) = NUM_BUFFERS"
    by (simp_all add: colons_def address_init_def)
  from addresses_kept [OF ntop this] obtain "is" st' where r:
    "print_addresses ?ntop ?as address_init = Inr (is, st')"
    "\<forall>k < length ?as. length ?as \<le> k + NUM_BUFFERS \<longrightarrow> addr_buffers st' ! (is ! k) = address_text colons (?as ! k)"
    by blast
  have "addr_buffers st' ! (is ! 0) = address_text colons (?as ! 0)"
    "addr_buffers st' ! (is ! 1) = address_text colons (?as ! 1)"
    using r(2) by (simp_all add: NUM_BUFFERS_def)
  moreover have "address_text colons (In4 [10, 0, 0, 7] 20480) = ''10.0.0.7:80''"
    by (simp add: ip_text_def ntohs_def decimal.simps char_of_def bit_0)
  moreover have "address_text colons (In6 (replicate 16 0) 20480) = ''[::1]:80''"
    by (simp add: colons_def ntohs_def decimal.simps char_of_def bit_0)
  ultimately show ?thesis using r(1) by (intro exI [of _ "is"] exI [of _ st'] conjI) (simp_all only: nth_Cons_0 nth_Cons_Suc One_nat_def)
qed

text \<open>An IPv6 address whose text does not fit the 16 bytes that \<open>inet_ntop\<close> is given is not printed;
  instead the string of 16 calls before grows by the port, and repeated calls write past the
  buffer.\<close>

theorem address_overflow:
  assumes "ntop_fits txt ntop" "16 \<le> length (txt ip)"
  shows "print_address ntop (In6 ip p) address_init = Inr (0, \<lparr>addr_buffers =
       (replicate NUM_BUFFERS [])[0 := ''[]:'' @ decimal (ntohs p)], next_buffer = 1\<rparr>) \<and>
     print_addresses ntop (replicate 321 (In6 ip p)) address_init = Inl OutOfRange"
proof
  show "print_address ntop (In6 ip p) address_init = Inr (0, \<lparr>addr_buffers =
       (replicate NUM_BUFFERS [])[0 := ''[]:'' @ decimal (ntohs p)], next_buffer = 1\<rparr>)"
    using assms port_digits(1) [of p]
    by (simp add: port_text_eq print_address_def address_init_def Let_def ntop_fits_def strncat_def BUF_SIZE_def NUM_BUFFERS_def
        to_int32_id int32_range_def int_min_def int_max_def)
  show "print_addresses ntop (replicate 321 (In6 ip p)) address_init = Inl OutOfRange"
  proof (cases "print_addresses ntop (replicate 321 (In6 ip p)) address_init")
    case (Inl e)
    then show ?thesis using print_addresses_error by blast
  next
    case (Inr r)
    then have "grown (length (port_text p)) (0 + 321) (snd r)"
      using print_addresses_grow [OF assms grown_init, of 321 p "fst r" "snd r"] by simp
    moreover have "turns 0 321 = 21" by (simp add: turns_def)
    ultimately have "1 + length (port_text p) * 21 < 64" unfolding grown_def by (auto dest!: spec [of _ 0])
    moreover have "3 \<le> length (port_text p)"
      using port_digits(2) [of p] by (cases "decimal (ntohs p)") (auto simp: port_text_eq)
    ultimately show ?thesis by simp
  qed
qed

theorem address_overflow_witness:
  "print_addresses (\<lambda>ip n old. if 19 < n then ''fe80:0:0:0:1:2:3:44'' else old)
     (replicate 321 (In6 (replicate 16 1) 80)) address_init = Inl OutOfRange"
proof -
  have "ntop_fits (\<lambda>_. ''fe80:0:0:0:1:2:3:44'') (\<lambda>ip n old. if 19 < n then ''fe80:0:0:0:1:2:3:44'' else old)"
    by (simp add: ntop_fits_def)
  from address_overflow [OF this, of "replicate 16 1" 80] show ?thesis by simp
qed

end
