(* ===== verification/Trace_Lines.thy ===== *)
theory Trace_Lines
  imports Trace_System Test_Clock Print_Address
begin

section \<open>The text of a time trace\<close>

text \<open>
  What \<open>print_internal\<close> of \<open>app/lib/time_trace.cc\<close> writes for the events it has merged, to a file and to a
  string, and how \<open>app/parse/ttsum.py\<close> reads the lines of the file. A number is shown with three
  decimals, rounded to the nearest; the times are doubles. \<open>cps\<close> is the rate that
  \<open>get_cycles_per_sec\<close> has determined. Of the conversions of \<open>printf\<close> in the format of an event the
  four that take one of its 32 bit arguments or none are modelled (the formats of the repository have none
  at all); a format with any other one has no text here.
\<close>

subsection \<open>printf\<close>

definition last_digits :: "nat \<Rightarrow> nat \<Rightarrow> string" where
  "last_digits p m = replicate (p - length (decimal m)) CHR ''0'' @ decimal m"

definition fixed :: "nat \<Rightarrow> rat \<Rightarrow> string" where
  "fixed p x = (let m = nat (rne (\<bar>x\<bar> * 10 ^ p))
     in (if x < 0 then ''-'' else '''') @ decimal (m div 10 ^ p) @ ''.'' @ last_digits p (m mod 10 ^ p))"

definition pad_left :: "nat \<Rightarrow> string \<Rightarrow> string" where
  "pad_left n s = replicate (n - length s) CHR '' '' @ s"

definition pad_right :: "nat \<Rightarrow> string \<Rightarrow> string" where
  "pad_right n s = s @ replicate (n - length s) CHR '' ''"

function hexadecimal :: "nat \<Rightarrow> string" where
  "hexadecimal n = (if n < 16 then [''0123456789abcdef'' ! n] else hexadecimal (n div 16) @ [''0123456789abcdef'' ! (n mod 16)])"
  by auto
termination by (relation "measure id") auto

declare hexadecimal.simps [simp del]

definition show_int :: "int \<Rightarrow> string" where
  "show_int i = (if i < 0 then ''-'' else '''') @ decimal (nat \<bar>i\<bar>)"

fun expand :: "string \<Rightarrow> u32 list \<Rightarrow> string option" where
  "expand [] args = Some []"
| "expand (c # cs) args =
     (if c \<noteq> CHR ''%'' then map_option ((#) c) (expand cs args)
      else case cs of
             [] \<Rightarrow> None
           | d # ds \<Rightarrow>
               if d = CHR ''%'' then map_option ((#) (CHR ''%'')) (expand ds args)
               else case args of
                      [] \<Rightarrow> None
                    | a # as \<Rightarrow>
                        if d = CHR ''d'' then map_option ((@) (show_int (sint a))) (expand ds as)
                        else if d = CHR ''u'' then map_option ((@) (decimal (unat a))) (expand ds as)
                        else if d = CHR ''x'' then map_option ((@) (hexadecimal (unat a))) (expand ds as)
                        else None)"

definition event_text :: "event \<Rightarrow> string option" where
  "event_text e = Option.bind (format e) (\<lambda>fmt. expand fmt [arg0 e, arg1 e, arg2 e, arg3 e])"

subsection \<open>The lines\<close>

abbreviation newline :: char where "newline \<equiv> CHR 0x0A"

text \<open>The time of an event in microseconds, and the beginning of a line.\<close>

definition event_micros :: "rat \<Rightarrow> u64 \<Rightarrow> event \<Rightarrow> rat" where
  "event_micros cps st e = fl (fl (fl (of_nat (unat (timestamp e - st))) / cps) * 1000000)"

definition times_text :: "rat \<Rightarrow> rat \<Rightarrow> string" where
  "times_text us prev = pad_left 9 (fixed 3 us) @ '' us (+'' @ pad_left 8 (fixed 3 (fl (us - prev))) @ '' us) ''"

definition core_id :: "string \<Rightarrow> string" where
  "core_id name = snprintf 20 (''['' @ name @ '']'')"

definition first_line :: "rat \<Rightarrow> u64 \<Rightarrow> string" where
  "first_line cps st = times_text 0 0 @ ''[C0]   First event has timestamp '' @ decimal (unat st) @
     '' (cpu_ghz '' @ fixed 15 (fl (cps * fl (1 / 10 ^ 9))) @ '')''"

text \<open>The loop, with the number of the buffer and the event of each round: to a file each event ends
  its line; to a string each starts one, and each of the two pieces is cut to the 999 characters of \<open>message\<close>.\<close>

fun file_events :: "rat \<Rightarrow> u64 \<Rightarrow> string list \<Rightarrow> rat \<Rightarrow> (nat \<times> event) list \<Rightarrow> string option" where
  "file_events cps st names prev [] = Some []"
| "file_events cps st names prev ((k, e) # out) =
     Option.bind (event_text e) (\<lambda>msg.
       map_option (\<lambda>s. times_text (event_micros cps st e) prev @ pad_right 6 (core_id (names ! k)) @ '' '' @ msg @ [newline] @ s)
         (file_events cps st names (event_micros cps st e) out))"

fun string_events :: "rat \<Rightarrow> u64 \<Rightarrow> string list \<Rightarrow> rat \<Rightarrow> (nat \<times> event) list \<Rightarrow> string option" where
  "string_events cps st names prev [] = Some []"
| "string_events cps st names prev ((k, e) # out) =
     Option.bind (event_text e) (\<lambda>msg.
       map_option (\<lambda>s. snprintf 1000 ([newline] @ times_text (event_micros cps st e) prev @ pad_right 6 (core_id (names ! k)) @ '' '') @
           snprintf 1000 msg @ s)
         (string_events cps st names (event_micros cps st e) out))"

text \<open>The whole text; the first \<open>None\<close> is a loop that has not ended, the second a format that is not modelled.\<close>

definition file_text :: "rat \<Rightarrow> buffer list \<Rightarrow> string option option" where
  "file_text cps bs =
     (let st = start_time (map (\<lambda>b. (b, first_index b)) bs)
      in map_option (\<lambda>out. map_option (\<lambda>s. first_line cps st @ [newline] @ s)
           (file_events cps st (map buffer_name bs) 0 out)) (print_internal bs))"

definition string_text :: "rat \<Rightarrow> buffer list \<Rightarrow> string option option" where
  "string_text cps bs =
     (let st = start_time (map (\<lambda>b. (b, first_index b)) bs)
      in map_option (\<lambda>out. map_option (\<lambda>s. snprintf 1000 (first_line cps st) @ s)
           (string_events cps st (map buffer_name bs) 0 out)) (print_internal bs))"

subsection \<open>ttsum\<close>

text \<open>\<open>re.match('(^|.* )([0-9.]+) us \(\+ *([0-9.]+) us\) (.+)', line)\<close>: the rest of the pattern at one place,
  where nothing is left to choose, and the choice of the place: the beginning of the line, otherwise the
  last possible one after a blank. No part of the pattern matches a newline.\<close>

definition num_char :: "char \<Rightarrow> bool" where
  "num_char c \<longleftrightarrow> is_digit c \<or> c = CHR ''.''"

definition strip :: "string \<Rightarrow> string \<Rightarrow> string option" where
  "strip p s = (if take (length p) s = p then Some (drop (length p) s) else None)"

definition number :: "string \<Rightarrow> (string \<times> string) option" where
  "number s = (if takeWhile num_char s = [] then None else Some (takeWhile num_char s, dropWhile num_char s))"

definition match_here :: "string \<Rightarrow> (string \<times> string \<times> string) option" where
  "match_here s =
     Option.bind (number s) (\<lambda>(a, s1).
     Option.bind (strip '' us (+'' s1) (\<lambda>s2.
     Option.bind (number (dropWhile (\<lambda>c. c = CHR '' '') s2)) (\<lambda>(b, s3).
     Option.bind (strip '' us) '' s3) (\<lambda>s4.
       if s4 = [] then None else Some (a, b, s4)))))"

fun match_last :: "string \<Rightarrow> (string \<times> string \<times> string) option" where
  "match_last [] = None"
| "match_last (c # cs) =
     (case match_last cs of
        Some m \<Rightarrow> Some m
      | None \<Rightarrow> if c = CHR '' '' then match_here cs else None)"

definition re_match :: "string \<Rightarrow> (string \<times> string \<times> string) option" where
  "re_match line = (let l = takeWhile (\<lambda>c. c \<noteq> newline) line
     in case match_here l of Some m \<Rightarrow> Some m | None \<Rightarrow> match_last l)"

text \<open>\<open>float\<close> of digits with at most one point, and \<open>scan\<close> on a line: time and interval in nanoseconds and
  the event. The inner \<open>None\<close> is the \<open>ValueError\<close> of \<open>float\<close>.\<close>

definition to_float :: "string \<Rightarrow> rat option" where
  "to_float s =
     (let i = takeWhile is_digit s; r = dropWhile is_digit s
      in if r = [] then (if i = [] then None else Some (fl (of_int (digits_val i))))
         else let f = tl r
              in if i @ f \<noteq> [] \<and> hd r = CHR ''.'' \<and> list_all is_digit f
                 then Some (fl (of_int (digits_val (i @ f)) / 10 ^ length f)) else None)"

definition scan_line :: "string \<Rightarrow> (rat \<times> rat \<times> string) option option" where
  "scan_line line = map_option (\<lambda>(a, b, e).
     case (to_float a, to_float b) of (Some t, Some i) \<Rightarrow> Some (fl (t * 1000), fl (i * 1000), e) | _ \<Rightarrow> None) (re_match line)"

text \<open>The lines of a file, as Python iterates over them: with their newlines.\<close>

fun lines_of :: "string \<Rightarrow> string list" where
  "lines_of [] = []"
| "lines_of (c # cs) =
     (if c = newline then [c] # lines_of cs
      else case lines_of cs of [] \<Rightarrow> [[c]] | l # ls \<Rightarrow> (c # l) # ls)"

subsection \<open>Numbers\<close>

lemma digits_val_append: "digits_val (a @ b) = digits_val a * 10 ^ length b + digits_val b"
proof (induction b rule: rev_induct)
  case (snoc c b)
  then show ?case using digits_val_snoc [of "a @ b" c] digits_val_snoc [of b c] by (simp add: algebra_simps)
qed (simp add: digits_val_def)

lemma digits_val_zeros: "digits_val (replicate k CHR ''0'') = 0"
  by (induction k) (simp_all add: digits_val_def)

lemma decimal_short: "m < 10 ^ p \<Longrightarrow> 0 < p \<Longrightarrow> length (decimal m) \<le> p"
proof (induction m arbitrary: p rule: decimal.induct)
  case (1 m)
  show ?case
  proof (cases "m < 10")
    case True
    then show ?thesis using 1 by (simp add: decimal.simps [of m])
  next
    case False
    then obtain q where q: "p = Suc q" "0 < q" using 1(2,3) by (cases p; cases "p - 1") auto
    then have "m div 10 < 10 ^ q" using 1(2) by (simp add: less_mult_imp_div_less mult.commute)
    then show ?thesis using 1(1) [OF False] q False by (simp add: decimal.simps [of m])
  qed
qed

lemma last_digits_ok:
  assumes "m < 10 ^ p" "0 < p"
  shows "length (last_digits p m) = p" "digits_val (last_digits p m) = int m" "list_all is_digit (last_digits p m)"
  using decimal_short [OF assms] decimal_digits [of m]
  by (auto simp: last_digits_def digits_val_append digits_val_zeros is_digit_def list_all_iff)

lemma fixed_nonneg:
  assumes "0 \<le> x" "0 < p"
  shows "list_all num_char (fixed p x)" "fixed p x \<noteq> []"
    "to_float (fixed p x) = Some (fl (of_int (rne (x * 10 ^ p)) / 10 ^ p))"
proof -
  define m where "m = nat (rne (x * 10 ^ p))"
  have m0: "0 \<le> rne (x * 10 ^ p)" using rne_mono [of 0 "x * 10 ^ p"] rne_int [of 0] assms(1) by simp
  have f: "fixed p x = decimal (m div 10 ^ p) @ ''.'' @ last_digits p (m mod 10 ^ p)"
    using assms(1) by (simp add: fixed_def m_def Let_def)
  have "m mod 10 ^ p < 10 ^ p" by simp
  note l = last_digits_ok [OF this assms(2)]
  note d = decimal_digits [of "m div 10 ^ p"]
  show "list_all num_char (fixed p x)" "fixed p x \<noteq> []"
    using l(3) d by (auto simp: f num_char_def list_all_iff)
  have dot: "\<not> is_digit CHR ''.''" by (simp add: is_digit_def)
  have tw: "takeWhile is_digit (fixed p x) = decimal (m div 10 ^ p)"
    "dropWhile is_digit (fixed p x) = CHR ''.'' # last_digits p (m mod 10 ^ p)"
    using d dot unfolding f by (simp_all add: takeWhile_append2 dropWhile_append2 list_all_iff)
  have m: "int (m div 10 ^ p) * 10 ^ p + int (m mod 10 ^ p) = int m"
    using arg_cong [OF div_mult_mod_eq [of m "10 ^ p"], of int] by simp
  have "digits_val (decimal (m div 10 ^ p) @ last_digits p (m mod 10 ^ p)) = int m"
    using d l(1,2) m by (simp add: digits_val_append)
  then have "digits_val (decimal (m div 10 ^ p) @ last_digits p (m mod 10 ^ p)) = rne (x * 10 ^ p)" using m0 by (simp add: m_def)
  then show "to_float (fixed p x) = Some (fl (of_int (rne (x * 10 ^ p)) / 10 ^ p))"
    using d l by (simp add: to_float_def tw Let_def)
qed

lemma pad_left_blanks: "\<exists>k. pad_left n s = replicate k CHR '' '' @ s"
  by (auto simp: pad_left_def)

subsection \<open>Matching a line\<close>

lemma blank_not_num: "\<not> num_char CHR '' ''"
  by (simp add: num_char_def is_digit_def)

lemma stripD: "strip p s = Some t \<Longrightarrow> s = p @ t"
  unfolding strip_def by (metis append_take_drop_id option.distinct(1) option.inject)

lemma strip_append [simp]: "strip p (p @ t) = Some t"
  by (simp add: strip_def)

lemma numberD: "number s = Some (a, t) \<Longrightarrow> s = a @ t \<and> list_all num_char a"
  by (auto simp: number_def list_all_iff dest: set_takeWhileD split: if_splits)

lemma number_append:
  "list_all num_char a \<Longrightarrow> a \<noteq> [] \<Longrightarrow> \<not> num_char c \<Longrightarrow> number (a @ c # s) = Some (a, c # s)"
proof -
  assume a: "list_all num_char a" "a \<noteq> []" "\<not> num_char c"
  from a(1,3) have "takeWhile num_char (a @ c # s) = a \<and> dropWhile num_char (a @ c # s) = c # s" by (induction a) auto
  then show ?thesis using a(2) by (simp add: number_def)
qed

lemma match_here_Some:
  assumes "match_here v = Some m"
  shows "\<exists>a b. v = a @ '' us (+'' @ b \<and> list_all num_char a"
proof -
  obtain a s1 s2 where "number v = Some (a, s1)" "strip '' us (+'' s1 = Some s2"
    using assms by (auto simp: match_here_def bind_eq_Some_conv)
  then show ?thesis using numberD stripD by blast
qed

lemma match_last_Some: "match_last s = Some m \<Longrightarrow> \<exists>u v. s = u @ CHR '' '' # v \<and> match_here v = Some m"
proof (induction s)
  case (Cons c cs)
  show ?case
  proof (cases "match_last cs")
    case None
    then have "c = CHR '' ''" "match_here cs = Some m" using Cons.prems by (auto split: if_splits)
    then show ?thesis by (metis append_Nil)
  next
    case (Some m')
    then obtain u v where "cs = u @ CHR '' '' # v" "match_here v = Some m" using Cons by auto
    then show ?thesis by (intro exI [of _ "c # u"] exI [of _ v]) simp
  qed
qed simp

lemma before_plus:
  assumes "CHR ''+'' \<notin> set a"
  shows "takeWhile (\<lambda>x. x \<noteq> CHR ''+'') (a @ '' us (+'' @ Y) = a @ '' us (''"
    "dropWhile (\<lambda>x. x \<noteq> CHR ''+'') (a @ '' us (+'' @ Y) = CHR ''+'' # Y"
  using assms by (induction a) auto

lemma no_later_match:
  assumes "list_all num_char a" "CHR ''+'' \<notin> set Y"
  shows "match_last (a @ '' us (+'' @ Y) = None"
proof (rule ccontr)
  assume "match_last (a @ '' us (+'' @ Y) \<noteq> None"
  then obtain m where "match_last (a @ '' us (+'' @ Y) = Some m" by blast
  from match_last_Some [OF this] obtain u v where u: "a @ '' us (+'' @ Y = u @ CHR '' '' # v" "match_here v = Some m" by blast
  from match_here_Some [OF u(2)] obtain b c where v: "v = b @ '' us (+'' @ c" "list_all num_char b" by blast
  have s: "a @ '' us (+'' @ Y = u @ CHR '' '' # b @ '' us (+'' @ c" "list_all num_char b"
    unfolding u(1) v(1) by (rule refl) (rule v(2))
  let ?P = "\<lambda>x. x \<noteq> CHR ''+''"
  have plus: "CHR ''+'' \<notin> set a" "CHR ''+'' \<notin> set b"
    using assms(1) s(2) by (auto simp: list_all_iff num_char_def is_digit_def)
  have l: "takeWhile ?P (a @ '' us (+'' @ Y) = a @ '' us (''" "dropWhile ?P (a @ '' us (+'' @ Y) = CHR ''+'' # Y"
    using before_plus [OF plus(1), of Y] by simp_all
  show False
  proof (cases "CHR ''+'' \<in> set u")
    case True
    then have "dropWhile ?P (u @ CHR '' '' # b @ '' us (+'' @ c) = dropWhile ?P u @ CHR '' '' # b @ '' us (+'' @ c"
      "dropWhile ?P u \<noteq> []" by (auto simp: dropWhile_append)
    then have "CHR ''+'' # Y = dropWhile ?P u @ CHR '' '' # b @ '' us (+'' @ c" using s(1) l(2) by simp
    then have "Y = tl (dropWhile ?P u) @ CHR '' '' # b @ '' us (+'' @ c"
      using \<open>dropWhile ?P u \<noteq> []\<close> by (cases "dropWhile ?P u") auto
    then show False using assms(2) by auto
  next
    case False
    then have "takeWhile ?P ((u @ CHR '' '' # b) @ '' us (+'' @ c) = (u @ CHR '' '' # b) @ '' us (''"
      using plus(2) by (intro before_plus(1)) auto
    then have "a = u @ CHR '' '' # b" using s(1) l(1) by simp
    then show False using assms(1) blank_not_num by (auto simp: list_all_iff)
  qed
qed

lemma match_last_blanks: "match_last s = None \<Longrightarrow> match_last (replicate k CHR '' '' @ s) = (if k = 0 then None else match_here s)"
proof (induction k)
  case (Suc k)
  then show ?case by (cases k) (auto simp: match_here_def number_def blank_not_num split: option.split)
qed simp

lemma re_match_line:
  assumes "list_all num_char a" "a \<noteq> []" "CHR ''+'' \<notin> set Y" "newline \<notin> set Y"
  shows "re_match (replicate k CHR '' '' @ a @ '' us (+'' @ Y @ [newline]) = match_here (a @ '' us (+'' @ Y)"
proof -
  let ?s = "a @ '' us (+'' @ Y"
  have "newline \<notin> set a" using assms(1) by (auto simp: list_all_iff num_char_def is_digit_def)
  then have "\<forall>c \<in> set (replicate k CHR '' '' @ ?s). c \<noteq> newline" using assms(4) by auto
  then have tw: "takeWhile (\<lambda>c. c \<noteq> newline) ((replicate k CHR '' '' @ ?s) @ [newline]) = replicate k CHR '' '' @ ?s"
    by (subst takeWhile_append2) auto
  have n: "match_last ?s = None" by (rule no_later_match [OF assms(1,3)])
  have "match_here (replicate k CHR '' '' @ ?s) = None" if "0 < k"
    using that by (cases k) (simp_all add: match_here_def number_def blank_not_num)
  then show ?thesis using tw match_last_blanks [OF n, of k] n
    by (cases "k = 0") (simp_all add: re_match_def Let_def split: option.split)
qed

lemma drop_blanks: "c \<noteq> CHR '' '' \<Longrightarrow> dropWhile (\<lambda>c. c = CHR '' '') (replicate k CHR '' '' @ c # s) = c # s"
  by (induction k) auto

lemma match_here_line:
  assumes "list_all num_char a" "a \<noteq> []" "list_all num_char b" "b \<noteq> []" "rest \<noteq> []"
  shows "match_here (a @ '' us (+'' @ replicate k CHR '' '' @ b @ '' us) '' @ rest) = Some (a, b, rest)"
proof -
  have 1: "number (a @ '' us (+'' @ X) = Some (a, '' us (+'' @ X)" for X
    using number_append [OF assms(1,2) blank_not_num] by simp
  have 2: "number (b @ '' us) '' @ X) = Some (b, '' us) '' @ X)" for X
    using number_append [OF assms(3,4) blank_not_num] by simp
  have "hd b \<noteq> CHR '' ''" using assms(3,4) blank_not_num by (cases b) auto
  then have 3: "dropWhile (\<lambda>c. c = CHR '' '') (replicate k CHR '' '' @ b @ X) = b @ X" for X
    using assms(4) by (cases b) (simp_all add: drop_blanks)
  show ?thesis
    unfolding match_here_def 1 Option.bind.bind_lunit prod.case strip_append 3 2 using assms(5) by simp
qed

lemma minus_not_number: "number (CHR ''-'' # s) = None"
  by (simp add: number_def num_char_def is_digit_def)

lemma match_here_negative:
  assumes "list_all num_char a" "a \<noteq> []"
  shows "match_here (a @ '' us (+'' @ replicate k CHR '' '' @ CHR ''-'' # rest) = None"
proof -
  have 1: "number (a @ '' us (+'' @ X) = Some (a, '' us (+'' @ X)" for X
    using number_append [OF assms blank_not_num] by simp
  have 3: "dropWhile (\<lambda>c. c = CHR '' '') (replicate k CHR '' '' @ CHR ''-'' # rest) = CHR ''-'' # rest"
    by (rule drop_blanks) simp
  show ?thesis unfolding match_here_def 1 Option.bind.bind_lunit prod.case strip_append 3 minus_not_number by simp
qed

subsection \<open>Lines\<close>

lemma lines_of_line: "newline \<notin> set l \<Longrightarrow> lines_of (l @ newline # s) = (l @ [newline]) # lines_of s"
  by (induction l) auto

text \<open>The number that ttsum reads where a time in microseconds was printed, in nanoseconds.\<close>

definition read_back :: "rat \<Rightarrow> rat" where
  "read_back us = fl (fl (of_int (rne (us * 1000)) / 1000) * 1000)"

lemma scan_times:
  assumes "0 \<le> us" "rest \<noteq> []" "CHR ''+'' \<notin> set rest" "newline \<notin> set rest"
  shows "prev \<le> us \<Longrightarrow> scan_line (times_text us prev @ rest @ [newline]) = Some (Some (read_back us, read_back (fl (us - prev)), rest))"
    and "fl (us - prev) < 0 \<Longrightarrow> scan_line (times_text us prev @ rest @ [newline]) = None"
proof -
  obtain i j where pad: "pad_left 9 (fixed 3 us) = replicate i CHR '' '' @ fixed 3 us"
    "pad_left 8 (fixed 3 (fl (us - prev))) = replicate j CHR '' '' @ fixed 3 (fl (us - prev))"
    using pad_left_blanks by metis
  note a = fixed_nonneg [of us 3, OF assms(1)]
  have chars: "CHR ''+'' \<notin> set (fixed 3 x) \<and> newline \<notin> set (fixed 3 x)" for x
  proof -
    have "list_all num_char (fixed 3 \<bar>x\<bar>)" using fixed_nonneg(1) [of "\<bar>x\<bar>" 3] by simp
    moreover have "fixed 3 x = (if x < 0 then ''-'' else []) @ fixed 3 \<bar>x\<bar>" by (simp add: fixed_def Let_def)
    ultimately show ?thesis by (auto simp: list_all_iff num_char_def is_digit_def)
  qed
  let ?Y = "replicate j CHR '' '' @ fixed 3 (fl (us - prev)) @ '' us) '' @ rest"
  have "CHR ''+'' \<notin> set ?Y" "newline \<notin> set ?Y" using chars [of "fl (us - prev)"] assms(3,4) by auto
  then have m: "re_match (times_text us prev @ rest @ [newline]) = match_here (fixed 3 us @ '' us (+'' @ ?Y)"
    using re_match_line [OF a(1,2), of ?Y i] by (simp add: times_text_def pad)
  show "scan_line (times_text us prev @ rest @ [newline]) = Some (Some (read_back us, read_back (fl (us - prev)), rest))"
    if "prev \<le> us"
  proof -
    have d: "0 \<le> fl (us - prev)" using that by (intro dbl.rnd_nonneg) simp
    note b = fixed_nonneg [of "fl (us - prev)" 3, OF d]
    show ?thesis using match_here_line [OF a(1,2) b(1,2) assms(2), of j] a(3) b(3)
      by (simp only: scan_line_def m) (simp add: read_back_def)
  qed
  show "scan_line (times_text us prev @ rest @ [newline]) = None" if "fl (us - prev) < 0"
  proof -
    have "fixed 3 (fl (us - prev)) = CHR ''-'' # fixed 3 \<bar>fl (us - prev)\<bar>" using that by (simp add: fixed_def Let_def)
    then show ?thesis using match_here_negative [OF a(1,2), of j] by (simp only: scan_line_def m) simp
  qed
qed

subsection \<open>Files\<close>

definition plain :: "string \<Rightarrow> bool" where
  "plain s \<longleftrightarrow> CHR ''+'' \<notin> set s \<and> newline \<notin> set s"

lemma plain_simps: "plain (a @ b) \<longleftrightarrow> plain a \<and> plain b" "plain (c # s) \<longleftrightarrow> c \<noteq> CHR ''+'' \<and> c \<noteq> newline \<and> plain s"
    "plain (replicate n CHR '' '')" "plain []" "plain s \<Longrightarrow> plain (take n s)"
  by (auto simp: plain_def dest: in_set_takeD)

lemma decimal_plain: "plain (decimal n)"
  using decimal_digits [of n] by (auto simp: plain_def list_all_iff is_digit_def)

text \<open>What ttsum should find for each event: its time and the time since the previous one, and the name of the
  thread with the text of the event.\<close>

definition event_row :: "rat \<Rightarrow> u64 \<Rightarrow> string list \<Rightarrow> rat \<Rightarrow> nat \<times> event \<Rightarrow> rat \<times> rat \<times> string" where
  "event_row cps st names prev p = (read_back (event_micros cps st (snd p)), read_back (fl (event_micros cps st (snd p) - prev)),
     pad_right 6 (core_id (names ! fst p)) @ '' '' @ the (event_text (snd p)))"

fun event_rows :: "rat \<Rightarrow> u64 \<Rightarrow> string list \<Rightarrow> rat \<Rightarrow> (nat \<times> event) list \<Rightarrow> (rat \<times> rat \<times> string) list" where
  "event_rows cps st names prev [] = []"
| "event_rows cps st names prev (p # out) =
     event_row cps st names prev p # event_rows cps st names (event_micros cps st (snd p)) out"

lemma micros_mono:
  assumes "0 < cps" "st \<le> timestamp x" "timestamp x \<le> timestamp y"
  shows "event_micros cps st x \<le> event_micros cps st y" "0 \<le> event_micros cps st x"
proof -
  have "unat (timestamp x - st) \<le> unat (timestamp y - st)"
    using assms(2,3) by (simp add: unat_sub word_le_nat_alt diff_le_mono)
  then have "(of_nat (unat (timestamp x - st)) :: rat) \<le> of_nat (unat (timestamp y - st))" by (simp only: of_nat_le_iff)
  then show "event_micros cps st x \<le> event_micros cps st y" unfolding event_micros_def
    using assms(1) by (intro dbl.rnd_mono mult_right_mono divide_right_mono) auto
  show "0 \<le> event_micros cps st x" unfolding event_micros_def
    using assms(1) by (intro dbl.rnd_nonneg mult_nonneg_nonneg divide_nonneg_nonneg of_nat_0_le_iff) simp_all
qed

lemma times_plain_end: "newline \<notin> set (times_text us prev)"
proof -
  have f: "newline \<notin> set (fixed 3 x)" for x
  proof -
    have "list_all num_char (fixed 3 \<bar>x\<bar>)" using fixed_nonneg(1) [of "\<bar>x\<bar>" 3] by simp
    moreover have "fixed 3 x = (if x < 0 then ''-'' else []) @ fixed 3 \<bar>x\<bar>" by (simp add: fixed_def Let_def)
    ultimately show ?thesis by (auto simp: list_all_iff num_char_def is_digit_def)
  qed
  then show ?thesis by (simp add: times_text_def pad_left_def)
qed

lemma scan_first_line:
  "scan_line (times_text us prev @ rest @ [newline]) # ls = X \<Longrightarrow> newline \<notin> set rest \<Longrightarrow> map scan_line (lines_of s) = ls \<Longrightarrow>
   map scan_line (lines_of (times_text us prev @ rest @ newline # s)) = X"
  using lines_of_line [of "times_text us prev @ rest" s] times_plain_end by simp

lemma file_events_read:
  assumes "0 < cps" "sorted_wrt by_time (map snd out)" "\<forall>e \<in> snd ` set out. st \<le> timestamp e \<and> prev \<le> event_micros cps st e"
    "\<forall>e \<in> snd ` set out. \<exists>msg. event_text e = Some msg \<and> plain msg" "\<forall>p \<in> set out. plain (names ! fst p)"
  shows "\<exists>s. file_events cps st names prev out = Some s \<and>
    map scan_line (lines_of s) = map (\<lambda>r. Some (Some r)) (event_rows cps st names prev out)"
  using assms(2-)
proof (induction out arbitrary: prev)
  case (Cons p out)
  obtain k e where p: "p = (k, e)" by (cases p)
  obtain msg where msg: "event_text e = Some msg" "plain msg" using Cons.prems(3) by (auto simp: p)
  let ?us = "event_micros cps st e"
  have e: "st \<le> timestamp e" "prev \<le> ?us" using Cons.prems(2) by (auto simp: p)
  have later: "\<forall>x \<in> snd ` set out. st \<le> timestamp x \<and> ?us \<le> event_micros cps st x"
    using Cons.prems(1,2) micros_mono(1) [OF assms(1) e(1)] by (auto simp: p by_time_def)
  then obtain s where s: "file_events cps st names ?us out = Some s"
    "map scan_line (lines_of s) = map (\<lambda>r. Some (Some r)) (event_rows cps st names ?us out)"
    using Cons.IH [of ?us] Cons.prems(1,3,4) by auto
  let ?rest = "pad_right 6 (core_id (names ! k)) @ '' '' @ msg"
  have "plain ?rest" using Cons.prems(4) msg(2)
    by (simp add: p pad_right_def core_id_def snprintf_def plain_simps)
  then have plain: "CHR ''+'' \<notin> set ?rest" "newline \<notin> set ?rest" by (simp_all add: plain_def)
  have "scan_line (times_text ?us prev @ ?rest @ [newline]) = Some (Some (event_row cps st names prev p))"
    using scan_times(1) [OF micros_mono(2) [OF assms(1) e(1) order_refl] _ plain e(2)] msg(1) by (simp add: event_row_def p)
  from scan_first_line [OF refl plain(2) s(2), of ?us prev, unfolded this]
  show ?case by (simp add: p msg(1) s(1))
qed simp

subsection \<open>Claims\<close>

text \<open>The first line says when the trace starts.\<close>

definition first_row :: "rat \<Rightarrow> u64 \<Rightarrow> rat \<times> rat \<times> string" where
  "first_row cps st = (0, 0, ''[C0]   First event has timestamp '' @ decimal (unat st) @
     '' (cpu_ghz '' @ fixed 15 (fl (cps * fl (1 / 10 ^ 9))) @ '')'')"

lemma read_back_0: "read_back 0 = 0"
proof -
  have "rne (0 :: rat) = 0" using rne_int [of 0] by simp
  then show ?thesis by (simp add: read_back_def)
qed

lemma first_line_read:
  assumes "0 < cps"
  shows "\<exists>rest. first_line cps st = times_text 0 0 @ rest \<and> newline \<notin> set rest \<and>
    scan_line (times_text 0 0 @ rest @ [newline]) = Some (Some (first_row cps st))"
proof -
  let ?rest = "''[C0]   First event has timestamp '' @ decimal (unat st) @ '' (cpu_ghz '' @ fixed 15 (fl (cps * fl (1 / 10 ^ 9))) @ '')''"
  have "0 \<le> fl (cps * fl (1 / 10 ^ 9))"
    using assms by (intro dbl.rnd_nonneg mult_nonneg_nonneg) simp_all
  then have "list_all num_char (fixed 15 (fl (cps * fl (1 / 10 ^ 9))))" by (rule fixed_nonneg(1)) simp
  then have "plain (fixed 15 (fl (cps * fl (1 / 10 ^ 9))))" by (auto simp: plain_def list_all_iff num_char_def is_digit_def)
  then have pl: "plain ?rest" using decimal_plain by (simp add: plain_simps)
  then have "scan_line (times_text 0 0 @ ?rest @ [newline]) = Some (Some (read_back 0, read_back (fl (0 - 0)), ?rest))"
    by (intro scan_times(1)) (simp_all add: plain_def)
  then show ?thesis using pl by (intro exI [of _ ?rest]) (simp add: first_line_def first_row_def read_back_0 plain_def)
qed

lemma from_start:
  "sorted_wrt by_time xs \<Longrightarrow> e \<in> set (dropWhile (\<lambda>e. timestamp e < st) xs) \<Longrightarrow> st \<le> timestamp e \<and> e \<in> set xs"
  by (induction xs) (auto simp: by_time_def split: if_splits)

text \<open>The time that the first line gives is the time of the first event.\<close>

lemma window_fold_attained:
  fixes st :: u64 and ws :: "event list list"
  assumes "w \<in> set ws" "w \<noteq> []"
  shows "\<exists>v \<in> set ws. v \<noteq> [] \<and> (timestamp (hd v) = fold (\<lambda>w st. if w \<noteq> [] \<and> timestamp (hd w) > st then timestamp (hd w) else st) ws st \<or>
    timestamp (hd v) \<le> st \<and> fold (\<lambda>w st. if w \<noteq> [] \<and> timestamp (hd w) > st then timestamp (hd w) else st) ws st = st)"
  using assms
proof (induction ws arbitrary: st w)
  case (Cons v ws)
  let ?f = "\<lambda>w st. if w \<noteq> [] \<and> timestamp (hd w) > st then timestamp (hd w) else st"
  show ?case
  proof (cases "\<exists>w \<in> set ws. w \<noteq> []")
    case True
    then obtain w' where w': "w' \<in> set ws" "w' \<noteq> []" by blast
    obtain u where u: "u \<in> set ws" "u \<noteq> []" "timestamp (hd u) = fold ?f ws (?f v st) \<or>
        timestamp (hd u) \<le> ?f v st \<and> fold ?f ws (?f v st) = ?f v st"
      using Cons.IH [OF w', of "?f v st"] by blast
    then show ?thesis by (cases "v \<noteq> [] \<and> timestamp (hd v) > st") auto
  next
    case False
    then have "fold ?f ws x = x" for x by (induction ws) auto
    then show ?thesis using Cons.prems False by (auto simp: not_less)
  qed
qed simp

lemma window_attained:
  assumes "h \<in> set hs" "h \<noteq> []"
  shows "\<exists>h \<in> set hs. kept h \<noteq> [] \<and> timestamp (hd (kept h)) = window_start hs"
proof -
  have "kept h \<in> set (map kept hs)" "kept h \<noteq> []" using assms by (simp_all add: kept_Nil)
  from window_fold_attained [OF this, of 0] show ?thesis by (auto simp: window_start_def)
qed

lemma first_printed:
  assumes "list_all2 ring bs hs" "\<forall>h \<in> set hs. \<forall>e \<in> set h. timestamp e \<noteq> - 1" "\<forall>h \<in> set hs. sorted_wrt by_time h"
    "print_internal bs = Some out" "out \<noteq> []"
  shows "timestamp (snd (hd out)) = window_start hs"
proof -
  have out: "\<forall>i < length hs. from_buffer i out = dropWhile (\<lambda>e. timestamp e < window_start hs) (kept (hs ! i))"
    "\<forall>p \<in> set out. fst p < length hs" "sorted_wrt by_time (map snd out)"
    using print_internal_ok [OF assms(1,2)] assms(3,4) by auto
  obtain k e out' where o: "out = (k, e) # out'" using assms(5) by (cases out) auto
  then have k: "k < length hs" "e \<in> set (dropWhile (\<lambda>e. timestamp e < window_start hs) (kept (hs ! k)))"
    using out(1,2) in_from_buffer [of k e out] by auto
  have "sorted_wrt by_time (kept (hs ! k))" using k(1) assms(3) by (simp add: kept_def sorted_wrt_drop)
  note e = from_start [OF this k(2)]
  then have "kept (hs ! k) \<noteq> []" by auto
  then have low: "window_start hs \<le> timestamp e" "hs ! k \<noteq> []" using e by (simp_all add: kept_Nil)
  obtain h where h: "h \<in> set hs" "kept h \<noteq> []" "timestamp (hd (kept h)) = window_start hs"
    using window_attained [OF nth_mem [OF k(1)] low(2)] by blast
  then obtain i where i: "i < length hs" "hs ! i = h" unfolding in_set_conv_nth by blast
  have "from_buffer i out = dropWhile (\<lambda>e. timestamp e < window_start hs) (kept h)" using out(1) i by blast
  also have "\<dots> = kept h" using h(3) by (intro dropWhile_eq_self_iff [THEN iffD2]) simp
  finally have "hd (kept h) \<in> set (from_buffer i out)" using h(2) by simp
  then have "hd (kept h) \<in> snd ` set out" by (auto simp: from_buffer_def)
  then obtain p where "p \<in> set out" "timestamp (snd p) = window_start hs" using h(3) by auto
  then have "timestamp e \<le> window_start hs" using out(3) by (auto simp: o by_time_def)
  then show ?thesis using low(1) by (simp add: o)
qed

text \<open>C18: the file that \<open>print_to_file\<close> writes is what ttsum expects: if each thread recorded its events in order
  of time and neither the texts nor the names have a plus sign or a newline in them, ttsum reads the first
  line and then one line for each event of the merged trace, with the time and the interval the line
  shows and the name of the thread and the text as the name of the event. The time that the first line gives
  is that of the first event.\<close>

theorem trace_file_read:
  assumes "0 < cps" "list_all2 ring bs hs" "\<forall>h \<in> set hs. sorted_wrt by_time h \<and> (\<forall>e \<in> set h. timestamp e \<noteq> - 1 \<and>
      (\<exists>msg. event_text e = Some msg \<and> plain msg))" "\<forall>b \<in> set bs. plain (buffer_name b)"
  shows "\<exists>out s. print_internal bs = Some out \<and> file_text cps bs = Some (Some s) \<and>
    (out \<noteq> [] \<longrightarrow> timestamp (snd (hd out)) = window_start hs) \<and>
    map scan_line (lines_of s) = Some (Some (first_row cps (window_start hs))) #
      map (\<lambda>r. Some (Some r)) (event_rows cps (window_start hs) (map buffer_name bs) 0 out)"
proof -
  let ?st = "window_start hs" and ?names = "map buffer_name bs"
  obtain out where out: "print_internal bs = Some out" "\<forall>p \<in> set out. fst p < length hs" "sorted_wrt by_time (map snd out)"
    "\<forall>i < length hs. from_buffer i out = dropWhile (\<lambda>e. timestamp e < ?st) (kept (hs ! i))"
    using print_internal_ok [OF assms(2)] assms(3) by auto
  have in_h: "fst p < length hs \<and> ?st \<le> timestamp (snd p) \<and> snd p \<in> set (hs ! fst p)" if "p \<in> set out" for p
  proof -
    have k: "fst p < length hs" using out(2) that by blast
    then have "sorted_wrt by_time (kept (hs ! fst p))" using assms(3) by (simp add: kept_def sorted_wrt_drop)
    moreover have "snd p \<in> set (dropWhile (\<lambda>e. timestamp e < ?st) (kept (hs ! fst p)))"
      using in_from_buffer [of "fst p" "snd p" out] that out(4) k by simp
    ultimately have "?st \<le> timestamp (snd p) \<and> snd p \<in> set (kept (hs ! fst p))" by (rule from_start)
    then show ?thesis using k by (auto simp: kept_def dest: in_set_dropD)
  qed
  have len: "length bs = length hs" using assms(2) by (rule list_all2_lengthD)
  obtain s where s: "file_events cps ?st ?names 0 out = Some s"
    "map scan_line (lines_of s) = map (\<lambda>r. Some (Some r)) (event_rows cps ?st ?names 0 out)"
  proof (rule exE [OF file_events_read [OF assms(1) out(3), of ?st 0 ?names]])
    show "\<forall>e \<in> snd ` set out. ?st \<le> timestamp e \<and> 0 \<le> event_micros cps ?st e"
      using in_h micros_mono(2) [OF assms(1) _ order_refl] by auto
    show "\<forall>e \<in> snd ` set out. \<exists>msg. event_text e = Some msg \<and> plain msg" using in_h assms(3) nth_mem by fastforce
    show "\<forall>p \<in> set out. plain (?names ! fst p)" using in_h assms(4) len by auto
  qed (use that in blast)
  obtain rest where rest: "first_line cps ?st = times_text 0 0 @ rest" "newline \<notin> set rest"
    "scan_line (times_text 0 0 @ rest @ [newline]) = Some (Some (first_row cps ?st))"
    using first_line_read [OF assms(1)] by blast
  have "file_text cps bs = Some (Some (times_text 0 0 @ rest @ newline # s))"
    using out(1) s(1) rest(1) by (simp add: file_text_def start_time_window [OF assms(2)])
  moreover have "out \<noteq> [] \<longrightarrow> timestamp (snd (hd out)) = ?st"
    using first_printed [OF assms(2) _ _ out(1)] assms(3) by blast
  ultimately show ?thesis using out(1) scan_first_line [OF refl rest(2) s(2), of 0 0, unfolded rest(3)]
    by (intro exI [of _ out] exI [of _ "times_text 0 0 @ rest @ newline # s"]) simp
qed

theorem trace_file_read_witness:
  "\<exists>out s. print_internal [record_all ''main'' [(2000, ''ping'', 1), (5000, ''pong %d'', 2)]] = Some out \<and>
     file_text 1000000000 [record_all ''main'' [(2000, ''ping'', 1), (5000, ''pong %d'', 2)]] = Some (Some s) \<and>
     map (map_option (map_option (\<lambda>(t, i, e). e))) (map scan_line (tl (lines_of s))) = map (\<lambda>r. Some (Some (snd (snd r))))
       (event_rows 1000000000 (window_start [events_of [(2000, ''ping'', 1), (5000, ''pong %d'', 2)]]) [''main''] 0 out)"
proof -
  let ?c = "[(2000 :: u64, ''ping'', 1 :: u32), (5000, ''pong %d'', 2)]"
  let ?b = "record_all ''main'' ?c"
  have name: "buffer_name ?b = ''main''" by (simp add: record_all_def buffer_record_def new_buffer_def)
  have r: "list_all2 ring [?b] [events_of ?c]" using ring_record_all by simp
  have e: "\<forall>h \<in> set [events_of ?c]. sorted_wrt by_time h \<and> (\<forall>e \<in> set h. timestamp e \<noteq> - 1 \<and>
      (\<exists>msg. event_text e = Some msg \<and> plain msg))"
    using decimal_plain
    by (simp add: events_of_def new_event_def by_time_def event_text_def show_int_def plain_simps)
  have n: "\<forall>b \<in> set [?b]. plain (buffer_name b)" by (simp only: name list.set ball_simps) (simp add: plain_def)
  have c: "0 < (1000000000 :: rat)" by simp
  obtain out s where o: "print_internal [?b] = Some out" "file_text 1000000000 [?b] = Some (Some s)"
    "map scan_line (lines_of s) = Some (Some (first_row 1000000000 (window_start [events_of ?c]))) #
      map (\<lambda>r. Some (Some r)) (event_rows 1000000000 (window_start [events_of ?c]) (map buffer_name [?b]) 0 out)"
    using trace_file_read [OF c r e n] by (elim exE conjE) simp_all
  have "map scan_line (tl (lines_of s)) = tl (map scan_line (lines_of s))" by (simp add: map_tl)
  then have "map scan_line (tl (lines_of s)) =
      map (\<lambda>r. Some (Some r)) (event_rows 1000000000 (window_start [events_of ?c]) [''main''] 0 out)"
    by (simp only: o(3) list.sel list.map name)
  then show ?thesis using o(1,2) by (intro exI [of _ out] exI [of _ s]) (simp add: comp_def case_prod_beta)
qed

text \<open>an event that is older than the one printed before it, which a thread that recorded out of order leaves,
  has a negative interval in its line; ttsum does not take this for an event and leaves it out without a
  word, and its warning that time went backwards is never given for it.\<close>

theorem backward_event_skipped:
  assumes "0 \<le> us" "fl (us - prev) < 0" "plain name" "plain msg"
  shows "scan_line (times_text us prev @ pad_right 6 (core_id name) @ '' '' @ msg @ [newline]) = None"
proof -
  have "plain (pad_right 6 (core_id name) @ '' '' @ msg)"
    using assms(3,4) by (simp add: pad_right_def core_id_def snprintf_def plain_simps)
  then show ?thesis using scan_times(2) [OF assms(1) _ _ _ assms(2), of "pad_right 6 (core_id name) @ '' '' @ msg"]
    by (simp add: plain_def)
qed

theorem backward_event_skipped_witness:
  "scan_line (times_text 1 2 @ pad_right 6 (core_id ''main'') @ '' '' @ ''pong'' @ [newline]) = None"
proof -
  have "fl (1 - 2) < 0" using dbl.rnd_int [of "- 1"] by simp
  then show ?thesis by (intro backward_event_skipped) (simp_all add: plain_def)
qed

end
