(* ===== verification/Spec2Isabelle.thy ===== *)
theory Spec2Isabelle
  imports Getopt Record_Race Qsim_Report Hw_Interface Hw_Priority_Queue Hw_Loopback Open_Race Firmware Test_Utils Test_Text Trace_Lines
begin

section \<open>Homa-NIC: overview of the development\<close>

text \<open>
  Homa-NIC implements the Homa transport protocol in a network card. Its repository has a queue
  simulator with which the scheduler of the card was designed (\<open>model\<close>), the kernel driver that hands
  memory of the card and of the host to user programs (\<open>driver\<close>), a library for test programs
  (\<open>app/lib\<close>), the benchmark programs that drive the card (\<open>app/src\<close>), firmware for a processor on the
  card (\<open>firmware\<close>) and the hardware itself (\<open>hw\<close>). This development models the C and C++ code, and of
  the hardware the modules that receive what this code writes to the card and those that send and receive
  packets. Paths below are relative to \<open>src\<close>.

  How the parts interact. \<open>model/qsim.cc\<close> draws message lengths from a distribution (\<open>model/dist.cc\<close>)
  and calls the virtual functions of a queue (\<open>model/queues.hh\<close>) once per slot of 64 bytes. A benchmark
  program opens a device file of the driver and maps its regions; the driver allocates the buffers
  behind them and tells the card where they are; the program then fills its message buffer, stores a
  header of 64 bytes to the card (\<open>app/lib/nic_utils.h\<close>), polls the receive buffer, and records and
  prints events with the class \<open>time_trace\<close>, whose printout uses the calibrated clock of
  \<open>app/lib/test_utils.cc\<close>.

  \<^bold>\<open>Conventions\<close> (theory \<open>Prelude\<close>). A function of the code is a function on explicit state with the
  result type \<open>cpp_error + 'a\<close>: \<open>Inl\<close> where the code aborts, fails an assertion or has undefined
  behaviour (access outside an array or through an invalid pointer, use after free, signed overflow,
  division by zero, an uninitialised variable), \<open>Inr\<close> with the new state otherwise. So a theorem that
  gives \<open>Inr\<close> includes memory safety. Unsigned integers are words, so that they wrap around;
  signed integers are integers with a check or the conversion \<open>to_int32\<close>. A class is a record, a derived
  class an extension of it, a table of virtual functions the record \<open>vtable\<close>.
\<close>

subsection \<open>The simulator\<close>

text \<open>
  \<^item> \<open>Std_Multiset\<close>: \<open>std::multiset\<close> for any comparator (locale \<open>strict_weak_order\<close>). \<open>Doubles\<close>: binary64
    rounding of rationals (locale \<open>rounding\<close>). \<open>C_Library\<close>: \<open>strtol\<close> and arithmetic of \<open>int\<close>.
  \<^item> \<open>Entry\<close>: \<open>entry_t\<close>, \<open>Compare\<close> and \<open>MAX_PACKET\<close> of \<open>queues.hh\<close>, also the older pair of
    \<open>config.hh\<close>; both comparators are interpretations of \<open>strict_weak_order\<close>, and the order is
    the lexicographic one on remaining length and identifier (type \<open>prio\<close>, instance of \<open>linorder\<close>).
  \<^item> \<open>Queue_Base\<close>: class \<open>Queue\<close> with \<open>arrival\<close> and \<open>departure\<close>, and its contract with the derived
    classes as locales: \<open>queue_impl\<close> (every virtual function keeps the invariant and the messages,
    dequeue hands out one packet), \<open>srpt_impl\<close> (it is of the first message) and \<open>paced_impl\<close> (only when
    the queue is ready). What the base class does is proved once in the locales.
  \<^item> \<open>Ideal\<close> and \<open>Pifo\<close>: the classes \<open>Ideal\<close> and \<open>PIFO_Naive\<close>, with interpretations of the contract.
    For \<open>PIFO_Naive\<close>, whose \<open>step\<close> scans a vector with iterators, the invariant \<open>pifo_ok\<close>
    describes which part of the vector is sorted; it is kept by every operation, no iterator leaves the
    vector if \<open>priorities\<close> is at least 8, and no message is lost. It is the ideal queue as long as at
    most \<open>priorities\<close> messages wait. With 7 priorities it is shown to go wrong.
  \<^item> \<open>Dist\<close>, \<open>Workloads\<close>: class \<open>dist_point_gen\<close> of \<open>dist.h\<close> and \<open>dist.cc\<close> and its five tables, entered
    as the source has them; the tables are interpretations of the locale \<open>cdf_table\<close>, from which follow
    the safety of the constructor, the bound of merged buckets, the error of the mean, and that sampling
    inverts the distribution.
  \<^item> \<open>Qsim\<close>, \<open>Qsim_Main\<close>, \<open>Command_Line\<close>, \<open>Getopt\<close>: \<open>main\<close> of \<open>qsim.cc\<close> from the words of the command line
    to the end of its loops. The loops have fuel, a number of slots; \<open>None\<close> means still running. That they end is proved as
    such: draining takes at most as many slots as there is work, a pulse two more. The safety theorems
    hold for every fuel up to 2147483647 slots, since the positions in the vector are \<open>int\<close>s
    (1024 slots for \<open>Ideal\<close>, whose statistics have that many elements). \<open>PIFO_Naive\<close> and
    \<open>Ideal\<close> do the same work with the same random numbers, and both refine a link with a counter.
  \<^item> \<open>Binary64\<close>, \<open>Queue_Report\<close>, \<open>Qsim_Report\<close>: the file that the constructor of \<open>Queue\<close> opens, the statistics that its
    destructor prints, and the bytes that \<open>dump\<close> writes to the file, with the representation of doubles as 64
    bits. The file is read back as \<open>parse_stats\<close> of \<open>model/cfg.py\<close> does it: for each queue by itself (an older,
    longer file shines through) and for the program from its start to its end.
\<close>

subsection \<open>The application library\<close>

text \<open>
  \<^item> \<open>Time_Trace\<close>, \<open>Trace_System\<close>: class \<open>time_trace\<close>. A buffer is a ring of 65536 events (relation \<open>ring\<close>
    to the list of all events recorded); threads create, use and destroy \<open>thread_buffer\<close> objects
    in any order (\<open>trace_reach\<close>, \<open>trace_run\<close>), with reference counts and \<open>cleanup\<close>: no dangling pointer is
    ever followed. A printout always ends (the fuel of its loops, one step for each entry of each
    buffer, is enough), and it is the merge of what the buffers keep.
  \<^item> \<open>Record_Race\<close>: the stores of \<open>record\<close> one by one, and what a printout shows that comes between them.
  \<^item> \<open>Trace_Lines\<close>: the characters that a printout consists of, and how \<open>scan\<close> of \<open>app/parse/ttsum.py\<close> takes its lines
    apart with a regular expression. If each thread recorded in order, every event is found again with its time
    and text; an event out of order is passed over.
  \<^item> \<open>Bytes\<close>: memory as bytes, with integers in it. \<open>Test_Utils\<close>: \<open>seed_buffer\<close>, \<open>check_buffer\<close> and
    \<open>check_message\<close>, the last shown to be the check of the message pieced together from its pages.
  \<^item> \<open>Test_Text\<close>: \<open>split\<close> (the nonempty fields between separators) and \<open>get_int\<close>. \<open>Print_Address\<close>:
    \<open>print_address\<close> with its ring of static buffers. \<open>Test_Clock\<close>: the calibration of the clock
    (\<open>None\<close> when the readings it is given are used up), \<open>to_seconds\<close>, \<open>pin_thread\<close> and \<open>print_dist\<close>.
  \<^item> \<open>Msg_Header\<close>: the packed header of \<open>nic_utils.h\<close>.
\<close>

subsection \<open>The driver and the benchmark programs\<close>

text \<open>
  \<^item> \<open>Driver\<close>: the session table of \<open>driver/homanic.c\<close> with \<open>homanic_open\<close>, \<open>homanic_close\<close> and
    \<open>homanic_mmap\<close>, and the packets written to the card. \<open>drv_reach\<close> are the states that calls of the
    kernel can lead to in any order; its invariant \<open>drv_inv\<close> says who owns which buffer. From it follow
    that no buffer is freed twice or mapped after it was freed, and that sessions are used up after 16
    opens. \<open>Driver_Module\<close>: what loading acquires and unloading gives back.
  \<^item> \<open>Open_Race\<close>: \<open>homanic_open\<close> statement by statement, with a program counter for each thread and a
    schedule of the threads. A call returns within 36 of its statements and, alone, does what the function of
    \<open>Driver\<close> does; two calls at once can get the same session, or mix up the descriptions they send to the card.
  \<^item> \<open>Perf\<close>: \<open>main\<close> of each of the seven programs of \<open>app/src\<close>, built on \<open>Trace_System\<close>, \<open>Msg_Header\<close> and
    the device files of \<open>Driver_Module\<close>. If the clock increases and the card answers each poll within the
    bound \<open>reads\<close>, whatever it is, they run to their end, with the headers, buffers and trace
    files that their properties state. With the device files the driver makes, only \<open>perf_write\<close> runs.
    \<open>Perf_Session\<close>: runs of \<open>perf_write\<close> with the driver underneath, from \<open>open\<close> to the end of the process.
\<close>

subsection \<open>The card\<close>

text \<open>
  \<^item> \<open>Hw_Delegate\<close>: module \<open>Delegate\<close> of \<open>hw/src/main/scala\<close>, which takes the blocks of 64 bytes written to the
    card, one clock cycle at a time: inputs and the registers give outputs and new registers. It handles each
    block it accepts once and in order; two kinds of blocks block it for ever.
  \<^item> \<open>Hw_Address_Map\<close>: module \<open>AddressMap\<close>, three channels of requests whose addresses are translated with a
    table that is written by \<open>Delegate\<close>. \<open>Hw_Interface\<close> puts driver, program and the two modules together: the
    header that a program sends is written back to the metadata buffer of its session.
  \<^item> \<open>Hw_Priority_Queue\<close>: module \<open>PriorityQueue\<close>. It refines an abstract queue (\<open>spec_cycle\<close>) as long as two of its
    registers are free, and otherwise loses entries.
  \<^item> \<open>Hw_Ram\<close>: the clients of the memories in \<open>RamClient.scala\<close>, which put an access together from two segments.
    They refine a memory of bytes (\<open>flat_read\<close>, \<open>flat_write\<close>).
  \<^item> \<open>Hw_Stage\<close>: the shape that three stages of \<open>PacketPipeline.scala\<close> share, with a locale for its laws (\<open>fetch_stage\<close>:
    no packet is lost, and each meets the answer to its own request), and a locale for stages that turn
    each packet into a list of packets (\<open>stream_stage\<close>).
  \<^item> \<open>Hw_Frame\<close>: the bundle \<open>PacketFrameFactory\<close> with its layout as bits and its methods. A packet with \<open>s\<close> bytes of
    payload has \<open>frame_count s\<close> frames, whose chunks of payload lie side by side.
  \<^item> \<open>Hw_Egress\<close>: the five stages of \<open>PPegressStages\<close> cycle by cycle, each an interpretation of one of the
    locales. \<open>PPegressDupe\<close> makes the frames of each packet if its receiver never stalls, and loses one
    otherwise.
  \<^item> \<open>Hw_Ingress\<close>: the stages of \<open>PPingressStages\<close>: the headers are put together again from the first two
    frames, and the payload is collected in a memory and requested for DMA.
  \<^item> \<open>Hw_Loopback\<close>: all stages together, connected as in \<open>MgmtCore.scala\<close>, from the header that \<open>Delegate\<close> stores to
    the memory of the host. The stages are composed as functions on lists, which the theories before derive from the
    cycles. The payload arrives in order in the right buffer, but for the first 14 bytes of each packet.
  \<^item> \<open>Firmware\<close>: the accesses to the bus of \<open>main\<close> in \<open>firmware/homa.c\<close>.
\<close>

subsection \<open>Parameters\<close>

text \<open>
  The random engine (two streams of numbers), the results of \<open>strtod\<close>, the clocks, the
  values polled from the card, the results of the allocation and mapping services of the kernel, the
  descriptors and the counts that \<open>open\<close> and \<open>write\<close> return, what a load from the bus returns, and
  \<open>inet_ntop\<close> are arguments of the definitions. Hypotheses about them appear in the theorems by name:
  uniform numbers are at most 1, an allocation does not return the null pointer as a success
  (\<open>alloc_ok\<close>), the clock increases (\<open>ticking\<close>), the card answers (\<open>answers\<close>), \<open>inet_ntop\<close> leaves its
  destination alone if the text does not fit (\<open>ntop_fits\<close>), and the two halves of a block that
  \<open>iomov64B\<close> stores arrive at the card as one (\<open>whole_blocks\<close>).
\<close>

subsection \<open>Not modelled\<close>

text \<open>
  \<^item> The wording of what the programs print on the console, other than the statistics of a queue; what
    is shown (percentiles, the first wrong integer) is modelled. In the format of a traced event, conversions other
    than those for 32 bit integers.
  \<^item> The statistics of \<open>model/config.hh\<close> and the constants of \<open>app/lib/homa.h\<close>, which nothing here uses.
  \<^item> Preemption inside an operation, except for \<open>homanic_open\<close> and \<open>record\<close>: threads of \<open>time_trace\<close> and processes that call
    the driver interleave by whole operations.
  \<^item> Overflow and subnormal numbers of doubles, and a utilization of 0.
  \<^item> Of the hardware: \<open>Prefetcher.scala\<close>, whose body is commented out; \<open>Scheduler.scala\<close>, which builds a \<open>PriorityQueue\<close> of entries it
    cannot hold, and the connections of both in \<open>MgmtCore.scala\<close> to ports of other types; \<open>CAM.scala\<close>, which nothing uses; the queues
    in \<open>verilog_src\<close>, which nothing instantiates; the cycles inside the clients of a memory (three stages hold for any
    timing of the answers); and the cores for PCIe and AXI, which are generated or third-party code. That the DMA core stores what is at the
    address of a request to its address in the host (\<open>host_store\<close>) is taken from their documentation.
  \<^item> What the plotting scripts compute from the files they read, and the commented-out
    parts of \<open>firmware/homa.c\<close> and \<open>driver/homanic.c\<close>.
\<close>

end
